(* ===== verification/Server_Prelude.thy ===== *)
theory Server_Prelude
  imports Main "HOL-Library.Word" "HOL-Library.List_Lexorder" "HOL-Library.Char_ord"
begin

text \<open>
  Shared ground of the development: run-time faults as values, the sequencing of
  operations that may fault, the part of the C++ string library the sources call
  (\<^verbatim>\<open>find\<close>, \<^verbatim>\<open>find_first_of\<close>, \<^verbatim>\<open>find_first_not_of\<close>, \<^verbatim>\<open>find_last_of\<close>,
  \<^verbatim>\<open>substr\<close>, \<^verbatim>\<open>replace\<close>, \<^verbatim>\<open>erase\<close>, \<^verbatim>\<open>to_string\<close>),
  \<^verbatim>\<open>std::map\<close> as an association list sorted by key, and the lemmas on lists and
  words that the component theories use.
\<close>

named_theorems res_simps \<open>evaluation of the fault monad\<close>
named_theorems smap_simps \<open>lookups in updated ordered maps\<close>

unbundle bit_operations_syntax

section \<open>Bytes and faults\<close>

type_synonym byte = "8 word"

text \<open>
  What a C++ operation does instead of returning: an access outside a vector or buffer,
  a null dereference, an uncaught \<^verbatim>\<open>Json::LogicError\<close> or \<^verbatim>\<open>Json::RuntimeError\<close>, a failed \<^verbatim>\<open>assert\<close>,
  a conversion of a double to an integer type it does not fit or the overflow of a signed integer (both undefined
  behaviour), or a loop that never ends.
\<close>

datatype fault = Out_Of_Range | Null_Deref | Logic_Error | Runtime_Error | Assert_Failed | Bad_Cast | Int_Overflow | Diverges

type_synonym 'a res = "fault + 'a"

definition rbind :: "'e + 'a \<Rightarrow> ('a \<Rightarrow> 'e + 'b) \<Rightarrow> 'e + 'b" where
  "rbind m f = (case m of Inl e \<Rightarrow> Inl e | Inr x \<Rightarrow> f x)"

lemma rbind_Inl [simp, res_simps]: "rbind (Inl e) f = Inl e"
  by (simp add: rbind_def)

lemma rbind_Inr [simp, res_simps]: "rbind (Inr x) f = f x"
  by (simp add: rbind_def)

lemma rbind_assoc: "rbind (rbind m f) g = rbind m (\<lambda>x. rbind (f x) g)"
  by (cases m) simp_all

lemma rbind_eq_Inr_iff: "rbind m f = Inr y \<longleftrightarrow> (\<exists>x. m = Inr x \<and> f x = Inr y)"
  by (cases m) auto

lemma rbind_cong [fundef_cong]:
  "m = m' \<Longrightarrow> (\<And>x. m' = Inr x \<Longrightarrow> f x = f' x) \<Longrightarrow> rbind m f = rbind m' f'"
  by (cases m') auto

subsection \<open>Operations on a state that may fault\<close>

type_synonym ('s, 'a) op = "'s \<Rightarrow> ('a \<times> 's) res"

definition sret :: "'a \<Rightarrow> ('s, 'a) op" where
  "sret a s = Inr (a, s)"

definition sfail :: "fault \<Rightarrow> ('s, 'a) op" where
  "sfail e s = Inl e"

definition sbind :: "('s, 'a) op \<Rightarrow> ('a \<Rightarrow> ('s, 'b) op) \<Rightarrow> ('s, 'b) op" where
  "sbind m f s = rbind (m s) (\<lambda>(a, s'). f a s')"

definition slift :: "'a res \<Rightarrow> ('s, 'a) op" where
  "slift r s = rbind r (\<lambda>a. Inr (a, s))"

definition sget :: "('s \<Rightarrow> 'a) \<Rightarrow> ('s, 'a) op" where
  "sget f s = Inr (f s, s)"

definition smodify :: "('s \<Rightarrow> 's) \<Rightarrow> ('s, unit) op" where
  "smodify f s = Inr ((), f s)"

lemma sop_eval [simp, res_simps]:
  "sret a s = Inr (a, s)" "sfail e s = Inl e" "sget g s = Inr (g s, s)"
  "smodify h s = Inr ((), h s)" "slift (Inr a) s = Inr (a, s)" "slift (Inl e) s = Inl e"
  by (simp_all add: sret_def sfail_def sget_def smodify_def slift_def)

lemma sbind_eval [res_simps]:
  "m s = Inr (a, s') \<Longrightarrow> sbind m f s = f a s'"
  "m s = Inl e \<Longrightarrow> sbind m f s = Inl e"
  by (simp_all add: sbind_def)

lemma sbind_sop [simp]:
  "sbind (sret a) f = f a" "sbind (sfail e) f = sfail e"
  "sbind (slift (Inr a)) f = f a" "sbind (slift (Inl e)) f = sfail e"
  by (simp_all add: sbind_def fun_eq_iff)

lemma slift_eq_Inr [simp]: "slift r s = Inr (a, t) \<longleftrightarrow> r = Inr a \<and> t = s"
  by (cases r) auto

lemma sbind_bool: "sbind m (\<lambda>ok. if \<not> ok then sret False else sret True) = m"
proof
  fix s show "sbind m (\<lambda>ok. if \<not> ok then sret False else sret True) s = m s"
    by (cases "m s") (auto simp: sbind_def)
qed

lemma sbind_eq_Inr:
  "sbind m f s = Inr (b, t) \<longleftrightarrow> (\<exists>a s'. m s = Inr (a, s') \<and> f a s' = Inr (b, t))"
  by (auto simp: sbind_def rbind_eq_Inr_iff)

section \<open>Lists\<close>

definition list_write :: "nat \<Rightarrow> 'a list \<Rightarrow> 'a list \<Rightarrow> 'a list" where
  \<comment> \<open>\<^verbatim>\<open>std::copy\<close>/\<^verbatim>\<open>memcpy\<close> of \<open>ys\<close> to offset \<open>i\<close>; callers stay in range\<close>
  "list_write i ys xs = take i xs @ ys @ drop (i + length ys) xs"

lemma length_list_write [simp]:
  "i + length ys \<le> length xs \<Longrightarrow> length (list_write i ys xs) = length xs"
  by (simp add: list_write_def)

lemma take_list_write:
  "j \<le> i \<Longrightarrow> i \<le> length xs \<Longrightarrow> take j (list_write i ys xs) = take j xs"
  by (simp add: list_write_def min_def)

lemma take_list_write_end:
  "i \<le> length xs \<Longrightarrow> take (i + length ys) (list_write i ys xs) = take i xs @ ys"
  by (simp add: list_write_def)

lemma drop_list_write_end:
  "i + length ys \<le> length xs \<Longrightarrow>
   drop (i + length ys) (list_write i ys xs) = drop (i + length ys) xs"
  by (simp add: list_write_def)

lemma list_write_Nil [simp]: "list_write i [] xs = xs"
  by (simp add: list_write_def)

lemma list_write_all: "length ys = length xs \<Longrightarrow> list_write 0 ys xs = ys"
  by (simp add: list_write_def)

lemma find_append: "find P (xs @ ys) = (case find P xs of None \<Rightarrow> find P ys | Some x \<Rightarrow> Some x)"
  by (induction xs) auto

section \<open>Strings\<close>

primrec starts_with :: "'a list \<Rightarrow> 'a list \<Rightarrow> bool" where
  "starts_with [] s = True"
| "starts_with (p # ps) s = (case s of [] \<Rightarrow> False | c # cs \<Rightarrow> p = c \<and> starts_with ps cs)"

lemma starts_with_iff: "starts_with p s \<longleftrightarrow> (\<exists>t. s = p @ t)"
  by (induction p arbitrary: s) (auto split: list.splits)

lemma starts_with_take: "starts_with p (s @ t) = starts_with p s" if "length p \<le> length s"
proof -
  have "starts_with p s \<longleftrightarrow> take (length p) s = p" for s :: "'a list"
    unfolding starts_with_iff by (metis append_eq_conv_conj append_take_drop_id)
  with that show ?thesis by simp
qed

definition c_str :: "string \<Rightarrow> string" where
  \<comment> \<open>what a C function sees of \<^verbatim>\<open>s.c_str()\<close>\<close>
  "c_str s = takeWhile (\<lambda>c. c \<noteq> CHR 0x00) s"

fun str_find :: "'a list \<Rightarrow> 'a list \<Rightarrow> nat option" where
  \<comment> \<open>\<^verbatim>\<open>s.find(p)\<close>: the first index at which \<open>p\<close> occurs in \<open>s\<close>, \<open>None\<close> for \<^verbatim>\<open>npos\<close>\<close>
  "str_find p [] = (if p = [] then Some 0 else None)"
| "str_find p (c # cs) =
     (if starts_with p (c # cs) then Some 0 else map_option Suc (str_find p cs))"

definition str_contains :: "'a list \<Rightarrow> 'a list \<Rightarrow> bool" where
  "str_contains p s \<longleftrightarrow> str_find p s \<noteq> None"

fun index_where :: "('a \<Rightarrow> bool) \<Rightarrow> 'a list \<Rightarrow> nat option" where
  \<comment> \<open>\<^verbatim>\<open>find_first_of\<close>, \<^verbatim>\<open>find_first_not_of\<close>\<close>
  "index_where P [] = None"
| "index_where P (c # cs) = (if P c then Some 0 else map_option Suc (index_where P cs))"

definition last_index_where :: "('a \<Rightarrow> bool) \<Rightarrow> 'a list \<Rightarrow> nat option" where
  \<comment> \<open>\<^verbatim>\<open>find_last_of\<close>\<close>
  "last_index_where P s =
     (case index_where P (rev s) of None \<Rightarrow> None | Some i \<Rightarrow> Some (length s - 1 - i))"

definition str_replace :: "nat \<Rightarrow> nat \<Rightarrow> 'a list \<Rightarrow> 'a list \<Rightarrow> 'a list" where
  \<comment> \<open>\<^verbatim>\<open>s.replace(pos, len, to)\<close>\<close>
  "str_replace pos len to s = take pos s @ to @ drop (pos + len) s"

definition str_erase :: "nat \<Rightarrow> nat \<Rightarrow> 'a list \<Rightarrow> 'a list" where
  "str_erase pos len s = take pos s @ drop (pos + len) s"

lemma str_find_Some:
  "str_find p s = Some i \<Longrightarrow> \<exists>u t. s = u @ p @ t \<and> length u = i"
proof (induction s arbitrary: i)
  case Nil
  then show ?case by (auto split: if_splits)
next
  case (Cons c cs)
  show ?case
  proof (cases "starts_with p (c # cs)")
    case True
    with Cons.prems show ?thesis by (auto simp: starts_with_iff)
  next
    case False
    with Cons.prems obtain j where j: "str_find p cs = Some j" "i = Suc j" by auto
    from Cons.IH [OF j(1)] obtain u t where "cs = u @ p @ t" "length u = j" by blast
    with j(2) have "c # cs = (c # u) @ p @ t \<and> length (c # u) = i" by simp
    then show ?thesis by blast
  qed
qed

lemma str_find_None: "str_find p s = None \<Longrightarrow> s \<noteq> u @ p @ t"
proof (induction s arbitrary: u)
  case Nil
  then show ?case by (auto split: if_splits)
next
  case (Cons c cs)
  show ?case
  proof (cases u)
    case Nil
    with Cons.prems show ?thesis by (auto simp: starts_with_iff split: if_splits)
  next
    case (Cons d ds)
    with Cons.IH [of ds] Cons.prems show ?thesis by (auto split: if_splits)
  qed
qed

lemma str_contains_iff: "str_contains p s \<longleftrightarrow> (\<exists>u t. s = u @ p @ t)"
  unfolding str_contains_def using str_find_Some [of p s] str_find_None [of p s] by blast

lemma index_where_Some:
  "index_where P s = Some i \<longleftrightarrow> i < length s \<and> P (s ! i) \<and> (\<forall>j<i. \<not> P (s ! j))"
proof (induction s arbitrary: i)
  case (Cons c cs)
  show ?case
  proof (cases i)
    case (Suc k)
    with Cons.IH [of k] show ?thesis by (auto simp: All_less_Suc2)
  qed (auto)
qed simp

lemma index_where_None: "index_where P s = None \<longleftrightarrow> (\<forall>c\<in>set s. \<not> P c)"
  by (induction s) auto

lemma index_where_append [simp]:
  "\<forall>c\<in>set u. \<not> P c \<Longrightarrow> P d \<Longrightarrow> index_where P (u @ d # v) = Some (length u)"
  by (induction u) auto

lemma starts_with_map: "inj f \<Longrightarrow> starts_with (map f p) (map f s) = starts_with p s"
proof (induction p arbitrary: s)
  case (Cons c p)
  then show ?case by (cases s) (auto dest: injD)
qed simp

lemma str_find_map: "inj f \<Longrightarrow> str_find (map f p) (map f s) = str_find p s"
proof (induction s)
  case (Cons c cs)
  then show ?case using starts_with_map [OF Cons.prems, of p "c # cs"] by simp
qed simp

lemma str_find_extend: "str_find p s = Some i \<Longrightarrow> str_find p (s @ t) = Some i"
proof (induction s arbitrary: i)
  case Nil
  then show ?case by (cases t) (auto split: if_splits)
next
  case (Cons c cs)
  show ?case
  proof (cases "starts_with p (c # cs)")
    case True
    then obtain u where "c # cs = p @ u" by (auto simp: starts_with_iff)
    then have "c # cs @ t = p @ (u @ t)" by (metis append_Cons append_assoc)
    then have "starts_with p (c # cs @ t)" unfolding starts_with_iff by blast
    with True Cons.prems show ?thesis by simp
  next
    case False
    with Cons.prems obtain j where j: "str_find p cs = Some j" "i = Suc j" by auto
    have "length p \<le> length cs" using str_find_Some [OF j(1)] by auto
    then have "starts_with p ((c # cs) @ t) = starts_with p (c # cs)"
      by (intro starts_with_take) simp
    with False j Cons.IH [OF j(1)] show ?thesis by simp
  qed
qed

definition bytes_string :: "byte list \<Rightarrow> string" where
  "bytes_string bs = map (\<lambda>b. char_of (unat b)) bs"

definition string_bytes :: "string \<Rightarrow> byte list" where
  "string_bytes s = map (\<lambda>c. of_nat (of_char c)) s"

lemma char_of_byte_inj: "inj (\<lambda>b :: byte. char_of (unat b) :: char)"
proof (rule injI)
  fix a b :: byte
  assume "(char_of (unat a) :: char) = char_of (unat b)"
  then have "(of_char (char_of (unat a) :: char) :: nat) = of_char (char_of (unat b) :: char)" by (rule arg_cong)
  then have "unat a mod 256 = unat b mod 256" by (simp only: of_char_of)
  then show "a = b" using unsigned_less [of a, where 'a = nat] unsigned_less [of b, where 'a = nat] by (simp add: word_unat_eq_iff)
qed

lemma bytes_string_simps [simp]:
  "bytes_string [] = []" "bytes_string (a @ b) = bytes_string a @ bytes_string b"
  "length (bytes_string a) = length a" "bytes_string a = [] \<longleftrightarrow> a = []"
  "bytes_string (take n a) = take n (bytes_string a)" "bytes_string (drop n a) = drop n (bytes_string a)"
  by (simp_all add: bytes_string_def take_map drop_map)

lemma string_bytes_back [simp]: "bytes_string (string_bytes s) = s"
proof -
  have "char_of (unat (of_nat (of_char c) :: byte)) = c" for c :: char
    by (simp add: unat_of_nat)
  then show ?thesis by (simp add: bytes_string_def string_bytes_def map_idI)
qed

subsection \<open>Decimal and hexadecimal numerals\<close>

definition digit_char :: "nat \<Rightarrow> char" where
  "digit_char d = (if d < 10 then char_of (48 + d) else char_of (87 + d))"

fun to_base :: "nat \<Rightarrow> nat \<Rightarrow> string" where
  "to_base b n =
     (if b < 2 \<or> n < b then [digit_char n]
      else to_base b (n div b) @ [digit_char (n mod b)])"

declare to_base.simps [simp del]

definition to_string_nat :: "nat \<Rightarrow> string" where
  "to_string_nat n = to_base 10 n"

definition to_string_int :: "int \<Rightarrow> string" where
  "to_string_int i =
     (if i < 0 then CHR ''-'' # to_string_nat (nat (- i)) else to_string_nat (nat i))"

definition to_hex_nat :: "nat \<Rightarrow> string" where
  "to_hex_nat n = to_base 16 n"

definition digit_val :: "char \<Rightarrow> nat" where
  "digit_val c = (let n = of_char c in if n < 58 then n - 48 else n - 87)"

definition from_base :: "nat \<Rightarrow> string \<Rightarrow> nat" where
  "from_base b s = foldl (\<lambda>a c. a * b + digit_val c) 0 s"

lemma digit_val_char [simp]: "d < 16 \<Longrightarrow> digit_val (digit_char d) = d"
  by (auto simp: digit_val_def digit_char_def)

lemma from_base_to_base: "1 < b \<Longrightarrow> b \<le> 16 \<Longrightarrow> from_base b (to_base b n) = n"
proof (induction b n rule: to_base.induct)
  case (1 b n)
  show ?case
  proof (cases "n < b")
    case True
    with 1 show ?thesis by (simp add: to_base.simps [of b n] from_base_def)
  next
    case False
    have "n mod b < b" using 1 by simp
    with 1 have "n mod b < 16" by linarith
    moreover have "from_base b (to_base b (n div b)) = n div b"
      using 1 False by simp
    moreover have "to_base b n = to_base b (n div b) @ [digit_char (n mod b)]"
      using 1 False by (subst to_base.simps) simp
    ultimately show ?thesis
      by (simp add: from_base_def)
  qed
qed

lemma to_base_length: "n < b ^ k \<Longrightarrow> 0 < k \<Longrightarrow> 1 < b \<Longrightarrow> length (to_base b n) \<le> k"
proof (induction k arbitrary: n)
  case (Suc k)
  show ?case
  proof (cases "n < b")
    case False
    then have "0 < k" using Suc.prems(1) by (cases k) auto
    moreover have "n div b < b ^ k" using Suc.prems(1) by (simp add: less_mult_imp_div_less mult.commute)
    ultimately have "length (to_base b (n div b)) \<le> k" using Suc.IH Suc.prems(3) by blast
    with False show ?thesis by (subst to_base.simps) simp
  qed (subst to_base.simps, simp)
qed simp

lemma digit_char_range: "d < 10 \<Longrightarrow> CHR ''0'' \<le> digit_char d \<and> digit_char d \<le> CHR ''9''"
  by (simp add: digit_char_def less_eq_char_def)

lemma to_base_10_digits: "c \<in> set (to_base 10 n) \<Longrightarrow> CHR ''0'' \<le> c \<and> c \<le> CHR ''9''"
proof (induction "10::nat" n rule: to_base.induct)
  case (1 n)
  then show ?case
    by (subst (asm) (2) to_base.simps) (auto simp: digit_char_range split: if_splits)
qed

lemma to_base_nonempty [simp]: "to_base b n \<noteq> []"
  by (subst to_base.simps) simp

section \<open>Words\<close>

lemma word_eq_unatI: "unat a = unat b \<Longrightarrow> a = (b :: 'a::len word)"
  by (rule unsigned_word_eqI)

lemma unat_ucast_mod: "unat (ucast (w :: 'a::len word) :: 'b::len word) = unat w mod 2 ^ LENGTH('b)"
  by (simp add: unsigned_ucast_eq take_bit_eq_mod)

lemma unat_of_nat_mod: "unat (of_nat n :: 'a::len word) = n mod 2 ^ LENGTH('a)"
  by (simp add: unsigned_of_nat take_bit_eq_mod)

lemma unat_and_low_mask: "unat (w AND mask n :: 'a::len word) = unat w mod 2 ^ n"
proof -
  have "unat (w AND mask n) = take_bit n (unat w)"
    by (simp only: take_bit_eq_mask [symmetric] unsigned_take_bit_eq)
  then show ?thesis by (simp only: take_bit_nat_def)
qed

lemma unat_drop_bit_div: "unat (drop_bit n w :: 'a::len word) = unat w div 2 ^ n"
proof -
  have "unat (drop_bit n w) = drop_bit n (unat w)"
    by (rule unat_drop_bit_eq)
  then show ?thesis by (simp only: drop_bit_nat_def)
qed

section \<open>Byte order\<close>

text \<open>
  The object representation of an integer on the little-endian host the program is built
  for, and the value of such a byte sequence.
\<close>

fun le_bytes :: "nat \<Rightarrow> 'a::len word \<Rightarrow> byte list" where
  "le_bytes 0 w = []"
| "le_bytes (Suc n) w = ucast w # le_bytes n (drop_bit 8 w)"

fun le_word :: "byte list \<Rightarrow> 'a::len word" where
  "le_word [] = 0"
| "le_word (b # bs) = ucast b OR push_bit 8 (le_word bs)"

lemma length_le_bytes [simp]: "length (le_bytes n w) = n"
  by (induction n arbitrary: w) simp_all

lemma le_word_le_bytes_take: "le_word (le_bytes n w) = take_bit (8 * n) (w :: 'a::len word)"
proof (induction n arbitrary: w)
  case (Suc n)
  have IH: "(le_word (le_bytes n (drop_bit 8 w)) :: 'a word) = take_bit (8 * n) (drop_bit 8 w)"
    by (rule Suc.IH)
  show ?case
    unfolding le_bytes.simps le_word.simps IH
    by (rule bit_word_eqI) (auto simp: bit_simps)
qed simp

lemma le_word_le_bytes:
  "LENGTH('a) \<le> 8 * n \<Longrightarrow> le_word (le_bytes n w) = (w :: 'a::len word)"
  by (simp add: le_word_le_bytes_take take_bit_word_eq_self)

lemma le_bytes_le_word:
  "8 * length bs \<le> LENGTH('a) \<Longrightarrow> le_bytes (length bs) (le_word bs :: 'a::len word) = bs"
proof (induction bs)
  case (Cons b bs)
  have low: "ucast (le_word (b # bs) :: 'a word) = b"
    using Cons.prems by (intro bit_word_eqI) (auto simp: bit_simps)
  have high: "drop_bit 8 (le_word (b # bs) :: 'a word) = take_bit (LENGTH('a) - 8) (le_word bs)"
    by (intro bit_word_eqI) (auto simp: bit_simps dest: bit_imp_le_length)
  have "le_bytes (length bs) (take_bit (LENGTH('a) - 8) (le_word bs :: 'a word)) = bs"
  proof -
    have *: "le_bytes n (take_bit m v) = le_bytes n v" if "8 * n \<le> m" for n m and v :: "'a word"
      using that
    proof (induction n arbitrary: v m)
      case (Suc n)
      have "ucast (take_bit m v) = (ucast v :: byte)"
        using Suc.prems by (intro bit_word_eqI) (auto simp: bit_simps)
      moreover have "drop_bit 8 (take_bit m v) = take_bit (m - 8) (drop_bit 8 v)"
        using Suc.prems by (intro bit_word_eqI) (auto simp: bit_simps)
      ultimately show ?case using Suc by simp
    qed simp
    show ?thesis
      using Cons by (subst *) auto
  qed
  with low high show ?case by simp
qed simp

section \<open>Ordered maps\<close>

text \<open>
  \<^verbatim>\<open>std::map\<close>: an association list kept strictly sorted by key. \<^verbatim>\<open>insert\<close> leaves an
  existing entry alone, \<^verbatim>\<open>operator[]\<close> with an assignment replaces it.
\<close>

type_synonym ('k, 'v) smap = "('k \<times> 'v) list"

definition smap_ok :: "('k::linorder, 'v) smap \<Rightarrow> bool" where
  "smap_ok m \<longleftrightarrow> sorted_wrt (<) (map fst m)"

fun smap_put :: "'k::linorder \<Rightarrow> 'v \<Rightarrow> ('k, 'v) smap \<Rightarrow> ('k, 'v) smap" where
  "smap_put k v [] = [(k, v)]"
| "smap_put k v ((a, b) # m) =
     (if k < a then (k, v) # (a, b) # m
      else if k = a then (k, v) # m else (a, b) # smap_put k v m)"

definition smap_insert :: "'k::linorder \<Rightarrow> 'v \<Rightarrow> ('k, 'v) smap \<Rightarrow> ('k, 'v) smap" where
  "smap_insert k v m = (case map_of m k of None \<Rightarrow> smap_put k v m | Some _ \<Rightarrow> m)"

fun smap_erase :: "'k::linorder \<Rightarrow> ('k, 'v) smap \<Rightarrow> ('k, 'v) smap" where
  "smap_erase k [] = []"
| "smap_erase k ((a, b) # m) = (if k = a then m else (a, b) # smap_erase k m)"

lemma smap_ok_Nil [simp]: "smap_ok []"
  by (simp add: smap_ok_def)

lemma smap_ok_Cons [simp]:
  "smap_ok ((a, b) # m) \<longleftrightarrow> (\<forall>k\<in>fst ` set m. a < k) \<and> smap_ok m"
  by (auto simp: smap_ok_def)

lemma map_of_smap_put [smap_simps]: "map_of (smap_put k v m) = (map_of m)(k \<mapsto> v)"
  by (induction k v m rule: smap_put.induct) (auto simp: fun_eq_iff)

lemma fst_set_smap_put: "fst ` set (smap_put k v m) = insert k (fst ` set m)"
  by (induction k v m rule: smap_put.induct) auto

lemma smap_ok_put [simp]: "smap_ok m \<Longrightarrow> smap_ok (smap_put k v m)"
  by (induction k v m rule: smap_put.induct) (auto simp: fst_set_smap_put)

lemma smap_ok_insert [simp]: "smap_ok m \<Longrightarrow> smap_ok (smap_insert k v m)"
  by (simp add: smap_insert_def split: option.splits)

lemma map_of_smap_insert [smap_simps]:
  "map_of (smap_insert k v m) =
     (if map_of m k = None then (map_of m)(k \<mapsto> v) else map_of m)"
  by (auto simp: smap_insert_def map_of_smap_put split: option.splits)

lemma fst_set_smap_erase: "fst ` set (smap_erase k m) \<subseteq> fst ` set m"
  by (induction k m rule: smap_erase.induct) auto

lemma smap_ok_erase [simp]: "smap_ok m \<Longrightarrow> smap_ok (smap_erase k m)"
  by (induction k m rule: smap_erase.induct) (use fst_set_smap_erase in fastforce)+

lemma map_of_smap_erase [smap_simps]:
  "smap_ok m \<Longrightarrow> map_of (smap_erase k m) = (map_of m)(k := None)"
proof (induction k m rule: smap_erase.induct)
  case (2 k a b m)
  then show ?case
    by (cases "k = a") (auto simp: fun_eq_iff map_of_eq_None_iff)
qed simp

lemma smap_ext:
  assumes "smap_ok m" "smap_ok n" "map_of m = map_of n"
  shows "m = n"
  using assms
proof (induction m arbitrary: n)
  case Nil
  then show ?case by (cases n) (auto simp: fun_eq_iff split: if_splits)
next
  case (Cons p m)
  obtain k v where p: "p = (k, v)" by (cases p)
  have dom: "fst ` set (p # m) = fst ` set n" using Cons.prems(3) by (metis dom_map_of_conv_image_fst)
  then obtain l w n' where n: "n = (l, w) # n'" by (cases n) auto
  have "k = l"
  proof (rule ccontr)
    assume "k \<noteq> l"
    with dom p n have "k \<in> fst ` set n'" "l \<in> fst ` set m" by auto
    with Cons.prems(1,2) p n have "l < k" "k < l" by auto
    then show False by simp
  qed
  have vw: "v = w" using fun_cong [OF Cons.prems(3), of k] p n \<open>k = l\<close> by simp
  have "map_of m x = map_of n' x" for x
  proof (cases "x = k")
    case True
    have "k \<notin> fst ` set m" "k \<notin> fst ` set n'" using Cons.prems(1,2) p n \<open>k = l\<close> by auto
    with True show ?thesis by (simp add: map_of_eq_None_iff [THEN iffD2])
  next
    case False
    with fun_cong [OF Cons.prems(3), of x] p n \<open>k = l\<close> show ?thesis by simp
  qed
  then have "map_of m = map_of n'" by blast
  with Cons.IH [of n'] Cons.prems p n \<open>k = l\<close> vw show ?case by simp
qed

lemma smap_erase_filter: "smap_ok m \<Longrightarrow> smap_erase k m = filter (\<lambda>(a, _). a \<noteq> k) m"
proof (induction k m rule: smap_erase.induct)
  case (2 k a b m)
  then show ?case by (fastforce intro!: filter_True [symmetric])
qed simp

lemma smap_ok_distinct: "smap_ok m \<Longrightarrow> distinct (map fst m)"
  by (simp add: smap_ok_def strict_sorted_iff)

section \<open>The interface of an ordered map\<close>

text \<open>
  What the session registries and the schema tables rely on: find, insert (that keeps an
  existing entry), erase, each against a partial function.
\<close>

locale table =
  fixes find :: "'m \<Rightarrow> 'k \<Rightarrow> 'v option"
    and insert :: "'k \<Rightarrow> 'v \<Rightarrow> 'm \<Rightarrow> 'm"
    and erase :: "'k \<Rightarrow> 'm \<Rightarrow> 'm"
    and empty :: 'm
    and ok :: "'m \<Rightarrow> bool"
  assumes ok_empty: "ok empty"
    and ok_insert: "ok m \<Longrightarrow> ok (insert k v m)"
    and ok_erase: "ok m \<Longrightarrow> ok (erase k m)"
    and find_empty: "find empty k = None"
    and find_insert:
      "ok m \<Longrightarrow> find (insert k v m) = (if find m k = None then (find m)(k \<mapsto> v) else find m)"
    and find_erase: "ok m \<Longrightarrow> find (erase k m) = (find m)(k := None)"
begin

lemma find_insert_fresh: "ok m \<Longrightarrow> find m k = None \<Longrightarrow> find (insert k v m) k = Some v"
  by (simp add: find_insert)

lemma find_insert_kept: "ok m \<Longrightarrow> find m k = Some w \<Longrightarrow> find (insert k v m) = find m"
  by (simp add: find_insert)

lemma find_insert_other: "ok m \<Longrightarrow> j \<noteq> k \<Longrightarrow> find (insert k v m) j = find m j"
  by (simp add: find_insert)

lemma erase_insert_fresh:
  "ok m \<Longrightarrow> find m k = None \<Longrightarrow> find (erase k (insert k v m)) = find m"
  by (simp add: find_insert find_erase ok_insert fun_eq_iff)

end

interpretation smap: table "map_of" "smap_insert" "smap_erase" "[]" "smap_ok"
  by unfold_locales (simp_all add: map_of_smap_insert map_of_smap_erase)

section \<open>Systems that take steps\<close>

text \<open>
  The contract of a component that is driven by events: an invariant that holds at the
  start, and that makes every allowed event run to its end and is kept by it.
\<close>

locale safe_system =
  fixes step :: "'e \<Rightarrow> 's \<Rightarrow> 's res" and allowed :: "'e \<Rightarrow> 's \<Rightarrow> bool" and inv :: "'s \<Rightarrow> bool"
  assumes inv_step: "inv s \<Longrightarrow> allowed e s \<Longrightarrow> \<exists>s'. step e s = Inr s' \<and> inv s'"
begin

fun run :: "'e list \<Rightarrow> 's \<Rightarrow> 's res" where
  "run [] s = Inr s"
| "run (e # es) s = rbind (step e s) (run es)"

fun allowed_run :: "'e list \<Rightarrow> 's \<Rightarrow> bool" where
  "allowed_run [] s \<longleftrightarrow> True"
| "allowed_run (e # es) s \<longleftrightarrow> allowed e s \<and> (case step e s of Inl _ \<Rightarrow> True | Inr s' \<Rightarrow> allowed_run es s')"

lemma run_inv: "inv s \<Longrightarrow> allowed_run es s \<Longrightarrow> \<exists>s'. run es s = Inr s' \<and> inv s'"
proof (induction es arbitrary: s)
  case (Cons e es)
  then obtain s1 where "step e s = Inr s1" "inv s1" using inv_step [of s e] by auto
  with Cons show ?case by auto
qed simp

lemma run_append: "run (es @ es') s = rbind (run es s) (run es')"
  by (induction es arbitrary: s) (simp_all add: rbind_assoc cong: rbind_cong)

end

end
