(* ===== verification/Binary_Codec.thy ===== *)
theory Binary_Codec
  imports Server_Prelude
begin

text \<open>
  \<^verbatim>\<open>BinaryReader\<close> and \<^verbatim>\<open>BinaryWriter\<close> (BinaryReader.h, BinaryReader.cpp) and the two
  \<^verbatim>\<open>TcpSession::Send\<close> that frame a writer's bytes (ClientSession.h,
  FileServer/TcpSession.cpp). The cursors \<^verbatim>\<open>m_index\<close> are 32-bit words, lengths and
  offsets are compared at 64 bits as in the code, where no sum of the model can wrap.
\<close>

section \<open>State\<close>

record BinaryReader =
  r_buffer :: "byte list"
  r_index :: "32 word"

record BinaryWriter =
  w_buffer :: "byte list"
  w_index :: "32 word"

definition BINARY_PACKLEN_LEN_2 :: nat where "BINARY_PACKLEN_LEN_2 = 4"
definition CHECKSUM_LEN :: nat where "CHECKSUM_LEN = 2"

section \<open>The reader\<close>

definition BinaryReader_new :: BinaryReader where
  "BinaryReader_new = \<lparr>r_buffer = [], r_index = 0\<rparr>"

definition BinaryReader_of :: "byte list \<Rightarrow> BinaryReader" where
  "BinaryReader_of buffer = \<lparr>r_buffer = buffer, r_index = 0\<rparr>"

definition UpdateBuffer :: "byte list \<Rightarrow> BinaryReader \<Rightarrow> BinaryReader" where
  "UpdateBuffer buffer r = r\<lparr>r_buffer := buffer, r_index := 0\<rparr>"

definition Reset :: "BinaryReader \<Rightarrow> BinaryReader" where
  "Reset r = r\<lparr>r_index := 0\<rparr>"

definition reader_Size :: "BinaryReader \<Rightarrow> nat" where
  "reader_Size r = length (r_buffer r)"

definition ReadInt32 :: "BinaryReader \<Rightarrow> (32 word \<times> BinaryReader) option" where
  "ReadInt32 r =
     (if unat (r_index r) + 4 \<ge> length (r_buffer r) then None
      else Some (le_word (take 4 (drop (unat (r_index r)) (r_buffer r))),
                 r\<lparr>r_index := r_index r + 4\<rparr>))"

text \<open>
  \<^verbatim>\<open>ReadData<T>\<close> for a type of \<open>n\<close> bytes copies them in reverse order into the object;
  the object's value is then read off its little-endian representation.
\<close>

definition ReadData :: "nat \<Rightarrow> BinaryReader \<Rightarrow> ('a::len word \<times> BinaryReader) option" where
  "ReadData n r =
     (if unat (r_index r) + n > length (r_buffer r) then None
      else Some (le_word (rev (take n (drop (unat (r_index r)) (r_buffer r)))),
                 r\<lparr>r_index := r_index r + of_nat n\<rparr>))"

text \<open>
  The length loop of \<^verbatim>\<open>ReadData(string&)\<close> over the bytes that remain: the accumulated
  length (an \<^verbatim>\<open>int\<close>, seven bits per byte, high bit means more) and the value of
  \<^verbatim>\<open>i\<close> after the loop.
\<close>

fun read_length :: "byte list \<Rightarrow> 32 word \<Rightarrow> nat \<Rightarrow> 32 word \<times> nat" where
  "read_length [] len i = (len, i)"
| "read_length (b # bs) len i =
     (let len' = push_bit 7 len OR ucast (b AND 0x7F)
      in if b AND 0x80 = 0 then (len', i) else read_length bs len' (Suc i))"

text \<open>
  \<^verbatim>\<open>c_str()\<close> may be read up to its terminating zero byte and no further. A negative
  \<^verbatim>\<open>lenght\<close> becomes a huge \<^verbatim>\<open>size_t\<close> in \<^verbatim>\<open>assign\<close>.
\<close>

definition ReadData_string :: "BinaryReader \<Rightarrow> (byte list \<times> BinaryReader) res" where
  "ReadData_string r =
     (let size = length (r_buffer r); idx = unat (r_index r) in
      if idx > size then Inl Out_Of_Range
      else let (len, i) = read_length (drop idx (r_buffer r)) 0 0;
               idx' = r_index r + of_nat (i + 1)
           in if sint len < 0 then Inl Out_Of_Range
              else if len \<noteq> 0 \<and> unat idx' + unat len > size + 1 then Inl Out_Of_Range
              else Inr (take (unat len) (drop (unat idx') (r_buffer r @ [0])),
                        r\<lparr>r_index := idx' + len\<rparr>))"

section \<open>The writer\<close>

definition BinaryWriter_new :: BinaryWriter where
  "BinaryWriter_new = \<lparr>w_buffer = [], w_index = 0\<rparr>"

definition writer_Clear :: "BinaryWriter \<Rightarrow> BinaryWriter" where
  "writer_Clear w = w\<lparr>w_index := 0, w_buffer := []\<rparr>"

definition writer_assign :: "byte list \<Rightarrow> BinaryWriter \<Rightarrow> BinaryWriter" where
  "writer_assign BW w = (writer_Clear w)\<lparr>w_buffer := BW\<rparr>"

definition resize :: "nat \<Rightarrow> byte list \<Rightarrow> byte list" where
  \<comment> \<open>\<^verbatim>\<open>std::string::resize\<close>: cut or padded with zero bytes\<close>
  "resize n xs = take n xs @ replicate (n - length xs) 0"

definition WriteData :: "nat \<Rightarrow> 'a::len word \<Rightarrow> BinaryWriter \<Rightarrow> BinaryWriter" where
  "WriteData n d w =
     w\<lparr>w_buffer := list_write (unat (w_index w)) (le_bytes n d)
                    (resize (unat (w_index w) + n) (w_buffer w)),
       w_index := w_index w + of_nat n\<rparr>"

definition writer_Size :: "BinaryWriter \<Rightarrow> 32 word" where
  "writer_Size w = w_index w"

definition toString :: "BinaryWriter \<Rightarrow> byte list" where
  "toString w = w_buffer w"

definition writerFile :: "byte list \<Rightarrow> BinaryWriter \<Rightarrow> BinaryWriter" where
  \<comment> \<open>\<open>str\<close>: the uninitialised local array of \<^verbatim>\<open>BINARY_PACKLEN_LEN_2 + CHECKSUM_LEN\<close> bytes\<close>
  "writerFile str w =
     w\<lparr>w_buffer := take (BINARY_PACKLEN_LEN_2 + CHECKSUM_LEN) str,
       w_index := of_nat (BINARY_PACKLEN_LEN_2 + CHECKSUM_LEN)\<rparr>"

fun Compress_loop :: "nat \<Rightarrow> 64 word \<Rightarrow> byte list \<Rightarrow> byte list" where
  \<comment> \<open>\<open>Compress_loop (i + 1)\<close> is the iteration with loop variable \<open>i\<close>\<close>
  "Compress_loop 0 len out = out"
| "Compress_loop (Suc i) len out =
     (let c = ucast (drop_bit (7 * i) len AND 0x7F) :: byte in
      if c = 0 \<and> out = [] then Compress_loop i len out
      else Compress_loop i len (out @ [if i > 0 then c OR 0x80 else c]))"

definition Compress :: "64 word \<Rightarrow> byte list \<Rightarrow> byte list" where
  "Compress len out =
     (if len < 128 then out @ [ucast len AND 0x7F] else Compress_loop 5 len out)"

definition WriteData_string :: "byte list \<Rightarrow> BinaryWriter \<Rightarrow> BinaryWriter" where
  "WriteData_string data w =
     (let out = Compress (of_nat (length data)) [];
          w1 = w\<lparr>w_buffer := w_buffer w @ out, w_index := w_index w + of_nat (length out)\<rparr>
      in if length data > 0
         then w1\<lparr>w_buffer := w_buffer w1 @ data, w_index := w_index w1 + of_nat (length data)\<rparr>
         else w1)"

section \<open>Framing\<close>

definition htonl :: "32 word \<Rightarrow> 32 word" where
  "htonl x = le_word (rev (le_bytes 4 x))"

definition htons :: "16 word \<Rightarrow> 16 word" where
  "htons x = le_word (rev (le_bytes 2 x))"

text \<open>
  The bytes handed to \<^verbatim>\<open>conn->send\<close>, and the writer left behind (it holds the header).
\<close>

definition ClientSession_Send :: "BinaryWriter \<Rightarrow> byte list \<times> BinaryWriter" where
  "ClientSession_Send write =
     (let out = toString write;
          w0 = writer_Clear write;
          len = (of_nat (length out) :: 32 word);
          w1 = WriteData 4 (len + 6) w0;
          w2 = WriteData 4 (htonl len) w1;
          w3 = WriteData 2 (htons 0) w2
      in (toString w3 @ out, w3))"

definition FileTcpSession_Send :: "BinaryWriter \<Rightarrow> byte list \<times> BinaryWriter" where
  "FileTcpSession_Send write =
     (let out = toString write;
          w0 = writer_Clear write;
          len = (of_nat (length out) :: 64 word);
          w1 = WriteData 8 (len + 6) w0;
          w2 = WriteData 4 (htonl (ucast len)) w1;
          w3 = WriteData 2 (htons 0) w2
      in (toString w3 @ out, w3))"

section \<open>The writer's invariant\<close>

text \<open>
  As long as less than 4 GiB were written, the cursor is the length of the buffer.
\<close>

definition writer_ok :: "BinaryWriter \<Rightarrow> bool" where
  "writer_ok w \<longleftrightarrow> unat (w_index w) = length (w_buffer w)"

lemma writer_ok_new [simp]: "writer_ok BinaryWriter_new"
  by (simp add: writer_ok_def BinaryWriter_new_def)

lemma writer_ok_clear [simp]: "writer_ok (writer_Clear w)"
  by (simp add: writer_ok_def writer_Clear_def)

lemma unat_add_of_nat_32:
  "unat (i :: 32 word) + n < 2 ^ 32 \<Longrightarrow> unat (i + of_nat n) = unat i + n"
  by (simp add: unat_word_ariths unat_of_nat)

lemma toString_WriteData:
  assumes "writer_ok w"
  shows "toString (WriteData n d w) = toString w @ le_bytes n d"
proof -
  have "list_write (length b) (le_bytes n d) (resize (length b + n) b) = b @ le_bytes n d" for b
    by (simp add: list_write_def resize_def)
  with assms show ?thesis
    by (simp add: toString_def WriteData_def writer_ok_def)
qed

lemma writer_ok_WriteData:
  assumes "writer_ok w" and "length (w_buffer w) + n < 2 ^ 32"
  shows "writer_ok (WriteData n d w)"
  using assms toString_WriteData [OF assms(1), of n d]
  by (simp add: writer_ok_def WriteData_def toString_def unat_add_of_nat_32)

lemma toString_WriteData_string:
  "toString (WriteData_string s w) = toString w @ Compress (of_nat (length s)) [] @ s"
  by (auto simp: toString_def WriteData_string_def Let_def)

section \<open>The variable-length prefix\<close>

text \<open>One digit of the loop, as a number.\<close>

definition digit7 :: "nat \<Rightarrow> nat \<Rightarrow> nat" where
  "digit7 n i = (n div 2 ^ (7 * i)) mod 128"

lemma digit7_less [simp]: "digit7 n i < 128"
  by (simp add: digit7_def)

lemma digit7_step: "digit7 n i * 2 ^ (7 * i) + n mod 2 ^ (7 * i) = n mod 2 ^ (7 * Suc i)"
proof -
  have "n mod (2 ^ (7 * i) * 128) = 2 ^ (7 * i) * (n div 2 ^ (7 * i) mod 128) + n mod 2 ^ (7 * i)"
    by (rule mod_mult2_eq)
  moreover have "(2::nat) ^ (7 * Suc i) = 2 ^ (7 * i) * 128"
    by (simp add: power_add)
  ultimately show ?thesis by (simp add: digit7_def ac_simps)
qed

lemma Compress_digit:
  assumes "n < 2 ^ 64"
  shows "(ucast (drop_bit (7 * i) (of_nat n :: 64 word) AND 0x7F) :: byte) = of_nat (digit7 n i)"
proof (rule word_eq_unatI)
  have "unat (drop_bit (7 * i) (of_nat n :: 64 word) AND mask 7) = digit7 n i"
    unfolding unat_and_low_mask unat_drop_bit_div unat_of_nat_mod
    using assms by (simp add: digit7_def)
  then show "unat (ucast (drop_bit (7 * i) (of_nat n :: 64 word) AND 0x7F) :: byte)
      = unat (of_nat (digit7 n i) :: byte)"
    by (simp add: unat_ucast_mod unat_of_nat_mod mask_eq_decr_exp)
qed

lemma of_nat_and_7F:
  assumes "d < 128"
  shows "(of_nat d :: byte) AND 0x7F = of_nat d"
proof (rule word_eq_unatI)
  have "unat ((of_nat d :: byte) AND mask 7) = unat (of_nat d :: byte)"
    unfolding unat_and_low_mask unat_of_nat_mod using assms by simp
  then show "unat ((of_nat d :: byte) AND 0x7F) = unat (of_nat d :: byte)"
    by (simp add: mask_eq_decr_exp)
qed

lemma high_bit_clear:
  assumes "d < 128"
  shows "(of_nat d :: byte) AND 0x80 = 0"
proof -
  have "(of_nat d :: byte) AND 0x80 = of_nat d AND (0x7F AND 0x80)"
    by (subst of_nat_and_7F [OF assms, symmetric]) (simp only: and.assoc)
  then show ?thesis by simp
qed

lemma high_bit_set:
  assumes "d < 128"
  shows "((of_nat d :: byte) OR 0x80) AND 0x80 \<noteq> 0"
    and "((of_nat d :: byte) OR 0x80) AND 0x7F = of_nat d"
  using assms by (simp_all add: bit.conj_disj_distrib2 high_bit_clear of_nat_and_7F)

lemma push7_or_add:
  assumes "d < 128"
  shows "push_bit 7 (acc :: 32 word) OR ucast (of_nat d :: byte) = acc * 128 + of_nat d"
proof -
  have d: "(of_nat d :: 32 word) = of_nat d AND mask 7"
    using assms by (intro word_eq_unatI) (simp add: unat_and_low_mask unat_of_nat_mod)
  have "push_bit 7 acc AND mask 7 = 0"
    by (rule bit_word_eqI) (simp add: bit_simps)
  moreover have "push_bit 7 acc AND (of_nat d :: 32 word) = (push_bit 7 acc AND mask 7) AND of_nat d"
    by (subst d) (simp only: ac_simps)
  ultimately have "push_bit 7 acc AND (of_nat d :: 32 word) = 0"
    by simp
  then have "push_bit 7 acc OR of_nat d = push_bit 7 acc + (of_nat d :: 32 word)"
    by (simp add: disjunctive_add_eq_or)
  moreover have "(ucast (of_nat d :: byte) :: 32 word) = of_nat d"
    using assms by (intro word_eq_unatI) (simp add: unat_ucast_mod unat_of_nat_mod)
  moreover have "push_bit 7 acc = acc * 128"
    by (simp add: push_bit_eq_mult)
  ultimately show ?thesis by simp
qed

text \<open>The digits after the first one that is written.\<close>

fun tail_digits :: "nat \<Rightarrow> nat \<Rightarrow> byte list" where
  "tail_digits n 0 = []"
| "tail_digits n (Suc i) =
     (if i > 0 then of_nat (digit7 n i) OR 0x80 else of_nat (digit7 n i)) # tail_digits n i"

lemma length_tail_digits [simp]: "length (tail_digits n k) = k"
  by (induction k) simp_all

lemma Compress_loop_tail:
  assumes "n < 2 ^ 64"
  shows "out \<noteq> [] \<Longrightarrow> Compress_loop k (of_nat n) out = out @ tail_digits n k"
  by (induction k arbitrary: out) (simp_all add: Let_def Compress_digit [OF assms])

lemma read_length_tail:
  "read_length (tail_digits n (Suc k) @ rest) acc j =
     (acc * 2 ^ (7 * Suc k) + of_nat (n mod 2 ^ (7 * Suc k)), j + k)"
proof (induction k arbitrary: acc j)
  case 0
  show ?case
    using push7_or_add [of "digit7 n 0" acc]
    by (simp add: Let_def high_bit_clear of_nat_and_7F digit7_def)
next
  case (Suc k)
  let ?d = "digit7 n (Suc k)"
  have "(acc * 128 + of_nat ?d) * 2 ^ (7 * Suc k) + of_nat (n mod 2 ^ (7 * Suc k))
      = acc * 2 ^ (7 * Suc (Suc k)) + of_nat (?d * 2 ^ (7 * Suc k) + n mod 2 ^ (7 * Suc k))"
    by (simp add: algebra_simps power_add)
  also have "?d * 2 ^ (7 * Suc k) + n mod 2 ^ (7 * Suc k) = n mod 2 ^ (7 * Suc (Suc k))"
    by (rule digit7_step)
  finally have eq: "(acc * 128 + of_nat ?d) * 2 ^ (7 * Suc k) + of_nat (n mod 2 ^ (7 * Suc k))
      = acc * 2 ^ (7 * Suc (Suc k)) + of_nat (n mod 2 ^ (7 * Suc (Suc k)))" .
  have "read_length (tail_digits n (Suc (Suc k)) @ rest) acc j
      = read_length (tail_digits n (Suc k) @ rest) (acc * 128 + of_nat ?d) (Suc j)"
    by (simp only: tail_digits.simps(2) [of n "Suc k"] append_Cons read_length.simps Let_def
        zero_less_Suc if_True if_False high_bit_set push7_or_add digit7_less)
  then show ?case
    unfolding Suc.IH eq by simp
qed

lemma read_length_Compress_loop:
  assumes "n < 2 ^ 64"
  shows "n mod 2 ^ (7 * k) \<noteq> 0 \<Longrightarrow>
    \<exists>c. length (Compress_loop k (of_nat n) []) = Suc c
      \<and> read_length (Compress_loop k (of_nat n) [] @ rest) 0 0 = (of_nat (n mod 2 ^ (7 * k)), c)"
proof (induction k)
  case (Suc k)
  let ?c = "if k > 0 then of_nat (digit7 n k) OR 0x80 else of_nat (digit7 n k) :: byte"
  show ?case
  proof (cases "digit7 n k = 0")
    case True
    with digit7_step [of n k] have "n mod 2 ^ (7 * k) = n mod 2 ^ (7 * Suc k)" by simp
    with Suc True show ?thesis
      by (simp add: Let_def Compress_digit [OF assms] del: power_Suc mult_Suc_right)
  next
    case False
    then have "(of_nat (digit7 n k) :: byte) \<noteq> 0"
      using nat_dvd_not_less [of "digit7 n k" 256] less_trans [OF digit7_less, of 256 n k]
      by (simp add: word_of_nat_eq_0_iff)
    then have loop: "Compress_loop (Suc k) (of_nat n) [] = tail_digits n (Suc k)"
      using assms by (simp add: Let_def Compress_digit Compress_loop_tail)
    show ?thesis
      unfolding loop read_length_tail by simp
  qed
qed simp

text \<open>The prefix of a length below \<open>2\<^sup>3\<^sup>1\<close> is read back exactly.\<close>

lemma read_length_Compress:
  assumes "n < 2 ^ 31"
  shows "\<exists>c. length (Compress (of_nat n) []) = Suc c
    \<and> read_length (Compress (of_nat n) [] @ rest) 0 0 = (of_nat n, c)"
proof (cases "n < 128")
  case True
  then have "(of_nat n :: 64 word) < 128"
    using assms by (simp add: word_less_nat_alt unat_of_nat_mod)
  moreover have "(ucast (of_nat n :: 64 word) :: byte) = of_nat n"
    using True by (intro word_eq_unatI) (simp add: unat_ucast_mod unat_of_nat_mod)
  ultimately show ?thesis
    using True push7_or_add [of n 0]
    by (simp add: Compress_def Let_def of_nat_and_7F high_bit_clear)
next
  case False
  then have "\<not> (of_nat n :: 64 word) < 128"
    using assms by (simp add: word_less_nat_alt unat_of_nat_mod)
  moreover have "n mod 2 ^ (7 * 5) = n" using assms by simp
  ultimately show ?thesis
    using read_length_Compress_loop [of n 5 rest] False assms by (simp add: Compress_def)
qed

section \<open>Reading back what was written\<close>

text \<open>
  A string of less than 2 GiB written by \<^verbatim>\<open>BinaryWriter::WriteData(string)\<close> is read
  back unchanged by \<^verbatim>\<open>BinaryReader::ReadData(string&)\<close> when the reader's cursor stands
  where the string was written, whatever follows it, and the cursor is left behind it.
\<close>

theorem string_roundtrip:
  assumes "length s < 2 ^ 31"
    and "r_buffer r = toString (WriteData_string s w) @ rest"
    and "unat (r_index r) = length (toString w)"
    and "length (r_buffer r) < 2 ^ 32"
  shows "ReadData_string r =
    Inr (s, r\<lparr>r_index := of_nat (length (toString (WriteData_string s w)))\<rparr>)"
proof -
  let ?out = "Compress (of_nat (length s)) []"
  obtain c where c: "length ?out = Suc c"
    and rl: "read_length (?out @ s @ rest) 0 0 = (of_nat (length s), c)"
    using read_length_Compress [OF assms(1), of "s @ rest"] by auto
  have buf: "r_buffer r = toString w @ ?out @ s @ rest"
    using assms(2) by (simp add: toString_WriteData_string)
  have total: "length (toString w) + Suc c + length s < 2 ^ 32"
    using assms(4) c by (simp add: buf)
  have len: "unat (of_nat (length s) :: 32 word) = length s"
    using assms(1) by (simp add: unat_of_nat_mod)
  have pos: "sint (of_nat (length s) :: 32 word) \<ge> 0"
    using assms(1) len by (simp add: sint_uint signed_take_bit_eq_if_positive bit_iff_odd
      uint_nat take_bit_int_eq_self)
  have idx: "unat (r_index r + of_nat (c + 1)) = length (toString w) + Suc c"
    using total assms(3) by (subst unat_add_of_nat_32) auto
  have ri: "r_index r = of_nat (length (toString w))"
    by (simp add: assms(3) [symmetric])
  have fin: "r_index r + of_nat (c + 1) + of_nat (length s)
      = of_nat (length (toString (WriteData_string s w)))"
    by (simp add: ri toString_WriteData_string c)
  have dropped: "drop (unat (r_index r)) (r_buffer r) = ?out @ s @ rest"
    by (simp add: assms(3) buf)
  have piece: "take (length s) (drop (length (toString w) + Suc c) (r_buffer r @ [0])) = s"
    by (simp add: buf c)
  show ?thesis
    unfolding ReadData_string_def Let_def dropped rl prod.case idx len piece fin
    using pos assms(3) by (simp add: buf c)
qed

theorem string_roundtrip_witness:
  "ReadData_string (BinaryReader_of (toString (WriteData_string [65, 66, 67] BinaryWriter_new)))
    = Inr ([65, 66, 67], (BinaryReader_of [3, 65, 66, 67])\<lparr>r_index := 4\<rparr>)"
proof -
  have bytes: "toString (WriteData_string [65, 66, 67] BinaryWriter_new) = [3, 65, 66, 67]"
    by code_simp
  show ?thesis
    using string_roundtrip [of "[65, 66, 67]" "BinaryReader_of [3, 65, 66, 67]"
        BinaryWriter_new "[]"]
    unfolding bytes by (simp add: BinaryReader_of_def BinaryWriter_new_def toString_def)
qed

lemma htonl_htonl [simp]: "htonl (htonl x) = x"
  unfolding htonl_def
  using le_bytes_le_word [of "rev (le_bytes 4 x)", where 'a = 32] by (simp add: le_word_le_bytes)

lemma le_bytes_htonl: "le_bytes 4 (htonl x) = rev (le_bytes 4 x)"
  unfolding htonl_def
  using le_bytes_le_word [of "rev (le_bytes 4 x)", where 'a = 32] by simp

lemma le_bytes_htons: "le_bytes 2 (htons x) = rev (le_bytes 2 x)"
  unfolding htons_def
  using le_bytes_le_word [of "rev (le_bytes 2 x)", where 'a = 16] by simp

text \<open>
  A 32-bit integer written in network order (\<^verbatim>\<open>WriteData(htonl(x))\<close>, as the session
  code does) is read back as \<^verbatim>\<open>x\<close> by \<^verbatim>\<open>ReadData<int>\<close>; an integer written without
  the conversion comes back with its bytes reversed.
\<close>

theorem int_roundtrip:
  assumes "writer_ok w"
    and "r_buffer r = toString (WriteData 4 d w) @ rest"
    and "unat (r_index r) = length (toString w)"
  shows "ReadData 4 r = Some (htonl d, r\<lparr>r_index := r_index r + 4\<rparr>)"
  using assms by (simp add: ReadData_def toString_WriteData htonl_def)

theorem int_roundtrip_witness:
  "ReadData 4 (BinaryReader_of (toString (WriteData 4 (htonl 1000) BinaryWriter_new)))
    = Some (1000 :: 32 word, (BinaryReader_of [0, 0, 3, 232])\<lparr>r_index := 4\<rparr>)"
proof -
  have bytes: "toString (WriteData 4 (htonl 1000) BinaryWriter_new) = [0, 0, 3, 232]"
    by code_simp
  show ?thesis
    using int_roundtrip [OF writer_ok_new, of "BinaryReader_of [0, 0, 3, 232]" "htonl 1000" "[]"]
    unfolding bytes by (simp add: BinaryReader_of_def BinaryWriter_new_def toString_def)
qed

lemma toString_header:
  fixes a :: "'a::len word" and b :: "32 word" and c :: "16 word"
  assumes "n \<le> 8"
  shows "toString (WriteData 2 c (WriteData 4 b (WriteData n a (writer_Clear w))))
    = le_bytes n a @ le_bytes 4 b @ le_bytes 2 c"
proof -
  have clear: "w_buffer (writer_Clear w) = []" by (simp add: writer_Clear_def)
  have 1: "writer_ok (WriteData n a (writer_Clear w))"
    using assms by (intro writer_ok_WriteData) (simp_all add: clear)
  have b1: "toString (WriteData n a (writer_Clear w)) = le_bytes n a"
    by (simp add: toString_WriteData) (simp add: toString_def clear)
  have 2: "writer_ok (WriteData 4 b (WriteData n a (writer_Clear w)))"
    using 1 b1 assms by (intro writer_ok_WriteData [OF 1]) (simp add: toString_def)
  show ?thesis
    by (simp add: toString_WriteData 1 2 b1)
qed

lemma le_bytes_2_zero: "le_bytes 2 (0 :: 16 word) = [0, 0]"
  by (simp add: numeral_2_eq_2)

lemma ClientSession_frame_bytes:
  "fst (ClientSession_Send w)
    = le_bytes 4 (of_nat (length (toString w) + 6) :: 32 word)
      @ rev (le_bytes 4 (of_nat (length (toString w)) :: 32 word)) @ [0, 0] @ toString w"
  by (simp add: ClientSession_Send_def Let_def toString_header le_bytes_htonl le_bytes_htons
      le_bytes_2_zero add.commute)

lemma FileTcpSession_frame_bytes:
  "fst (FileTcpSession_Send w)
    = le_bytes 8 (of_nat (length (toString w) + 6) :: 64 word)
      @ rev (le_bytes 4 (ucast (of_nat (length (toString w)) :: 64 word) :: 32 word))
      @ [0, 0] @ toString w"
  by (simp add: FileTcpSession_Send_def Let_def toString_header le_bytes_htonl le_bytes_htons
      le_bytes_2_zero add.commute)

text \<open>
  The frame \<^verbatim>\<open>ClientSession\<close> puts on the wire: the length word counts the bytes
  that follow it, the body length repeats in network order, two zero bytes, the body; for
  a body below the 31-bit limit of \<^verbatim>\<open>int\<close> nothing wraps.
\<close>

theorem client_frame:
  assumes "length (toString w) + 10 < 2 ^ 31"
  shows "unat (le_word (take 4 (fst (ClientSession_Send w))) :: 32 word)
        = length (fst (ClientSession_Send w)) - 4
      \<and> take 4 (drop 4 (fst (ClientSession_Send w)))
        = rev (le_bytes 4 (of_nat (length (toString w)) :: 32 word))
      \<and> drop 10 (fst (ClientSession_Send w)) = toString w"
proof -
  have "unat (of_nat (length (toString w) + 6) :: 32 word) = length (toString w) + 6"
    using assms by (simp add: unat_of_nat_mod del: of_nat_add)
  then show ?thesis
    unfolding ClientSession_frame_bytes by (simp add: le_word_le_bytes del: of_nat_add)
qed

theorem client_frame_witness:
  "unat (le_word (take 4 (fst (ClientSession_Send (WriteData_string [7] BinaryWriter_new))))
      :: 32 word) = 8
    \<and> drop 10 (fst (ClientSession_Send (WriteData_string [7] BinaryWriter_new))) = [1, 7]"
proof -
  have bytes: "toString (WriteData_string [7] BinaryWriter_new) = [1, 7]"
    by code_simp
  have len: "length (fst (ClientSession_Send (WriteData_string [7] BinaryWriter_new))) = 12"
    by (simp add: ClientSession_frame_bytes bytes)
  show ?thesis
    using client_frame [of "WriteData_string [7] BinaryWriter_new"] len by (simp add: bytes)
qed

section \<open>Where the two classes do not fit together\<close>

text \<open>
  \<^verbatim>\<open>ReadInt32\<close> compares with \<^verbatim>\<open>>=\<close>: an integer that ends exactly at the end of the
  buffer is refused, while \<^verbatim>\<open>ReadData<int>\<close> accepts it.
\<close>

lemma ReadInt32_refuses_last:
  assumes "unat (r_index r) + 4 = length (r_buffer r)"
  shows "ReadInt32 r = None" and "\<exists>d. ReadData 4 r = Some (d :: 32 word, r\<lparr>r_index := r_index r + 4\<rparr>)"
  using assms by (simp_all add: ReadInt32_def ReadData_def)

text \<open>
  \<^verbatim>\<open>ReadData(string&)\<close> trusts the length on the wire: one byte announcing five bytes
  that are not there makes it read past the buffer.
\<close>

lemma ReadData_string_overread: "ReadData_string (BinaryReader_of [5]) = Inl Out_Of_Range"
  by code_simp

text \<open>
  Assigning a string to a writer leaves \<^verbatim>\<open>m_index\<close> at 0, so the next integer written
  replaces the assigned bytes instead of following them.
\<close>

lemma writer_assign_lost: "toString (WriteData n d (writer_assign s w)) = le_bytes n d"
  by (simp add: toString_def WriteData_def writer_assign_def writer_Clear_def list_write_def
      resize_def)

end
