(* ===== verification/MD5_Hash.thy ===== *)
theory MD5_Hash
  imports Server_Prelude
begin

text \<open>
  The class \<^verbatim>\<open>MD5\<close> of FileServer/MD5.cpp: its macros, the unrolled block function,
  the incremental \<^verbatim>\<open>update\<close> with the buffered remainder and the 64-bit bit count kept in
  two 32-bit words, \<^verbatim>\<open>final\<close>, \<^verbatim>\<open>digest\<close> and the hexadecimal form. The reference is
  RFC 1321: padding of the whole message and one table-driven compression per block.
\<close>

section \<open>Macros and tables\<close>

definition F :: "32 word \<Rightarrow> 32 word \<Rightarrow> 32 word \<Rightarrow> 32 word" where
  "F x y z = (x AND y) OR (NOT x AND z)"
definition G :: "32 word \<Rightarrow> 32 word \<Rightarrow> 32 word \<Rightarrow> 32 word" where
  "G x y z = (x AND z) OR (y AND NOT z)"
definition H :: "32 word \<Rightarrow> 32 word \<Rightarrow> 32 word \<Rightarrow> 32 word" where
  "H x y z = x XOR y XOR z"
definition I :: "32 word \<Rightarrow> 32 word \<Rightarrow> 32 word \<Rightarrow> 32 word" where
  "I x y z = y XOR (x OR NOT z)"

definition ROTATE_LEFT :: "32 word \<Rightarrow> nat \<Rightarrow> 32 word" where
  "ROTATE_LEFT x n = push_bit n x OR drop_bit (32 - n) x"

definition FF :: "32 word \<Rightarrow> 32 word \<Rightarrow> 32 word \<Rightarrow> 32 word \<Rightarrow> 32 word \<Rightarrow> nat \<Rightarrow> 32 word \<Rightarrow> 32 word" where
  "FF a b c d x s ac = ROTATE_LEFT (a + (F b c d + x + ac)) s + b"
definition GG :: "32 word \<Rightarrow> 32 word \<Rightarrow> 32 word \<Rightarrow> 32 word \<Rightarrow> 32 word \<Rightarrow> nat \<Rightarrow> 32 word \<Rightarrow> 32 word" where
  "GG a b c d x s ac = ROTATE_LEFT (a + (G b c d + x + ac)) s + b"
definition HH :: "32 word \<Rightarrow> 32 word \<Rightarrow> 32 word \<Rightarrow> 32 word \<Rightarrow> 32 word \<Rightarrow> nat \<Rightarrow> 32 word \<Rightarrow> 32 word" where
  "HH a b c d x s ac = ROTATE_LEFT (a + (H b c d + x + ac)) s + b"
definition II :: "32 word \<Rightarrow> 32 word \<Rightarrow> 32 word \<Rightarrow> 32 word \<Rightarrow> 32 word \<Rightarrow> nat \<Rightarrow> 32 word \<Rightarrow> 32 word" where
  "II a b c d x s ac = ROTATE_LEFT (a + (I b c d + x + ac)) s + b"

abbreviation (input) S11 :: nat where "S11 \<equiv> 7"
abbreviation (input) S12 :: nat where "S12 \<equiv> 12"
abbreviation (input) S13 :: nat where "S13 \<equiv> 17"
abbreviation (input) S14 :: nat where "S14 \<equiv> 22"
abbreviation (input) S21 :: nat where "S21 \<equiv> 5"
abbreviation (input) S22 :: nat where "S22 \<equiv> 9"
abbreviation (input) S23 :: nat where "S23 \<equiv> 14"
abbreviation (input) S24 :: nat where "S24 \<equiv> 20"
abbreviation (input) S31 :: nat where "S31 \<equiv> 4"
abbreviation (input) S32 :: nat where "S32 \<equiv> 11"
abbreviation (input) S33 :: nat where "S33 \<equiv> 16"
abbreviation (input) S34 :: nat where "S34 \<equiv> 23"
abbreviation (input) S41 :: nat where "S41 \<equiv> 6"
abbreviation (input) S42 :: nat where "S42 \<equiv> 10"
abbreviation (input) S43 :: nat where "S43 \<equiv> 15"
abbreviation (input) S44 :: nat where "S44 \<equiv> 21"

definition PADDING :: "byte list" where
  "PADDING = 0x80 # replicate 63 0"

definition HEX :: string where
  "HEX = ''0123456789abcdef''"

section \<open>State\<close>

type_synonym quad = "32 word \<times> 32 word \<times> 32 word \<times> 32 word"

record MD5 =
  md5_state :: quad
  md5_count :: "32 word \<times> 32 word"
  md5_buffer :: "byte list"
  md5_digest :: "byte list"
  md5_finished :: bool

section \<open>Words and bytes\<close>

fun encode :: "32 word list \<Rightarrow> byte list" where
  "encode [] = []"
| "encode (w # ws) =
     ucast (w AND 0xff) # ucast (drop_bit 8 w AND 0xff) # ucast (drop_bit 16 w AND 0xff)
     # ucast (drop_bit 24 w AND 0xff) # encode ws"

fun decode :: "byte list \<Rightarrow> 32 word list" where
  "decode (b0 # b1 # b2 # b3 # bs) =
     (ucast b0 OR push_bit 8 (ucast b1) OR push_bit 16 (ucast b2) OR push_bit 24 (ucast b3))
     # decode bs"
| "decode _ = []"

fun bytesToHexString :: "byte list \<Rightarrow> string" where
  "bytesToHexString [] = []"
| "bytesToHexString (t # ts) =
     HEX ! (unat t div 16) # HEX ! (unat t mod 16) # bytesToHexString ts"

section \<open>The block function\<close>

definition transform_rounds :: "32 word list \<Rightarrow> quad \<Rightarrow> quad" where
  "transform_rounds x st =
     (case st of (a, b, c, d) \<Rightarrow>
      let
          a = FF a b c d (x ! 0) S11 0xd76aa478;
          d = FF d a b c (x ! 1) S12 0xe8c7b756;
          c = FF c d a b (x ! 2) S13 0x242070db;
          b = FF b c d a (x ! 3) S14 0xc1bdceee;
          a = FF a b c d (x ! 4) S11 0xf57c0faf;
          d = FF d a b c (x ! 5) S12 0x4787c62a;
          c = FF c d a b (x ! 6) S13 0xa8304613;
          b = FF b c d a (x ! 7) S14 0xfd469501;
          a = FF a b c d (x ! 8) S11 0x698098d8;
          d = FF d a b c (x ! 9) S12 0x8b44f7af;
          c = FF c d a b (x ! 10) S13 0xffff5bb1;
          b = FF b c d a (x ! 11) S14 0x895cd7be;
          a = FF a b c d (x ! 12) S11 0x6b901122;
          d = FF d a b c (x ! 13) S12 0xfd987193;
          c = FF c d a b (x ! 14) S13 0xa679438e;
          b = FF b c d a (x ! 15) S14 0x49b40821;
          a = GG a b c d (x ! 1) S21 0xf61e2562;
          d = GG d a b c (x ! 6) S22 0xc040b340;
          c = GG c d a b (x ! 11) S23 0x265e5a51;
          b = GG b c d a (x ! 0) S24 0xe9b6c7aa;
          a = GG a b c d (x ! 5) S21 0xd62f105d;
          d = GG d a b c (x ! 10) S22 0x2441453;
          c = GG c d a b (x ! 15) S23 0xd8a1e681;
          b = GG b c d a (x ! 4) S24 0xe7d3fbc8;
          a = GG a b c d (x ! 9) S21 0x21e1cde6;
          d = GG d a b c (x ! 14) S22 0xc33707d6;
          c = GG c d a b (x ! 3) S23 0xf4d50d87;
          b = GG b c d a (x ! 8) S24 0x455a14ed;
          a = GG a b c d (x ! 13) S21 0xa9e3e905;
          d = GG d a b c (x ! 2) S22 0xfcefa3f8;
          c = GG c d a b (x ! 7) S23 0x676f02d9;
          b = GG b c d a (x ! 12) S24 0x8d2a4c8a;
          a = HH a b c d (x ! 5) S31 0xfffa3942;
          d = HH d a b c (x ! 8) S32 0x8771f681;
          c = HH c d a b (x ! 11) S33 0x6d9d6122;
          b = HH b c d a (x ! 14) S34 0xfde5380c;
          a = HH a b c d (x ! 1) S31 0xa4beea44;
          d = HH d a b c (x ! 4) S32 0x4bdecfa9;
          c = HH c d a b (x ! 7) S33 0xf6bb4b60;
          b = HH b c d a (x ! 10) S34 0xbebfbc70;
          a = HH a b c d (x ! 13) S31 0x289b7ec6;
          d = HH d a b c (x ! 0) S32 0xeaa127fa;
          c = HH c d a b (x ! 3) S33 0xd4ef3085;
          b = HH b c d a (x ! 6) S34 0x4881d05;
          a = HH a b c d (x ! 9) S31 0xd9d4d039;
          d = HH d a b c (x ! 12) S32 0xe6db99e5;
          c = HH c d a b (x ! 15) S33 0x1fa27cf8;
          b = HH b c d a (x ! 2) S34 0xc4ac5665;
          a = II a b c d (x ! 0) S41 0xf4292244;
          d = II d a b c (x ! 7) S42 0x432aff97;
          c = II c d a b (x ! 14) S43 0xab9423a7;
          b = II b c d a (x ! 5) S44 0xfc93a039;
          a = II a b c d (x ! 12) S41 0x655b59c3;
          d = II d a b c (x ! 3) S42 0x8f0ccc92;
          c = II c d a b (x ! 10) S43 0xffeff47d;
          b = II b c d a (x ! 1) S44 0x85845dd1;
          a = II a b c d (x ! 8) S41 0x6fa87e4f;
          d = II d a b c (x ! 15) S42 0xfe2ce6e0;
          c = II c d a b (x ! 6) S43 0xa3014314;
          b = II b c d a (x ! 13) S44 0x4e0811a1;
          a = II a b c d (x ! 4) S41 0xf7537e82;
          d = II d a b c (x ! 11) S42 0xbd3af235;
          c = II c d a b (x ! 2) S43 0x2ad7d2bb;
          b = II b c d a (x ! 9) S44 0xeb86d391
      in (a, b, c, d))"

definition transform :: "byte list \<Rightarrow> quad \<Rightarrow> quad" where
  "transform block st =
     (case transform_rounds (decode block) st of (a, b, c, d) \<Rightarrow>
      case st of (s0, s1, s2, s3) \<Rightarrow> (s0 + a, s1 + b, s2 + c, s3 + d))"

section \<open>Operations\<close>

definition md5_reset :: "MD5 \<Rightarrow> MD5" where
  "md5_reset m =
     m\<lparr>md5_finished := False, md5_count := (0, 0),
       md5_state := (0x67452301, 0xefcdab89, 0x98badcfe, 0x10325476)\<rparr>"

text \<open>
  The loop over whole blocks of the input. \<open>i\<close> is a \<^verbatim>\<open>uint32\<close> compared as \<open>i + 63\<close> (which
  wraps) with a \<^verbatim>\<open>size_t\<close>; once the sum wraps below the length the loop cannot end.
\<close>

function update_loop :: "byte list \<Rightarrow> nat \<Rightarrow> quad \<Rightarrow> (nat \<times> quad) res" where
  "update_loop input i st =
     (if i + 63 < 2 ^ 32 then
        (if i + 63 < length input
         then update_loop input (i + 64) (transform (take 64 (drop i input)) st)
         else Inr (i, st))
      else if (i + 63) mod 2 ^ 32 < length input then Inl Diverges
      else Inr (i, st))"
  by pat_completeness auto
termination
  by (relation "measure (\<lambda>(input, i, st). length input - i)") auto

declare update_loop.simps [simp del]

definition count_add :: "nat \<Rightarrow> 32 word \<times> 32 word \<Rightarrow> 32 word \<times> 32 word" where
  "count_add len c =
     (let inc = push_bit 3 (of_nat len :: 32 word);
          c0 = fst c + inc;
          c1 = (if c0 < inc then snd c + 1 else snd c)
      in (c0, c1 + drop_bit 29 (of_nat len)))"

definition md5_index :: "MD5 \<Rightarrow> nat" where
  "md5_index m = unat (drop_bit 3 (fst (md5_count m)) AND 0x3f)"

definition md5_update :: "byte list \<Rightarrow> MD5 \<Rightarrow> MD5 res" where
  "md5_update input m =
     (let index = md5_index m;
          m1 = m\<lparr>md5_finished := False, md5_count := count_add (length input) (md5_count m)\<rparr>;
          partLen = 64 - index
      in if length input \<ge> partLen
         then let buf = list_write index (take partLen input) (md5_buffer m1) in
              rbind (update_loop input partLen (transform buf (md5_state m1)))
                (\<lambda>(i, st). Inr (m1\<lparr>md5_state := st,
                    md5_buffer := list_write 0 (drop i input) buf\<rparr>))
         else Inr (m1\<lparr>md5_buffer := list_write index input (md5_buffer m1)\<rparr>))"

definition md5_final :: "MD5 \<Rightarrow> MD5 res" where
  "md5_final m =
     (let oldState = md5_state m; oldCount = md5_count m;
          bits = encode [fst (md5_count m), snd (md5_count m)];
          index = md5_index m;
          padLen = (if index < 56 then 56 - index else 120 - index)
      in rbind (md5_update (take padLen PADDING) m) (\<lambda>m1.
         rbind (md5_update bits m1) (\<lambda>m2.
           (case md5_state m2 of (a, b, c, d) \<Rightarrow>
             Inr (m2\<lparr>md5_digest := encode [a, b, c, d],
                     md5_state := oldState, md5_count := oldCount\<rparr>)))))"

definition digest :: "MD5 \<Rightarrow> (byte list \<times> MD5) res" where
  "digest m =
     (if \<not> md5_finished m
      then rbind (md5_final (m\<lparr>md5_finished := True\<rparr>)) (\<lambda>m'. Inr (md5_digest m', m'))
      else Inr (md5_digest m, m))"

definition md5_toString :: "MD5 \<Rightarrow> (string \<times> MD5) res" where
  "md5_toString m = rbind (digest m) (\<lambda>(d, m'). Inr (bytesToHexString (take 16 d), m'))"

text \<open>
  \<^verbatim>\<open>MD5(const string&)\<close>: the object's arrays hold whatever the memory held (\<open>m0\<close>).
\<close>

definition MD5_of :: "MD5 \<Rightarrow> byte list \<Rightarrow> MD5 res" where
  "MD5_of m0 str = md5_update str (md5_reset m0)"

text \<open>
  \<^verbatim>\<open>update(ifstream&)\<close>: the stream is read in pieces of \<^verbatim>\<open>BUFFER_SIZE\<close> until end of file.
\<close>

definition BUFFER_SIZE :: nat where "BUFFER_SIZE = 1024"

function md5_update_file :: "byte list \<Rightarrow> MD5 \<Rightarrow> MD5 res" where
  "md5_update_file contents m =
     (let chunk = take BUFFER_SIZE contents in
      if length contents < BUFFER_SIZE
      then (if length chunk > 0 then md5_update chunk m else Inr m)
      else rbind (md5_update chunk m) (md5_update_file (drop BUFFER_SIZE contents)))"
  by pat_completeness auto
termination
  by (relation "measure (\<lambda>(c, m). length c)") (auto simp: BUFFER_SIZE_def)

declare md5_update_file.simps [simp del]

section \<open>RFC 1321\<close>

text \<open>
  The standard's description: four rounds of sixteen operations
  \<open>a = b + ((a + f(b,c,d) + X[k] + T[i]) <<< s)\<close>, with the message word \<open>k\<close>, the
  rotation \<open>s\<close> and the table entry given by the position of the operation.
\<close>

datatype rfc_round = Round1 | Round2 | Round3 | Round4

definition rfc_T :: "32 word list" where
  "rfc_T =
    [0xd76aa478, 0xe8c7b756, 0x242070db, 0xc1bdceee, 0xf57c0faf, 0x4787c62a, 0xa8304613,
     0xfd469501, 0x698098d8, 0x8b44f7af, 0xffff5bb1, 0x895cd7be, 0x6b901122, 0xfd987193,
     0xa679438e, 0x49b40821, 0xf61e2562, 0xc040b340, 0x265e5a51, 0xe9b6c7aa, 0xd62f105d,
     0x2441453, 0xd8a1e681, 0xe7d3fbc8, 0x21e1cde6, 0xc33707d6, 0xf4d50d87, 0x455a14ed,
     0xa9e3e905, 0xfcefa3f8, 0x676f02d9, 0x8d2a4c8a, 0xfffa3942, 0x8771f681, 0x6d9d6122,
     0xfde5380c, 0xa4beea44, 0x4bdecfa9, 0xf6bb4b60, 0xbebfbc70, 0x289b7ec6, 0xeaa127fa,
     0xd4ef3085, 0x4881d05, 0xd9d4d039, 0xe6db99e5, 0x1fa27cf8, 0xc4ac5665, 0xf4292244,
     0x432aff97, 0xab9423a7, 0xfc93a039, 0x655b59c3, 0x8f0ccc92, 0xffeff47d, 0x85845dd1,
     0x6fa87e4f, 0xfe2ce6e0, 0xa3014314, 0x4e0811a1, 0xf7537e82, 0xbd3af235, 0x2ad7d2bb,
     0xeb86d391]"

definition rfc_round_of :: "nat \<Rightarrow> rfc_round" where
  "rfc_round_of i = (if i < 16 then Round1 else if i < 32 then Round2
                     else if i < 48 then Round3 else Round4)"

definition rfc_k :: "nat \<Rightarrow> nat" where
  "rfc_k i = (case rfc_round_of i of Round1 \<Rightarrow> i | Round2 \<Rightarrow> (5 * i + 1) mod 16
              | Round3 \<Rightarrow> (3 * i + 5) mod 16 | Round4 \<Rightarrow> (7 * i) mod 16)"

definition rfc_s :: "nat \<Rightarrow> nat" where
  "rfc_s i = (case rfc_round_of i of Round1 \<Rightarrow> [7, 12, 17, 22] | Round2 \<Rightarrow> [5, 9, 14, 20]
              | Round3 \<Rightarrow> [4, 11, 16, 23] | Round4 \<Rightarrow> [6, 10, 15, 21]) ! (i mod 4)"

fun rfc_f :: "rfc_round \<Rightarrow> 32 word \<Rightarrow> 32 word \<Rightarrow> 32 word \<Rightarrow> 32 word" where
  "rfc_f Round1 b c d = (b AND c) OR (NOT b AND d)"
| "rfc_f Round2 b c d = (b AND d) OR (c AND NOT d)"
| "rfc_f Round3 b c d = b XOR c XOR d"
| "rfc_f Round4 b c d = c XOR (b OR NOT d)"

definition rfc_op ::
    "rfc_round \<Rightarrow> 32 word \<Rightarrow> 32 word \<Rightarrow> 32 word \<Rightarrow> 32 word \<Rightarrow> 32 word \<Rightarrow> nat \<Rightarrow> 32 word \<Rightarrow> 32 word" where
  "rfc_op r a b c d x s t = b + word_rotl s (a + rfc_f r b c d + x + t)"

fun rfc_run :: "(rfc_round \<times> nat \<times> nat \<times> 32 word) list \<Rightarrow> 32 word list \<Rightarrow> quad \<Rightarrow> quad" where
  "rfc_run [] x q = q"
| "rfc_run ((r, k, s, t) # ops) x (a, b, c, d) =
     (let b' = rfc_op r a b c d (x ! k) s t in rfc_run ops x (d, b', b, c))"

definition rfc_ops :: "(rfc_round \<times> nat \<times> nat \<times> 32 word) list" where
  "rfc_ops = map (\<lambda>i. (rfc_round_of i, rfc_k i, rfc_s i, rfc_T ! i)) [0..<64]"

definition rfc_words :: "byte list \<Rightarrow> 32 word list" where
  "rfc_words block = map (\<lambda>i. le_word (take 4 (drop (4 * i) block))) [0..<16]"

definition rfc_block :: "quad \<Rightarrow> byte list \<Rightarrow> quad" where
  "rfc_block q block =
     (case rfc_run rfc_ops (rfc_words block) q of (a, b, c, d) \<Rightarrow>
      case q of (s0, s1, s2, s3) \<Rightarrow> (s0 + a, s1 + b, s2 + c, s3 + d))"

fun blocks :: "byte list \<Rightarrow> byte list list" where
  "blocks bs = (if length bs < 64 then [] else take 64 bs # blocks (drop 64 bs))"

declare blocks.simps [simp del]

definition rfc_init :: quad where
  "rfc_init = (0x67452301, 0xefcdab89, 0x98badcfe, 0x10325476)"

definition rfc_pad :: "byte list \<Rightarrow> byte list" where
  "rfc_pad msg =
     msg @ [0x80] @ replicate ((119 - length msg mod 64) mod 64) 0
     @ le_bytes 8 (of_nat (8 * length msg) :: 64 word)"

definition rfc_md5 :: "byte list \<Rightarrow> byte list" where
  "rfc_md5 msg =
     (case foldl rfc_block rfc_init (blocks (rfc_pad msg)) of (a, b, c, d) \<Rightarrow>
      le_bytes 4 a @ le_bytes 4 b @ le_bytes 4 c @ le_bytes 4 d)"

section \<open>The unrolled block function is the standard's\<close>

lemma rotate_left_word_rotl:
  assumes "0 < n" and "n < 32"
  shows "ROTATE_LEFT x n = word_rotl n x"
proof (rule bit_word_eqI)
  fix k
  assume k: "k < LENGTH(32)"
  show "bit (ROTATE_LEFT x n) k = bit (word_rotl n x) k"
  proof (cases "n \<le> k")
    case True
    then have "k + 32 - n = (k - n) + 32" by simp
    then have "(k + 32 - n) mod 32 = k - n" using k by (simp only: mod_add_self2) simp
    moreover have "\<not> bit x (32 - n + k)"
      using True assms by (auto dest: bit_imp_le_length)
    ultimately show ?thesis
      using k True assms by (simp add: ROTATE_LEFT_def bit_simps)
  next
    case False
    then have "(k + 32 - n) mod 32 = 32 - n + k" using assms by simp
    then show ?thesis
      using k False assms by (simp add: ROTATE_LEFT_def bit_simps)
  qed
qed

lemma rfc_op_macros:
  assumes "0 < s" and "s < 32"
  shows "rfc_op Round1 a b c d x s t = FF a b c d x s t"
    and "rfc_op Round2 a b c d x s t = GG a b c d x s t"
    and "rfc_op Round3 a b c d x s t = HH a b c d x s t"
    and "rfc_op Round4 a b c d x s t = II a b c d x s t"
  by (simp_all add: rfc_op_def FF_def GG_def HH_def II_def F_def G_def H_def I_def
      rotate_left_word_rotl [OF assms] ac_simps)

lemma rfc_ops_explicit: "rfc_ops =
  [(Round1,0,7,0xd76aa478), (Round1,1,12,0xe8c7b756), (Round1,2,17,0x242070db),
   (Round1,3,22,0xc1bdceee), (Round1,4,7,0xf57c0faf), (Round1,5,12,0x4787c62a),
   (Round1,6,17,0xa8304613), (Round1,7,22,0xfd469501), (Round1,8,7,0x698098d8),
   (Round1,9,12,0x8b44f7af), (Round1,10,17,0xffff5bb1), (Round1,11,22,0x895cd7be),
   (Round1,12,7,0x6b901122), (Round1,13,12,0xfd987193), (Round1,14,17,0xa679438e),
   (Round1,15,22,0x49b40821), (Round2,1,5,0xf61e2562), (Round2,6,9,0xc040b340),
   (Round2,11,14,0x265e5a51), (Round2,0,20,0xe9b6c7aa), (Round2,5,5,0xd62f105d),
   (Round2,10,9,0x2441453), (Round2,15,14,0xd8a1e681), (Round2,4,20,0xe7d3fbc8),
   (Round2,9,5,0x21e1cde6), (Round2,14,9,0xc33707d6), (Round2,3,14,0xf4d50d87),
   (Round2,8,20,0x455a14ed), (Round2,13,5,0xa9e3e905), (Round2,2,9,0xfcefa3f8),
   (Round2,7,14,0x676f02d9), (Round2,12,20,0x8d2a4c8a), (Round3,5,4,0xfffa3942),
   (Round3,8,11,0x8771f681), (Round3,11,16,0x6d9d6122), (Round3,14,23,0xfde5380c),
   (Round3,1,4,0xa4beea44), (Round3,4,11,0x4bdecfa9), (Round3,7,16,0xf6bb4b60),
   (Round3,10,23,0xbebfbc70), (Round3,13,4,0x289b7ec6), (Round3,0,11,0xeaa127fa),
   (Round3,3,16,0xd4ef3085), (Round3,6,23,0x4881d05), (Round3,9,4,0xd9d4d039),
   (Round3,12,11,0xe6db99e5), (Round3,15,16,0x1fa27cf8), (Round3,2,23,0xc4ac5665),
   (Round4,0,6,0xf4292244), (Round4,7,10,0x432aff97), (Round4,14,15,0xab9423a7),
   (Round4,5,21,0xfc93a039), (Round4,12,6,0x655b59c3), (Round4,3,10,0x8f0ccc92),
   (Round4,10,15,0xffeff47d), (Round4,1,21,0x85845dd1), (Round4,8,6,0x6fa87e4f),
   (Round4,15,10,0xfe2ce6e0), (Round4,6,15,0xa3014314), (Round4,13,21,0x4e0811a1),
   (Round4,4,6,0xf7537e82), (Round4,11,10,0xbd3af235), (Round4,2,15,0x2ad7d2bb),
   (Round4,9,21,0xeb86d391)]"
  by code_simp

lemma rfc_run_code [code]:
  "rfc_run [] x q = q"
  "rfc_run ((r, k, s, t) # ops) x (a, b, c, d)
    = rfc_run ops x (d, rfc_op r a b c d (x ! k) s t, b, c)"
  by (simp_all add: Let_def)

lemma transform_rounds_rfc [code]: "transform_rounds x q = rfc_run rfc_ops x q"
proof -
  obtain a b c d where q: "q = (a, b, c, d)" by (cases q)
  show ?thesis
    unfolding q transform_rounds_def prod.case rfc_ops_explicit
    by (simp only: rfc_run.simps rfc_op_macros zero_less_numeral numeral_less_iff
        num.distinct less_num_simps)
qed

lemma le_word_4:
  "le_word [b0, b1, b2, b3]
    = (ucast b0 OR push_bit 8 (ucast b1) OR push_bit 16 (ucast b2) OR push_bit 24 (ucast b3)
       :: 32 word)"
  by (simp add: push_bit_or or.assoc)

lemma decode_rfc_words_gen:
  "length bs = 4 * n \<Longrightarrow> decode bs = map (\<lambda>i. le_word (take 4 (drop (4 * i) bs))) [0..<n]"
proof (induction n arbitrary: bs)
  case (Suc n)
  then obtain b0 b1 b2 b3 cs where bs: "bs = b0 # b1 # b2 # b3 # cs" and cs: "length cs = 4 * n"
    by (auto simp: length_Suc_conv numeral_eq_Suc)
  have "[0..<Suc n] = 0 # map Suc [0..<n]"
    by (simp only: upt_conv_Cons zero_less_Suc map_Suc_upt)
  moreover have "take 4 bs = [b0, b1, b2, b3]"
    by (simp add: bs numeral_eq_Suc)
  moreover have "drop (4 * Suc i) bs = drop (4 * i) cs" for i
  proof -
    have "drop (4 * Suc i) bs = drop (4 * i) (drop 4 bs)" by (simp add: add.commute)
    also have "drop 4 bs = cs" by (simp add: bs numeral_eq_Suc)
    finally show ?thesis .
  qed
  ultimately show ?case
    using Suc.IH [OF cs] by (simp add: bs le_word_4 comp_def del: le_word.simps)
qed simp

lemma transform_rfc: "length block = 64 \<Longrightarrow> transform block q = rfc_block q block"
  using decode_rfc_words_gen [of block 16]
  by (simp add: transform_def rfc_block_def transform_rounds_rfc rfc_words_def)

lemma ucast_and_ff: "(ucast (v AND 0xff) :: byte) = ucast (v :: 32 word)"
proof (rule word_eq_unatI)
  have "unat (v AND mask 8) mod 256 = unat v mod 256"
    unfolding unat_and_low_mask by simp
  then show "unat (ucast (v AND 0xff) :: byte) = unat (ucast v :: byte)"
    by (simp add: unat_ucast_mod mask_eq_decr_exp)
qed

lemma le_bytes_4:
  "le_bytes 4 w = [ucast w, ucast (drop_bit 8 w), ucast (drop_bit 16 w), ucast (drop_bit 24 w)]"
proof -
  have "le_bytes (Suc (Suc (Suc (Suc 0)))) w
      = [ucast w, ucast (drop_bit 8 w), ucast (drop_bit 16 w), ucast (drop_bit 24 w)]"
    by simp
  moreover have "(4::nat) = Suc (Suc (Suc (Suc 0)))" by simp
  ultimately show ?thesis by (simp only:)
qed

lemma encode_le_bytes: "encode ws = concat (map (le_bytes 4) ws)"
  by (induction ws) (simp_all add: ucast_and_ff le_bytes_4)

section \<open>Blocks and the remainder\<close>

fun block_rest :: "byte list \<Rightarrow> byte list" where
  "block_rest bs = (if length bs < 64 then bs else block_rest (drop 64 bs))"

declare block_rest.simps [simp del]

lemma length_block_rest: "length (block_rest bs) = length bs mod 64"
proof (induction bs rule: block_rest.induct)
  case (1 bs)
  then show ?case
    by (cases "length bs < 64") (simp_all add: block_rest.simps [of bs] le_mod_geq)
qed

lemma blocks_append: "blocks (xs @ ys) = blocks xs @ blocks (block_rest xs @ ys)"
proof (induction xs rule: blocks.induct)
  case (1 xs)
  then show ?case
    by (cases "length xs < 64")
       (simp_all add: blocks.simps [of xs] blocks.simps [of "xs @ ys"] block_rest.simps [of xs])
qed

lemma block_rest_append: "block_rest (xs @ ys) = block_rest (block_rest xs @ ys)"
proof (induction xs rule: blocks.induct)
  case (1 xs)
  then show ?case
    by (cases "length xs < 64")
       (simp_all add: block_rest.simps [of "xs @ ys"] block_rest.simps [of xs])
qed

lemma blocks_short [simp]: "length bs < 64 \<Longrightarrow> blocks bs = []"
  by (simp add: blocks.simps [of bs])

lemma block_rest_short [simp]: "length bs < 64 \<Longrightarrow> block_rest bs = bs"
  by (simp add: block_rest.simps [of bs])

lemma blocks_one:
  "length xs = 64 \<Longrightarrow> blocks (xs @ ys) = xs # blocks ys \<and> block_rest (xs @ ys) = block_rest ys"
  by (simp add: blocks.simps [of "xs @ ys"] block_rest.simps [of "xs @ ys"])

section \<open>The bit count\<close>

definition count_val :: "32 word \<times> 32 word \<Rightarrow> nat" where
  "count_val c = unat (fst c) + 2 ^ 32 * unat (snd c)"

lemma add_carry:
  fixes a b c d :: nat
  assumes "a < 2 ^ 32" and "b < 2 ^ 32"
  shows "(a + b) mod 2 ^ 32
      + 2 ^ 32 * ((c + (if (a + b) mod 2 ^ 32 < b then 1 else 0) + d) mod 2 ^ 32)
    = (a + 2 ^ 32 * c + (b + 2 ^ 32 * d)) mod 2 ^ 64"
proof -
  have carry: "(a + b) div 2 ^ 32 = (if (a + b) mod 2 ^ 32 < b then 1 else 0)"
    using assms by (cases "a + b < 2 ^ 32") (auto simp: le_div_geq le_mod_geq)
  let ?X = "(a + b) + 2 ^ 32 * (c + d)"
  have "?X mod (2 ^ 32 * 2 ^ 32) = 2 ^ 32 * (?X div 2 ^ 32 mod 2 ^ 32) + ?X mod 2 ^ 32"
    by (rule mod_mult2_eq)
  moreover have "?X div 2 ^ 32 = c + (a + b) div 2 ^ 32 + d"
    by simp
  moreover have "?X mod 2 ^ 32 = (a + b) mod 2 ^ 32"
    by (rule mod_mult_self2)
  moreover have "a + 2 ^ 32 * c + (b + 2 ^ 32 * d) = ?X" by simp
  ultimately show ?thesis by (simp only: carry) simp
qed

lemma count_add_val:
  assumes "n < 2 ^ 32"
  shows "count_val (count_add n c) = (count_val c + 8 * n) mod 2 ^ 64"
proof -
  obtain c0 c1 where c: "c = (c0, c1)" by (cases c)
  obtain lo hi where lo: "lo = (8 * n) mod 2 ^ 32" and hi: "hi = (8 * n) div 2 ^ 32" by blast
  have inc: "unat (push_bit 3 (of_nat n :: 32 word)) = lo"
    using assms unfolding lo
    by (simp add: push_bit_eq_mult unat_word_ariths unat_of_nat_mod mult.commute)
  have drop: "unat (drop_bit 29 (of_nat n :: 32 word)) = hi"
    using assms unfolding hi by (simp add: unat_drop_bit_div unat_of_nat_mod)
  have split: "8 * n = lo + 2 ^ 32 * hi"
    unfolding lo hi by (rule mod_mult_div_eq [symmetric])
  have c0': "unat (c0 + push_bit 3 (of_nat n)) = (unat c0 + lo) mod 2 ^ 32"
    by (simp add: unat_word_ariths inc)
  have c1': "unat (snd (count_add n c))
      = (unat c1 + (if (unat c0 + lo) mod 2 ^ 32 < lo then 1 else 0) + hi) mod 2 ^ 32"
    by (simp add: count_add_def Let_def c word_less_nat_alt c0' inc)
       (simp add: unat_word_ariths drop mod_simps)
  have "unat c0 < 2 ^ 32" and "lo < 2 ^ 32"
    using unsigned_less [of c0, where 'a = nat] by (simp_all add: lo)
  from add_carry [OF this, of "unat c1" hi] show ?thesis
    unfolding count_val_def c1' split by (simp add: count_add_def Let_def c c0')
qed

section \<open>Incremental hashing refines the standard\<close>

text \<open>
  \<open>absorbed m msg\<close>: the object has been fed exactly \<open>msg\<close> since its reset.
\<close>

definition absorbed :: "MD5 \<Rightarrow> byte list \<Rightarrow> bool" where
  "absorbed m msg \<longleftrightarrow>
     length (md5_buffer m) = 64
     \<and> md5_state m = foldl rfc_block rfc_init (blocks msg)
     \<and> take (length msg mod 64) (md5_buffer m) = block_rest msg
     \<and> count_val (md5_count m) = (8 * length msg) mod 2 ^ 64"

lemma absorbed_reset: "length (md5_buffer m) = 64 \<Longrightarrow> absorbed (md5_reset m) []"
  by (simp add: absorbed_def md5_reset_def count_val_def rfc_init_def)

lemma absorbed_index:
  assumes "absorbed m msg"
  shows "md5_index m = length msg mod 64"
proof -
  let ?c0 = "unat (fst (md5_count m))"
  have "count_val (md5_count m) mod 2 ^ 32 = ?c0"
    using unsigned_less [of "fst (md5_count m)", where 'a = nat] by (simp add: count_val_def)
  then have c0: "?c0 = (8 * length msg) mod 2 ^ 32"
    using assms by (simp add: absorbed_def mod_mod_cancel)
  have "(8 * length msg) mod (8 * 2 ^ 29) div 8 = length msg mod 2 ^ 29"
    by (subst mod_mult2_eq) simp
  then have "?c0 div 8 = length msg mod 2 ^ 29"
    unfolding c0 by simp
  moreover have "md5_index m = ?c0 div 8 mod 64"
    using unat_and_low_mask [of "drop_bit 3 (fst (md5_count m))" 6]
    by (simp add: md5_index_def unat_drop_bit_div mask_eq_decr_exp)
  ultimately show ?thesis by (simp add: mod_mod_cancel)
qed

lemma update_loop_blocks:
  assumes "length input + 64 < 2 ^ 32" and "i \<le> length input"
  shows "\<exists>j. update_loop input i st = Inr (j, foldl rfc_block st (blocks (drop i input)))
    \<and> drop j input = block_rest (drop i input)"
  using assms
proof (induction input i st rule: update_loop.induct)
  case (1 input i st)
  show ?case
  proof (cases "i + 63 < length input")
    case True
    then have len: "length (take 64 (drop i input)) = 64" by simp
    from True "1.prems" have i: "i + 63 < 2 ^ 32" by linarith
    let ?st' = "transform (take 64 (drop i input)) st"
    have dr: "drop i input = take 64 (drop i input) @ drop (i + 64) input"
      using append_take_drop_id [of 64 "drop i input"] by (simp add: add.commute)
    have split: "blocks (drop i input) = take 64 (drop i input) # blocks (drop (i + 64) input)"
        "block_rest (drop i input) = block_rest (drop (i + 64) input)"
      using blocks_one [OF len, of "drop (i + 64) input"] dr by simp_all
    have "update_loop input i st = update_loop input (i + 64) ?st'"
      using True i by (subst update_loop.simps) simp
    moreover have "\<exists>j. update_loop input (i + 64) ?st'
        = Inr (j, foldl rfc_block ?st' (blocks (drop (i + 64) input)))
        \<and> drop j input = block_rest (drop (i + 64) input)"
      using True i "1.prems" by (intro "1.IH") auto
    ultimately show ?thesis
      by (simp add: split transform_rfc [OF len])
  next
    case False
    with "1.prems" have "i + 63 < 2 ^ 32" by linarith
    with False show ?thesis by (simp add: update_loop.simps [of input i st])
  qed
qed

lemma update_absorbs:
  assumes abs: "absorbed m msg" and len: "length input + 64 < 2 ^ 32"
  shows "\<exists>m'. md5_update input m = Inr m' \<and> absorbed m' (msg @ input)"
proof -
  have idx: "md5_index m = length (block_rest msg)"
    using absorbed_index [OF abs] by (simp add: length_block_rest)
  let ?n = "length (block_rest msg)"
  have n: "?n < 64" by (simp add: length_block_rest)
  have buf: "length (md5_buffer m) = 64" and rest: "take ?n (md5_buffer m) = block_rest msg"
    and st: "md5_state m = foldl rfc_block rfc_init (blocks msg)"
    using abs by (simp_all add: absorbed_def length_block_rest)
  have count: "count_val (count_add (length input) (md5_count m)) = (8 * length (msg @ input)) mod 2 ^ 64"
    using abs len by (simp add: count_add_val absorbed_def mod_simps algebra_simps)
  have tail: "length (msg @ input) mod 64 = length (block_rest (msg @ input))"
    by (simp add: length_block_rest)
  show ?thesis
  proof (cases "length input \<ge> 64 - ?n")
    case True
    let ?p = "64 - ?n"
    let ?buf = "list_write ?n (take ?p input) (md5_buffer m)"
    have full: "?buf = block_rest msg @ take ?p input"
      using True n buf rest by (simp add: list_write_def)
    have l64: "length ?buf = 64" using full True n by simp
    obtain j where j: "update_loop input ?p (rfc_block (md5_state m) ?buf)
        = Inr (j, foldl rfc_block (rfc_block (md5_state m) ?buf) (blocks (drop ?p input)))"
      and dj: "drop j input = block_rest (drop ?p input)"
      using update_loop_blocks [OF len True, of "rfc_block (md5_state m) ?buf"] by blast
    have bl: "blocks (msg @ input) = blocks msg @ ?buf # blocks (drop ?p input)"
      and br: "block_rest (msg @ input) = block_rest (drop ?p input)"
      using blocks_append [of msg input] block_rest_append [of msg input]
        blocks_one [OF l64, of "drop ?p input"]
      by (simp_all add: full)
    have short: "length (drop j input) < 64" unfolding dj by (simp add: length_block_rest)
    let ?buf' = "list_write 0 (drop j input) ?buf"
    have l64': "length ?buf' = 64" 
      using length_list_write [of 0 "drop j input" ?buf] short unfolding l64 by simp
    have t: "take (length (msg @ input) mod 64) ?buf' = block_rest (msg @ input)"
      using take_list_write_end [of 0 ?buf "drop j input"] unfolding tail br dj by simp
    show ?thesis
      using True j count st l64' t
      by (simp add: md5_update_def Let_def idx transform_rfc [OF l64] absorbed_def bl)
  next
    case False
    then have small: "length (block_rest msg @ input) < 64" by simp
    have bl: "blocks (msg @ input) = blocks msg"
      and br: "block_rest (msg @ input) = block_rest msg @ input"
      using small blocks_append [of msg input] block_rest_append [of msg input] by simp_all
    have t: "take (length (msg @ input) mod 64) (list_write ?n input (md5_buffer m))
        = block_rest (msg @ input)"
      using take_list_write_end [of ?n "md5_buffer m" input] n buf rest
      unfolding tail br by simp
    show ?thesis
      using False count st small buf t
      by (simp add: md5_update_def Let_def idx absorbed_def bl)
  qed
qed

section \<open>The digest\<close>

lemma le_bytes_map: "le_bytes n w = map (\<lambda>i. ucast (drop_bit (8 * i) w)) [0..<n]"
proof (induction n arbitrary: w)
  case (Suc n)
  have "[0..<Suc n] = 0 # map Suc [0..<n]"
    by (simp only: upt_conv_Cons zero_less_Suc map_Suc_upt)
  then show ?case by (simp add: Suc comp_def add.commute)
qed simp

lemma le_bytes_ucast:
  assumes "8 * n \<le> LENGTH('b)"
  shows "le_bytes n (ucast w :: 'b::len word) = le_bytes n (w :: 'a::len word)"
proof -
  have "(ucast (drop_bit (8 * i) (ucast w :: 'b word)) :: byte) = ucast (drop_bit (8 * i) w)"
    if "i < n" for i
    using that assms by (intro bit_word_eqI) (auto simp: bit_simps)
  then show ?thesis by (simp add: le_bytes_map)
qed

lemma le_bytes_append: "le_bytes (m + n) w = le_bytes m w @ le_bytes n (drop_bit (8 * m) w)"
  by (induction m arbitrary: w) (simp_all add: add.commute)

lemma count_bytes:
  assumes "count_val c = (8 * n) mod 2 ^ 64"
  shows "encode [fst c, snd c] = le_bytes 8 (of_nat (8 * n) :: 64 word)"
proof -
  let ?w = "of_nat (8 * n) :: 64 word"
  have w: "unat ?w = unat (fst c) + 2 ^ 32 * unat (snd c)"
    using assms by (simp add: unat_of_nat_mod count_val_def del: of_nat_mult)
  have lt: "unat (fst c) < 2 ^ 32" "unat (snd c) < 2 ^ 32"
    using unsigned_less [of "fst c", where 'a = nat] unsigned_less [of "snd c", where 'a = nat]
    by simp_all
  have lo: "fst c = ucast ?w"
    using w lt by (intro word_eq_unatI) (simp add: unat_ucast_mod del: of_nat_mult)
  have hi: "snd c = ucast (drop_bit 32 ?w)"
    using w lt by (intro word_eq_unatI)
      (simp add: unat_ucast_mod unat_drop_bit_div del: of_nat_mult)
  have "le_bytes (4 + 4) ?w = le_bytes 4 (fst c) @ le_bytes 4 (snd c)"
    unfolding le_bytes_append lo hi by (simp add: le_bytes_ucast)
  then show ?thesis by (simp add: encode_le_bytes)
qed

lemma padding_bytes:
  assumes "k = length msg mod 64" and "p = (if k < 56 then 56 - k else 120 - k)"
  shows "msg @ take p PADDING @ le_bytes 8 (of_nat (8 * length msg) :: 64 word) = rfc_pad msg"
    and "length (msg @ take p PADDING) mod 64 = 56" and "p \<le> 64" and "0 < p"
proof -
  have k: "k < 64" using assms(1) by simp
  show p64: "p \<le> 64" and p0: "0 < p" using k assms(2) by (auto split: if_splits)
  have r: "(119 - k) mod 64 = p - 1"
    using k assms(2) by (cases "k < 56") (auto simp: le_mod_geq)
  have "take p PADDING = 0x80 # replicate (p - 1) 0"
    using p64 p0 by (cases p) (auto simp: PADDING_def take_Cons' min_def)
  then show "msg @ take p PADDING @ le_bytes 8 (of_nat (8 * length msg) :: 64 word) = rfc_pad msg"
    unfolding rfc_pad_def assms(1) [symmetric] r by simp
  have "length (msg @ take p PADDING) = length msg + p"
    using p64 by (simp add: PADDING_def)
  moreover have "(length msg + p) mod 64 = (k + p) mod 64"
    unfolding assms(1) by (simp add: mod_simps)
  moreover have "(k + p) mod 64 = 56"
    using k assms(2) by (cases "k < 56") auto
  ultimately show "length (msg @ take p PADDING) mod 64 = 56" by simp
qed

lemma absorbed_finished [simp]: "absorbed (m\<lparr>md5_finished := b\<rparr>) msg = absorbed m msg"
  by (simp add: absorbed_def)

lemma final_rfc:
  assumes "absorbed m msg"
  shows "\<exists>m1 m2. absorbed m1 (msg @ take (if md5_index m < 56 then 56 - md5_index m
                                          else 120 - md5_index m) PADDING)
    \<and> md5_update (encode [fst (md5_count m), snd (md5_count m)]) m1 = Inr m2
    \<and> absorbed m2 (rfc_pad msg)
    \<and> md5_final m = Inr (m2\<lparr>md5_digest := rfc_md5 msg, md5_state := md5_state m,
                            md5_count := md5_count m\<rparr>)"
proof -
  let ?k = "md5_index m"
  define p where "p = (if ?k < 56 then 56 - ?k else 120 - ?k)"
  have k: "?k = length msg mod 64" by (rule absorbed_index [OF assms])
  note pad = padding_bytes [OF k p_def]
  have bits: "encode [fst (md5_count m), snd (md5_count m)]
      = le_bytes 8 (of_nat (8 * length msg) :: 64 word)"
    using assms by (intro count_bytes) (simp add: absorbed_def)
  obtain m1 where m1: "md5_update (take p PADDING) m = Inr m1"
    and a1: "absorbed m1 (msg @ take p PADDING)"
    using update_absorbs [OF assms, of "take p PADDING"] pad(3) by (auto simp: min_def PADDING_def)
  obtain m2 where m2: "md5_update (le_bytes 8 (of_nat (8 * length msg) :: 64 word)) m1 = Inr m2"
    and a2: "absorbed m2 (rfc_pad msg)"
    using update_absorbs [OF a1, of "le_bytes 8 (of_nat (8 * length msg) :: 64 word)"] pad(1)
    by (auto simp: append_assoc)
  have "md5_final m = Inr (m2\<lparr>md5_digest := rfc_md5 msg, md5_state := md5_state m,
      md5_count := md5_count m\<rparr>)"
    using a2 m1 m2 unfolding md5_final_def Let_def p_def [symmetric] bits
    by (simp add: absorbed_def rfc_md5_def encode_le_bytes split: prod.splits)
  with a1 m2 a2 show ?thesis unfolding p_def [symmetric] bits by blast
qed

lemma digest_rfc:
  assumes "absorbed m msg" and "\<not> md5_finished m"
  shows "\<exists>m'. digest m = Inr (rfc_md5 msg, m')"
  using final_rfc [of "m\<lparr>md5_finished := True\<rparr>" msg] assms by (auto simp: digest_def)

lemma update_not_finished: "md5_update input m = Inr m' \<Longrightarrow> \<not> md5_finished m'"
  by (auto simp: md5_update_def Let_def rbind_eq_Inr_iff split: if_splits)

lemma update_length_bytes:
  assumes "md5_index m1 = 56" and "length bits = 8" and "md5_update bits m1 = Inr m2"
  shows "md5_buffer m2 = list_write 56 bits (md5_buffer m1)"
proof -
  have "update_loop bits 8 st = Inr (8, st)" for st
    using assms(2) by (simp add: update_loop.simps [of bits 8])
  with assms show ?thesis by (auto simp: md5_update_def Let_def)
qed

text \<open>
  The buffered remainder survives \<^verbatim>\<open>final\<close> only when the padding fits into the same block.
\<close>

lemma final_keeps_buffer:
  assumes "absorbed m msg" and "length msg mod 64 < 56" and "md5_final m = Inr m'"
  shows "absorbed m' msg"
proof -
  let ?p = "56 - md5_index m"
  have k: "md5_index m = length msg mod 64" by (rule absorbed_index [OF assms(1)])
  let ?bits = "encode [fst (md5_count m), snd (md5_count m)]"
  from final_rfc [OF assms(1)] k assms(2) obtain m1 m2 where
    a1: "absorbed m1 (msg @ take ?p PADDING)" and m2: "md5_update ?bits m1 = Inr m2"
    and a2: "absorbed m2 (rfc_pad msg)"
    and fin: "md5_final m = Inr (m2\<lparr>md5_digest := rfc_md5 msg, md5_state := md5_state m,
      md5_count := md5_count m\<rparr>)"
    by auto
  have p56: "length (msg @ take ?p PADDING) mod 64 = 56"
    using padding_bytes(2) [of "md5_index m" msg ?p] k assms(2) by simp
  have idx: "md5_index m1 = 56" using absorbed_index [OF a1] p56 by simp
  have len8: "length ?bits = 8" by simp
  have buf1: "length (md5_buffer m1) = 64"
    and t1: "take 56 (md5_buffer m1) = block_rest (msg @ take ?p PADDING)"
    using a1 p56 by (simp_all add: absorbed_def)
  have rest: "block_rest (msg @ take ?p PADDING) = block_rest msg @ take ?p PADDING"
  proof -
    have "length (block_rest msg @ take ?p PADDING) < 64"
      using assms(2) k by (simp add: length_block_rest)
    then show ?thesis using block_rest_append [of msg "take ?p PADDING"] by simp
  qed
  from update_length_bytes [OF idx len8 m2] have "take 56 (md5_buffer m2) = block_rest msg @ take ?p PADDING"
    using buf1 t1 rest by (simp add: take_list_write)
  then have "take (length msg mod 64) (take 56 (md5_buffer m2)) = block_rest msg"
    by (simp add: length_block_rest)
  then have "take (length msg mod 64) (md5_buffer m2) = block_rest msg"
    using assms(2) by (simp add: min_absorb1)
  with a2 assms(1,3) fin show ?thesis by (auto simp: absorbed_def)
qed

section \<open>Properties\<close>

fun md5_updates :: "byte list list \<Rightarrow> MD5 \<Rightarrow> MD5 res" where
  \<comment> \<open>a client's sequence of \<^verbatim>\<open>update\<close> calls\<close>
  "md5_updates [] m = Inr m"
| "md5_updates (c # cs) m = rbind (md5_update c m) (md5_updates cs)"

lemma updates_absorb:
  assumes "absorbed m msg" and "\<forall>c\<in>set cs. length c + 64 < 2 ^ 32"
  shows "\<exists>m'. md5_updates cs m = Inr m' \<and> absorbed m' (msg @ concat cs)
    \<and> (\<not> md5_finished m \<longrightarrow> \<not> md5_finished m')"
  using assms
proof (induction cs arbitrary: m msg)
  case (Cons c cs)
  from update_absorbs [OF Cons.prems(1), of c] Cons.prems(2) obtain m1
    where m1: "md5_update c m = Inr m1" "absorbed m1 (msg @ c)" by auto
  with Cons.IH [OF m1(2)] Cons.prems(2) update_not_finished [OF m1(1)] show ?case by auto
qed simp

text \<open>
  The block function: the 64 unrolled macro calls of \<^verbatim>\<open>MD5::transform\<close> compute the
  compression function RFC 1321 describes with its tables.
\<close>

theorem md5_block_function:
  assumes "length block = 64"
  shows "transform block q = rfc_block q block"
  by (rule transform_rfc [OF assms])

theorem md5_block_function_witness:
  "transform (0x80 # replicate 63 0) rfc_init = rfc_block rfc_init (0x80 # replicate 63 0)
   \<and> transform (0x80 # replicate 63 0) rfc_init
     = (0xd98c1dd4, 0x4b2008f, 0x980980e9, 0x7e42f8ec)"
proof -
  have "transform (0x80 # replicate 63 0) rfc_init
      = (0xd98c1dd4, 0x4b2008f, 0x980980e9, 0x7e42f8ec)"
    by code_simp
  then show ?thesis
    using md5_block_function [of "0x80 # replicate 63 0" rfc_init] by simp
qed

text \<open>
  C12. Whatever way a message is cut into \<^verbatim>\<open>update\<close> calls (each below the 32-bit loop
  bound), \<^verbatim>\<open>reset\<close>, the updates and \<^verbatim>\<open>digest\<close> return the RFC 1321 digest of the
  whole message; no call diverges.
\<close>

theorem md5_incremental:
  assumes "length (md5_buffer m0) = 64" and "\<forall>c\<in>set cs. length c + 64 < 2 ^ 32"
  shows "\<exists>m m'. md5_updates cs (md5_reset m0) = Inr m \<and> digest m = Inr (rfc_md5 (concat cs), m')"
proof -
  have "\<not> md5_finished (md5_reset m0)" by (simp add: md5_reset_def)
  with updates_absorb [OF absorbed_reset [OF assms(1)] assms(2)] digest_rfc show ?thesis
    by (metis append_Nil)
qed

definition md5_zero :: MD5 where
  "md5_zero = \<lparr>md5_state = (0, 0, 0, 0), md5_count = (0, 0), md5_buffer = replicate 64 0,
    md5_digest = replicate 16 0, md5_finished = True\<rparr>"

theorem md5_incremental_witness:
  "\<exists>m m'. md5_updates [[97], [98, 99]] (md5_reset md5_zero) = Inr m
    \<and> digest m = Inr (rfc_md5 [97, 98, 99], m')"
  using md5_incremental [of md5_zero "[[97], [98, 99]]"] by (simp add: md5_zero_def)

text \<open>
  \<^verbatim>\<open>digest()\<close> may be called again, and updates may continue, when the message length
  modulo 64 is below 56: the object still stands for the same message. (From 56 on
  \<^verbatim>\<open>final\<close> overwrites the buffered bytes: see \<open>digest_twice_differs\<close>.)
\<close>

theorem digest_repeatable:
  assumes "absorbed m msg" and "\<not> md5_finished m" and "length msg mod 64 < 56"
  shows "\<exists>m'. digest m = Inr (rfc_md5 msg, m') \<and> absorbed m' msg \<and> \<not> md5_finished m'"
proof -
  from assms(1) have abs: "absorbed (m\<lparr>md5_finished := True\<rparr>) msg" by simp
  from final_rfc [OF abs] obtain m1 m2 m' where
    up: "md5_update (encode [fst (md5_count m), snd (md5_count m)]) m1 = Inr m2"
    and fin: "md5_final (m\<lparr>md5_finished := True\<rparr>) = Inr m'" and dig: "md5_digest m' = rfc_md5 msg"
    and flag: "md5_finished m' = md5_finished m2"
    by auto
  from final_keeps_buffer [OF abs assms(3) fin] update_not_finished [OF up] show ?thesis
    using assms(2) fin dig flag by (auto simp: digest_def)
qed

theorem digest_repeatable_witness:
  "\<exists>m'. digest (md5_reset md5_zero) = Inr (rfc_md5 [], m') \<and> absorbed m' [] \<and> \<not> md5_finished m'"
proof -
  have "absorbed (md5_reset md5_zero) []"
    by (rule absorbed_reset) (simp add: md5_zero_def)
  then show ?thesis
    by (rule digest_repeatable) (simp_all add: md5_reset_def)
qed

subsection \<open>The second digest\<close>

lemma block_split:
  "\<exists>A. msg = A @ block_rest msg \<and> blocks A = blocks msg \<and> block_rest A = []"
proof (induction msg rule: blocks.induct)
  case (1 msg)
  show ?case
  proof (cases "length msg < 64")
    case True
    then show ?thesis by (intro exI [of _ "[]"]) simp
  next
    case False
    with "1.IH" obtain A where A: "drop 64 msg = A @ block_rest (drop 64 msg)"
      "blocks A = blocks (drop 64 msg)" "block_rest A = []" by blast
    let ?B = "take 64 msg"
    have l: "length ?B = 64" using False by simp
    have "msg = (?B @ A) @ block_rest msg"
      using A(1) False by (simp add: block_rest.simps [of msg])
    moreover have "blocks (?B @ A) = blocks msg" "block_rest (?B @ A) = []"
      using A(2,3) blocks_one [OF l, of A] blocks_one [OF l, of "drop 64 msg"] by simp_all
    ultimately show ?thesis by blast
  qed
qed

text \<open>What the object stands for after \<^verbatim>\<open>final\<close> when the padding needed a second block.\<close>

definition clobbered :: "byte list \<Rightarrow> byte list" where
  "clobbered msg =
     (let k = length msg mod 64 in
      take (length msg - k) msg
      @ take k (replicate 56 0 @ le_bytes 8 (of_nat (8 * length msg) :: 64 word)))"

lemma clobbered_blocks:
  assumes "56 \<le> length msg mod 64"
  shows "blocks (clobbered msg) = blocks msg"
    and "block_rest (clobbered msg)
      = take (length msg mod 64) (replicate 56 0 @ le_bytes 8 (of_nat (8 * length msg) :: 64 word))"
    and "length (clobbered msg) = length msg"
proof -
  let ?k = "length msg mod 64"
  let ?R = "take ?k (replicate 56 0 @ le_bytes 8 (of_nat (8 * length msg) :: 64 word))"
  obtain A where A: "msg = A @ block_rest msg" "blocks A = blocks msg" "block_rest A = []"
    using block_split by blast
  have lA: "length A = length msg - ?k"
    using arg_cong [OF A(1), of length] by (simp add: length_block_rest)
  have "take (length A) msg = A"
    using arg_cong [OF A(1), of "take (length A)"] by simp
  then have c: "clobbered msg = A @ ?R"
    by (simp add: clobbered_def Let_def lA [symmetric])
  have k: "?k < 64" by simp
  have R: "length ?R = ?k"
    using k by (simp only: length_take length_append length_replicate length_le_bytes)
  have R64: "length ?R < 64" unfolding R by simp
  show "blocks (clobbered msg) = blocks msg"
    using blocks_append [of A ?R] blocks_short [OF R64] unfolding c A(3) by (simp add: A(2))
  show "block_rest (clobbered msg) = ?R"
    using block_rest_append [of A ?R] block_rest_short [OF R64] unfolding c A(3) by simp
  show "length (clobbered msg) = length msg"
    unfolding c length_append R lA by simp
qed

lemma final_clobbers:
  assumes "absorbed m msg" and "56 \<le> length msg mod 64" and "md5_final m = Inr m'"
  shows "absorbed m' (clobbered msg)"
proof -
  let ?k = "length msg mod 64" and ?p = "120 - md5_index m"
  have k: "md5_index m = ?k" by (rule absorbed_index [OF assms(1)])
  let ?bits = "encode [fst (md5_count m), snd (md5_count m)]"
  have bits: "?bits = le_bytes 8 (of_nat (8 * length msg) :: 64 word)"
    using assms(1) by (intro count_bytes) (simp add: absorbed_def)
  from final_rfc [OF assms(1)] k assms(2) obtain m1 m2 where
    a1: "absorbed m1 (msg @ take ?p PADDING)" and m2: "md5_update ?bits m1 = Inr m2"
    and fin: "md5_final m = Inr (m2\<lparr>md5_digest := rfc_md5 msg, md5_state := md5_state m,
      md5_count := md5_count m\<rparr>)"
    by auto
  have p56: "length (msg @ take ?p PADDING) mod 64 = 56"
    using padding_bytes(2) [of "md5_index m" msg ?p] k assms(2) by simp
  have idx: "md5_index m1 = 56" using absorbed_index [OF a1] p56 by simp
  have rest: "block_rest (msg @ take ?p PADDING) = replicate 56 0"
  proof -
    let ?x = "block_rest msg @ take ?p PADDING"
    have lx: "length ?x = 120"
      using k assms(2) mod_less_divisor [of 64 "length msg"]
      by (simp add: length_block_rest PADDING_def)
    have "block_rest ?x = drop 64 ?x"
      using lx by (simp add: block_rest.simps [of ?x])
    also have "\<dots> = drop (64 - ?k) (take ?p PADDING)"
      using k assms(2) by (simp add: length_block_rest)
    also have "\<dots> = replicate 56 0"
    proof -
      have k64: "?k < 64" by simp
      then obtain r where r: "64 - ?k = Suc r" "?p = Suc (r + 56)" "r \<le> 7"
        using k assms(2) by (cases "64 - ?k") auto
      then show ?thesis by (simp add: PADDING_def drop_take min_def)
    qed
    finally show ?thesis using block_rest_append [of msg "take ?p PADDING"] by simp
  qed
  have buf1: "length (md5_buffer m1) = 64" and t1: "take 56 (md5_buffer m1) = replicate 56 0"
    using a1 p56 rest by (simp_all add: absorbed_def)
  have b2: "md5_buffer m2 = replicate 56 0 @ ?bits"
    using update_length_bytes [OF idx _ m2] buf1 t1 by (simp add: list_write_def)
  show ?thesis
    using assms(1,3) fin clobbered_blocks [OF assms(2)] b2 unfolding bits
    by (auto simp: absorbed_def)
qed

text \<open>
  When the message length modulo 64 is 56 or more, a second \<^verbatim>\<open>digest()\<close> does not
  return the first one's value: \<^verbatim>\<open>final\<close> left padding and length bytes in the buffer
  and \<^verbatim>\<open>update\<close> cleared \<^verbatim>\<open>_finished\<close>, so the second call hashes the message with its
  last bytes replaced by those.
\<close>

theorem second_digest_clobbered:
  assumes "absorbed m msg" and "\<not> md5_finished m" and "56 \<le> length msg mod 64"
  shows "\<exists>m1 m2. digest m = Inr (rfc_md5 msg, m1) \<and> digest m1 = Inr (rfc_md5 (clobbered msg), m2)"
proof -
  from assms(1) have abs: "absorbed (m\<lparr>md5_finished := True\<rparr>) msg" by simp
  from final_rfc [OF abs] obtain m1 m2 m' where
    up: "md5_update (encode [fst (md5_count m), snd (md5_count m)]) m1 = Inr m2"
    and fin: "md5_final (m\<lparr>md5_finished := True\<rparr>) = Inr m'" and dig: "md5_digest m' = rfc_md5 msg"
    and flag: "md5_finished m' = md5_finished m2"
    by auto
  from final_clobbers [OF abs assms(3) fin] update_not_finished [OF up] flag
  obtain m'' where "digest m' = Inr (rfc_md5 (clobbered msg), m'')"
    using digest_rfc by metis
  then show ?thesis
    using assms(2) fin dig by (auto simp: digest_def)
qed

lemma clobbered_differs: "clobbered (replicate 56 65) \<noteq> replicate 56 65"
  by code_simp

theorem second_digest_clobbered_witness:
  "\<exists>m m1 m2 bs. MD5_of md5_zero (replicate 56 65) = Inr m \<and> bs \<noteq> replicate 56 65
    \<and> digest m = Inr (rfc_md5 (replicate 56 65), m1) \<and> digest m1 = Inr (rfc_md5 bs, m2)"
proof -
  have "absorbed (md5_reset md5_zero) []"
    by (rule absorbed_reset) (simp add: md5_zero_def)
  then obtain m where m: "MD5_of md5_zero (replicate 56 65) = Inr m" "absorbed m (replicate 56 65)"
    using update_absorbs [of "md5_reset md5_zero" "[]" "replicate 56 65"]
    by (auto simp: MD5_of_def)
  then have "\<not> md5_finished m" using update_not_finished by (simp add: MD5_of_def)
  with second_digest_clobbered [OF m(2)] m(1) clobbered_differs show ?thesis by auto
qed

subsection \<open>Files and the hexadecimal form\<close>

lemma update_file_absorbs:
  "absorbed m msg \<Longrightarrow> \<not> md5_finished m \<Longrightarrow>
   \<exists>m'. md5_update_file contents m = Inr m' \<and> absorbed m' (msg @ contents) \<and> \<not> md5_finished m'"
proof (induction contents m arbitrary: msg rule: md5_update_file.induct)
  case (1 contents m)
  let ?chunk = "take BUFFER_SIZE contents"
  have small: "length ?chunk + 64 < 2 ^ 32" by (simp add: BUFFER_SIZE_def min_def)
  obtain m1 where m1: "md5_update ?chunk m = Inr m1" "absorbed m1 (msg @ ?chunk)"
    using update_absorbs [OF "1.prems"(1) small] by blast
  have nf: "\<not> md5_finished m1" by (rule update_not_finished [OF m1(1)])
  show ?case
  proof (cases "length contents < BUFFER_SIZE")
    case True
    with m1 nf "1.prems" show ?thesis
      by (auto simp: md5_update_file.simps [of contents m] Let_def)
  next
    case False
    from "1.IH" [OF refl False _ m1(2) nf] m1 False show ?thesis
      by (auto simp: md5_update_file.simps [of contents m] Let_def)
  qed
qed

text \<open>
  Hashing a file in pieces of 1024 bytes (\<^verbatim>\<open>MD5(ifstream&)\<close>) returns the RFC 1321
  digest of the whole contents, whatever its length.
\<close>

theorem md5_file:
  assumes "length (md5_buffer m0) = 64"
  shows "\<exists>m m'. md5_update_file contents (md5_reset m0) = Inr m \<and> digest m = Inr (rfc_md5 contents, m')"
proof -
  have "\<not> md5_finished (md5_reset m0)" by (simp add: md5_reset_def)
  with update_file_absorbs [OF absorbed_reset [OF assms]] digest_rfc show ?thesis
    by (metis append_Nil)
qed

theorem md5_file_witness:
  "\<exists>m m'. md5_update_file (replicate 3000 7) (md5_reset md5_zero) = Inr m
    \<and> digest m = Inr (rfc_md5 (replicate 3000 7), m')"
  by (rule md5_file) (simp add: md5_zero_def)

fun unhex :: "string \<Rightarrow> byte list" where
  "unhex (a # b # cs) = of_nat (16 * digit_val a + digit_val b) # unhex cs"
| "unhex _ = []"

lemma HEX_nth: "k < 16 \<Longrightarrow> HEX ! k = digit_char k"
proof -
  have "list_all (\<lambda>k. HEX ! k = digit_char k) [0..<16]" by code_simp
  then show "k < 16 \<Longrightarrow> HEX ! k = digit_char k" by (simp add: list_all_iff)
qed

text \<open>
  The hexadecimal form is faithful: two digits per byte, and the bytes can be read
  back from it.
\<close>

theorem hex_roundtrip:
  "unhex (bytesToHexString bs) = bs \<and> length (bytesToHexString bs) = 2 * length bs"
proof (induction bs)
  case (Cons t ts)
  have "unat t < 256" using unsigned_less [of t, where 'a = nat] by simp
  then have "unat t div 16 < 16" by linarith
  moreover have "of_nat (16 * (unat t div 16) + unat t mod 16) = t"
    by (simp only: mult_div_mod_eq) simp
  ultimately show ?case using Cons by (simp add: HEX_nth del: of_nat_add of_nat_mult)
qed simp

end
