(* ===== verification/Edit_Distance.thy ===== *)
theory Edit_Distance
  imports Complex_Main Server_Prelude
begin

text \<open>
  \<^verbatim>\<open>ClientSession::levenshteinDistance\<close> and \<^verbatim>\<open>similarity\<close> (ClientSession.cpp): the
  two-dimensional table filled in place, row by row. Cells and loop counters are 32-bit words, as the
  \<^verbatim>\<open>unsigned int\<close> of the code; the bounds of the loops are of type \<^verbatim>\<open>size_t\<close>, so that a loop over 2^32 - 1
  characters or more never ends (\<open>None\<close>). \<^verbatim>\<open>similarity\<close> is computed in exact rationals instead of \<^verbatim>\<open>double\<close>.
\<close>

section \<open>The table\<close>

type_synonym matrix = "32 word list list"

definition cell :: "matrix \<Rightarrow> nat \<Rightarrow> nat \<Rightarrow> 32 word" where
  "cell d i j = d ! i ! j"

definition set_cell :: "nat \<Rightarrow> nat \<Rightarrow> 32 word \<Rightarrow> matrix \<Rightarrow> matrix" where
  "set_cell i j v d = d[i := (d ! i)[j := v]]"

partial_function (option) for_upto :: "nat \<Rightarrow> (32 word \<Rightarrow> 'd \<Rightarrow> 'd option) \<Rightarrow> 32 word \<Rightarrow> 'd \<Rightarrow> 'd option" where
  \<comment> \<open>\<^verbatim>\<open>for (unsigned int i = ...; i <= n; ++i)\<close>\<close>
  "for_upto n f i d = (if unat i \<le> n then Option.bind (f i d) (\<lambda>d'. for_upto n f (i + 1) d') else Some d)"

definition lev_cell :: "'a list \<Rightarrow> 'a list \<Rightarrow> 32 word \<Rightarrow> 32 word \<Rightarrow> matrix \<Rightarrow> matrix" where
  \<comment> \<open>the body of the inner loop\<close>
  "lev_cell s1 s2 i j d =
     set_cell (unat i) (unat j)
       (min (min (cell d (unat (i - 1)) (unat j) + 1) (cell d (unat i) (unat (j - 1)) + 1))
            (cell d (unat (i - 1)) (unat (j - 1)) + (if s1 ! unat (i - 1) = s2 ! unat (j - 1) then 0 else 1))) d"

definition lev_row :: "'a list \<Rightarrow> 'a list \<Rightarrow> 32 word \<Rightarrow> matrix \<Rightarrow> matrix option" where
  "lev_row s1 s2 i d = for_upto (length s2) (\<lambda>j d. Some (lev_cell s1 s2 i j d)) 1 d"

definition lev_borders :: "nat \<Rightarrow> nat \<Rightarrow> matrix option" where
  "lev_borders len1 len2 =
     (let d = replicate (len1 + 1) (replicate (len2 + 1) 0);
          d = set_cell 0 0 0 d
      in Option.bind (for_upto len1 (\<lambda>i d. Some (set_cell (unat i) 0 i d)) 1 d)
           (\<lambda>d. for_upto len2 (\<lambda>i d. Some (set_cell 0 (unat i) i d)) 1 d))"

definition levenshteinDistance :: "'a list \<Rightarrow> 'a list \<Rightarrow> int option" where
  "levenshteinDistance s1 s2 =
     Option.bind (lev_borders (length s1) (length s2)) (\<lambda>d.
     Option.bind (for_upto (length s1) (lev_row s1 s2) 1 d) (\<lambda>d.
     Some (sint (cell d (length s1) (length s2)))))"

definition similarity :: "'a list \<Rightarrow> 'a list \<Rightarrow> rat option" where
  "similarity s1 s2 =
     Option.bind (levenshteinDistance s1 s2) (\<lambda>levDistance.
       let maxLen = sint (of_nat (max (length s1) (length s2)) :: 32 word)
       in if maxLen = 0 then Some 1 else Some (1 - of_int levDistance / of_int maxLen))"

lemma unat_of_nat32: "n < 2 ^ 32 \<Longrightarrow> unat (of_nat n :: 32 word) = n"
  by (simp add: unat_of_nat)

text \<open>A loop that keeps an assertion establishes it for its last value.\<close>

lemma for_upto_keeps:
  assumes "n < 2 ^ 32 - 1" "P 0 d"
    and step: "\<And>k d. k < n \<Longrightarrow> P k d \<Longrightarrow> \<exists>d'. f (of_nat (Suc k)) d = Some d' \<and> P (Suc k) d'"
  shows "\<exists>d'. for_upto n f 1 d = Some d' \<and> P n d'"
proof -
  have "\<exists>d'. for_upto n f (of_nat (Suc k)) d = Some d' \<and> P n d'" if "k \<le> n" "P k d" for k d
    using that
  proof (induction "n - k" arbitrary: k d)
    case 0
    then have "k = n" by simp
    moreover from this assms(1) have "unat (of_nat (Suc k) :: 32 word) = Suc n" by (simp add: unat_of_nat32 del: of_nat_Suc)
    ultimately show ?case using 0 by (subst for_upto.simps) simp
  next
    case (Suc m)
    then have k: "k < n" by simp
    then have le: "unat (of_nat (Suc k) :: 32 word) \<le> n" using assms(1) by (subst unat_of_nat32) simp_all
    obtain d1 where d1: "f (of_nat (Suc k)) d = Some d1" "P (Suc k) d1" using step[OF k Suc.prems(2)] by blast
    have "\<exists>d'. for_upto n f (of_nat (Suc (Suc k))) d1 = Some d' \<and> P n d'"
      using Suc.hyps(1)[of "Suc k" d1] Suc.hyps(2) k d1(2) by simp
    then show ?case using le d1(1) by (subst for_upto.simps) (simp add: add.commute)
  qed
  from this[of 0 d] assms(2) show ?thesis by simp
qed

section \<open>The recurrence\<close>

fun lev :: "'a list \<Rightarrow> 'a list \<Rightarrow> nat \<Rightarrow> nat \<Rightarrow> nat" where
  "lev s t 0 j = j"
| "lev s t (Suc i) 0 = Suc i"
| "lev s t (Suc i) (Suc j) =
     min (min (lev s t i (Suc j) + 1) (lev s t (Suc i) j + 1))
         (lev s t i j + (if s ! i = t ! j then 0 else 1))"

lemma lev_zero_right [simp]: "lev s t i 0 = i"
  by (cases i) simp_all

lemma lev_le_max: "lev s t i j \<le> max i j"
proof (induction s t i j rule: lev.induct)
  case (3 s t i j)
  then show ?case by auto
qed auto

section \<open>The table holds the recurrence\<close>

definition shape :: "nat \<Rightarrow> nat \<Rightarrow> matrix \<Rightarrow> bool" where
  "shape m n d \<longleftrightarrow> length d = Suc m \<and> (\<forall>r\<in>set d. length r = Suc n)"

lemma shape_set_cell [simp]: "shape m n d \<Longrightarrow> i \<le> m \<Longrightarrow> shape m n (set_cell i j v d)"
  unfolding shape_def set_cell_def
  by (auto dest!: set_update_subset_insert [THEN subsetD])

lemma cell_set_cell:
  assumes "shape m n d" and "i \<le> m" and "j \<le> n" and "i' \<le> m"
  shows "cell (set_cell i j v d) i' j' = (if i' = i \<and> j' = j then v else cell d i' j')"
  using assms by (auto simp: shape_def set_cell_def cell_def nth_list_update)

definition filled :: "'a list \<Rightarrow> 'a list \<Rightarrow> nat \<Rightarrow> nat \<Rightarrow> matrix \<Rightarrow> bool" where
  \<comment> \<open>rows below \<open>i\<close>, and row \<open>i\<close> below column \<open>j\<close>, and the borders, hold the recurrence\<close>
  "filled s t i j d \<longleftrightarrow>
     shape (length s) (length t) d \<and>
     (\<forall>i' \<le> length s. \<forall>j' \<le> length t. i' = 0 \<or> j' = 0 \<or> i' < i \<or> (i' = i \<and> j' < j)
        \<longrightarrow> cell d i' j' = of_nat (lev s t i' j'))"

lemma filledD:
  "filled s t i j d \<Longrightarrow> i' \<le> length s \<Longrightarrow> j' \<le> length t \<Longrightarrow>
   i' = 0 \<or> j' = 0 \<or> i' < i \<or> (i' = i \<and> j' < j) \<Longrightarrow> cell d i' j' = of_nat (lev s t i' j')"
  unfolding filled_def by blast

lemma filledI:
  assumes "shape (length s) (length t) d"
    and "\<And>i' j'. i' \<le> length s \<Longrightarrow> j' \<le> length t \<Longrightarrow>
      i' = 0 \<or> j' = 0 \<or> i' < i \<or> (i' = i \<and> j' < j) \<Longrightarrow> cell d i' j' = of_nat (lev s t i' j')"
  shows "filled s t i j d"
  using assms unfolding filled_def by blast

lemma filled_shape: "filled s t i j d \<Longrightarrow> shape (length s) (length t) d"
  by (simp add: filled_def)

lemma min_of_nat: "a < 2 ^ 32 \<Longrightarrow> b < 2 ^ 32 \<Longrightarrow> min (of_nat a) (of_nat b) = (of_nat (min a b) :: 32 word)"
  by (simp add: min_def word_le_nat_alt unat_of_nat32)

lemma filled_cell:
  assumes "filled s t (Suc i) (Suc j) d" and "i < length s" and "j < length t"
    and "length s < 2 ^ 31" and "length t < 2 ^ 31"
  shows "filled s t (Suc i) (Suc (Suc j)) (lev_cell s t (of_nat (Suc i)) (of_nat (Suc j)) d)"
proof -
  note sh = filled_shape [OF assms(1)]
  have val: "cell d i (Suc j) = of_nat (lev s t i (Suc j))" "cell d (Suc i) j = of_nat (lev s t (Suc i) j)"
      "cell d i j = of_nat (lev s t i j)"
    using assms by (auto intro!: filledD [OF assms(1)])
  have small: "lev s t i (Suc j) + 1 < 2 ^ 32" "lev s t (Suc i) j + 1 < 2 ^ 32" "lev s t i j + 1 < 2 ^ 32"
    using lev_le_max [of s t i "Suc j"] lev_le_max [of s t "Suc i" j] lev_le_max [of s t i j] assms(2-5) by (simp_all add: max_def split: if_splits)
  have i: "unat (of_nat (Suc i) :: 32 word) = Suc i" "unat (of_nat (Suc i) - 1 :: 32 word) = i"
    using assms(2,4) by (simp_all add: unat_of_nat32 del: of_nat_Suc) (simp add: unat_of_nat32)
  have j: "unat (of_nat (Suc j) :: 32 word) = Suc j" "unat (of_nat (Suc j) - 1 :: 32 word) = j"
    using assms(3,5) by (simp_all add: unat_of_nat32 del: of_nat_Suc) (simp add: unat_of_nat32)
  let ?e = "if s ! i = t ! j then 0 else 1 :: nat"
  have new: "min (min (cell d i (Suc j) + 1) (cell d (Suc i) j + 1)) (cell d i j + (if s ! i = t ! j then 0 else 1))
      = of_nat (lev s t (Suc i) (Suc j))"
  proof -
    have eqs: "cell d i (Suc j) + 1 = of_nat (lev s t i (Suc j) + 1)" "cell d (Suc i) j + 1 = of_nat (lev s t (Suc i) j + 1)"
      "cell d i j + (if s ! i = t ! j then 0 else 1) = of_nat (lev s t i j + ?e)"
      by (simp_all add: val)
    have "lev s t i j + ?e < 2 ^ 32" using small(3) by simp
    moreover have "min (lev s t i (Suc j) + 1) (lev s t (Suc i) j + 1) < 2 ^ 32" using small(1) by simp
    ultimately show ?thesis unfolding eqs lev.simps(3) using small by (simp only: min_of_nat)
  qed
  show ?thesis
    unfolding lev_cell_def i j new
  proof (rule filledI)
    fix i' j'
    assume "i' \<le> length s" "j' \<le> length t"
      "i' = 0 \<or> j' = 0 \<or> i' < Suc i \<or> i' = Suc i \<and> j' < Suc (Suc j)"
    then show "cell (set_cell (Suc i) (Suc j) (of_nat (lev s t (Suc i) (Suc j))) d) i' j' = of_nat (lev s t i' j')"
      using assms filledD [OF assms(1), of i' j']
      by (auto simp: cell_set_cell [OF sh] less_Suc_eq simp del: lev.simps)
  qed (use assms sh in simp)
qed

lemma filled_row:
  assumes "filled s t (Suc i) 1 d" and "i < length s" and "length s < 2 ^ 31" and "length t < 2 ^ 31"
  shows "\<exists>d'. lev_row s t (of_nat (Suc i)) d = Some d' \<and> filled s t (Suc (Suc i)) 1 d'"
proof -
  have "\<exists>d'. lev_row s t (of_nat (Suc i)) d = Some d' \<and> filled s t (Suc i) (Suc (length t)) d'"
    unfolding lev_row_def using assms(1)
    by (intro for_upto_keeps [where P = "\<lambda>k. filled s t (Suc i) (Suc k)"])
      (use assms(2-4) filled_cell in \<open>auto simp del: of_nat_Suc\<close>)
  then obtain d' where d': "lev_row s t (of_nat (Suc i)) d = Some d'" "filled s t (Suc i) (Suc (length t)) d'" by blast
  have "filled s t (Suc (Suc i)) 1 d'"
    by (rule filledI [OF filled_shape [OF d'(2)]], rule filledD [OF d'(2)]) auto
  with d'(1) show ?thesis by blast
qed

lemma filled_rows:
  assumes "filled s t 1 1 d" and "length s < 2 ^ 31" and "length t < 2 ^ 31"
  shows "\<exists>d'. for_upto (length s) (lev_row s t) 1 d = Some d' \<and> filled s t (Suc (length s)) 1 d'"
  using assms
  by (intro for_upto_keeps [where P = "\<lambda>k. filled s t (Suc k) 1"]) (use filled_row in \<open>auto simp del: of_nat_Suc\<close>)

lemma filled_borders:
  assumes "length s < 2 ^ 31" and "length t < 2 ^ 31"
  shows "\<exists>d. lev_borders (length s) (length t) = Some d \<and> filled s t 1 1 d"
proof -
  let ?m = "length s" and ?n = "length t"
  let ?d0 = "set_cell 0 0 0 (replicate (?m + 1) (replicate (?n + 1) 0)) :: matrix"
  define C where "C k d \<longleftrightarrow> shape ?m ?n d \<and> (\<forall>i \<le> ?m. i \<le> k \<longrightarrow> cell d i 0 = of_nat i)" for k d
  define R where "R k d \<longleftrightarrow> C ?m d \<and> (\<forall>j \<le> ?n. j \<le> k \<longrightarrow> cell d 0 j = of_nat j)" for k d
  have sh: "shape ?m ?n ?d0" by (intro shape_set_cell) (auto simp: shape_def)
  have "cell ?d0 0 0 = 0" by (simp add: cell_def set_cell_def)
  with sh have C0: "C 0 ?d0" by (simp add: C_def)
  have un: "unat (of_nat (Suc k) :: 32 word) = Suc k" if "k < ?m \<or> k < ?n" for k
    using that assms by (intro unat_of_nat32) auto
  have "\<exists>d. for_upto ?m (\<lambda>i d. Some (set_cell (unat i) 0 i d)) 1 ?d0 = Some d \<and> C ?m d"
  proof (rule for_upto_keeps)
    show "\<exists>d'. Some (set_cell (unat (of_nat (Suc k) :: 32 word)) 0 (of_nat (Suc k)) d) = Some d' \<and> C (Suc k) d'"
      if "k < ?m" "C k d" for k d
    proof -
      have sh': "shape ?m ?n d" using that(2) by (simp add: C_def)
      show ?thesis using that by (simp add: un C_def cell_set_cell [OF sh'] le_Suc_eq del: of_nat_Suc)
    qed
  qed (use assms C0 in simp_all)
  then obtain d1 where d1: "for_upto ?m (\<lambda>i d. Some (set_cell (unat i) 0 i d)) 1 ?d0 = Some d1" "C ?m d1" by blast
  have "R 0 d1" using d1(2) by (simp add: R_def C_def)
  then have "\<exists>d. for_upto ?n (\<lambda>i d. Some (set_cell 0 (unat i) i d)) 1 d1 = Some d \<and> R ?n d"
  proof (rule for_upto_keeps [rotated])
    show "\<exists>d'. Some (set_cell 0 (unat (of_nat (Suc k) :: 32 word)) (of_nat (Suc k)) d) = Some d' \<and> R (Suc k) d'"
      if "k < ?n" "R k d" for k d
    proof -
      have sh': "shape ?m ?n d" using that(2) by (simp add: R_def C_def)
      show ?thesis using that by (simp add: un R_def C_def cell_set_cell [OF sh'] le_Suc_eq del: of_nat_Suc)
    qed
  qed (use assms in simp)
  then obtain d2 where d2: "for_upto ?n (\<lambda>i d. Some (set_cell 0 (unat i) i d)) 1 d1 = Some d2" "R ?n d2" by blast
  have "filled s t 1 1 d2"
  proof (rule filledI)
    fix i j assume "i \<le> ?m" "j \<le> ?n" "i = 0 \<or> j = 0 \<or> i < 1 \<or> i = 1 \<and> j < 1"
    then show "cell d2 i j = of_nat (lev s t i j)" using d2(2) by (auto simp: R_def C_def)
  qed (use d2(2) in \<open>simp add: R_def C_def\<close>)
  then show ?thesis using d1(1) d2(1) by (simp add: lev_borders_def Let_def)
qed

lemma levenshtein_lev:
  assumes "length s < 2 ^ 31" and "length t < 2 ^ 31"
  shows "levenshteinDistance s t = Some (int (lev s t (length s) (length t)))"
proof -
  obtain d where d: "lev_borders (length s) (length t) = Some d" "filled s t 1 1 d" using filled_borders [OF assms] by blast
  obtain d' where d': "for_upto (length s) (lev_row s t) 1 d = Some d'" "filled s t (Suc (length s)) 1 d'"
    using filled_rows [OF d(2) assms] by blast
  have "cell d' (length s) (length t) = of_nat (lev s t (length s) (length t))" by (rule filledD [OF d'(2)]) auto
  moreover have "lev s t (length s) (length t) < 2 ^ 31"
    using lev_le_max [of s t "length s" "length t"] assms by (simp add: max_def split: if_splits)
  ultimately show ?thesis
    using d(1) d'(1) by (simp add: levenshteinDistance_def signed_of_nat signed_take_bit_int_eq_self)
qed

section \<open>What the number means\<close>

text \<open>
  \<open>edits s t n\<close>: the string \<open>s\<close> can be turned into \<open>t\<close> with \<open>n\<close> insertions, deletions and
  replacements, working from left to right.
\<close>

inductive edits :: "'a list \<Rightarrow> 'a list \<Rightarrow> nat \<Rightarrow> bool" where
  nothing: "edits [] [] 0"
| keep: "edits s t n \<Longrightarrow> edits (s @ [c]) (t @ [c]) n"
| replace: "edits s t n \<Longrightarrow> edits (s @ [c]) (t @ [d]) (Suc n)"
| delete: "edits s t n \<Longrightarrow> edits (s @ [c]) t (Suc n)"
| insert: "edits s t n \<Longrightarrow> edits s (t @ [d]) (Suc n)"

lemma edits_take_Suc:
  assumes "i < length s"
  shows "take (Suc i) s = take i s @ [s ! i]"
  using assms by (rule take_Suc_conv_app_nth)

lemma edits_lev:
  "i \<le> length s \<Longrightarrow> j \<le> length t \<Longrightarrow> edits (take i s) (take j t) (lev s t i j)"
proof (induction s t i j rule: lev.induct)
  case (1 s t j)
  then show ?case
    by (induction j) (auto simp: edits_take_Suc intro: edits.intros)
next
  case (2 s t i)
  then have "edits (take k s) [] k" if "k \<le> Suc i" for k
    using that by (induction k) (auto simp: edits_take_Suc intro: edits.intros)
  then show ?case by simp
next
  case (3 s t i j)
  then have i: "take (Suc i) s = take i s @ [s ! i]" and j: "take (Suc j) t = take j t @ [t ! j]"
    by (simp_all add: edits_take_Suc)
  have del: "edits (take (Suc i) s) (take (Suc j) t) (lev s t i (Suc j) + 1)"
    using 3 unfolding i by (auto intro: edits.delete)
  have ins: "edits (take (Suc i) s) (take (Suc j) t) (lev s t (Suc i) j + 1)"
    using 3 unfolding j by (auto intro: edits.insert)
  have diag: "edits (take (Suc i) s) (take (Suc j) t)
      (lev s t i j + (if s ! i = t ! j then 0 else 1))"
    using 3 unfolding i j by (auto intro: edits.keep edits.replace)
  from del ins diag show ?case
    by (simp add: min_def del: lev.simps) (auto simp: min_def)
qed

lemma lev_append:
  "i \<le> length s \<Longrightarrow> j \<le> length t \<Longrightarrow> lev (s @ u) (t @ v) i j = lev s t i j"
  by (induction s t i j rule: lev.induct) (auto simp: nth_append)

lemma lev_Suc_left: "lev s t (Suc i) j \<le> Suc (lev s t i j)"
  by (cases j; cases i) auto

lemma lev_Suc_right: "lev s t i (Suc j) \<le> Suc (lev s t i j)"
  by (cases i) auto

lemma lev_minimal: "edits s t n \<Longrightarrow> lev s t (length s) (length t) \<le> n"
proof (induction rule: edits.induct)
  case (keep s t n c)
  then show ?case by (simp add: lev_append)
next
  case (replace s t n c d)
  then show ?case by (simp add: lev_append min_le_iff_disj)
next
  case (delete s t n c)
  then show ?case
    using lev_Suc_left [of "s @ [c]" t "length s" "length t"] lev_append [of "length s" s "length t" t "[c]" "[]"]
    by simp
next
  case (insert s t n d)
  then show ?case
    using lev_Suc_right [of s "t @ [d]" "length s" "length t"] lev_append [of "length s" s "length t" t "[]" "[d]"]
    by simp
qed simp

lemma lev_commute: "lev s t i j = lev t s j i"
  by (induction s t i j rule: lev.induct) (auto simp: min.commute min.left_commute)

lemma edits_zero: "edits s t n \<Longrightarrow> n = 0 \<Longrightarrow> s = t"
  by (induction rule: edits.induct) auto

lemma edits_refl: "edits s s 0"
  by (induction s rule: rev_induct) (auto intro: edits.intros)

text \<open>
  C15. For strings shorter than 2^31 characters \<^verbatim>\<open>levenshteinDistance\<close> ends, no cell of its table wraps around, and it
  returns the least number of insertions, deletions and replacements that turn the first string into the
  second.
\<close>

theorem levenshtein_is_minimum:
  assumes "length s < 2 ^ 31" and "length t < 2 ^ 31"
  shows "\<exists>k. levenshteinDistance s t = Some (int k) \<and> edits s t k \<and> (\<forall>n. edits s t n \<longrightarrow> k \<le> n)"
  using edits_lev [of "length s" s "length t" t] lev_minimal [of s t]
  by (auto simp: levenshtein_lev [OF assms])

theorem levenshtein_is_minimum_witness:
  "levenshteinDistance ''saw'' ''wash'' = Some 3 \<and> edits ''saw'' ''wash'' 3
    \<and> \<not> edits ''saw'' ''wash'' 2"
proof -
  have d: "lev ''saw'' ''wash'' (length ''saw'') (length ''wash'') = 3" by code_simp
  obtain k where k: "levenshteinDistance ''saw'' ''wash'' = Some (int k)" "edits ''saw'' ''wash'' k"
    "\<forall>n. edits ''saw'' ''wash'' n \<longrightarrow> k \<le> n"
    using levenshtein_is_minimum [of "''saw''" "''wash''"] by auto
  moreover have "k = 3" using k(1) levenshtein_lev [of "''saw''" "''wash''"] d by simp
  ultimately show ?thesis by auto
qed

text \<open>
  Identity, symmetry and the bound that keeps every cell of the table in range: the
  distance is 0 exactly for equal strings, does not depend on the order of the arguments,
  and never exceeds the longer length.
\<close>

lemma lev_zero: "lev s t (length s) (length t) = 0 \<longleftrightarrow> s = t"
  using edits_lev [of "length s" s "length t" t] lev_minimal [OF edits_refl, of s] by (auto dest: edits_zero)

theorem levenshtein_metric:
  assumes "length s < 2 ^ 31" and "length t < 2 ^ 31"
  shows "(levenshteinDistance s t = Some 0 \<longleftrightarrow> s = t)
    \<and> levenshteinDistance s t = levenshteinDistance t s
    \<and> (\<exists>k. levenshteinDistance s t = Some k \<and> k \<le> int (max (length s) (length t)))"
proof -
  have eqs: "levenshteinDistance s t = Some (int (lev s t (length s) (length t)))"
      "levenshteinDistance t s = Some (int (lev s t (length s) (length t)))"
    using assms by (simp_all add: levenshtein_lev lev_commute [of t s])
  show ?thesis
    unfolding eqs using lev_zero [of s t] lev_le_max [of s t "length s" "length t"] by auto
qed

text \<open>
  \<^verbatim>\<open>similarity\<close> is a number between 0 and 1, symmetric, and 1 exactly for equal
  strings.
\<close>

theorem similarity_range:
  assumes "length s < 2 ^ 31" and "length t < 2 ^ 31"
  shows "\<exists>r. similarity s t = Some r \<and> 0 \<le> r \<and> r \<le> 1 \<and> (r = 1 \<longleftrightarrow> s = t) \<and> similarity t s = Some r"
proof (cases "max (length s) (length t) = 0")
  case True
  then have "s = []" "t = []" by auto
  then show ?thesis by (simp add: similarity_def levenshtein_lev)
next
  case False
  let ?d = "lev s t (length s) (length t)" and ?m = "max (length s) (length t)"
  have m: "sint (of_nat ?m :: 32 word) = int ?m"
    using assms by (simp add: signed_of_nat signed_take_bit_int_eq_self max_def)
  have sim: "similarity s t = Some (1 - of_nat ?d / of_nat ?m)" "similarity t s = Some (1 - of_nat ?d / of_nat ?m)"
    using False assms m by (simp_all add: similarity_def Let_def levenshtein_lev lev_commute [of t s] max.commute del: of_nat_max)
  have "(of_nat ?d :: rat) / of_nat ?m \<le> 1"
    using lev_le_max [of s t "length s" "length t"] False by (auto simp: divide_le_eq_1 less_max_iff_disj simp del: of_nat_max)
  moreover have "(1 - of_nat ?d / of_nat ?m = (1 :: rat)) \<longleftrightarrow> s = t"
    using False lev_zero [of s t] by (auto simp del: of_nat_max)
  ultimately show ?thesis unfolding sim by (simp del: of_nat_max)
qed

end
