(* ===== verification/Json_Value.thy ===== *)
theory Json_Value
  imports Complex_Main Server_Prelude
begin

text \<open>
  The part of \<^verbatim>\<open>Json::Value\<close> (newJson/jsoncpp.cpp) the servers use: building objects and
  arrays, member access, and the conversions with their failure branches. An object is a
  map ordered by key, as \<^verbatim>\<open>ObjectValues\<close> is. A failed \<^verbatim>\<open>JSON_ASSERT_MESSAGE\<close> or
  \<^verbatim>\<open>JSON_FAIL_MESSAGE\<close> throws \<^verbatim>\<open>Json::LogicError\<close>, which no caller catches.

  The text of a double is the business of the C++ library: scanning it (\<^verbatim>\<open>operator>>\<close>: its
  success and the value it leaves) and printing a finite one (\<^verbatim>\<open>snprintf\<close> with \<^verbatim>\<open>%.17g\<close>) are
  arguments, bundled in \<open>json_lib\<close>. A double is a rational, an infinity (\<open>True\<close>: the
  negative one) or not a number; the two zeros are one.
\<close>

section \<open>Values\<close>

datatype double = Finite rat | Infinity bool | NaN

datatype json =
    JNull
  | JInt int
  | JUInt nat
  | JReal double
  | JString string
  | JBool bool
  | JArray "json list"
  | JObject "(string \<times> json) list"

record json_lib =
  jl_scan :: "string \<Rightarrow> bool \<times> double"
  jl_real :: "rat \<Rightarrow> string"

definition minInt :: int where "minInt = - (2 ^ 31)"
definition maxInt :: int where "maxInt = 2 ^ 31 - 1"

definition trunc :: "rat \<Rightarrow> int" where
  "trunc r = (if r < 0 then - \<lfloor>- r\<rfloor> else \<lfloor>r\<rfloor>)"

section \<open>Conversions\<close>

fun isInt :: "json \<Rightarrow> bool" where
  "isInt (JInt i) \<longleftrightarrow> minInt \<le> i \<and> i \<le> maxInt"
| "isInt (JUInt n) \<longleftrightarrow> int n \<le> maxInt"
| "isInt (JReal (Finite r)) \<longleftrightarrow>
     of_int minInt \<le> r \<and> r \<le> of_int maxInt \<and> of_int (trunc r) = r"
| "isInt _ \<longleftrightarrow> False"

fun asInt :: "json \<Rightarrow> int res" where
  "asInt (JInt i) = (if isInt (JInt i) then Inr i else Inl Logic_Error)"
| "asInt (JUInt n) = (if isInt (JUInt n) then Inr (int n) else Inl Logic_Error)"
| "asInt (JReal d) =
     (case d of Finite r \<Rightarrow>
        if of_int minInt \<le> r \<and> r \<le> of_int maxInt then Inr (trunc r) else Inl Logic_Error
      | _ \<Rightarrow> Inl Logic_Error)"
| "asInt JNull = Inr 0"
| "asInt (JBool b) = Inr (if b then 1 else 0)"
| "asInt _ = Inl Logic_Error"

definition fixNumericLocale :: "string \<Rightarrow> string" where
  "fixNumericLocale buffer = map (\<lambda>c. if c = CHR '','' then CHR ''.'' else c) buffer"

definition valueToString_double :: "(rat \<Rightarrow> string) \<Rightarrow> double \<Rightarrow> string" where
  \<comment> \<open>the default precision of 17 significant digits, no special floats\<close>
  "valueToString_double P d =
     (case d of
        NaN \<Rightarrow> ''null''
      | Infinity neg \<Rightarrow> if neg then ''-1e+9999'' else ''1e+9999''
      | Finite r \<Rightarrow>
          let buffer = fixNumericLocale (P r)
          in if CHR ''.'' \<notin> set buffer \<and> CHR ''e'' \<notin> set buffer then buffer @ ''.0'' else buffer)"

fun asString :: "json_lib \<Rightarrow> json \<Rightarrow> string res" where
  "asString L JNull = Inr ''''"
| "asString L (JString s) = Inr s"
| "asString L (JBool b) = Inr (if b then ''true'' else ''false'')"
| "asString L (JInt i) = Inr (to_string_int i)"
| "asString L (JUInt n) = Inr (to_string_nat n)"
| "asString L (JReal d) = Inr (valueToString_double (jl_real L) d)"
| "asString L _ = Inl Logic_Error"

fun asBool :: "json \<Rightarrow> bool res" where
  "asBool (JBool b) = Inr b"
| "asBool JNull = Inr False"
| "asBool (JInt i) = Inr (i \<noteq> 0)"
| "asBool (JUInt n) = Inr (n \<noteq> 0)"
| "asBool (JReal d) = Inr (d \<noteq> Finite 0 \<and> d \<noteq> NaN)"
| "asBool _ = Inl Logic_Error"

section \<open>Members\<close>

definition resolveReference :: "string \<Rightarrow> json \<Rightarrow> json res" where
  \<comment> \<open>the value after the member has been made to exist\<close>
  "resolveReference key j =
     (case j of
        JNull \<Rightarrow> Inr (JObject [(key, JNull)])
      | JObject m \<Rightarrow> Inr (JObject (smap_insert key JNull m))
      | _ \<Rightarrow> Inl Logic_Error)"

definition json_at :: "json \<Rightarrow> string \<Rightarrow> json res" where
  \<comment> \<open>\<^verbatim>\<open>v[key]\<close> read through the non-const operator\<close>
  "json_at j key =
     rbind (resolveReference key j) (\<lambda>j'.
       case j' of JObject m \<Rightarrow> Inr (case map_of m key of Some v \<Rightarrow> v | None \<Rightarrow> JNull)
       | _ \<Rightarrow> Inl Logic_Error)"

definition json_put :: "string \<Rightarrow> json \<Rightarrow> json \<Rightarrow> json res" where
  \<comment> \<open>\<^verbatim>\<open>v[key] = w\<close>\<close>
  "json_put key w j =
     rbind (resolveReference key j) (\<lambda>j'.
       case j' of JObject m \<Rightarrow> Inr (JObject (smap_put key w m)) | _ \<Rightarrow> Inl Logic_Error)"

definition json_append :: "json \<Rightarrow> json \<Rightarrow> json res" where
  "json_append w j =
     (case j of JNull \<Rightarrow> Inr (JArray [w]) | JArray vs \<Rightarrow> Inr (JArray (vs @ [w]))
      | _ \<Rightarrow> Inl Logic_Error)"

definition isMember :: "string \<Rightarrow> json \<Rightarrow> bool res" where
  "isMember key j =
     (case j of JNull \<Rightarrow> Inr False | JObject m \<Rightarrow> Inr (map_of m key \<noteq> None)
      | _ \<Rightarrow> Inl Logic_Error)"

fun json_puts :: "(string \<times> json) list \<Rightarrow> json \<Rightarrow> json res" where
  \<comment> \<open>a sequence of member assignments\<close>
  "json_puts [] j = Inr j"
| "json_puts ((k, v) # kvs) j = rbind (json_put k v j) (json_puts kvs)"

fun json_appends :: "json list \<Rightarrow> json \<Rightarrow> json res" where
  \<comment> \<open>a loop of \<^verbatim>\<open>append\<close> calls\<close>
  "json_appends [] j = Inr j"
| "json_appends (v # vs) j = rbind (json_append v j) (json_appends vs)"

section \<open>Laws\<close>

definition json_map :: "json \<Rightarrow> (string \<rightharpoonup> json)" where
  "json_map j = (case j of JObject m \<Rightarrow> map_of m | _ \<Rightarrow> Map.empty)"

definition indexable :: "json \<Rightarrow> bool" where
  "indexable j \<longleftrightarrow> (case j of JNull \<Rightarrow> True | JObject _ \<Rightarrow> True | _ \<Rightarrow> False)"

lemma json_at_eq:
  "json_at j key =
     (if indexable j then Inr (case json_map j key of Some v \<Rightarrow> v | None \<Rightarrow> JNull)
      else Inl Logic_Error)"
  by (cases j) (auto simp: json_at_def resolveReference_def indexable_def json_map_def
      map_of_smap_insert split: option.splits)

lemma json_at_fault: "json_at j key = Inl e \<longleftrightarrow> \<not> indexable j \<and> e = Logic_Error"
  by (auto simp: json_at_eq)

lemma json_put_indexable:
  assumes "indexable j"
  shows "\<exists>j'. json_put key w j = Inr j' \<and> indexable j' \<and> json_map j' = (json_map j)(key \<mapsto> w)"
  using assms
  by (cases j) (auto simp: json_put_def resolveReference_def indexable_def json_map_def
      map_of_smap_put map_of_smap_insert fun_eq_iff)

lemma json_puts_indexable:
  "indexable j \<Longrightarrow>
   \<exists>j'. json_puts kvs j = Inr j' \<and> indexable j' \<and> json_map j' = (json_map j) ++ map_of (rev kvs)"
proof (induction kvs arbitrary: j)
  case (Cons kv kvs)
  obtain k v where kv: "kv = (k, v)" by (cases kv)
  from json_put_indexable [OF Cons.prems] obtain j1 where
    j1: "json_put k v j = Inr j1" "indexable j1" "json_map j1 = (json_map j)(k \<mapsto> v)" by blast
  from Cons.IH [OF j1(2)] obtain j2 where
    j2: "json_puts kvs j1 = Inr j2" "indexable j2" "json_map j2 = json_map j1 ++ map_of (rev kvs)"
    by blast
  have "json_map j ++ map_of (rev (kv # kvs)) = (json_map j)(k \<mapsto> v) ++ map_of (rev kvs)"
    by (simp add: kv)
  with j2(3) j1(3) have "json_map j2 = json_map j ++ map_of (rev (kv # kvs))" by (simp only:)
  with j1(1) j2(1,2) show ?case by (simp add: kv)
qed simp

lemma json_appends_array: "json_appends vs (JArray us) = Inr (JArray (us @ vs))"
  by (induction vs arbitrary: us) (simp_all add: json_append_def)

lemma json_appends_null:
  "json_appends vs JNull = Inr (if vs = [] then JNull else JArray vs)"
  by (cases vs) (simp_all add: json_append_def json_appends_array)

lemma indexable_simps [simp]:
  "indexable JNull" "indexable (JObject m)" "\<not> indexable (JInt i)" "\<not> indexable (JUInt n)"
  "\<not> indexable (JReal d)" "\<not> indexable (JString s)" "\<not> indexable (JBool b)"
  "\<not> indexable (JArray vs)"
  by (simp_all add: indexable_def)

lemma json_map_simps [simp]: "json_map JNull = Map.empty" "json_map (JObject m) = map_of m"
  by (simp_all add: json_map_def)

text \<open>
  A value read back right after an assignment is the assigned one, other members are
  as before, and both fail with \<^verbatim>\<open>LogicError\<close> exactly when the value is neither null nor
  an object.
\<close>

theorem json_put_at:
  "(case json_put k w j of
      Inl e \<Rightarrow> \<not> indexable j \<and> e = Logic_Error \<and> json_at j k' = Inl Logic_Error
    | Inr j' \<Rightarrow> indexable j \<and> json_at j' k' = (if k' = k then Inr w else json_at j k'))"
proof (cases "indexable j")
  case True
  then show ?thesis using json_put_indexable [OF True, of k w] by (auto simp: json_at_eq)
next
  case False
  then show ?thesis
    by (cases j) (auto simp: json_put_def resolveReference_def json_at_eq)
qed

end
