(* ===== verification/Json_Strings.thy ===== *)
theory Json_Strings
  imports Json_Value
begin

text \<open>
  The text of JSON strings and numbers in newJson/jsoncpp.cpp: UTF-8 and escape sequences
  (\<^verbatim>\<open>codePointToUTF8\<close>, \<^verbatim>\<open>utf8ToCodepoint\<close>, \<^verbatim>\<open>valueToQuotedStringN\<close>, \<^verbatim>\<open>Reader::decodeString\<close>)
  and integers (\<^verbatim>\<open>valueToString\<close>, \<^verbatim>\<open>Reader::decodeNumber\<close>). The scanning of a \<^verbatim>\<open>double\<close> by the
  C++ library is an argument. What is written is read back, for every
  string that is UTF-8 and every integer of 64 bits.
\<close>

section \<open>UTF-8\<close>

definition codePointToUTF8 :: "nat \<Rightarrow> string" where
  "codePointToUTF8 cp =
     (if cp \<le> 0x7f then [char_of cp]
      else if cp \<le> 0x7FF then
        [char_of (0xC0 OR (0x1f AND drop_bit 6 cp)), char_of (0x80 OR (0x3f AND cp))]
      else if cp \<le> 0xFFFF then
        [char_of (0xE0 OR (0xf AND drop_bit 12 cp)), char_of (0x80 OR (0x3f AND drop_bit 6 cp)),
         char_of (0x80 OR (0x3f AND cp))]
      else if cp \<le> 0x10FFFF then
        [char_of (0xF0 OR (0x7 AND drop_bit 18 cp)), char_of (0x80 OR (0x3f AND drop_bit 12 cp)),
         char_of (0x80 OR (0x3f AND drop_bit 6 cp)), char_of (0x80 OR (0x3f AND cp))]
      else [])"

definition REPLACEMENT_CHARACTER :: nat where "REPLACEMENT_CHARACTER = 0xFFFD"

definition utf8ToCodepoint :: "char \<Rightarrow> string \<Rightarrow> nat \<times> string" where
  \<comment> \<open>the code point that starts at the first character, and what is left behind it\<close>
  "utf8ToCodepoint s0 s =
     (let firstByte = of_char s0 in
      if firstByte < 0x80 then (firstByte, s)
      else if firstByte < 0xE0 then
        (case s of
           s1 # r \<Rightarrow>
             let calculated = push_bit 6 (firstByte AND 0x1F) OR (of_char s1 AND 0x3F)
             in (if calculated < 0x80 then REPLACEMENT_CHARACTER else calculated, r)
         | _ \<Rightarrow> (REPLACEMENT_CHARACTER, s))
      else if firstByte < 0xF0 then
        (case s of
           s1 # s2 # r \<Rightarrow>
             let calculated = push_bit 12 (firstByte AND 0x0F) OR push_bit 6 (of_char s1 AND 0x3F)
                              OR (of_char s2 AND 0x3F)
             in (if calculated \<ge> 0xD800 \<and> calculated \<le> 0xDFFF then REPLACEMENT_CHARACTER
                 else if calculated < 0x800 then REPLACEMENT_CHARACTER else calculated, r)
         | _ \<Rightarrow> (REPLACEMENT_CHARACTER, s))
      else if firstByte < 0xF8 then
        (case s of
           s1 # s2 # s3 # r \<Rightarrow>
             let calculated = push_bit 18 (firstByte AND 0x07) OR push_bit 12 (of_char s1 AND 0x3F)
                              OR push_bit 6 (of_char s2 AND 0x3F) OR (of_char s3 AND 0x3F)
             in (if calculated < 0x10000 then REPLACEMENT_CHARACTER else calculated, r)
         | _ \<Rightarrow> (REPLACEMENT_CHARACTER, s))
      else (REPLACEMENT_CHARACTER, s))"

section \<open>Writing strings\<close>

definition doesAnyCharRequireEscaping :: "string \<Rightarrow> bool" where
  "doesAnyCharRequireEscaping s \<longleftrightarrow>
     list_ex (\<lambda>c. c = CHR 0x5C \<or> c = CHR 0x22 \<or> of_char c < (0x20 :: nat) \<or> of_char c > (0x7F :: nat)) s"

definition hex2 :: string where
  "hex2 = ''000102030405060708090a0b0c0d0e0f'' @ ''101112131415161718191a1b1c1d1e1f''
     @ ''202122232425262728292a2b2c2d2e2f'' @ ''303132333435363738393a3b3c3d3e3f''
     @ ''404142434445464748494a4b4c4d4e4f'' @ ''505152535455565758595a5b5c5d5e5f''
     @ ''606162636465666768696a6b6c6d6e6f'' @ ''707172737475767778797a7b7c7d7e7f''
     @ ''808182838485868788898a8b8c8d8e8f'' @ ''909192939495969798999a9b9c9d9e9f''
     @ ''a0a1a2a3a4a5a6a7a8a9aaabacadaeaf'' @ ''b0b1b2b3b4b5b6b7b8b9babbbcbdbebf''
     @ ''c0c1c2c3c4c5c6c7c8c9cacbcccdcecf'' @ ''d0d1d2d3d4d5d6d7d8d9dadbdcdddedf''
     @ ''e0e1e2e3e4e5e6e7e8e9eaebecedeeef'' @ ''f0f1f2f3f4f5f6f7f8f9fafbfcfdfeff''"

definition toHex16Bit :: "nat \<Rightarrow> string" where
  "toHex16Bit x =
     (let hi = drop_bit 8 x AND 0xff; lo = x AND 0xff
      in [hex2 ! (2 * hi), hex2 ! (2 * hi + 1), hex2 ! (2 * lo), hex2 ! (2 * lo + 1)])"

definition appendHex :: "nat \<Rightarrow> string" where
  "appendHex ch = [CHR 0x5C, CHR ''u''] @ toHex16Bit ch"

definition simple_escape :: "char \<Rightarrow> char option" where
  \<comment> \<open>the characters of the switch with an escape of two characters\<close>
  "simple_escape = map_of [(CHR 0x22, CHR 0x22), (CHR 0x5C, CHR 0x5C), (CHR 0x08, CHR ''b''),
     (CHR 0x0C, CHR ''f''), (CHR 0x0A, CHR ''n''), (CHR 0x0D, CHR ''r''), (CHR 0x09, CHR ''t'')]"

definition escape_codepoint :: "nat \<Rightarrow> string" where
  "escape_codepoint codepoint =
     (if codepoint < 0x20 then appendHex codepoint
      else if codepoint < 0x80 then [char_of codepoint]
      else if codepoint < 0x10000 then appendHex codepoint
      else let codepoint = codepoint - 0x10000
           in appendHex (0xd800 + (drop_bit 10 codepoint AND 0x3ff))
              @ appendHex (0xdc00 + (codepoint AND 0x3ff)))"

function escape_loop :: "bool \<Rightarrow> string \<Rightarrow> string" where
  "escape_loop emitUTF8 [] = []"
| "escape_loop emitUTF8 (c # cs) =
     (case simple_escape c of
        Some e \<Rightarrow> [CHR 0x5C, e] @ escape_loop emitUTF8 cs
      | None \<Rightarrow>
          if emitUTF8 then
            (if of_char c < (0x20 :: nat) then appendHex (of_char c) else [c]) @ escape_loop emitUTF8 cs
          else case utf8ToCodepoint c cs of
            (codepoint, rest) \<Rightarrow> escape_codepoint codepoint @ escape_loop emitUTF8 rest)"
  by pat_completeness auto

lemma utf8ToCodepoint_shorter: "utf8ToCodepoint c cs = (cp, rest) \<Longrightarrow> length rest \<le> length cs"
  by (auto simp: utf8ToCodepoint_def Let_def split: if_splits list.splits)

termination escape_loop
  by (relation "measure (length \<circ> snd)") (auto dest!: utf8ToCodepoint_shorter [OF sym])

definition valueToQuotedStringN :: "string \<Rightarrow> bool \<Rightarrow> string" where
  "valueToQuotedStringN v emitUTF8 =
     (if \<not> doesAnyCharRequireEscaping v then [CHR 0x22] @ c_str v @ [CHR 0x22]
      else [CHR 0x22] @ escape_loop emitUTF8 v @ [CHR 0x22])"

definition valueToQuotedString :: "string \<Rightarrow> string" where
  \<comment> \<open>of a C string\<close>
  "valueToQuotedString v = valueToQuotedStringN (c_str v) False"

section \<open>Reading strings\<close>

definition hex_digit :: "char \<Rightarrow> nat option" where
  "hex_digit c =
     (if CHR ''0'' \<le> c \<and> c \<le> CHR ''9'' then Some (of_char c - of_char (CHR ''0''))
      else if CHR ''a'' \<le> c \<and> c \<le> CHR ''f'' then Some (of_char c - of_char (CHR ''a'') + 10)
      else if CHR ''A'' \<le> c \<and> c \<le> CHR ''F'' then Some (of_char c - of_char (CHR ''A'') + 10)
      else None)"

fun hex_loop :: "nat \<Rightarrow> string \<Rightarrow> nat option" where
  "hex_loop unicode [] = Some unicode"
| "hex_loop unicode (c # cs) =
     (case hex_digit c of None \<Rightarrow> None | Some d \<Rightarrow> hex_loop (unicode * 16 + d) cs)"

definition decodeUnicodeEscapeSequence :: "string \<Rightarrow> (nat \<times> string) option" where
  "decodeUnicodeEscapeSequence current =
     (if length current < 4 then None
      else map_option (\<lambda>u. (u, drop 4 current)) (hex_loop 0 (take 4 current)))"

definition decodeUnicodeCodePoint :: "string \<Rightarrow> (nat \<times> string) option" where
  "decodeUnicodeCodePoint current =
     (case decodeUnicodeEscapeSequence current of
        None \<Rightarrow> None
      | Some (unicode, r) \<Rightarrow>
          if unicode \<ge> 0xD800 \<and> unicode \<le> 0xDBFF then
            (if length r < 6 then None
             else if r ! 0 = CHR 0x5C \<and> r ! 1 = CHR ''u'' then
               map_option (\<lambda>(surrogatePair, r').
                   (0x10000 + push_bit 10 (unicode AND 0x3FF) + (surrogatePair AND 0x3FF), r'))
                 (decodeUnicodeEscapeSequence (drop 2 r))
             else None)
          else Some (unicode, r))"

definition decode_escape :: "char \<Rightarrow> char option" where
  "decode_escape = map_of [(CHR 0x22, CHR 0x22), (CHR ''/'', CHR ''/''), (CHR 0x5C, CHR 0x5C),
     (CHR ''b'', CHR 0x08), (CHR ''f'', CHR 0x0C), (CHR ''n'', CHR 0x0A), (CHR ''r'', CHR 0x0D),
     (CHR ''t'', CHR 0x09)]"

function decode_loop :: "string \<Rightarrow> string option" where
  "decode_loop [] = Some []"
| "decode_loop (c # cs) =
     (if c = CHR 0x22 then Some []
      else if c = CHR 0x5C then
        (case cs of
           [] \<Rightarrow> None
         | e # r \<Rightarrow>
             (case decode_escape e of
                Some d \<Rightarrow> map_option (Cons d) (decode_loop r)
              | None \<Rightarrow>
                  if e = CHR ''u'' then
                    (case decodeUnicodeCodePoint r of
                       None \<Rightarrow> None
                     | Some (unicode, r') \<Rightarrow>
                         map_option (\<lambda>d. codePointToUTF8 unicode @ d) (decode_loop r'))
                  else None))
      else map_option (Cons c) (decode_loop cs))"
  by pat_completeness auto

lemma decodeUnicodeCodePoint_shorter:
  "decodeUnicodeCodePoint r = Some (u, r') \<Longrightarrow> length r' \<le> length r"
  by (auto simp: decodeUnicodeCodePoint_def decodeUnicodeEscapeSequence_def split: option.splits if_splits)

termination decode_loop
  by (relation "measure length") (auto dest!: decodeUnicodeCodePoint_shorter)

definition decodeString :: "string \<Rightarrow> string option" where
  \<comment> \<open>of a token, quotes included\<close>
  "decodeString token = decode_loop (butlast (tl token))"

section \<open>Integers\<close>

fun uintToString :: "nat \<Rightarrow> string \<Rightarrow> string" where
  \<comment> \<open>the digits are put before what the buffer holds\<close>
  "uintToString v current =
     (let current = char_of (v mod 10 + of_char (CHR ''0'')) # current; v = v div 10
      in if v \<noteq> 0 then uintToString v current else current)"

declare uintToString.simps [simp del]

definition minLargestInt :: int where "minLargestInt = - (2 ^ 63)"
definition maxLargestInt :: int where "maxLargestInt = 2 ^ 63 - 1"
definition maxLargestUInt :: nat where "maxLargestUInt = 2 ^ 64 - 1"

definition valueToString_int :: "int \<Rightarrow> string" where
  "valueToString_int v =
     (if v = minLargestInt then CHR ''-'' # uintToString (nat maxLargestInt + 1) []
      else if v < 0 then CHR ''-'' # uintToString (nat (- v)) []
      else uintToString (nat v) [])"

definition valueToString_uint :: "nat \<Rightarrow> string" where
  "valueToString_uint v = uintToString v []"

definition valueToString_bool :: "bool \<Rightarrow> string" where
  "valueToString_bool v = (if v then ''true'' else ''false'')"

definition is_digit :: "char \<Rightarrow> bool" where
  "is_digit c \<longleftrightarrow> CHR ''0'' \<le> c \<and> c \<le> CHR ''9''"

fun digits_loop :: "nat \<Rightarrow> nat \<Rightarrow> string \<Rightarrow> nat option" where
  \<comment> \<open>\<open>None\<close>: the number is left to \<^verbatim>\<open>decodeDouble\<close>\<close>
  "digits_loop maxIntegerValue v [] = Some v"
| "digits_loop maxIntegerValue v (c # cs) =
     (if \<not> is_digit c then None
      else let digit = of_char c - of_char (CHR ''0''); threshold = maxIntegerValue div 10
           in if v \<ge> threshold \<and> (v > threshold \<or> cs \<noteq> [] \<or> digit > maxIntegerValue mod 10) then None
              else digits_loop maxIntegerValue (v * 10 + digit) cs)"

definition DBL_MAX :: rat where
  \<comment> \<open>\<^verbatim>\<open>std::numeric_limits<double>::max()\<close>\<close>
  "DBL_MAX = of_int ((2 ^ 53 - 1) * 2 ^ 971)"

definition decodeDouble :: "(string \<Rightarrow> bool \<times> double) \<Rightarrow> string \<Rightarrow> double option" where
  "decodeDouble scan_double token =
     (case scan_double token of (ok, v) \<Rightarrow>
        if ok then Some v
        else if v = Finite DBL_MAX then Some (Infinity False)
        else if v = Finite (- DBL_MAX) then Some (Infinity True)
        else case v of Infinity _ \<Rightarrow> Some v | _ \<Rightarrow> None)"

definition decodeNumber :: "(string \<Rightarrow> bool \<times> double) \<Rightarrow> string \<Rightarrow> json option" where
  "decodeNumber scan_double token =
     (let isNegative = (hd token = CHR ''-'');
          maxIntegerValue = (if isNegative then nat maxLargestInt + 1 else maxLargestUInt)
      in case digits_loop maxIntegerValue 0 (if isNegative then tl token else token) of
           None \<Rightarrow> map_option JReal (decodeDouble scan_double token)
         | Some v \<Rightarrow>
             if isNegative \<and> v = maxIntegerValue then Some (JInt minLargestInt)
             else if isNegative then Some (JInt (- int v))
             else if int v \<le> maxInt then Some (JInt (int v))
             else Some (JUInt v))"

section \<open>Bits as arithmetic\<close>

lemma or_low_nat: "x < 2 ^ k \<Longrightarrow> 2 ^ k * m OR x = 2 ^ k * m + (x :: nat)"
proof -
  assume x: "x < 2 ^ k"
  have "\<not> bit (2 ^ k * m) n \<or> \<not> bit x n" for n
  proof (cases "n < k")
    case True
    then have "\<not> bit (push_bit k m) n" by (simp add: bit_push_bit_iff)
    then show ?thesis by (simp add: push_bit_eq_mult mult.commute)
  next
    case False
    then have "x < 2 ^ n" using x by (meson leI order_less_le_trans power_increasing one_le_numeral)
    then show ?thesis by (simp add: bit_iff_odd)
  qed
  then show ?thesis by (simp add: disjunctive_add [symmetric])
qed

lemma and_low_nat: "x AND (2 ^ k - 1) = (x :: nat) mod 2 ^ k" "(2 ^ k - 1) AND x = x mod 2 ^ k"
proof -
  show "x AND (2 ^ k - 1) = x mod 2 ^ k"
    by (simp only: mask_eq_exp_minus_1 [symmetric] take_bit_eq_mask [symmetric] take_bit_eq_mod)
  then show "(2 ^ k - 1) AND x = x mod 2 ^ k" by (simp only: and.commute)
qed

lemmas and_low_numerals =
  and_low_nat [where k = 3, simplified] and_low_nat [where k = 4, simplified]
  and_low_nat [where k = 5, simplified] and_low_nat [where k = 6, simplified]
  and_low_nat [where k = 8, simplified] and_low_nat [where k = 10, simplified]

lemma or_numerals:
  "x < 32 \<Longrightarrow> 192 OR x = 192 + (x :: nat)" "x < 64 \<Longrightarrow> 128 OR x = 128 + (x :: nat)"
  "x < 16 \<Longrightarrow> 224 OR x = 224 + (x :: nat)" "x < 8 \<Longrightarrow> 240 OR x = 240 + (x :: nat)"
  using or_low_nat [of x 5 6] or_low_nat [of x 6 2] or_low_nat [of x 4 14] or_low_nat [of x 3 30]
  by simp_all

lemma or_push: "x < 2 ^ k \<Longrightarrow> push_bit k m OR x = m * 2 ^ k + (x :: nat)"
  using or_low_nat [of x k m] by (simp add: push_bit_eq_mult mult.commute)

section \<open>Strings that are UTF-8\<close>

definition scalar_value :: "nat \<Rightarrow> bool" where
  "scalar_value cp \<longleftrightarrow> cp \<le> 0x10FFFF \<and> \<not> (0xD800 \<le> cp \<and> cp \<le> 0xDFFF)"

definition utf8 :: "nat list \<Rightarrow> string" where
  "utf8 cps = concat (map codePointToUTF8 cps)"

definition utf8_string :: "string \<Rightarrow> bool" where
  "utf8_string s \<longleftrightarrow> (\<exists>cps. list_all scalar_value cps \<and> s = utf8 cps)"

lemma codePointToUTF8_arith:
  "codePointToUTF8 cp =
     (if cp \<le> 0x7f then [char_of cp]
      else if cp \<le> 0x7FF then [char_of (192 + cp div 64), char_of (128 + cp mod 64)]
      else if cp \<le> 0xFFFF then
        [char_of (224 + cp div 4096), char_of (128 + cp div 64 mod 64), char_of (128 + cp mod 64)]
      else if cp \<le> 0x10FFFF then
        [char_of (240 + cp div 262144), char_of (128 + cp div 4096 mod 64),
         char_of (128 + cp div 64 mod 64), char_of (128 + cp mod 64)]
      else [])"
proof -
  have "cp \<le> 0x7FF \<Longrightarrow> cp div 64 mod 32 = cp div 64"
    "cp \<le> 0xFFFF \<Longrightarrow> cp div 4096 mod 16 = cp div 4096"
    "cp \<le> 0x10FFFF \<Longrightarrow> cp div 262144 mod 8 = cp div 262144"
    by (simp_all add: div_less_iff_less_mult)
  then show ?thesis
    by (simp add: codePointToUTF8_def and_low_numerals or_numerals drop_bit_eq_div)
qed

lemma utf8ToCodepoint_arith:
  "utf8ToCodepoint s0 s =
     (let firstByte = of_char s0 in
      if firstByte < 128 then (firstByte, s)
      else if firstByte < 224 then
        (case s of
           s1 # r \<Rightarrow>
             let calculated = firstByte mod 32 * 64 + of_char s1 mod 64
             in (if calculated < 0x80 then REPLACEMENT_CHARACTER else calculated, r)
         | _ \<Rightarrow> (REPLACEMENT_CHARACTER, s))
      else if firstByte < 240 then
        (case s of
           s1 # s2 # r \<Rightarrow>
             let calculated = firstByte mod 16 * 4096 + of_char s1 mod 64 * 64 + of_char s2 mod 64
             in (if calculated \<ge> 0xD800 \<and> calculated \<le> 0xDFFF then REPLACEMENT_CHARACTER
                 else if calculated < 0x800 then REPLACEMENT_CHARACTER else calculated, r)
         | _ \<Rightarrow> (REPLACEMENT_CHARACTER, s))
      else if firstByte < 248 then
        (case s of
           s1 # s2 # s3 # r \<Rightarrow>
             let calculated = firstByte mod 8 * 262144 + of_char s1 mod 64 * 4096 + of_char s2 mod 64 * 64
                              + of_char s3 mod 64
             in (if calculated < 0x10000 then REPLACEMENT_CHARACTER else calculated, r)
         | _ \<Rightarrow> (REPLACEMENT_CHARACTER, s))
      else (REPLACEMENT_CHARACTER, s))"
proof -
  have 2: "push_bit 6 a OR b mod 64 = a * 64 + b mod 64" for a b :: nat
    using or_push [of "b mod 64" 6 a] by simp
  have b2: "b mod 64 * 64 + c mod 64 < 4096" for b c :: nat
    using mod_less_divisor [of 64 b] mod_less_divisor [of 64 c] by linarith
  have 3: "push_bit 12 a OR (b mod 64 * 64 + c mod 64) = a * 4096 + (b mod 64 * 64 + c mod 64)" for a b c :: nat
    using or_push [of "b mod 64 * 64 + c mod 64" 12 a] b2 [of b c] by simp
  have 4: "push_bit 18 d OR (a mod 64 * 4096 + (b mod 64 * 64 + c mod 64))
      = d * 262144 + (a mod 64 * 4096 + (b mod 64 * 64 + c mod 64))" for a b c d :: nat
    using or_push [of "a mod 64 * 4096 + (b mod 64 * 64 + c mod 64)" 18 d]
      mod_less_divisor [of 64 a] b2 [of b c] by simp
  show ?thesis
    by (simp only: utf8ToCodepoint_def Let_def and_low_numerals 2 3 4 add.assoc)
qed

lemma utf8ToCodepoint_UTF8:
  assumes "scalar_value cp"
  shows "\<exists>c cs. codePointToUTF8 cp = c # cs \<and> utf8ToCodepoint c (cs @ rest) = (cp, rest)
    \<and> (0x80 \<le> cp \<longrightarrow> of_char c \<ge> (0x80 :: nat)) \<and> (cp < 0x80 \<longrightarrow> c = char_of cp)"
proof -
  have cp: "cp \<le> 0x10FFFF" "\<not> (0xD800 \<le> cp \<and> cp \<le> 0xDFFF)"
    using assms by (simp_all add: scalar_value_def)
  have m: "cp mod 64 < 64" "cp div 64 mod 64 < 64" "cp div 4096 mod 64 < 64" by simp_all
  have d2: "cp div 64 * 64 + cp mod 64 = cp" by simp
  have "cp div 64 div 64 = cp div 4096" "cp div 4096 div 64 = cp div 262144"
    by (simp_all add: div_mult2_eq [symmetric])
  then have d3: "cp div 4096 * 4096 + cp div 64 mod 64 * 64 + cp mod 64 = cp"
    and d4: "cp div 262144 * 262144 + cp div 4096 mod 64 * 4096 + cp div 64 mod 64 * 64 + cp mod 64 = cp"
    using div_mult_mod_eq [of cp 64] div_mult_mod_eq [of "cp div 64" 64] div_mult_mod_eq [of "cp div 4096" 64]
    by linarith+
  have l: "x < 32 \<Longrightarrow> (192 + x) mod 32 = x" "x < 16 \<Longrightarrow> (224 + x) mod 16 = x"
    "x < 8 \<Longrightarrow> (240 + x) mod 8 = x" "x < 64 \<Longrightarrow> (128 + x) mod 64 = x" for x :: nat
    using mod_mult_self3 [of 6 32 x] mod_mult_self3 [of 14 16 x] mod_mult_self3 [of 30 8 x] mod_mult_self3 [of 2 64 x]
    by simp_all
  consider "cp \<le> 0x7f" | "0x7f < cp" "cp \<le> 0x7FF" | "0x7FF < cp" "cp \<le> 0xFFFF" | "0xFFFF < cp"
    by linarith
  then show ?thesis
  proof cases
    case 1
    then show ?thesis by (simp add: codePointToUTF8_arith utf8ToCodepoint_arith Let_def)
  next
    case 2
    then have b: "cp div 64 < 32" by (simp add: div_less_iff_less_mult)
    have e: "codePointToUTF8 cp = [char_of (192 + cp div 64), char_of (128 + cp mod 64)]"
      unfolding codePointToUTF8_arith using 2 by simp
    show ?thesis unfolding e using 2 b m(1) d2 by (simp add: utf8ToCodepoint_arith Let_def l)
  next
    case 3
    then have b: "cp div 4096 < 16" by (simp add: div_less_iff_less_mult)
    have e: "codePointToUTF8 cp = [char_of (224 + cp div 4096), char_of (128 + cp div 64 mod 64), char_of (128 + cp mod 64)]"
      unfolding codePointToUTF8_arith using 3 by simp
    show ?thesis unfolding e using 3 b m d3 cp by (auto simp: utf8ToCodepoint_arith Let_def l)
  next
    case 4
    have b: "cp div 262144 < 8" using cp by (simp add: div_less_iff_less_mult)
    have e: "codePointToUTF8 cp = [char_of (240 + cp div 262144), char_of (128 + cp div 4096 mod 64),
         char_of (128 + cp div 64 mod 64), char_of (128 + cp mod 64)]"
      unfolding codePointToUTF8_arith using 4 cp by simp
    show ?thesis unfolding e using 4 b m d4 cp by (simp add: utf8ToCodepoint_arith Let_def l)
  qed
qed

section \<open>The grammar of string texts\<close>

text \<open>
  The texts between the quotes of a JSON string (RFC 8259, section 7) and the bytes they
  denote: unescaped characters, two-character escapes, \<^verbatim>\<open>\uXXXX\<close> for a code point
  outside the surrogates, and a pair of surrogates for one beyond the basic plane.
\<close>

definition hex4 :: "string \<Rightarrow> nat \<Rightarrow> bool" where
  "hex4 h u \<longleftrightarrow> length h = 4 \<and> hex_loop 0 h = Some u"

inductive string_text :: "string \<Rightarrow> string \<Rightarrow> bool" where
  text_end: "string_text [] []"
| text_plain: "c \<noteq> CHR 0x22 \<Longrightarrow> c \<noteq> CHR 0x5C \<Longrightarrow> string_text s t \<Longrightarrow> string_text (c # s) (c # t)"
| text_escape: "decode_escape e = Some c \<Longrightarrow> string_text s t \<Longrightarrow> string_text (c # s) (CHR 0x5C # e # t)"
| text_unicode: "hex4 h u \<Longrightarrow> \<not> (0xD800 \<le> u \<and> u \<le> 0xDFFF) \<Longrightarrow> string_text s t \<Longrightarrow>
    string_text (codePointToUTF8 u @ s) ([CHR 0x5C, CHR ''u''] @ h @ t)"
| text_pair: "hex4 h (0xD800 + hi) \<Longrightarrow> hex4 h' (0xDC00 + lo) \<Longrightarrow> hi < 0x400 \<Longrightarrow> lo < 0x400 \<Longrightarrow>
    string_text s t \<Longrightarrow>
    string_text (codePointToUTF8 (0x10000 + hi * 0x400 + lo) @ s)
      ([CHR 0x5C, CHR ''u''] @ h @ [CHR 0x5C, CHR ''u''] @ h' @ t)"

lemma decodeUnicodeEscapeSequence_hex4:
  "hex4 h u \<Longrightarrow> decodeUnicodeEscapeSequence (h @ t) = Some (u, t)"
  by (simp add: hex4_def decodeUnicodeEscapeSequence_def)

lemma decode_loop_text: "string_text s t \<Longrightarrow> decode_loop t = Some s"
proof (induction rule: string_text.induct)
  case (text_unicode h u s t)
  have "\<not> (0xD800 \<le> u \<and> u \<le> 0xDBFF)" using text_unicode.hyps(2) by auto
  then have "decodeUnicodeCodePoint (h @ t) = Some (u, t)"
    unfolding decodeUnicodeCodePoint_def decodeUnicodeEscapeSequence_hex4 [OF text_unicode.hyps(1)]
    by (simp only: option.case prod.case if_False)
  then show ?case using text_unicode.IH by (simp add: decode_escape_def)
next
  case (text_pair h hi h' lo s t)
  have "length h' = 4" using text_pair.hyps(2) by (simp add: hex4_def)
  moreover have "push_bit 10 ((0xD800 + hi) AND 0x3FF) = hi * 0x400" "(0xDC00 + lo) AND 0x3FF = lo"
    using text_pair.hyps(3,4) mod_mult_self3 [of 54 1024 hi] mod_mult_self3 [of 55 1024 lo]
    by (simp_all add: and_low_numerals push_bit_eq_mult)
  ultimately have "decodeUnicodeCodePoint (h @ [CHR 0x5C, CHR ''u''] @ h' @ t)
      = Some (0x10000 + hi * 0x400 + lo, t)"
    using text_pair.hyps
    by (simp add: decodeUnicodeCodePoint_def decodeUnicodeEscapeSequence_hex4)
  then show ?case using text_pair.IH by (simp add: decode_escape_def)
qed (auto simp: decode_escape_def)

subsection \<open>What the writer puts between quotes\<close>

lemma digit_char_literals:
  "digit_char 0 = CHR ''0''"
  "digit_char (Suc 0) = CHR ''1''"
  "digit_char 2 = CHR ''2''"
  "digit_char 3 = CHR ''3''"
  "digit_char 4 = CHR ''4''"
  "digit_char 5 = CHR ''5''"
  "digit_char 6 = CHR ''6''"
  "digit_char 7 = CHR ''7''"
  "digit_char 8 = CHR ''8''"
  "digit_char 9 = CHR ''9''"
  "digit_char 10 = CHR ''a''"
  "digit_char 11 = CHR ''b''"
  "digit_char 12 = CHR ''c''"
  "digit_char 13 = CHR ''d''"
  "digit_char 14 = CHR ''e''"
  "digit_char 15 = CHR ''f''"
  "digit_char (Suc (Suc 0)) = CHR ''2''"
  by code_simp+

lemma hex2_digits: "hex2 = concat (map (\<lambda>n. [digit_char (n div 16), digit_char (n mod 16)]) [0..<256])"
  by (simp add: hex2_def digit_char_literals upt_conv_Cons del: upt_Suc)

lemma nth_concat_pairs:
  "i < length xs \<Longrightarrow> concat (map (\<lambda>x. [f x, g x]) xs) ! (2 * i) = f (xs ! i)
   \<and> concat (map (\<lambda>x. [f x, g x]) xs) ! (2 * i + 1) = g (xs ! i)"
proof (induction xs arbitrary: i)
  case (Cons x xs)
  then show ?case by (cases i) auto
qed simp

lemma hex_digit_char: "d < 16 \<Longrightarrow> hex_digit (digit_char d) = Some d"
proof -
  assume "d < 16"
  then have "d \<in> set [0..<16]" by simp
  moreover have "list_all (\<lambda>d. hex_digit (digit_char d) = Some d) [0..<16]" by code_simp
  ultimately show ?thesis by (simp add: list_all_iff)
qed

lemma hex4_toHex16Bit:
  assumes "x < 0x10000"
  shows "hex4 (toHex16Bit x) x"
proof -
  have n: "hex2 ! (2 * i) = digit_char (i div 16)" "hex2 ! (2 * i + 1) = digit_char (i mod 16)" if "i < 256" for i
    using nth_concat_pairs [of i "[0..<256]" "\<lambda>n. digit_char (n div 16)" "\<lambda>n. digit_char (n mod 16)"] that
    unfolding hex2_digits by simp_all
  have h: "x div 256 mod 256 = x div 256" "x div 256 < 256" using assms by (simp_all add: div_less_iff_less_mult)
  have "toHex16Bit x = map digit_char [x div 256 div 16, x div 256 mod 16, x mod 256 div 16, x mod 256 mod 16]"
    unfolding toHex16Bit_def Let_def and_low_numerals drop_bit_eq_div
    using n [of "x div 256"] n [of "x mod 256"] h by simp
  moreover have "x div 256 div 16 < 16" using h(2) by (simp add: div_less_iff_less_mult)
  moreover have "x mod 256 div 16 < 16" by (simp add: div_less_iff_less_mult)
  moreover have "((x div 256 div 16 * 16 + x div 256 mod 16) * 16 + x mod 256 div 16) * 16 + x mod 256 mod 16 = x"
    using div_mult_mod_eq [of "x div 256" 16] div_mult_mod_eq [of "x mod 256" 16] div_mult_mod_eq [of x 256]
    by (simp only: add_mult_distrib mult.assoc)
  ultimately show ?thesis by (simp add: hex4_def hex_digit_char)
qed

lemma simple_escape_decodes:
  assumes "simple_escape c = Some e"
  shows "decode_escape e = Some c \<and> of_char c < (0x80 :: nat)"
proof -
  from assms map_of_SomeD have "(c, e) \<in> set [(CHR 0x22, CHR 0x22), (CHR 0x5C, CHR 0x5C), (CHR 0x08, CHR ''b''),
     (CHR 0x0C, CHR ''f''), (CHR 0x0A, CHR ''n''), (CHR 0x0D, CHR ''r''), (CHR 0x09, CHR ''t'')]"
    unfolding simple_escape_def by fast
  then show ?thesis by (simp add: decode_escape_def) (elim disjE; simp)
qed

lemma escape_codepoint_text:
  assumes "scalar_value cp" and "cp < 0x80 \<Longrightarrow> simple_escape (char_of cp) = None" and "string_text s t"
  shows "string_text (codePointToUTF8 cp @ s) (escape_codepoint cp @ t)"
proof -
  have cp: "cp \<le> 0x10FFFF" "\<not> (0xD800 \<le> cp \<and> cp \<le> 0xDFFF)"
    using assms(1) by (simp_all add: scalar_value_def)
  have uni: "string_text (codePointToUTF8 cp @ s) (appendHex cp @ t)" if "cp < 0x10000"
    using string_text.text_unicode [OF hex4_toHex16Bit [OF that] cp(2) assms(3)] by (simp add: appendHex_def)
  consider "cp < 0x20" | "0x20 \<le> cp" "cp < 0x80" | "0x80 \<le> cp" "cp < 0x10000" | "0x10000 \<le> cp" by linarith
  then show ?thesis
  proof cases
    case 2
    with assms(2) have "char_of cp \<noteq> CHR 0x22" "char_of cp \<noteq> CHR 0x5C" by (auto simp: simple_escape_def)
    from string_text.text_plain [OF this assms(3)] 2 show ?thesis
      by (simp add: escape_codepoint_def codePointToUTF8_def)
  next
    case 4
    define hi lo where "hi = (cp - 0x10000) div 0x400" and "lo = (cp - 0x10000) mod 0x400"
    have hl: "hi < 0x400" "lo < 0x400" using cp(1) by (auto simp: hi_def lo_def)
    have e: "escape_codepoint cp = appendHex (0xD800 + hi) @ appendHex (0xDC00 + lo)"
      using 4 hl(1) by (simp add: escape_codepoint_def Let_def and_low_numerals drop_bit_eq_div hi_def lo_def)
    have "0x10000 + hi * 0x400 + lo = cp" using 4 by (simp add: hi_def lo_def)
    with string_text.text_pair [OF hex4_toHex16Bit hex4_toHex16Bit hl assms(3)] hl show ?thesis
      by (simp add: e appendHex_def)
  qed (use uni in \<open>simp_all add: escape_codepoint_def\<close>)
qed

lemma escape_loop_text: "list_all scalar_value cps \<Longrightarrow> string_text (utf8 cps) (escape_loop False (utf8 cps))"
proof (induction cps)
  case Nil
  show ?case by (simp add: utf8_def string_text.text_end)
next
  case (Cons cp cps)
  then have sv: "scalar_value cp" and IH: "string_text (utf8 cps) (escape_loop False (utf8 cps))" by simp_all
  from utf8ToCodepoint_UTF8 [OF sv, of "utf8 cps"] obtain c cs where c: "codePointToUTF8 cp = c # cs"
    "utf8ToCodepoint c (cs @ utf8 cps) = (cp, utf8 cps)" "0x80 \<le> cp \<Longrightarrow> of_char c \<ge> (0x80 :: nat)"
    "cp < 0x80 \<Longrightarrow> c = char_of cp" by blast
  have u: "utf8 (cp # cps) = codePointToUTF8 cp @ utf8 cps" by (simp add: utf8_def)
  show ?case
  proof (cases "simple_escape c")
    case None
    then have "escape_loop False (utf8 (cp # cps)) = escape_codepoint cp @ escape_loop False (utf8 cps)"
      by (simp add: u c(1,2))
    moreover have "cp < 0x80 \<Longrightarrow> simple_escape (char_of cp) = None" using None c(4) by simp
    note escape_codepoint_text [OF sv this IH]
    ultimately show ?thesis by (simp add: u)
  next
    case (Some e)
    from simple_escape_decodes [OF Some] c(3) have cp: "cp < 0x80" "decode_escape e = Some c"
      using linorder_not_le by blast+
    then have "cs = []" using c(1) by (simp add: codePointToUTF8_def)
    with string_text.text_escape [OF cp(2) IH] Some show ?thesis by (simp add: u c(1))
  qed
qed

lemma plain_text: "\<not> doesAnyCharRequireEscaping s \<Longrightarrow> string_text s s \<and> c_str s = s"
proof (induction s)
  case (Cons c s)
  then have "string_text s s \<and> c_str s = s" "c \<noteq> CHR 0x22" "c \<noteq> CHR 0x5C" "c \<noteq> CHR 0x00"
    by (auto simp: doesAnyCharRequireEscaping_def)
  then show ?case by (simp add: string_text.text_plain c_str_def)
qed (simp add: string_text.text_end c_str_def)

lemma valueToQuotedStringN_text:
  assumes "utf8_string s"
  shows "\<exists>t. valueToQuotedStringN s False = CHR 0x22 # t @ [CHR 0x22] \<and> string_text s t"
proof -
  obtain cps where "list_all scalar_value cps" "s = utf8 cps" using assms by (auto simp: utf8_string_def)
  with escape_loop_text [of cps] plain_text [of s] show ?thesis by (auto simp: valueToQuotedStringN_def)
qed

lemma string_text_quoted: "string_text s t \<Longrightarrow> decodeString (CHR 0x22 # t @ [CHR 0x22]) = Some s"
  by (simp add: decodeString_def decode_loop_text)

text \<open>
  A string that is UTF-8 is written as a quoted text that is read back as the same
  string, whatever control characters, quotes, backslashes and code points it has.
\<close>

theorem quoted_string_roundtrip:
  assumes "utf8_string s"
  shows "decodeString (valueToQuotedStringN s False) = Some s"
  using valueToQuotedStringN_text [OF assms] string_text_quoted by auto

text \<open>Bytes that are not UTF-8 are replaced, so they are not read back.\<close>

lemma invalid_utf8_replaced:
  "decodeString (valueToQuotedStringN [CHR 0xFF] False) = Some [CHR 0xEF, CHR 0xBF, CHR 0xBD]"
proof -
  have "simple_escape (CHR 0xFF) = None" "utf8ToCodepoint (CHR 0xFF) [] = (0xFFFD, [])"
    "doesAnyCharRequireEscaping [CHR 0xFF]"
    by (simp_all add: simple_escape_def utf8ToCodepoint_def REPLACEMENT_CHARACTER_def doesAnyCharRequireEscaping_def)
  moreover have "codePointToUTF8 0xFFFD = [char_of (239::nat), char_of (191::nat), char_of (189::nat)]"
    by (simp add: codePointToUTF8_arith)
  moreover have "char_of (239::nat) = CHR 0xEF" "char_of (191::nat) = CHR 0xBF" "char_of (189::nat) = CHR 0xBD"
    by code_simp+
  moreover have "string_text (codePointToUTF8 0xFFFD @ []) (escape_codepoint 0xFFFD @ [])"
    by (rule escape_codepoint_text) (simp_all add: scalar_value_def string_text.text_end)
  ultimately show ?thesis
    using string_text_quoted [of _ "escape_codepoint 0xFFFD"] by (simp add: valueToQuotedStringN_def)
qed

section \<open>Integers are read back\<close>

definition number_value :: "int \<Rightarrow> json" where
  \<comment> \<open>the value the reader makes of an integer: signed up to 31 bits, unsigned beyond\<close>
  "number_value i = (if i \<le> maxInt then JInt i else JUInt (nat i))"

lemma digit_char_10: "d < 10 \<Longrightarrow> digit_char d = char_of (d + of_char (CHR ''0''))"
  by (simp add: digit_char_def add.commute)

lemma uintToString_to_base: "uintToString v cur = to_base 10 v @ cur"
proof (induction v cur rule: uintToString.induct)
  case (1 v cur)
  have d: "v mod 10 < 10" by simp
  show ?case
  proof (cases "v < 10")
    case True
    then show ?thesis
      by (subst uintToString.simps, subst to_base.simps) (simp add: digit_char_10)
  next
    case False
    then have "v div 10 \<noteq> 0" by simp
    with 1 have "uintToString v cur = to_base 10 (v div 10) @ digit_char (v mod 10) # cur"
      by (subst uintToString.simps) (simp add: digit_char_10 [OF d] Let_def)
    then show ?thesis using False by (subst to_base.simps) simp
  qed
qed

lemma decimal_is_digits: "list_all is_digit (to_base 10 n)"
  using to_base_10_digits by (simp add: list_all_iff is_digit_def)

lemma foldl_digits_ge: "v * 10 ^ length ds \<le> foldl (\<lambda>a c. a * 10 + digit_val c) v ds"
proof (induction ds arbitrary: v)
  case (Cons c ds)
  have "v * 10 ^ length (c # ds) \<le> (v * 10 + digit_val c) * 10 ^ length ds" by (simp add: algebra_simps)
  also have "\<dots> \<le> foldl (\<lambda>a c. a * 10 + digit_val c) v (c # ds)" using Cons by simp
  finally show ?case .
qed simp

lemma digit_of_char: "is_digit c \<Longrightarrow> of_char c - 48 = digit_val c"
  by (simp add: is_digit_def digit_val_def less_eq_char_def Let_def)

lemma digits_loop_value:
  assumes "10 \<le> M" and "list_all is_digit ds" and "foldl (\<lambda>a c. a * 10 + digit_val c) v ds \<le> M"
  shows "digits_loop M v ds = Some (foldl (\<lambda>a c. a * 10 + digit_val c) v ds)"
  using assms(2,3)
proof (induction ds arbitrary: v)
  case (Cons c ds)
  let ?d = "digit_val c" and ?t = "M div 10"
  have d: "is_digit c" using Cons.prems(1) by simp
  have big: "(v * 10 + ?d) * 10 ^ length ds \<le> M"
    using foldl_digits_ge [of "v * 10 + ?d" ds] Cons.prems(2) by simp
  moreover have "x \<le> x * 10 ^ length ds" for x :: nat by simp
  ultimately have le: "v * 10 + ?d \<le> M" by (meson order_trans)
  have more: "(v * 10 + ?d) * 10 \<le> M" if ne: "ds \<noteq> []"
  proof -
    obtain n where "length ds = Suc n" using ne by (cases ds) simp_all
    then have "x * 10 \<le> x * 10 ^ length ds" for x :: nat by simp
    with big show ?thesis by (meson order_trans)
  qed
  have "\<not> (v \<ge> ?t \<and> (v > ?t \<or> ds \<noteq> [] \<or> ?d > M mod 10))"
  proof
    assume a: "v \<ge> ?t \<and> (v > ?t \<or> ds \<noteq> [] \<or> ?d > M mod 10)"
    have M: "?t * 10 + M mod 10 = M" "M mod 10 < 10" "1 \<le> ?t" using assms(1) by simp_all
    from a consider "v > ?t" | "v \<ge> ?t" "ds \<noteq> []" | "v \<ge> ?t" "?d > M mod 10" by blast
    then show False
    proof cases
      case 2
      with more have "v * 100 + ?d * 10 \<le> M" by (simp add: algebra_simps)
      moreover obtain t r where "t = ?t" "r = M mod 10" by blast
      ultimately have "t \<le> v" "t * 10 + r = M" "r < 10" "1 \<le> t" "v * 100 + ?d * 10 \<le> M" using 2 M by simp_all
      then show False by linarith
    qed (use le M in linarith)+
  qed
  then show ?case using Cons d by (simp add: Let_def digit_of_char)
qed simp

lemma from_base_10_foldl: "from_base 10 s = foldl (\<lambda>a c. a * 10 + digit_val c) 0 s"
  by (simp add: from_base_def)

lemma digits_loop_to_base: "10 \<le> M \<Longrightarrow> n \<le> M \<Longrightarrow> digits_loop M 0 (to_base 10 n) = Some n"
  using digits_loop_value [of M "to_base 10 n" 0] from_base_to_base [of 10 n]
  by (simp add: decimal_is_digits from_base_10_foldl)

lemma valueToString_eq:
  "valueToString_int i = to_string_int i" "valueToString_uint n = to_string_nat n"
  by (simp_all add: valueToString_int_def valueToString_uint_def to_string_int_def to_string_nat_def
      uintToString_to_base minLargestInt_def maxLargestInt_def)

lemma hd_to_base_10: "hd (to_base 10 n) \<noteq> CHR ''-''"
proof -
  have "is_digit (hd (to_base 10 n))"
    using decimal_is_digits [of n] by (cases "to_base 10 n") auto
  then show ?thesis by (auto simp: is_digit_def less_eq_char_def)
qed

text \<open>
  Every integer of 64 bits, signed or unsigned, is read back from its text: as a signed
  value when it fits 31 bits or is negative, and as an unsigned one otherwise.
\<close>

theorem integer_roundtrip:
  assumes "minLargestInt \<le> i" and "i \<le> int maxLargestUInt"
  shows "decodeNumber D (to_string_int i) = Some (number_value i)"
proof (cases "i < 0")
  case True
  have "digits_loop (nat maxLargestInt + 1) 0 (to_base 10 (nat (- i))) = Some (nat (- i))"
    using assms by (intro digits_loop_to_base) (simp_all add: maxLargestInt_def minLargestInt_def)
  with True assms(1) show ?thesis
    by (auto simp: decodeNumber_def to_string_int_def to_string_nat_def number_value_def maxInt_def
        maxLargestInt_def minLargestInt_def Let_def)
next
  case False
  have "digits_loop maxLargestUInt 0 (to_base 10 (nat i)) = Some (nat i)"
    using assms by (intro digits_loop_to_base) (simp_all add: maxLargestUInt_def)
  with False show ?thesis
    by (simp add: decodeNumber_def to_string_int_def to_string_nat_def number_value_def Let_def hd_to_base_10)
qed

theorem integer_roundtrip_witness:
  "decodeNumber D (valueToString_int (- 9223372036854775808)) = Some (JInt (- 9223372036854775808))"
  using integer_roundtrip [of "- 9223372036854775808" D]
  by (simp add: valueToString_eq number_value_def maxInt_def minLargestInt_def maxLargestUInt_def)

theorem quoted_string_roundtrip_witness:
  "decodeString (valueToQuotedStringN (utf8 [0x4F60, 0x22, 0x1F600]) False) = Some (utf8 [0x4F60, 0x22, 0x1F600])"
proof (rule quoted_string_roundtrip)
  show "utf8_string (utf8 [0x4F60, 0x22, 0x1F600])"
    unfolding utf8_string_def by (rule exI [of _ "[0x4F60, 0x22, 0x1F600]"]) (simp add: scalar_value_def)
qed

end
