(* ===== verification/Json_Reader.thy ===== *)
theory Json_Reader
  imports Json_Strings
begin

text \<open>
  \<^verbatim>\<open>Json::Reader\<close> of newJson/jsoncpp.cpp with its default features: tokens, comments, the
  recursive descent over a bounded stack, and the recovery that leaves a partial value
  behind a failed parse. The cursor is the rest of the document; comments are skipped and
  not attached to values, which nothing in the servers prints. Errors are reported by the
  returned flag only. The reader returns on every text, refuses a stack of more than 1000
  values with an exception, and accepts every text of the JSON grammar with its value.
\<close>

section \<open>Tokens\<close>

datatype TokenType =
    tokenEndOfStream | tokenObjectBegin | tokenObjectEnd | tokenArrayBegin | tokenArrayEnd
  | tokenString | tokenNumber | tokenTrue | tokenFalse | tokenNull | tokenArraySeparator
  | tokenMemberSeparator | tokenComment | tokenError

type_synonym token = "bool \<times> TokenType \<times> string \<times> string"
  \<comment> \<open>whether \<^verbatim>\<open>readToken\<close> succeeded, the type, the text, the rest of the document\<close>

definition json_space :: "char \<Rightarrow> bool" where
  "json_space c \<longleftrightarrow> c = CHR '' '' \<or> c = CHR 0x09 \<or> c = CHR 0x0D \<or> c = CHR 0x0A"

definition skipSpaces :: "string \<Rightarrow> string" where
  "skipSpaces current = dropWhile json_space current"

definition getNextChar :: "string \<Rightarrow> char \<times> string" where
  "getNextChar current = (case current of [] \<Rightarrow> (CHR 0x00, []) | c # cs \<Rightarrow> (c, cs))"

definition match_pattern :: "string \<Rightarrow> string \<Rightarrow> bool \<times> string" where
  "match_pattern pattern current =
     (if length current < length pattern then (False, current)
      else if take (length pattern) current \<noteq> pattern then (False, current)
      else (True, drop (length pattern) current))"

fun readCStyleComment :: "string \<Rightarrow> bool \<times> string" where
  "readCStyleComment (c # d # cs) =
     (if c = CHR ''*'' \<and> d = CHR ''/'' then (True, cs) else readCStyleComment (d # cs))"
| "readCStyleComment [c] = (c = CHR ''/'', [])"
| "readCStyleComment [] = (False, [])"

fun readCppStyleComment :: "string \<Rightarrow> string" where
  "readCppStyleComment [] = []"
| "readCppStyleComment (c # cs) =
     (if c = CHR 0x0A then cs
      else if c = CHR 0x0D then
        (case cs of d # ds \<Rightarrow> if d = CHR 0x0A then ds else cs | [] \<Rightarrow> cs)
      else readCppStyleComment cs)"

definition readComment :: "string \<Rightarrow> bool \<times> string" where
  "readComment current =
     (case getNextChar current of (c, cs) \<Rightarrow>
        if c = CHR ''*'' then readCStyleComment cs
        else if c = CHR ''/'' then (True, readCppStyleComment cs)
        else (False, cs))"

definition readNumber :: "string \<Rightarrow> string" where
  "readNumber current =
     (let integral = dropWhile is_digit current;
          fractional = (case integral of
            c # cs \<Rightarrow> if c = CHR ''.'' then dropWhile is_digit cs else integral | [] \<Rightarrow> integral)
      in case fractional of
           c # cs \<Rightarrow>
             if c = CHR ''e'' \<or> c = CHR ''E'' then
               (case cs of
                  d # ds \<Rightarrow> dropWhile is_digit (if d = CHR ''+'' \<or> d = CHR ''-'' then ds else cs)
                | [] \<Rightarrow> cs)
             else fractional
         | [] \<Rightarrow> fractional)"

fun readString :: "string \<Rightarrow> bool \<times> string" where
  "readString [] = (False, [])"
| "readString (c # cs) =
     (if c = CHR 0x5C then readString (drop 1 cs)
      else if c = CHR 0x22 then (True, cs)
      else readString cs)"

definition single_token :: "char \<Rightarrow> TokenType option" where
  \<comment> \<open>the tokens of one character; a null character ends the stream\<close>
  "single_token = map_of [(CHR ''{'', tokenObjectBegin), (CHR ''}'', tokenObjectEnd),
     (CHR ''['', tokenArrayBegin), (CHR '']'', tokenArrayEnd), (CHR '','', tokenArraySeparator),
     (CHR '':'', tokenMemberSeparator), (CHR 0x00, tokenEndOfStream)]"

definition token_of_char :: "char \<Rightarrow> string \<Rightarrow> bool \<times> TokenType \<times> string" where
  \<comment> \<open>the switch of \<^verbatim>\<open>readToken\<close>: success, type, and the rest behind the token\<close>
  "token_of_char c cs =
     (case single_token c of
        Some ty \<Rightarrow> (True, ty, cs)
      | None \<Rightarrow>
          if c = CHR 0x22 then (fst (readString cs), tokenString, snd (readString cs))
          else if c = CHR ''/'' then (fst (readComment cs), tokenComment, snd (readComment cs))
          else if is_digit c \<or> c = CHR ''-'' then (True, tokenNumber, readNumber cs)
          else if c = CHR ''t'' then (fst (match_pattern ''rue'' cs), tokenTrue, snd (match_pattern ''rue'' cs))
          else if c = CHR ''f'' then (fst (match_pattern ''alse'' cs), tokenFalse, snd (match_pattern ''alse'' cs))
          else if c = CHR ''n'' then (fst (match_pattern ''ull'' cs), tokenNull, snd (match_pattern ''ull'' cs))
          else (False, tokenError, cs))"

definition readToken :: "string \<Rightarrow> token" where
  "readToken current =
     (let start = skipSpaces current in
      case getNextChar start of (c, cs) \<Rightarrow>
        (case token_of_char c cs of (ok, ty, r) \<Rightarrow>
           (ok, if ok then ty else tokenError, take (length start - length r) start, r)))"

subsection \<open>Every token but the end takes something\<close>

lemma readCStyleComment_length: "length (snd (readCStyleComment s)) \<le> length s"
  by (induction s rule: readCStyleComment.induct) auto

lemma readCppStyleComment_length: "length (readCppStyleComment s) \<le> length s"
proof (induction s rule: readCppStyleComment.induct)
  case (2 c cs)
  show ?case
  proof (cases "c = CHR 0x0A \<or> c = CHR 0x0D")
    case True
    then show ?thesis by (cases cs) auto
  next
    case False
    with 2 have "length (readCppStyleComment cs) \<le> length cs" by blast
    with False show ?thesis by simp
  qed
qed simp

lemma readString_length: "length (snd (readString s)) \<le> length s"
proof (induction s rule: readString.induct)
  case (2 c cs)
  show ?case
  proof (cases "c = CHR 0x5C")
    case True
    then have "length (snd (readString (c # cs))) \<le> length (drop 1 cs)"
      using 2(1) by simp
    then show ?thesis by simp
  next
    case False
    with 2(2) show ?thesis by (cases "c = CHR 0x22") simp_all
  qed
qed simp

lemma readComment_length: "length (snd (readComment s)) \<le> length s"
proof (cases s)
  case (Cons c cs)
  then show ?thesis
    using readCStyleComment_length [of cs] readCppStyleComment_length [of cs]
    by (simp add: readComment_def getNextChar_def)
qed (simp add: readComment_def getNextChar_def)

lemma match_pattern_length: "length (snd (match_pattern p s)) \<le> length s"
  by (simp add: match_pattern_def)

lemma dropWhile_digit_length: "length (dropWhile is_digit xs) \<le> length xs"
  by (rule length_dropWhile_le)

lemma readNumber_length: "length (readNumber s) \<le> length s"
proof -
  let ?i = "dropWhile is_digit s"
  define f where "f = (case ?i of c # cs \<Rightarrow> if c = CHR ''.'' then dropWhile is_digit cs else ?i | [] \<Rightarrow> ?i)"
  have "length f \<le> length ?i"
    unfolding f_def using dropWhile_digit_length [of "tl ?i"] by (cases ?i rule: list.exhaust) (auto simp del: dropWhile_eq_Nil_conv)
  moreover have "length (readNumber s) \<le> length f"
  proof (cases f)
    case (Cons c cs)
    have "length (dropWhile is_digit ds) \<le> length (d # ds)" for d ds
      using dropWhile_digit_length [of ds] by simp
    then show ?thesis
      using dropWhile_digit_length [of cs] Cons
      by (cases cs) (auto simp: readNumber_def Let_def f_def [symmetric] intro: le_SucI)
  qed (simp add: readNumber_def Let_def f_def [symmetric])
  ultimately show ?thesis using dropWhile_digit_length [of s] by linarith
qed

lemma token_of_char_length: "length (snd (snd (token_of_char c cs))) \<le> length cs"
proof (cases "single_token c")
  case None
  then show ?thesis
    using readString_length [of cs] readNumber_length [of cs] readComment_length [of cs]
      match_pattern_length [of _ cs]
    by (simp add: token_of_char_def)
qed (simp add: token_of_char_def)

lemma readToken_cases:
  assumes "readToken s = (ok, ty, lx, r)"
  shows "length r < length s \<or> ty = tokenEndOfStream \<and> ok \<and> r = []"
proof (cases "skipSpaces s")
  case Nil
  have "token_of_char (CHR 0x00) [] = (True, tokenEndOfStream, [])"
    by (simp add: token_of_char_def single_token_def)
  with Nil assms show ?thesis by (simp add: readToken_def getNextChar_def)
next
  case (Cons c cs)
  have "length (skipSpaces s) \<le> length s" by (simp add: skipSpaces_def length_dropWhile_le)
  with Cons assms token_of_char_length [of c cs] show ?thesis
    by (simp add: readToken_def getNextChar_def split: prod.splits)
qed

lemma readToken_length: "readToken s = (ok, ty, lx, r) \<Longrightarrow> length r \<le> length s"
  using readToken_cases by fastforce

section \<open>Comments and recovery\<close>

function skipCommentTokens :: "string \<Rightarrow> token" where
  "skipCommentTokens current =
     (case readToken current of (ok, ty, lx, r) \<Rightarrow>
        if ty = tokenComment then skipCommentTokens r else (ok, ty, lx, r))"
  by pat_completeness auto
termination by (relation "measure length") (auto dest!: readToken_cases [OF sym])

declare skipCommentTokens.simps [simp del]

function recoverFromError :: "TokenType \<Rightarrow> string \<Rightarrow> string" where
  "recoverFromError skipUntilToken current =
     (case readToken current of (ok, ty, lx, r) \<Rightarrow>
        if ty = skipUntilToken \<or> ty = tokenEndOfStream then r else recoverFromError skipUntilToken r)"
  by pat_completeness auto
termination by (relation "measure (length \<circ> snd)") (auto dest!: readToken_cases [OF sym])

declare recoverFromError.simps [simp del]

lemma skipCommentTokens_cases:
  "skipCommentTokens s = (ok, ty, lx, r) \<Longrightarrow> length r < length s \<or> ty = tokenEndOfStream \<and> ok \<and> r = []"
proof (induction s arbitrary: ok ty lx r rule: skipCommentTokens.induct)
  case (1 s)
  obtain ok1 ty1 lx1 r1 where t: "readToken s = (ok1, ty1, lx1, r1)" by (cases "readToken s")
  show ?case
  proof (cases "ty1 = tokenComment")
    case True
    with 1 t readToken_cases [OF t] show ?thesis by (fastforce simp: skipCommentTokens.simps [of s])
  next
    case False
    with 1(2) t readToken_cases [OF t] show ?thesis by (simp add: skipCommentTokens.simps [of s])
  qed
qed

lemma recoverFromError_length: "length (recoverFromError t s) \<le> length s"
proof (induction t s rule: recoverFromError.induct)
  case (1 t s)
  obtain ok1 ty1 lx1 r1 where u: "readToken s = (ok1, ty1, lx1, r1)" by (cases "readToken s")
  with 1 [OF u [symmetric]] readToken_length [OF u] show ?case
    by (subst recoverFromError.simps) (auto intro: le_trans)
qed

section \<open>Values\<close>

definition stackLimit_g :: nat where "stackLimit_g = 1000"

type_synonym read_result = "(bool \<times> json \<times> string) res"
  \<comment> \<open>success, the current value as it was left, the rest\<close>

function (sequential)
    readValue :: "(string \<Rightarrow> bool \<times> double) \<Rightarrow> nat \<Rightarrow> json \<Rightarrow> string \<Rightarrow> read_result"
and readObject ::
    "(string \<Rightarrow> bool \<times> double) \<Rightarrow> nat \<Rightarrow> string \<Rightarrow> (string, json) smap \<Rightarrow> string \<Rightarrow> read_result"
and readArray :: "(string \<Rightarrow> bool \<times> double) \<Rightarrow> nat \<Rightarrow> json list \<Rightarrow> string \<Rightarrow> read_result" where
  "readValue D nodes old current =
     (if nodes > stackLimit_g then Inl Runtime_Error
      else case skipCommentTokens current of (ok, ty, lx, r) \<Rightarrow>
        (case ty of
           tokenObjectBegin \<Rightarrow> readObject D nodes [] [] r
         | tokenArrayBegin \<Rightarrow>
             (case skipSpaces r of
                c # cs \<Rightarrow> if c = CHR '']'' then Inr (True, JArray [], cs) else readArray D nodes [] (c # cs)
              | [] \<Rightarrow> readArray D nodes [] [])
         | tokenNumber \<Rightarrow> (case decodeNumber D lx of None \<Rightarrow> Inr (False, old, r) | Some v \<Rightarrow> Inr (True, v, r))
         | tokenString \<Rightarrow>
             (case decodeString lx of None \<Rightarrow> Inr (False, old, r) | Some v \<Rightarrow> Inr (True, JString v, r))
         | tokenTrue \<Rightarrow> Inr (True, JBool True, r)
         | tokenFalse \<Rightarrow> Inr (True, JBool False, r)
         | tokenNull \<Rightarrow> Inr (True, JNull, r)
         | _ \<Rightarrow> Inr (False, old, r)))"
| "readObject D nodes name m current =
     (case skipCommentTokens current of (ok, ty, lx, r) \<Rightarrow>
        if \<not> ok then Inr (False, JObject m, recoverFromError tokenObjectEnd r)
        else if ty = tokenObjectEnd \<and> name = [] then Inr (True, JObject m, r)
        else if ty \<noteq> tokenString then Inr (False, JObject m, recoverFromError tokenObjectEnd r)
        else case decodeString lx of
          None \<Rightarrow> Inr (False, JObject m, recoverFromError tokenObjectEnd r)
        | Some name' \<Rightarrow>
            (case readToken r of (ok1, ty1, _, r1) \<Rightarrow>
               if \<not> ok1 \<or> ty1 \<noteq> tokenMemberSeparator
               then Inr (False, JObject m, recoverFromError tokenObjectEnd r1)
               else rbind (readValue D (nodes + 1) (case map_of m name' of None \<Rightarrow> JNull | Some v \<Rightarrow> v) r1)
                 (\<lambda>(ok2, v, r2).
                    if \<not> ok2 then Inr (False, JObject (smap_put name' v m), recoverFromError tokenObjectEnd r2)
                    else (case readToken r2 of (ok3, ty3, lx3, r3) \<Rightarrow>
                      if \<not> ok3 \<or> (ty3 \<noteq> tokenObjectEnd \<and> ty3 \<noteq> tokenArraySeparator \<and> ty3 \<noteq> tokenComment)
                      then Inr (False, JObject (smap_put name' v m), recoverFromError tokenObjectEnd r3)
                      else (case (if ty3 = tokenComment then skipCommentTokens r3 else (ok3, ty3, lx3, r3)) of
                        (_, ty4, _, r4) \<Rightarrow>
                          if ty4 = tokenObjectEnd then Inr (True, JObject (smap_put name' v m), r4)
                          else readObject D nodes name' (smap_put name' v m) r4)))))"
| "readArray D nodes vs current =
     rbind (readValue D (nodes + 1) JNull current) (\<lambda>(ok, v, r).
       if \<not> ok then Inr (False, JArray (vs @ [v]), recoverFromError tokenArrayEnd r)
       else case skipCommentTokens r of (ok1, ty1, _, r1) \<Rightarrow>
         if \<not> ok1 \<or> (ty1 \<noteq> tokenArraySeparator \<and> ty1 \<noteq> tokenArrayEnd)
         then Inr (False, JArray (vs @ [v]), recoverFromError tokenArrayEnd r1)
         else if ty1 = tokenArrayEnd then Inr (True, JArray (vs @ [v]), r1)
         else readArray D nodes (vs @ [v]) r1)"
  by pat_completeness auto

lemma skipCommentTokens_length: "skipCommentTokens s = (ok, ty, lx, r) \<Longrightarrow> length r \<le> length s"
  using skipCommentTokens_cases by fastforce

lemma skipSpaces_length: "length (skipSpaces s) \<le> length s"
  by (simp add: skipSpaces_def length_dropWhile_le)

lemma skipSpaces_Cons: "skipSpaces s = c # cs \<Longrightarrow> Suc (length cs) \<le> length s"
  using skipSpaces_length [of s] by simp

lemma read_shorter_dom:
  "readValue_readObject_readArray_dom (Inl (D, n, old, s)) \<Longrightarrow>
     (\<And>ok v r. readValue D n old s = Inr (ok, v, r) \<Longrightarrow> length r \<le> length s)"
  "readValue_readObject_readArray_dom (Inr (Inl (D, n, name, m, s))) \<Longrightarrow>
     (\<And>ok v r. readObject D n name m s = Inr (ok, v, r) \<Longrightarrow> length r \<le> length s)"
  "readValue_readObject_readArray_dom (Inr (Inr (D, n, vs, s))) \<Longrightarrow>
     (\<And>ok v r. readArray D n vs s = Inr (ok, v, r) \<Longrightarrow> length r \<le> length s)"
proof (induction rule: readValue_readObject_readArray.pinduct)
  case (1 D n old s)
  obtain ok1 ty lx r1 where t: "skipCommentTokens s = (ok1, ty, lx, r1)" by (cases "skipCommentTokens s")
  have lim: "\<not> n > stackLimit_g" using "1.prems" by (auto simp: readValue.psimps [OF "1.hyps"])
  note eq = readValue.psimps [OF "1.hyps", unfolded t] and r1 = skipCommentTokens_length [OF t]
  show ?case
  proof (cases ty)
    case tokenObjectBegin
    with "1.IH"(1) [OF lim t [symmetric] refl refl] "1.prems" lim r1 show ?thesis
      by (fastforce simp: eq)
  next
    case tokenArrayBegin
    note IH = "1.IH"(2,3) [OF lim t [symmetric] refl refl tokenArrayBegin]
    show ?thesis
    proof (cases "skipSpaces r1")
      case Nil
      with IH(1) [OF Nil] "1.prems" lim r1 tokenArrayBegin skipSpaces_length [of r1] show ?thesis
        by (auto simp: eq)
    next
      case (Cons c cs)
      with IH(2) [OF Cons] "1.prems" lim r1 tokenArrayBegin skipSpaces_length [of r1] show ?thesis
        by (fastforce simp: eq split: if_splits)
    qed
  qed (use "1.prems" lim r1 in \<open>auto simp: eq split: option.splits\<close>)
next
  case (2 D n name m s)
  note eq = readObject.psimps [OF "2.hyps"] and rec = recoverFromError_length [of tokenObjectEnd]
  obtain ok1 ty1 lx1 r1 where t1: "skipCommentTokens s = (ok1, ty1, lx1, r1)" by (cases "skipCommentTokens s")
  note r1 = skipCommentTokens_length [OF t1]
  show ?case
  proof (cases "ok1 \<and> \<not> (ty1 = tokenObjectEnd \<and> name = []) \<and> ty1 = tokenString \<and> decodeString lx1 \<noteq> None")
    case False
    with "2.prems" r1 rec [of r1] show ?thesis by (auto simp: eq t1 split: if_splits)
  next
    case True
    then obtain name' where name: "decodeString lx1 = Some name'" and c1: "ok1" "ty1 = tokenString" by auto
    obtain ok2 ty2 lx2 r2 where t2: "readToken r1 = (ok2, ty2, lx2, r2)" by (cases "readToken r1")
    note r2 = readToken_length [OF t2]
    show ?thesis
    proof (cases "\<not> ok2 \<or> ty2 \<noteq> tokenMemberSeparator")
      case True
      with "2.prems" r1 r2 rec [of r2] show ?thesis by (auto simp: eq t1 c1 name t2)
    next
      case sep: False
      let ?old = "case map_of m name' of None \<Rightarrow> JNull | Some v \<Rightarrow> v"
      obtain ok3 v r3 where v: "readValue D (n + 1) ?old r2 = Inr (ok3, v, r3)"
        using "2.prems" sep by (cases "readValue D (n + 1) ?old r2") (auto simp: eq t1 c1 name t2)
      note go = t1 [symmetric] refl refl _ _ _ name t2 [symmetric] refl refl sep
      have r3: "length r3 \<le> length r2" by (rule "2.IH"(1) [OF go v]) (simp_all add: c1)
      obtain ok4 ty4 lx4 r4 where t4: "readToken r3 = (ok4, ty4, lx4, r4)" by (cases "readToken r3")
      note r4 = readToken_length [OF t4]
      obtain ok5 ty5 lx5 r5 where t5: "(if ty4 = tokenComment then skipCommentTokens r4 else (ok4, ty4, lx4, r4))
          = (ok5, ty5, lx5, r5)" by (metis prod_cases4)
      have r5: "length r5 \<le> length r4" using t5 skipCommentTokens_length [of r4] by (auto split: if_splits)
      note IH = "2.IH"(2) [OF go v refl refl _ t4 [symmetric] refl refl _ t5 [symmetric] refl refl]
      show ?thesis
        using "2.prems" sep r1 r2 r3 r4 r5 rec [of r3] rec [of r4] IH
        by (auto simp: eq t1 c1 name t2 v [simplified] t4 t5 split: if_splits)
    qed
  qed
next
  case (3 D n vs s)
  note eq = readArray.psimps [OF "3.hyps"]
  obtain ok1 v1 r1 where v: "readValue D (n + 1) JNull s = Inr (ok1, v1, r1)"
    using "3.prems" by (cases "readValue D (n + 1) JNull s") (auto simp: eq)
  have r1: "length r1 \<le> length s" by (rule "3.IH"(1) [OF v])
  obtain ok2 ty lx r2 where t: "skipCommentTokens r1 = (ok2, ty, lx, r2)" by (cases "skipCommentTokens r1")
  note r2 = skipCommentTokens_length [OF t]
  note IH = "3.IH"(2) [OF v refl refl _ t [symmetric] refl refl]
  show ?case
    using "3.prems" r1 r2 IH recoverFromError_length [of tokenArrayEnd r1] recoverFromError_length [of tokenArrayEnd r2]
    by (auto simp: eq v [simplified] t split: if_splits)
qed

termination readValue
proof (relation "measure (\<lambda>x. case x of Inl (_, _, _, s) \<Rightarrow> 2 * length s
    | Inr (Inl (_, _, _, _, s)) \<Rightarrow> 2 * length s + 1 | Inr (Inr (_, _, _, s)) \<Rightarrow> 2 * length s + 1)", goal_cases)
  case 1
  show ?case by simp
qed (auto dest!: skipCommentTokens_cases [OF sym] readToken_length [OF sym] skipSpaces_Cons,
    (drule (1) read_shorter_dom(1), linarith)+)

declare readValue.simps [simp del] readObject.simps [simp del] readArray.simps [simp del]

definition Reader_parse :: "(string \<Rightarrow> bool \<times> double) \<Rightarrow> string \<Rightarrow> (bool \<times> json) res" where
  \<comment> \<open>into a fresh value\<close>
  "Reader_parse D document = rbind (readValue D 1 JNull document) (\<lambda>(successful, root, _). Inr (successful, root))"

section \<open>The grammar\<close>

text \<open>
  The JSON texts of RFC 8259, and the value each denotes; the number argument bounds the nesting. A later member of
  an object replaces an earlier one of the same name. An integer that fits 64 bits denotes itself, any other number
  the \<^verbatim>\<open>double\<close> that the scanning function of the library finds.
\<close>

abbreviation white :: "string \<Rightarrow> bool" where "white \<equiv> list_all json_space"

definition quoted :: "string \<Rightarrow> string" where
  "quoted t = CHR 0x22 # t @ [CHR 0x22]"

definition put_member :: "string \<times> json \<Rightarrow> (string, json) smap \<Rightarrow> (string, json) smap" where
  "put_member = (\<lambda>(k, v). smap_put k v)"

definition sign_text :: "string \<Rightarrow> bool" where "sign_text s \<longleftrightarrow> s = [] \<or> s = ''-''"

definition fraction_text :: "string \<Rightarrow> bool" where
  "fraction_text s \<longleftrightarrow> s = [] \<or> (\<exists>ds. s = CHR ''.'' # ds \<and> ds \<noteq> [] \<and> list_all is_digit ds)"

definition exponent_text :: "string \<Rightarrow> bool" where
  "exponent_text s \<longleftrightarrow> s = [] \<or> (\<exists>e sg ds. s = e # sg @ ds \<and> (e = CHR ''e'' \<or> e = CHR ''E'')
     \<and> (sg = [] \<or> sg = ''+'' \<or> sg = ''-'') \<and> ds \<noteq> [] \<and> list_all is_digit ds)"

definition integral_text :: "string \<Rightarrow> bool" where
  "integral_text ds \<longleftrightarrow> ds \<noteq> [] \<and> list_all is_digit ds \<and> (hd ds = CHR ''0'' \<longrightarrow> tl ds = [])"

definition fits_integer :: "string \<Rightarrow> string \<Rightarrow> bool" where
  "fits_integer sign ds \<longleftrightarrow> from_base 10 ds \<le> (if sign = [] then maxLargestUInt else nat maxLargestInt + 1)"

definition decimal_text :: "string \<Rightarrow> bool" where
  \<comment> \<open>the numbers with a fraction or an exponent, and the integers that do not fit 64 bits\<close>
  "decimal_text t \<longleftrightarrow> (\<exists>sign ds fr ex. t = sign @ ds @ fr @ ex \<and> sign_text sign \<and> integral_text ds
     \<and> fraction_text fr \<and> exponent_text ex \<and> (fr = [] \<and> ex = [] \<longrightarrow> \<not> fits_integer sign ds))"

inductive json_text :: "(string \<Rightarrow> bool \<times> double) \<Rightarrow> nat \<Rightarrow> json \<Rightarrow> string \<Rightarrow> bool"
  and elements_text :: "(string \<Rightarrow> bool \<times> double) \<Rightarrow> nat \<Rightarrow> json list \<Rightarrow> string \<Rightarrow> bool"
  and members_text :: "(string \<Rightarrow> bool \<times> double) \<Rightarrow> nat \<Rightarrow> (string \<times> json) list \<Rightarrow> string \<Rightarrow> bool"
  for D :: "string \<Rightarrow> bool \<times> double" where
  jt_null: "json_text D n JNull ''null''"
| jt_bool: "json_text D n (JBool b) (valueToString_bool b)"
| jt_integer: "minLargestInt \<le> i \<Longrightarrow> i \<le> int maxLargestUInt \<Longrightarrow> json_text D n (number_value i) (to_string_int i)"
| jt_minus_zero: "json_text D n (JInt 0) ''-0''"
| jt_decimal: "decimal_text t \<Longrightarrow> decodeDouble D t = Some x \<Longrightarrow> json_text D n (JReal x) t"
| jt_string: "string_text s t \<Longrightarrow> json_text D n (JString s) (quoted t)"
| jt_empty_array: "white w \<Longrightarrow> json_text D n (JArray []) (CHR ''['' # w @ [CHR '']''])"
| jt_array: "elements_text D n vs t \<Longrightarrow> json_text D (Suc n) (JArray vs) (CHR ''['' # t @ [CHR '']''])"
| jt_empty_object: "white w \<Longrightarrow> json_text D n (JObject []) (CHR ''{'' # w @ [CHR ''}''])"
| jt_object: "members_text D n kvs t \<Longrightarrow>
    json_text D (Suc n) (JObject (fold put_member kvs [])) (CHR ''{'' # t @ [CHR ''}''])"
| et_last: "white w \<Longrightarrow> json_text D n v t \<Longrightarrow> white w' \<Longrightarrow> elements_text D n [v] (w @ t @ w')"
| et_more: "white w \<Longrightarrow> json_text D n v t \<Longrightarrow> white w' \<Longrightarrow> elements_text D n vs ts \<Longrightarrow>
    elements_text D n (v # vs) (w @ t @ w' @ CHR '','' # ts)"
| mt_last: "white w \<Longrightarrow> string_text k kt \<Longrightarrow> white w1 \<Longrightarrow> white w2 \<Longrightarrow> json_text D n v t \<Longrightarrow> white w3 \<Longrightarrow>
    members_text D n [(k, v)] (w @ quoted kt @ w1 @ CHR '':'' # w2 @ t @ w3)"
| mt_more: "white w \<Longrightarrow> string_text k kt \<Longrightarrow> white w1 \<Longrightarrow> white w2 \<Longrightarrow> json_text D n v t \<Longrightarrow> white w3 \<Longrightarrow>
    members_text D n kvs ts \<Longrightarrow>
    members_text D n ((k, v) # kvs) (w @ quoted kt @ w1 @ CHR '':'' # w2 @ t @ w3 @ CHR '','' # ts)"

subsection \<open>Reading the tokens of a text\<close>

lemma skipSpaces_white: "white w \<Longrightarrow> skipSpaces (w @ s) = skipSpaces s"
  by (induction w) (simp_all add: skipSpaces_def)

lemma skipSpaces_idem: "skipSpaces (skipSpaces s) = skipSpaces s"
  by (simp add: skipSpaces_def)

lemma readToken_skipSpaces: "readToken (skipSpaces s) = readToken s"
  by (simp add: readToken_def skipSpaces_idem)

lemma readToken_white: "white w \<Longrightarrow> readToken (w @ s) = readToken s"
  by (simp add: readToken_def skipSpaces_white)

lemma skipCommentTokens_cong: "readToken s = readToken s' \<Longrightarrow> skipCommentTokens s = skipCommentTokens s'"
  by (subst (1 2) skipCommentTokens.simps) simp

lemma skipCommentTokens_readToken:
  "readToken s = (ok, ty, lx, r) \<Longrightarrow> ty \<noteq> tokenComment \<Longrightarrow> skipCommentTokens s = (ok, ty, lx, r)"
  by (subst skipCommentTokens.simps) simp

lemma readValue_cong:
  "readToken s = readToken s' \<Longrightarrow> readValue D n old s = readValue D n old s'"
  by (subst (1 2) readValue.simps) (simp add: skipCommentTokens_cong [of s s'])

lemma readToken_char:
  "\<not> json_space c \<Longrightarrow> token_of_char c cs = (ok, ty, r) \<Longrightarrow>
   readToken (c # cs) = (ok, if ok then ty else tokenError, take (Suc (length cs) - length r) (c # cs), r)"
  by (simp add: readToken_def skipSpaces_def getNextChar_def)

lemma readToken_single:
  assumes "single_token c = Some ty"
  shows "readToken (c # cs) = (True, ty, [c], cs)"
proof -
  have "c \<in> set [CHR ''{'', CHR ''}'', CHR ''['', CHR '']'', CHR '','', CHR '':'', CHR 0x00]"
    using assms map_of_SomeD [of _ c ty] unfolding single_token_def by fastforce
  then have "\<not> json_space c" by (simp add: json_space_def) (elim disjE; simp)
  then show ?thesis using readToken_char [of c cs True ty cs] assms by (simp add: token_of_char_def)
qed

lemma single_token_simps [simp]:
  "single_token (CHR ''{'') = Some tokenObjectBegin" "single_token (CHR ''}'') = Some tokenObjectEnd"
  "single_token (CHR ''['') = Some tokenArrayBegin" "single_token (CHR '']'') = Some tokenArrayEnd"
  "single_token (CHR '','') = Some tokenArraySeparator" "single_token (CHR '':'') = Some tokenMemberSeparator"
  by (simp_all add: single_token_def)

lemmas read_single =
  readToken_single [OF single_token_simps(1)] readToken_single [OF single_token_simps(2)]
  readToken_single [OF single_token_simps(3)] readToken_single [OF single_token_simps(4)]
  readToken_single [OF single_token_simps(5)] readToken_single [OF single_token_simps(6)]

lemma hex_digit_plain: "hex_digit c = Some d \<Longrightarrow> c \<noteq> CHR 0x22 \<and> c \<noteq> CHR 0x5C"
  by (auto simp: hex_digit_def less_eq_char_def split: if_splits)

lemma readString_hex: "hex_loop u h = Some v \<Longrightarrow> readString (h @ rest) = readString rest"
proof (induction h arbitrary: u)
  case (Cons c h)
  then obtain d where "hex_digit c = Some d" "hex_loop (u * 16 + d) h = Some v" by (auto split: option.splits)
  with Cons.IH hex_digit_plain show ?case by auto
qed simp

lemma readString_text: "string_text s t \<Longrightarrow> readString (t @ rest) = readString rest"
proof (induction rule: string_text.induct)
  case (text_unicode h u s t)
  then show ?case using readString_hex [of 0 h u "t @ rest"] by (simp add: hex4_def)
next
  case (text_pair h hi h' lo s t)
  then show ?case
    using readString_hex [of 0 h _ "CHR 0x5C # CHR ''u'' # h' @ t @ rest"] readString_hex [of 0 h' _ "t @ rest"]
    by (simp add: hex4_def)
qed simp_all

lemma readToken_quoted:
  assumes "string_text s t"
  shows "readToken (quoted t @ rest) = (True, tokenString, quoted t, rest)"
proof -
  have "readString (t @ CHR 0x22 # rest) = (True, rest)" using readString_text [OF assms] by simp
  moreover have "\<not> json_space (CHR 0x22)" "single_token (CHR 0x22) = None"
    by (simp_all add: json_space_def single_token_def)
  ultimately show ?thesis
    using readToken_char [of "CHR 0x22" "t @ CHR 0x22 # rest" True tokenString rest]
    by (simp add: quoted_def token_of_char_def)
qed

definition ends_number :: "string \<Rightarrow> bool" where
  \<comment> \<open>what follows a number and is no part of it\<close>
  "ends_number rest \<longleftrightarrow>
     (case rest of [] \<Rightarrow> True
      | c # _ \<Rightarrow> \<not> is_digit c \<and> c \<noteq> CHR ''.'' \<and> c \<noteq> CHR ''e'' \<and> c \<noteq> CHR ''E'')"

lemma ends_number_simps [simp]:
  "ends_number []" "ends_number (CHR '']'' # s)" "ends_number (CHR ''}'' # s)" "ends_number (CHR '','' # s)"
  by (simp_all add: ends_number_def is_digit_def less_eq_char_def)

lemma ends_number_white: "white w \<Longrightarrow> ends_number s \<Longrightarrow> ends_number (w @ s)"
  by (cases w) (auto simp: ends_number_def json_space_def is_digit_def less_eq_char_def)

lemma readNumber_digits: "list_all is_digit ds \<Longrightarrow> ends_number rest \<Longrightarrow> readNumber (ds @ rest) = rest"
proof -
  assume ds: "list_all is_digit ds" and rest: "ends_number rest"
  have e: "dropWhile is_digit (ds @ rest) = rest"
  proof (cases rest)
    case (Cons c cs)
    then have "\<not> is_digit c" using rest by (simp add: ends_number_def)
    then show ?thesis using ds Cons by (simp add: dropWhile_append2 list_all_iff)
  qed (use ds in \<open>simp add: list_all_iff\<close>)
  show ?thesis unfolding readNumber_def e using rest by (cases rest) (simp_all add: ends_number_def)
qed

lemma is_digit_no_token:
  assumes "is_digit c \<or> c = CHR ''-''"
  shows "\<not> json_space c \<and> single_token c = None \<and> c \<noteq> CHR 0x22 \<and> c \<noteq> CHR ''/'' \<and> c \<noteq> CHR '']''"
proof -
  let ?L = "[CHR '' '', CHR 0x09, CHR 0x0D, CHR 0x0A, CHR 0x22, CHR ''/'', CHR ''{'', CHR ''}'', CHR ''['', CHR '']'',
    CHR '','', CHR '':'', CHR 0x00]"
  have "list_all (\<lambda>x. \<not> is_digit x \<and> x \<noteq> CHR ''-'') ?L" by (simp add: is_digit_def less_eq_char_def)
  then have "c \<notin> set ?L" using assms by (auto simp only: list_all_iff)
  then show ?thesis by (simp add: json_space_def single_token_def)
qed

lemma to_string_int_split:
  "\<exists>c ds. to_string_int i = c # ds \<and> (is_digit c \<or> c = CHR ''-'') \<and> list_all is_digit ds"
proof (cases "i < 0")
  case True
  then show ?thesis using decimal_is_digits by (simp add: to_string_int_def to_string_nat_def)
next
  case False
  then show ?thesis using decimal_is_digits [of "nat i"]
    by (cases "to_base 10 (nat i)") (simp_all add: to_string_int_def to_string_nat_def)
qed

lemma readToken_integer:
  assumes "ends_number rest"
  shows "readToken (to_string_int i @ rest) = (True, tokenNumber, to_string_int i, rest)"
proof -
  obtain c ds where c: "to_string_int i = c # ds" "is_digit c \<or> c = CHR ''-''" "list_all is_digit ds"
    using to_string_int_split by blast
  note n = is_digit_no_token [OF c(2)]
  have "token_of_char c (ds @ rest) = (True, tokenNumber, rest)"
    using n c(2) readNumber_digits [OF c(3) assms] by (simp add: token_of_char_def)
  from readToken_char [OF conjunct1 [OF n] this] show ?thesis by (simp add: c(1))
qed

lemma dropWhile_digits:
  "list_all is_digit ds \<Longrightarrow> (case s of [] \<Rightarrow> True | c # _ \<Rightarrow> \<not> is_digit c) \<Longrightarrow> dropWhile is_digit (ds @ s) = s"
  by (cases s) (auto simp: list_all_iff dropWhile_append2)

lemma point_no_digit: "\<not> is_digit (CHR ''.'')" "\<not> is_digit (CHR ''e'')" "\<not> is_digit (CHR ''E'')" "\<not> is_digit (CHR ''+'')" "\<not> is_digit (CHR ''-'')"
  by (simp_all add: is_digit_def less_eq_char_def)

lemma readNumber_exponent:
  assumes "exponent_text ex" "ends_number s"
  shows "(case ex @ s of
           c # cs \<Rightarrow>
             if c = CHR ''e'' \<or> c = CHR ''E'' then
               (case cs of
                  d # ds \<Rightarrow> dropWhile is_digit (if d = CHR ''+'' \<or> d = CHR ''-'' then ds else cs)
                | [] \<Rightarrow> cs)
             else ex @ s
         | [] \<Rightarrow> ex @ s) = s"
proof (cases "ex = []")
  case True
  then show ?thesis using assms(2) by (auto simp: ends_number_def split: list.splits)
next
  case False
  then obtain e sg ds where ex: "ex = e # sg @ ds" "e = CHR ''e'' \<or> e = CHR ''E''" "sg = [] \<or> sg = ''+'' \<or> sg = ''-''"
    "ds \<noteq> []" "list_all is_digit ds"
    using assms(1) by (auto simp: exponent_text_def)
  have "dropWhile is_digit (ds @ s) = s"
    using assms(2) by (intro dropWhile_digits ex) (simp add: ends_number_def split: list.splits)
  moreover obtain d ds' where "ds = d # ds'" "is_digit d" using ex(4,5) by (cases ds) auto
  moreover from this have "d \<noteq> CHR ''+''" "d \<noteq> CHR ''-''" using point_no_digit by auto
  ultimately show ?thesis using ex(1-3) by auto
qed

lemma readNumber_decimal:
  assumes "list_all is_digit ds" "fraction_text fr" "exponent_text ex" "ends_number s"
  shows "readNumber (ds @ fr @ ex @ s) = s"
proof -
  have start: "case ex @ s of [] \<Rightarrow> True | c # _ \<Rightarrow> \<not> is_digit c \<and> c \<noteq> CHR ''.''"
    using assms(3,4) point_no_digit by (cases ex) (auto simp: ends_number_def exponent_text_def split: list.splits)
  have integral: "dropWhile is_digit (ds @ fr @ ex @ s) = fr @ ex @ s"
    using assms(2) start point_no_digit by (intro dropWhile_digits assms(1)) (auto simp: fraction_text_def split: list.splits)
  have "(case fr @ ex @ s of c # cs \<Rightarrow> if c = CHR ''.'' then dropWhile is_digit cs else fr @ ex @ s | [] \<Rightarrow> fr @ ex @ s) = ex @ s"
  proof (cases "fr = []")
    case True
    then show ?thesis using start by (auto split: list.splits)
  next
    case False
    then obtain fs where fs: "fr = CHR ''.'' # fs" "list_all is_digit fs" using assms(2) by (auto simp: fraction_text_def)
    have "dropWhile is_digit (fs @ ex @ s) = ex @ s" using start by (intro dropWhile_digits fs) (auto split: list.splits)
    then show ?thesis by (simp add: fs(1))
  qed
  then show ?thesis unfolding readNumber_def integral Let_def by (simp only: readNumber_exponent [OF assms(3,4)])
qed

lemma decimal_text_split:
  assumes "decimal_text t"
  obtains c ds fr ex where "t = c # ds @ fr @ ex" "is_digit c \<or> c = CHR ''-''" "list_all is_digit ds"
    "fraction_text fr" "exponent_text ex"
proof -
  obtain sign ds fr ex where t: "t = sign @ ds @ fr @ ex" "sign_text sign" "integral_text ds" "fraction_text fr" "exponent_text ex"
    using assms unfolding decimal_text_def by blast
  show thesis
  proof (cases "sign = []")
    case True
    obtain d ds' where "ds = d # ds'" "is_digit d" "list_all is_digit ds'" using t(3) by (cases ds) (auto simp: integral_text_def)
    with t True show thesis by (intro that [of d ds' fr ex]) auto
  next
    case False
    with t show thesis by (intro that [of "CHR ''-''" ds fr ex]) (auto simp: sign_text_def integral_text_def)
  qed
qed

lemma readToken_number:
  assumes "is_digit c \<or> c = CHR ''-''" "list_all is_digit ds" "fraction_text fr" "exponent_text ex" "ends_number s"
  shows "readToken (c # ds @ fr @ ex @ s) = (True, tokenNumber, c # ds @ fr @ ex, s)"
proof -
  note n = is_digit_no_token [OF assms(1)]
  have "token_of_char c (ds @ fr @ ex @ s) = (True, tokenNumber, s)"
    using n assms(1) readNumber_decimal [OF assms(2-5)] by (simp add: token_of_char_def)
  from readToken_char [OF conjunct1 [OF n] this] show ?thesis by simp
qed

lemma readToken_decimal:
  assumes "decimal_text t" "ends_number s"
  shows "readToken (t @ s) = (True, tokenNumber, t, s)"
  by (rule decimal_text_split [OF assms(1)]) (simp add: readToken_number assms(2))

lemma digits_loop_Some:
  "digits_loop M v cs = Some w \<Longrightarrow> v \<le> M \<Longrightarrow>
   list_all is_digit cs \<and> w = foldl (\<lambda>a c. a * 10 + digit_val c) v cs \<and> w \<le> M"
proof (induction M v cs rule: digits_loop.induct)
  case (2 M v c cs)
  have d: "is_digit c" using 2(2) by (auto split: if_splits)
  note e = digit_of_char [OF d]
  have ok: "\<not> (v \<ge> M div 10 \<and> (v > M div 10 \<or> cs \<noteq> [] \<or> digit_val c > M mod 10))"
    and rec: "digits_loop M (v * 10 + digit_val c) cs = Some w"
    using 2(2) d by (auto simp: Let_def e [simplified] split: if_splits)
  have "digit_val c \<le> 9" using d by (auto simp: is_digit_def digit_val_def less_eq_char_def Let_def)
  moreover from ok have "v < M div 10 \<or> v = M div 10 \<and> digit_val c \<le> M mod 10" by auto
  ultimately have "v * 10 + digit_val c \<le> M" using div_mult_mod_eq [of M 10] by linarith
  with 2(1) [OF _ refl refl] ok rec d show ?case by (simp add: e [simplified])
qed simp

lemma decodeNumber_decimal:
  assumes "decimal_text t"
  shows "decodeNumber D t = map_option JReal (decodeDouble D t)"
proof -
  obtain sign ds fr ex where t: "t = sign @ ds @ fr @ ex" "sign_text sign" "integral_text ds" "fraction_text fr" "exponent_text ex"
    "fr = [] \<and> ex = [] \<longrightarrow> \<not> fits_integer sign ds"
    using assms unfolding decimal_text_def by blast
  obtain d ds' where ds: "ds = d # ds'" "d \<noteq> CHR ''-''" using t(3) point_no_digit by (cases ds) (auto simp: integral_text_def)
  let ?M = "if sign = [] then maxLargestUInt else nat maxLargestInt + 1"
  have "digits_loop ?M 0 (ds @ fr @ ex) = None"
  proof (rule ccontr)
    assume "digits_loop ?M 0 (ds @ fr @ ex) \<noteq> None"
    then obtain w where "digits_loop ?M 0 (ds @ fr @ ex) = Some w" by blast
    from digits_loop_Some [OF this] have w: "list_all is_digit (fr @ ex)" "w = from_base 10 (ds @ fr @ ex)" "w \<le> ?M"
      by (simp_all add: from_base_10_foldl)
    from w(1) t(4,5) point_no_digit have "fr = [] \<and> ex = []" by (auto simp: fraction_text_def exponent_text_def)
    with t(6) w(2,3) show False by (auto simp: fits_integer_def split: if_splits)
  qed
  then show ?thesis using t(2) ds by (auto simp: t(1) decodeNumber_def sign_text_def Let_def)
qed

lemma readToken_word:
  "readToken (''null'' @ rest) = (True, tokenNull, ''null'', rest)"
  "readToken (valueToString_bool b @ rest) =
     (True, if b then tokenTrue else tokenFalse, valueToString_bool b, rest)"
proof -
  have n: "\<not> json_space (CHR ''n'')" "\<not> json_space (CHR ''t'')" "\<not> json_space (CHR ''f'')"
    by (simp_all add: json_space_def)
  have t: "token_of_char (CHR ''n'') (''ull'' @ rest) = (True, tokenNull, rest)"
    "token_of_char (CHR ''t'') (''rue'' @ rest) = (True, tokenTrue, rest)"
    "token_of_char (CHR ''f'') (''alse'' @ rest) = (True, tokenFalse, rest)"
    by (simp_all add: token_of_char_def single_token_def is_digit_def less_eq_char_def match_pattern_def)
  show "readToken (''null'' @ rest) = (True, tokenNull, ''null'', rest)"
    using readToken_char [OF n(1) t(1)] by simp
  show "readToken (valueToString_bool b @ rest) =
     (True, if b then tokenTrue else tokenFalse, valueToString_bool b, rest)"
    using readToken_char [OF n(2) t(2)] readToken_char [OF n(3) t(3)] by (simp add: valueToString_bool_def)
qed

lemma json_text_head: "json_text D n v t \<Longrightarrow> \<exists>c cs. t = c # cs \<and> \<not> json_space c \<and> c \<noteq> CHR '']''"
proof (induction n v t rule: json_text_elements_text_members_text.inducts(1)
    [where ?P2.0 = "\<lambda>_ _ _. True" and ?P3.0 = "\<lambda>_ _ _. True"])
  case (jt_integer i n)
  then show ?case using to_string_int_split [of i] is_digit_no_token by blast
next
  case (jt_decimal t x n)
  then show ?case using is_digit_no_token by (elim decimal_text_split) blast
qed (auto simp: json_space_def quoted_def valueToString_bool_def)

lemma elements_text_head:
  assumes "elements_text D n vs t"
  shows "\<exists>c cs. skipSpaces (t @ s) = c # cs \<and> c \<noteq> CHR '']''"
  using assms
proof cases
  case (et_last w v t' w')
  then show ?thesis using json_text_head [of D n v t'] by (auto simp: skipSpaces_white) (auto simp: skipSpaces_def)
next
  case (et_more w v t' w' vs' ts)
  then show ?thesis using json_text_head [of D n v t'] by (auto simp: skipSpaces_white) (auto simp: skipSpaces_def)
qed

subsection \<open>Reading whole texts\<close>

lemma readValue_white: "white w \<Longrightarrow> readValue D n old (w @ s) = readValue D n old s"
  by (rule readValue_cong) (rule readToken_white)

lemma readArray_skipSpaces: "readArray D n vs (skipSpaces s) = readArray D n vs s"
  by (subst (1 2) readArray.simps)
    (simp add: readValue_cong [of "skipSpaces s" s, OF readToken_skipSpaces])

lemma readValue_token:
  assumes "readToken s = (ok, ty, lx, r)" and "ty \<noteq> tokenComment" and "n \<le> stackLimit_g"
  shows "readValue D n old s =
    (case ty of
       tokenObjectBegin \<Rightarrow> readObject D n [] [] r
     | tokenArrayBegin \<Rightarrow>
         (case skipSpaces r of
            c # cs \<Rightarrow> if c = CHR '']'' then Inr (True, JArray [], cs) else readArray D n [] (c # cs)
          | [] \<Rightarrow> readArray D n [] [])
     | tokenNumber \<Rightarrow> (case decodeNumber D lx of None \<Rightarrow> Inr (False, old, r) | Some v \<Rightarrow> Inr (True, v, r))
     | tokenString \<Rightarrow>
         (case decodeString lx of None \<Rightarrow> Inr (False, old, r) | Some v \<Rightarrow> Inr (True, JString v, r))
     | tokenTrue \<Rightarrow> Inr (True, JBool True, r)
     | tokenFalse \<Rightarrow> Inr (True, JBool False, r)
     | tokenNull \<Rightarrow> Inr (True, JNull, r)
     | _ \<Rightarrow> Inr (False, old, r))"
  using assms skipCommentTokens_readToken [OF assms(1,2)] by (subst readValue.simps) simp

definition accepts_value :: "(string \<Rightarrow> bool \<times> double) \<Rightarrow> nat \<Rightarrow> json \<Rightarrow> string \<Rightarrow> bool" where
  "accepts_value D n v t \<longleftrightarrow> (\<forall>k old rest. k + n \<le> stackLimit_g \<longrightarrow> ends_number rest \<longrightarrow>
     readValue D k old (t @ rest) = Inr (True, v, rest))"

definition accepts_elements :: "(string \<Rightarrow> bool \<times> double) \<Rightarrow> nat \<Rightarrow> json list \<Rightarrow> string \<Rightarrow> bool" where
  "accepts_elements D n vs t \<longleftrightarrow> (\<forall>k us rest. k + Suc n \<le> stackLimit_g \<longrightarrow>
     readArray D k us (t @ CHR '']'' # rest) = Inr (True, JArray (us @ vs), rest))"

definition accepts_members :: "(string \<Rightarrow> bool \<times> double) \<Rightarrow> nat \<Rightarrow> (string \<times> json) list \<Rightarrow> string \<Rightarrow> bool" where
  "accepts_members D n kvs t \<longleftrightarrow> (\<forall>k name m rest. k + Suc n \<le> stackLimit_g \<longrightarrow>
     readObject D k name m (t @ CHR ''}'' # rest) = Inr (True, JObject (fold put_member kvs m), rest))"

lemma readArray_element:
  assumes "accepts_value D n v t" and "k + Suc n \<le> stackLimit_g" and "white w" and "white w'"
    and "c = CHR '']'' \<or> c = CHR '',''"
  shows "readArray D k us (w @ t @ w' @ c # s) =
    (if c = CHR '']'' then Inr (True, JArray (us @ [v]), s) else readArray D k (us @ [v]) s)"
proof -
  have e: "ends_number (w' @ c # s)" using assms(4,5) by (intro ends_number_white) auto
  have v: "readValue D (k + 1) JNull (w @ t @ w' @ c # s) = Inr (True, v, w' @ c # s)"
    using assms(1,2) e by (simp add: readValue_white [OF assms(3)] accepts_value_def)
  have t: "skipCommentTokens (w' @ c # s) =
      (True, if c = CHR '']'' then tokenArrayEnd else tokenArraySeparator, [c], s)"
    by (rule skipCommentTokens_readToken) (use assms(5) in \<open>auto simp: readToken_white [OF assms(4)] read_single\<close>)
  show ?thesis using assms(5) by (subst readArray.simps) (auto simp: v [simplified] t)
qed

lemma readObject_member:
  assumes "accepts_value D n v t" and "k + Suc n \<le> stackLimit_g" and "string_text key kt"
    and "white w" and "white w1" and "white w2" and "white w3" and "c = CHR ''}'' \<or> c = CHR '',''"
  shows "readObject D k name m (w @ quoted kt @ w1 @ CHR '':'' # w2 @ t @ w3 @ c # s) =
    (if c = CHR ''}'' then Inr (True, JObject (smap_put key v m), s)
     else readObject D k key (smap_put key v m) s)"
proof -
  let ?v = "t @ w3 @ c # s"
  have t1: "skipCommentTokens (w @ quoted kt @ w1 @ CHR '':'' # w2 @ ?v) =
      (True, tokenString, quoted kt, w1 @ CHR '':'' # w2 @ ?v)"
    by (rule skipCommentTokens_readToken) (simp_all add: readToken_white [OF assms(4)] readToken_quoted [OF assms(3)])
  have t2: "readToken (w1 @ CHR '':'' # w2 @ ?v) = (True, tokenMemberSeparator, '':'', w2 @ ?v)"
    by (simp add: readToken_white [OF assms(5)] read_single)
  have e: "ends_number (w3 @ c # s)" using assms(7,8) by (intro ends_number_white) auto
  have v: "readValue D (k + 1) old (w2 @ ?v) = Inr (True, v, w3 @ c # s)" for old
    using assms(1,2) e by (simp add: readValue_white [OF assms(6)] accepts_value_def)
  have t3: "readToken (w3 @ c # s) =
      (True, if c = CHR ''}'' then tokenObjectEnd else tokenArraySeparator, [c], s)"
    using assms(8) by (auto simp: readToken_white [OF assms(7)] read_single)
  have k: "decodeString (quoted kt) = Some key" using string_text_quoted [OF assms(3)] by (simp add: quoted_def)
  show ?thesis using assms(8)
    by (subst readObject.simps) (auto simp: t1 t2 t3 k v [simplified])
qed

lemma text_accepted:
  shows "json_text D n v t \<Longrightarrow> accepts_value D n v t"
    and "elements_text D n vs t \<Longrightarrow> accepts_elements D n vs t"
    and "members_text D n kvs t \<Longrightarrow> accepts_members D n kvs t"
proof (induction n v t and n vs t and n kvs t rule: json_text_elements_text_members_text.inducts)
  case (jt_null n)
  show ?case by (simp add: accepts_value_def readValue_token [OF readToken_word(1) [simplified]])
next
  case (jt_bool n b)
  show ?case by (simp add: accepts_value_def readValue_token [OF readToken_word(2)])
next
  case (jt_integer i n)
  then show ?case by (simp add: accepts_value_def readValue_token [OF readToken_integer] integer_roundtrip)
next
  case (jt_minus_zero n)
  have "readToken (''-0'' @ s) = (True, tokenNumber, ''-0'', s)" if "ends_number s" for s
    using readToken_number [of "CHR ''-''" "''0''" "[]" "[]" s] that
    by (simp add: fraction_text_def exponent_text_def is_digit_def less_eq_char_def)
  moreover have "decodeNumber D ''-0'' = Some (JInt 0)"
    by (simp add: decodeNumber_def is_digit_def less_eq_char_def Let_def maxLargestInt_def)
  ultimately show ?case by (simp add: accepts_value_def readValue_token [simplified])
next
  case (jt_decimal t x n)
  then show ?case
    by (simp add: accepts_value_def readValue_token [OF readToken_decimal] decodeNumber_decimal)
next
  case (jt_string s t n)
  then show ?case
    using string_text_quoted [of s t]
    by (simp add: accepts_value_def readValue_token [OF readToken_quoted] flip: quoted_def)
next
  case (jt_empty_array w n)
  have "skipSpaces (w @ CHR '']'' # rest) = CHR '']'' # rest" for rest
    unfolding skipSpaces_white [OF jt_empty_array] by (simp add: skipSpaces_def json_space_def)
  then show ?case by (simp add: accepts_value_def readValue_token [OF read_single(3)])
next
  case (jt_array n vs t)
  have "readValue D k old (CHR ''['' # t @ CHR '']'' # rest) = readArray D k [] (t @ CHR '']'' # rest)"
    if "k \<le> stackLimit_g" for k old rest
  proof -
    obtain c cs where c: "skipSpaces (t @ CHR '']'' # rest) = c # cs" "c \<noteq> CHR '']''"
      using elements_text_head [OF jt_array(1)] by blast
    with that show ?thesis
      using readArray_skipSpaces [of D k "[]" "t @ CHR '']'' # rest"]
      by (simp add: readValue_token [OF read_single(3)])
  qed
  with jt_array.IH show ?case by (simp add: accepts_value_def accepts_elements_def)
next
  case (jt_empty_object w n)
  have "skipCommentTokens (w @ CHR ''}'' # rest) = (True, tokenObjectEnd, ''}'', rest)" for rest
    by (rule skipCommentTokens_readToken) (simp_all add: readToken_white [OF jt_empty_object] read_single)
  then show ?case
    by (simp add: accepts_value_def readValue_token [OF read_single(1)] readObject.simps)
next
  case (jt_object n kvs t)
  then show ?case
    by (simp add: accepts_value_def accepts_members_def readValue_token [OF read_single(1)])
next
  case (et_last w n v t w')
  then show ?case using readArray_element [OF et_last.IH(2) _ et_last.hyps(1,2), of _ "CHR '']''"]
    by (simp add: accepts_elements_def)
next
  case (et_more w n v t w' vs ts)
  then show ?case using readArray_element [OF et_more.IH(2) _ et_more.hyps(1,2), of _ "CHR '',''"]
    by (simp add: accepts_elements_def)
next
  case (mt_last w k kt w1 w2 n v t w3)
  then show ?case
    using readObject_member [OF mt_last.IH(2) _ mt_last.hyps(2,1,3,4,5), of _ "CHR ''}''"]
    by (simp add: accepts_members_def put_member_def)
next
  case (mt_more w k kt w1 w2 n v t w3 kvs ts)
  then show ?case
    using readObject_member [OF mt_more.IH(2) _ mt_more.hyps(2,1,3,4,5), of _ "CHR '',''"]
    by (simp add: accepts_members_def put_member_def)
qed



end
