(* ===== verification/Json_Nesting.thy ===== *)
theory Json_Nesting
  imports Json_Reader "HOL-Library.Sublist"
begin

text \<open>
  When \<^verbatim>\<open>Json::Reader\<close> throws. The reader keeps a stack of the values under construction
  and throws \<^verbatim>\<open>Json::RuntimeError\<close> when it has more than 1000. Every text with fewer than
  1000 opening brackets is read to a result, well-formed or not; a text that starts with
  more than 1000 opening brackets always throws.
\<close>

section \<open>What is left is a suffix\<close>

lemma readCStyleComment_suffix: "suffix (snd (readCStyleComment s)) s"
  by (induction s rule: readCStyleComment.induct) (auto intro: suffix_ConsI)

lemma readCppStyleComment_suffix: "suffix (readCppStyleComment s) s"
proof (induction s rule: readCppStyleComment.induct)
  case (2 c cs)
  show ?case
  proof (cases "c = CHR 0x0A \<or> c = CHR 0x0D")
    case True
    then show ?thesis by (cases cs) (auto intro: suffix_ConsI)
  next
    case False
    with 2 have "suffix (readCppStyleComment cs) cs" by blast
    with False show ?thesis by (simp add: suffix_ConsI)
  qed
qed simp

lemma readString_suffix: "suffix (snd (readString s)) s"
proof (induction s rule: readString.induct)
  case (2 c cs)
  show ?case
  proof (cases "c = CHR 0x5C")
    case True
    with 2(1) have "suffix (snd (readString (drop 1 cs))) cs" using suffix_drop suffix_order.trans by blast
    with True show ?thesis by (simp add: suffix_ConsI)
  qed (use 2(2) in \<open>auto intro: suffix_ConsI\<close>)
qed simp

lemma readComment_suffix: "suffix (snd (readComment s)) s"
  using readCStyleComment_suffix [of "tl s"] readCppStyleComment_suffix [of "tl s"]
  by (cases s) (auto simp: readComment_def getNextChar_def intro: suffix_ConsI)

lemma match_pattern_suffix: "suffix (snd (match_pattern p s)) s"
  by (simp add: match_pattern_def suffix_drop)

lemma readNumber_suffix: "suffix (readNumber s) s"
proof -
  let ?i = "dropWhile is_digit s"
  define f where "f = (case ?i of c # cs \<Rightarrow> if c = CHR ''.'' then dropWhile is_digit cs else ?i | [] \<Rightarrow> ?i)"
  have d: "suffix (dropWhile is_digit xs) xs" for xs by (rule suffix_dropWhile)
  have "suffix (case xs of c # cs \<Rightarrow> if c = CHR ''.'' then dropWhile is_digit cs else xs | [] \<Rightarrow> xs) xs" for xs
    using d [of "tl xs"] by (cases xs) (simp_all add: suffix_ConsI)
  then have "suffix f ?i" unfolding f_def .
  moreover have "suffix (readNumber s) f"
    using d [of "tl f"] d [of "tl (tl f)"]
    by (auto simp: readNumber_def Let_def f_def [symmetric] intro: suffix_ConsI suffix_ConsI [OF suffix_ConsI]
        split: list.splits)
  ultimately show ?thesis using d [of s] suffix_order.trans by blast
qed

lemma token_of_char_suffix: "suffix (snd (snd (token_of_char c cs))) cs"
  by (simp add: token_of_char_def readString_suffix readComment_suffix readNumber_suffix match_pattern_suffix
      split: option.split)

fun opens :: "string \<Rightarrow> nat" where
  \<comment> \<open>the number of opening brackets\<close>
  "opens [] = 0"
| "opens (c # cs) = (if c = CHR ''['' \<or> c = CHR ''{'' then Suc (opens cs) else opens cs)"

lemma opens_append: "opens (xs @ ys) = opens xs + opens ys"
  by (induction xs) auto

lemma opens_suffix: "suffix r s \<Longrightarrow> opens r \<le> opens s"
  by (auto simp: suffix_def opens_append)

definition opened :: "TokenType \<Rightarrow> nat" where
  "opened ty = (if ty = tokenObjectBegin \<or> ty = tokenArrayBegin then 1 else 0)"

lemma skipSpaces_suffix: "suffix (skipSpaces s) s"
  by (simp add: skipSpaces_def suffix_dropWhile)

lemma token_of_char_opened:
  assumes "token_of_char c cs = (ok, ty, r)"
  shows "opened ty + opens r \<le> opens (c # cs)"
proof -
  have "suffix r cs" using token_of_char_suffix [of c cs] assms by simp
  then have "opens r \<le> opens cs" by (rule opens_suffix)
  moreover have "c = CHR ''['' \<or> c = CHR ''{''" if "opened ty \<noteq> 0"
    using that assms
    by (auto simp: token_of_char_def opened_def single_token_def split: option.splits if_splits)
  ultimately show ?thesis by (auto simp: opened_def)
qed

lemma readToken_rest:
  assumes "readToken s = (ok, ty, lx, r)"
  shows "suffix r s \<and> opened ty + opens r \<le> opens s"
proof (cases "skipSpaces s")
  case Nil
  have "token_of_char (CHR 0x00) [] = (True, tokenEndOfStream, [])"
    by (simp add: token_of_char_def single_token_def)
  with Nil assms show ?thesis by (auto simp: readToken_def getNextChar_def opened_def)
next
  case (Cons c cs)
  obtain ok1 ty1 r1 where t: "token_of_char c cs = (ok1, ty1, r1)" by (cases "token_of_char c cs")
  with Cons assms have r: "r = r1" "opened ty \<le> opened ty1"
    by (auto simp: readToken_def getNextChar_def opened_def)
  have "suffix r (c # cs)" using token_of_char_suffix [of c cs] t r(1) by (simp add: suffix_ConsI)
  then show ?thesis
    using token_of_char_opened [OF t] r skipSpaces_suffix [of s] opens_suffix [OF skipSpaces_suffix, of s]
    unfolding Cons by (auto intro: suffix_order.trans)
qed

lemma skipCommentTokens_rest:
  "skipCommentTokens s = (ok, ty, lx, r) \<Longrightarrow> suffix r s \<and> opened ty + opens r \<le> opens s"
proof (induction s arbitrary: ok ty lx r rule: skipCommentTokens.induct)
  case (1 s)
  obtain ok1 ty1 lx1 r1 where t: "readToken s = (ok1, ty1, lx1, r1)" by (cases "readToken s")
  note r1 = readToken_rest [OF t]
  show ?case
  proof (cases "ty1 = tokenComment")
    case True
    with 1(2) t have "skipCommentTokens r1 = (ok, ty, lx, r)" by (simp add: skipCommentTokens.simps [of s])
    from 1(1) [OF t [symmetric] refl refl True this] r1 show ?thesis by (auto intro: suffix_order.trans)
  next
    case False
    with 1(2) t r1 show ?thesis by (simp add: skipCommentTokens.simps [of s])
  qed
qed

lemma recoverFromError_suffix: "suffix (recoverFromError t s) s"
proof (induction t s rule: recoverFromError.induct)
  case (1 t s)
  obtain ok1 ty1 lx1 r1 where u: "readToken s = (ok1, ty1, lx1, r1)" by (cases "readToken s")
  with 1 [OF u [symmetric]] readToken_rest [OF u] show ?case
    by (subst recoverFromError.simps) (auto intro: suffix_order.trans)
qed

section \<open>Few enough brackets\<close>

lemma recover_rest:
  "suffix r s \<Longrightarrow> suffix (recoverFromError t r) s"
  using recoverFromError_suffix suffix_order.trans by blast

lemma readValue_returns:
  "n + opens s \<le> stackLimit_g \<Longrightarrow> \<exists>ok v r. readValue D n old s = Inr (ok, v, r) \<and> suffix r s"
  "Suc n + opens s \<le> stackLimit_g \<Longrightarrow> \<exists>ok v r. readObject D n name m s = Inr (ok, v, r) \<and> suffix r s"
  "Suc n + opens s \<le> stackLimit_g \<Longrightarrow> \<exists>ok v r. readArray D n vs s = Inr (ok, v, r) \<and> suffix r s"
proof (induction D n old s and D n name m s and D n vs s rule: readValue_readObject_readArray.induct)
  case (1 D n old s)
  obtain ok1 ty lx r1 where t: "skipCommentTokens s = (ok1, ty, lx, r1)" by (cases "skipCommentTokens s")
  have lim: "\<not> n > stackLimit_g" using "1.prems" by simp
  note eq = readValue.simps [of D n old s, unfolded t] and r1 = skipCommentTokens_rest [OF t]
  show ?case
  proof (cases ty)
    case tokenObjectBegin
    with r1 "1.prems" have "Suc n + opens r1 \<le> stackLimit_g" by (simp add: opened_def)
    with "1.IH"(1) [OF lim t [symmetric] refl refl tokenObjectBegin] obtain ok v r where
      "readObject D n [] [] r1 = Inr (ok, v, r)" "suffix r r1" by blast
    with tokenObjectBegin lim r1 show ?thesis by (auto simp: eq intro: suffix_order.trans)
  next
    case tokenArrayBegin
    with r1 "1.prems" have n: "Suc n + opens r1 \<le> stackLimit_g" by (simp add: opened_def)
    note IH = "1.IH"(2,3) [OF lim t [symmetric] refl refl tokenArrayBegin]
    have sp: "suffix (skipSpaces r1) s" using skipSpaces_suffix r1 suffix_order.trans by blast
    show ?thesis
    proof (cases "skipSpaces r1")
      case Nil
      with IH(1) n show ?thesis using lim tokenArrayBegin by (fastforce simp: eq)
    next
      case (Cons c cs)
      show ?thesis
      proof (cases "c = CHR '']''")
        case True
        with Cons sp lim tokenArrayBegin show ?thesis by (auto simp: eq dest: suffix_ConsD)
      next
        case False
        have "Suc n + opens (c # cs) \<le> stackLimit_g" using n opens_suffix [OF skipSpaces_suffix, of r1] Cons by simp
        with IH(2) [OF Cons False] obtain ok v r where
          "readArray D n [] (c # cs) = Inr (ok, v, r)" "suffix r (c # cs)" by blast
        with Cons False sp lim tokenArrayBegin show ?thesis by (auto simp: eq intro: suffix_order.trans)
      qed
    qed
  qed (use lim r1 in \<open>auto simp: eq split: option.splits\<close>)
next
  case (2 D n name m s)
  obtain ok1 ty1 lx1 r1 where t1: "skipCommentTokens s = (ok1, ty1, lx1, r1)" by (cases "skipCommentTokens s")
  note eq = readObject.simps [of D n name m s, unfolded t1]
  have r1: "suffix r1 s" using skipCommentTokens_rest [OF t1] by simp
  show ?case
  proof (cases "ok1 \<and> \<not> (ty1 = tokenObjectEnd \<and> name = []) \<and> ty1 = tokenString \<and> decodeString lx1 \<noteq> None")
    case False
    with r1 recover_rest [OF r1] show ?thesis by (auto simp: eq)
  next
    case True
    then obtain name' where name: "decodeString lx1 = Some name'" and c1: "ok1" "ty1 = tokenString" by auto
    obtain ok2 ty2 lx2 r2 where t2: "readToken r1 = (ok2, ty2, lx2, r2)" by (cases "readToken r1")
    have r2: "suffix r2 s" using readToken_rest [OF t2] r1 suffix_order.trans by blast
    show ?thesis
    proof (cases "\<not> ok2 \<or> ty2 \<noteq> tokenMemberSeparator")
      case True
      with recover_rest [OF r2] show ?thesis by (auto simp: eq c1 name t2)
    next
      case sep: False
      let ?old = "case map_of m name' of None \<Rightarrow> JNull | Some v \<Rightarrow> v"
      note go = t1 [symmetric] refl refl _ _ _ name t2 [symmetric] refl refl sep
      have "(n + 1) + opens r2 \<le> stackLimit_g" using "2.prems" opens_suffix [OF r2] by simp
      from "2.IH"(1) [OF go this] obtain ok3 v r3 where
        v: "readValue D (n + 1) ?old r2 = Inr (ok3, v, r3)" and r3': "suffix r3 r2" using c1 by auto
      have r3: "suffix r3 s" using r3' r2 suffix_order.trans by blast
      obtain ok4 ty4 lx4 r4 where t4: "readToken r3 = (ok4, ty4, lx4, r4)" by (cases "readToken r3")
      have r4: "suffix r4 s" using readToken_rest [OF t4] r3 suffix_order.trans by blast
      obtain ok5 ty5 lx5 r5 where t5: "(if ty4 = tokenComment then skipCommentTokens r4 else (ok4, ty4, lx4, r4))
          = (ok5, ty5, lx5, r5)" by (metis prod_cases4)
      have "suffix r5 r4" using t5 skipCommentTokens_rest [of r4] by (auto split: if_splits)
      then have r5: "suffix r5 s" using r4 suffix_order.trans by blast
      have n5: "Suc n + opens r5 \<le> stackLimit_g" using "2.prems" opens_suffix [OF r5] by simp
      note IH = "2.IH"(2) [OF go v refl refl _ t4 [symmetric] refl refl _ t5 [symmetric] refl refl _ n5]
      show ?thesis
        using sep r5 recover_rest [OF r3] recover_rest [OF r4] IH c1
        by (auto simp: eq name t2 v [simplified] t4 t5 intro: suffix_order.trans)
    qed
  qed
next
  case (3 D n vs s)
  note eq = readArray.simps [of D n vs s]
  obtain ok1 v1 r1 where v: "readValue D (n + 1) JNull s = Inr (ok1, v1, r1)" and r1: "suffix r1 s"
    using "3.IH"(1) "3.prems" by auto
  obtain ok2 ty lx r2 where t: "skipCommentTokens r1 = (ok2, ty, lx, r2)" by (cases "skipCommentTokens r1")
  have r2: "suffix r2 s" using skipCommentTokens_rest [OF t] r1 suffix_order.trans by blast
  have n2: "Suc n + opens r2 \<le> stackLimit_g" using "3.prems" opens_suffix [OF r2] by simp
  note IH = "3.IH"(2) [OF v refl refl _ t [symmetric] refl refl _ _ n2]
  show ?case
    using r2 recover_rest [OF r1] recover_rest [OF r2] IH
    by (auto simp: eq v [simplified] t intro: suffix_order.trans)
qed

lemma Reader_parse_returns:
  "opens document < stackLimit_g \<Longrightarrow> \<exists>ok j. Reader_parse D document = Inr (ok, j)"
  using readValue_returns(1) [of 1 document D JNull] by (auto simp: Reader_parse_def)

section \<open>Too many levels\<close>

lemma readValue_deep:
  "k + m > stackLimit_g + 1 \<Longrightarrow> readValue D k old (replicate m (CHR ''['') @ rest) = Inl Runtime_Error"
proof (induction m arbitrary: k old)
  case 0
  then show ?case by (subst readValue.simps) simp
next
  case (Suc m)
  show ?case
  proof (cases "k > stackLimit_g")
    case True
    then show ?thesis by (subst readValue.simps) simp
  next
    case False
    with Suc.prems obtain m' where m: "m = Suc m'" by (cases m) auto
    have "skipSpaces (CHR ''['' # replicate m' (CHR ''['') @ rest) = CHR ''['' # replicate m' (CHR ''['') @ rest"
      by (simp add: skipSpaces_def json_space_def)
    with False have "readValue D k old (replicate (Suc m) (CHR ''['') @ rest)
        = readArray D k [] (replicate m (CHR ''['') @ rest)"
      by (simp add: readValue_token [OF read_single(3)] m)
    also have "\<dots> = Inl Runtime_Error"
      using Suc.IH [of "k + 1" JNull] Suc.prems by (subst readArray.simps) simp
    finally show ?thesis .
  qed
qed

lemma Reader_parse_deep:
  "m > stackLimit_g \<Longrightarrow> Reader_parse D (replicate m (CHR ''['') @ rest) = Inl Runtime_Error"
  using readValue_deep [of 1 m D JNull rest] by (simp add: Reader_parse_def)

text \<open>
  C10. The reader returns on every text with fewer than 1000 opening brackets, wherever they
  are and however broken the text is, and leaves the server with an uncaught
  \<^verbatim>\<open>Json::RuntimeError\<close> on every text that starts with more than 1000 of them.
\<close>

theorem reader_nesting:
  "(opens document < stackLimit_g \<longrightarrow> (\<exists>ok j. Reader_parse D document = Inr (ok, j)))
   \<and> (m > stackLimit_g \<longrightarrow> Reader_parse D (replicate m (CHR ''['') @ rest) = Inl Runtime_Error)"
  using Reader_parse_returns Reader_parse_deep by blast

theorem reader_nesting_witness:
  "(\<exists>ok j. Reader_parse (\<lambda>_. (False, NaN)) ''[[x'' = Inr (ok, j))
   \<and> Reader_parse (\<lambda>_. (False, NaN)) (replicate 1001 (CHR ''['') @ []) = Inl Runtime_Error"
  using reader_nesting [of "''[[x''" "\<lambda>_. (False, NaN)" 1001 "[]"] by (simp add: stackLimit_g_def)

end
