(* ===== verification/Json_Writer.thy ===== *)
theory Json_Writer
  imports Json_Reader
begin

text \<open>
  \<^verbatim>\<open>Json::StyledWriter\<close> of newJson/jsoncpp.cpp: the indented text the servers send. Values
  have no comments, and the printing of a finite \<^verbatim>\<open>double\<close> is an argument. What is written is a
  text of the grammar, so the reader gives the value back, for every value without
  doubles whose strings are UTF-8.
\<close>

section \<open>The writer\<close>

record StyledWriter =
  sw_childValues :: "string list"
  sw_document :: string
  sw_indentString :: string
  sw_addChildValues :: bool

definition rightMargin :: nat where "rightMargin = 74"
definition indentSize :: nat where "indentSize = 3"

definition pushValue :: "string \<Rightarrow> StyledWriter \<Rightarrow> StyledWriter" where
  "pushValue v w =
     (if sw_addChildValues w then w\<lparr>sw_childValues := sw_childValues w @ [v]\<rparr>
      else w\<lparr>sw_document := sw_document w @ v\<rparr>)"

definition put_text :: "string \<Rightarrow> StyledWriter \<Rightarrow> StyledWriter" where
  \<comment> \<open>\<^verbatim>\<open>document_ += text\<close>\<close>
  "put_text t w = w\<lparr>sw_document := sw_document w @ t\<rparr>"

definition writeIndent :: "StyledWriter \<Rightarrow> StyledWriter" where
  "writeIndent w =
     (if sw_document w \<noteq> [] then
        if last (sw_document w) = CHR '' '' then w
        else if last (sw_document w) \<noteq> CHR 0x0A then put_text (CHR 0x0A # sw_indentString w) w
        else put_text (sw_indentString w) w
      else put_text (sw_indentString w) w)"

definition writeWithIndent :: "string \<Rightarrow> StyledWriter \<Rightarrow> StyledWriter" where
  "writeWithIndent v w = put_text v (writeIndent w)"

definition indent :: "StyledWriter \<Rightarrow> StyledWriter" where
  "indent w = w\<lparr>sw_indentString := sw_indentString w @ replicate indentSize (CHR '' '')\<rparr>"

definition unindent :: "StyledWriter \<Rightarrow> StyledWriter" where
  "unindent w = w\<lparr>sw_indentString := take (length (sw_indentString w) - indentSize) (sw_indentString w)\<rparr>"

definition nonempty_container :: "json \<Rightarrow> bool" where
  "nonempty_container v \<longleftrightarrow> (case v of JArray vs \<Rightarrow> vs \<noteq> [] | JObject m \<Rightarrow> m \<noteq> [] | _ \<Rightarrow> False)"

definition wide_array :: "json list \<Rightarrow> bool" where
  \<comment> \<open>the first part of \<^verbatim>\<open>isMultilineArray\<close>, decided without writing the elements\<close>
  "wide_array vs \<longleftrightarrow> (length vs * 3) mod 2 ^ 32 \<ge> rightMargin \<or> list_ex nonempty_container vs"

definition long_line :: "string list \<Rightarrow> bool" where
  \<comment> \<open>the second part, from the texts of the elements\<close>
  "long_line texts \<longleftrightarrow> (4 + (length texts - 1) * 2 + sum_list (map length texts)) mod 2 ^ 32 \<ge> rightMargin"

fun writeTexts :: "string list \<Rightarrow> StyledWriter \<Rightarrow> StyledWriter" where
  \<comment> \<open>the loop over \<^verbatim>\<open>childValues_\<close> in a multi-line array\<close>
  "writeTexts [] w = w"
| "writeTexts [t] w = writeWithIndent t w"
| "writeTexts (t # ts) w = writeTexts ts (put_text '','' (writeWithIndent t w))"

fun join_texts :: "string list \<Rightarrow> string" where
  "join_texts [] = []"
| "join_texts [t] = t"
| "join_texts (t # ts) = t @ '', '' @ join_texts ts"

fun writeValue :: "(rat \<Rightarrow> string) \<Rightarrow> json \<Rightarrow> StyledWriter \<Rightarrow> StyledWriter"
  and writeLeaves :: "(rat \<Rightarrow> string) \<Rightarrow> json list \<Rightarrow> StyledWriter \<Rightarrow> StyledWriter"
  and writeElements :: "(rat \<Rightarrow> string) \<Rightarrow> json list \<Rightarrow> StyledWriter \<Rightarrow> StyledWriter"
  and writeMembers :: "(rat \<Rightarrow> string) \<Rightarrow> (string \<times> json) list \<Rightarrow> StyledWriter \<Rightarrow> StyledWriter" where
  "writeValue P JNull w = pushValue ''null'' w"
| "writeValue P (JInt i) w = pushValue (valueToString_int i) w"
| "writeValue P (JUInt n) w = pushValue (valueToString_uint n) w"
| "writeValue P (JReal d) w = pushValue (valueToString_double P d) w"
| "writeValue P (JString s) w = pushValue (valueToQuotedStringN s False) w"
| "writeValue P (JBool b) w = pushValue (valueToString_bool b) w"
| "writeValue P (JArray vs) w =
     (if vs = [] then pushValue ''[]'' w
      else
        let w1 = w\<lparr>sw_childValues := []\<rparr>;
            w2 = (if wide_array vs then w1
                  else (writeLeaves P vs (w1\<lparr>sw_addChildValues := True\<rparr>))\<lparr>sw_addChildValues := False\<rparr>);
            isArrayMultiLine = (wide_array vs \<or> long_line (sw_childValues w2))
        in if isArrayMultiLine then
             let w3 = indent (writeWithIndent ''['' w2);
                 w4 = (if sw_childValues w3 \<noteq> [] then writeTexts (sw_childValues w3) w3 else writeElements P vs w3)
             in writeWithIndent '']'' (unindent w4)
           else put_text ('' ]'') (put_text (join_texts (sw_childValues w2)) (put_text ''[ '' w2)))"
| "writeValue P (JObject m) w =
     (if m = [] then pushValue ''{}'' w
      else writeWithIndent ''}'' (unindent (writeMembers P m (indent (writeWithIndent ''{'' w)))))"
| "writeLeaves P [] w = w"
| "writeLeaves P (v # vs) w = writeLeaves P vs (writeValue P v w)"
| "writeElements P [] w = w"
| "writeElements P [v] w = writeValue P v (writeIndent w)"
| "writeElements P (v # v' # vs) w =
     writeElements P (v' # vs) (put_text '','' (writeValue P v (writeIndent w)))"
| "writeMembers P [] w = w"
| "writeMembers P [(k, v)] w =
     writeValue P v (put_text '' : '' (writeWithIndent (valueToQuotedString k) w))"
| "writeMembers P ((k, v) # kv' # m) w =
     writeMembers P (kv' # m)
       (put_text '','' (writeValue P v (put_text '' : '' (writeWithIndent (valueToQuotedString k) w))))"

definition StyledWriter_write :: "(rat \<Rightarrow> string) \<Rightarrow> json \<Rightarrow> string" where
  "StyledWriter_write P j =
     sw_document (writeValue P j
       \<lparr>sw_childValues = [], sw_document = [], sw_indentString = [], sw_addChildValues = False\<rparr>) @ [CHR 0x0A]"

text \<open>Parsing and printing as the servers call them.\<close>

abbreviation jl_parse :: "json_lib \<Rightarrow> string \<Rightarrow> (bool \<times> json) res" where
  "jl_parse L document \<equiv> Reader_parse (jl_scan L) document"

abbreviation jl_write :: "json_lib \<Rightarrow> json \<Rightarrow> string" where
  "jl_write L j \<equiv> StyledWriter_write (jl_real L) j"

section \<open>What is written\<close>

fun written_ok :: "json \<Rightarrow> bool" where
  "written_ok (JInt i) \<longleftrightarrow> minLargestInt \<le> i \<and> i \<le> maxLargestInt"
| "written_ok (JUInt n) \<longleftrightarrow> n \<le> maxLargestUInt"
| "written_ok (JReal d) \<longleftrightarrow> False"
| "written_ok (JString s) \<longleftrightarrow> utf8_string s"
| "written_ok (JArray vs) \<longleftrightarrow> list_all written_ok vs"
| "written_ok (JObject m) \<longleftrightarrow>
     smap_ok m \<and> list_all (\<lambda>(k, v). utf8_string k \<and> CHR 0x00 \<notin> set k \<and> written_ok v) m"
| "written_ok _ \<longleftrightarrow> True"

fun normal :: "json \<Rightarrow> json" where
  \<comment> \<open>integers as the reader makes them\<close>
  "normal (JInt i) = number_value i"
| "normal (JUInt n) = number_value (int n)"
| "normal (JArray vs) = JArray (map normal vs)"
| "normal (JObject m) = JObject (map (\<lambda>(k, v). (k, normal v)) m)"
| "normal v = v"

fun json_depth :: "json \<Rightarrow> nat" where
  "json_depth (JArray vs) = foldr max (map (\<lambda>v. Suc (json_depth v)) vs) 0"
| "json_depth (JObject m) = foldr max (map (\<lambda>(k, v). Suc (json_depth v)) m) 0"
| "json_depth _ = 0"

subsection \<open>White space\<close>

lemma put_text_simps [simp]:
  "sw_document (put_text t w) = sw_document w @ t" "sw_childValues (put_text t w) = sw_childValues w"
  "sw_indentString (put_text t w) = sw_indentString w" "sw_addChildValues (put_text t w) = sw_addChildValues w"
  "put_text t' (put_text t w) = put_text (t @ t') w"
  "(put_text t w)\<lparr>sw_childValues := c\<rparr> = put_text t (w\<lparr>sw_childValues := c\<rparr>)"
  "(put_text t w)\<lparr>sw_indentString := i\<rparr> = put_text t (w\<lparr>sw_indentString := i\<rparr>)"
  by (simp_all add: put_text_def)

lemma writeIndent_white:
  "white (sw_indentString w) \<Longrightarrow> \<exists>x. white x \<and> writeIndent w = put_text x w"
  unfolding writeIndent_def
  by (auto simp: json_space_def put_text_def intro: exI [of _ "[]"] exI [of _ "sw_indentString w"]
      exI [of _ "CHR 0x0A # sw_indentString w"])

lemma writeWithIndent_white:
  "white (sw_indentString w) \<Longrightarrow> \<exists>x. white x \<and> writeWithIndent t w = put_text (x @ t) w"
  using writeIndent_white [of w] by (auto simp: writeWithIndent_def)

lemma white_spaces: "white (replicate n (CHR '' ''))"
  by (induction n) (simp_all add: json_space_def)

lemma white_indent [simp]: "white (sw_indentString (indent w)) \<longleftrightarrow> white (sw_indentString w)"
  by (simp add: indent_def white_spaces)

lemma unindent_indent:
  "sw_indentString w' = sw_indentString (indent w) \<Longrightarrow> unindent w' = w'\<lparr>sw_indentString := sw_indentString w\<rparr>"
  by (simp add: unindent_def indent_def)

lemma foldr_max_le: "foldr max xs 0 \<le> (n :: nat) \<longleftrightarrow> (\<forall>x\<in>set xs. x \<le> n)"
  by (induction xs) auto

subsection \<open>Texts of the grammar\<close>

text \<open>
  The texts whose numbers are integers of 64 bits, which need no scanning function.
\<close>

abbreviation plain_text :: "nat \<Rightarrow> json \<Rightarrow> string \<Rightarrow> bool" where "plain_text \<equiv> json_text (\<lambda>_. (False, NaN))"
abbreviation plain_elements :: "nat \<Rightarrow> json list \<Rightarrow> string \<Rightarrow> bool" where "plain_elements \<equiv> elements_text (\<lambda>_. (False, NaN))"
abbreviation plain_members :: "nat \<Rightarrow> (string \<times> json) list \<Rightarrow> string \<Rightarrow> bool" where
  "plain_members \<equiv> members_text (\<lambda>_. (False, NaN))"

lemma plain_text_any:
  "plain_text n v t \<Longrightarrow> json_text D n v t"
  "plain_elements n vs t \<Longrightarrow> elements_text D n vs t"
  "plain_members n kvs t \<Longrightarrow> members_text D n kvs t"
  by (induction n v t and n vs t and n kvs t rule: json_text_elements_text_members_text.inducts)
    (auto intro: json_text_elements_text_members_text.intros simp: decodeDouble_def)

lemma white_Nil: "white []"
  by simp

lemma elements_text_join:
  assumes "list_all2 (plain_text n) vs ts" and "vs \<noteq> []" and "white w" and "white w'"
  shows "plain_elements n vs (w @ join_texts ts @ w')"
  using assms
proof (induction ts arbitrary: vs w rule: join_texts.induct)
  case (2 t)
  then obtain v where "vs = [v]" "plain_text n v t" by (auto simp: list_all2_Cons2)
  with 2 et_last [of w _ n v t w'] show ?case by simp
next
  case (3 t t' ts)
  then obtain v vs' where v: "vs = v # vs'" "plain_text n v t" "list_all2 (plain_text n) vs' (t' # ts)"
    by (auto simp: list_all2_Cons2)
  have "white '' ''" by (simp add: json_space_def)
  moreover have "vs' \<noteq> []" using v(3) by auto
  ultimately have "plain_elements n vs' ('' '' @ join_texts (t' # ts) @ w')" using 3 v(3) by blast
  from et_more [OF \<open>white w\<close> v(2) white_Nil this] show ?case by (simp add: v(1))
qed simp

lemma fold_put_member:
  assumes "smap_ok (m @ kvs)"
  shows "fold put_member kvs m = m @ kvs"
  using assms
proof (induction kvs arbitrary: m)
  case (Cons kv kvs)
  have put: "smap_put k v m = m @ [(k, v)]" if "smap_ok (m @ [(k, v)])" for k and v :: json and m
    using that by (induction k v m rule: smap_put.induct) auto
  obtain k v where kv: "kv = (k, v)" by (cases kv)
  have "smap_ok (m @ [(k, v)])" using Cons.prems by (simp add: kv smap_ok_def sorted_wrt_append)
  from put [OF this] Cons show ?case by (simp add: kv put_member_def)
qed simp

definition writes_value :: "(rat \<Rightarrow> string) \<Rightarrow> nat \<Rightarrow> json \<Rightarrow> bool" where
  "writes_value P n v \<longleftrightarrow> (\<forall>w. \<not> sw_addChildValues w \<longrightarrow> white (sw_indentString w) \<longrightarrow>
     (\<exists>c x t. white x \<and> plain_text n (normal v) t
        \<and> writeValue P v w = put_text (x @ t) w\<lparr>sw_childValues := c\<rparr>))"

lemma writes_value_cases:
  assumes "writes_value P n v" and "\<not> sw_addChildValues w" and "white (sw_indentString w)"
  obtains c x t where "white x" "plain_text n (normal v) t"
    "writeValue P v w = put_text (x @ t) w\<lparr>sw_childValues := c\<rparr>"
  using assms by (auto simp: writes_value_def)

lemma writeLeaf:
  assumes "written_ok v" and "\<not> nonempty_container v"
  shows "\<exists>t. plain_text n (normal v) t \<and> (\<forall>w. writeValue P v w = pushValue t w)"
proof (cases v)
  case (JInt i)
  with assms(1) have "plain_text n (number_value i) (to_string_int i)"
    by (intro jt_integer) (simp_all add: maxLargestInt_def maxLargestUInt_def)
  with JInt show ?thesis by (auto simp: valueToString_eq)
next
  case (JUInt k)
  with assms(1) have "plain_text n (number_value (int k)) (to_string_int (int k))"
    by (intro jt_integer) (simp_all add: minLargestInt_def)
  with JUInt show ?thesis by (auto simp: valueToString_eq to_string_int_def)
next
  case (JString s)
  with assms(1) valueToQuotedStringN_text [of s] show ?thesis
    by (auto simp: quoted_def [symmetric] intro: jt_string)
qed (use assms jt_null jt_bool jt_empty_array [of "[]" "\<lambda>_. (False, NaN)" n] jt_empty_object [of "[]" "\<lambda>_. (False, NaN)" n]
     in \<open>auto simp: nonempty_container_def intro: jt_null jt_bool\<close>)

lemma writeLeaves_texts:
  assumes "list_all written_ok vs" and "\<not> list_ex nonempty_container vs"
  shows "\<exists>ts. list_all2 (plain_text n) (map normal vs) ts
    \<and> (\<forall>w. sw_addChildValues w \<longrightarrow> writeLeaves P vs w = w\<lparr>sw_childValues := sw_childValues w @ ts\<rparr>)"
  using assms
proof (induction vs)
  case (Cons v vs)
  then obtain t ts where "plain_text n (normal v) t" "\<And>w. writeValue P v w = pushValue t w"
    "list_all2 (plain_text n) (map normal vs) ts"
    "\<And>w. sw_addChildValues w \<Longrightarrow> writeLeaves P vs w = w\<lparr>sw_childValues := sw_childValues w @ ts\<rparr>"
    using writeLeaf [of v n P] by auto
  then show ?case by (intro exI [of _ "t # ts"]) (simp add: pushValue_def)
qed simp

lemma writeTexts_text:
  assumes "list_all2 (plain_text n) vs ts" and "vs \<noteq> []" and "white (sw_indentString w)"
  shows "\<exists>E. (\<forall>w'. white w' \<longrightarrow> plain_elements n vs (E @ w')) \<and> writeTexts ts w = put_text E w"
  using assms
proof (induction ts w arbitrary: vs rule: writeTexts.induct)
  case (2 t w)
  then obtain v where v: "vs = [v]" "plain_text n v t" by (auto simp: list_all2_Cons2)
  obtain x where x: "white x" "writeWithIndent t w = put_text (x @ t) w"
    using writeWithIndent_white [OF 2(3)] by blast
  with v show ?case by (auto intro!: exI [of _ "x @ t"] et_last)
next
  case (3 t t' ts w)
  then obtain v vs' where v: "vs = v # vs'" "plain_text n v t" "list_all2 (plain_text n) vs' (t' # ts)"
    by (auto simp: list_all2_Cons2)
  obtain x where x: "white x" "writeWithIndent t w = put_text (x @ t) w"
    using writeWithIndent_white [OF 3(4)] by blast
  have "vs' \<noteq> []" using v(3) by auto
  with 3(1) [of vs'] 3(4) v(3) x(2) obtain E where E: "\<And>w'. white w' \<Longrightarrow> plain_elements n vs' (E @ w')"
    "writeTexts (t' # ts) (put_text '','' (writeWithIndent t w)) = put_text E (put_text (x @ t @ '','') w)"
    by auto
  have "plain_elements n vs ((x @ t @ '','' @ E) @ w')" if "white w'" for w'
    using et_more [OF x(1) v(2) white_Nil E(1) [OF that]] by (simp add: v(1))
  with E(2) show ?case by (intro exI [of _ "x @ t @ '','' @ E"]) simp
qed simp

lemma writeElements_text:
  assumes "\<forall>v\<in>set vs. writes_value P n v" and "vs \<noteq> []" and "\<not> sw_addChildValues w"
    and "white (sw_indentString w)"
  shows "\<exists>E c. (\<forall>w'. white w' \<longrightarrow> plain_elements n (map normal vs) (E @ w'))
    \<and> writeElements P vs w = put_text E w\<lparr>sw_childValues := c\<rparr>"
  using assms
proof (induction vs arbitrary: w rule: induct_list012)
  case (2 v)
  obtain x where x: "white x" "writeIndent w = put_text x w" using writeIndent_white [OF 2(4)] by blast
  obtain c y t where t: "white y" "plain_text n (normal v) t"
    "writeValue P v (put_text x w) = put_text (y @ t) (put_text x w)\<lparr>sw_childValues := c\<rparr>"
    by (rule writes_value_cases [of P n v "put_text x w"]) (use 2 in auto)
  have "plain_elements n [normal v] ((x @ y @ t) @ w')" if "white w'" for w'
    using et_last [of "x @ y" _ n "normal v" t w'] x(1) t(1,2) that by simp
  with t(3) show ?case by (auto simp: x(2) intro!: exI [of _ "x @ y @ t"] exI [of _ c])
next
  case (3 v v' vs)
  obtain x where x: "white x" "writeIndent w = put_text x w" using writeIndent_white [OF 3(6)] by blast
  obtain c y t where t: "white y" "plain_text n (normal v) t"
    "writeValue P v (put_text x w) = put_text (y @ t) (put_text x w)\<lparr>sw_childValues := c\<rparr>"
    by (rule writes_value_cases [of P n v "put_text x w"]) (use 3 in auto)
  let ?w = "put_text (x @ y @ t @ '','') w\<lparr>sw_childValues := c\<rparr>"
  obtain E c' where E: "\<And>w'. white w' \<Longrightarrow> plain_elements n (map normal (v' # vs)) (E @ w')"
    "writeElements P (v' # vs) ?w = put_text E ?w\<lparr>sw_childValues := c'\<rparr>"
    using 3(2) [of ?w] 3(3-) by auto
  have "plain_elements n (map normal (v # v' # vs)) ((x @ y @ t @ '','' @ E) @ w')" if "white w'" for w'
    using et_more [of "x @ y" _ n "normal v" t "[]", OF _ t(2) white_Nil E(1) [OF that]] x(1) t(1) by simp
  moreover have "writeElements P (v # v' # vs) w = put_text (x @ y @ t @ '','' @ E) w\<lparr>sw_childValues := c'\<rparr>"
    using E(2) t(3) by (simp add: x(2))
  ultimately show ?case by blast
qed simp

lemma key_text:
  assumes "utf8_string k" and "CHR 0x00 \<notin> set k"
  shows "\<exists>kt. valueToQuotedString k = quoted kt \<and> string_text k kt"
proof -
  have "c_str k = k" using assms(2) by (auto simp: c_str_def takeWhile_eq_all_conv)
  then show ?thesis using valueToQuotedStringN_text [OF assms(1)] by (auto simp: valueToQuotedString_def quoted_def)
qed

lemma writeMember_text:
  assumes "writes_value P n v" and "utf8_string k" and "CHR 0x00 \<notin> set k" and "\<not> sw_addChildValues w"
    and "white (sw_indentString w)"
  obtains c x kt y t where "white x" "string_text k kt" "white y" "plain_text n (normal v) t"
    "writeValue P v (put_text '' : '' (writeWithIndent (valueToQuotedString k) w))
      = put_text (x @ quoted kt @ '' '' @ CHR '':'' # (CHR '' '' # y) @ t) w\<lparr>sw_childValues := c\<rparr>"
proof -
  obtain kt where kt: "valueToQuotedString k = quoted kt" "string_text k kt" using key_text [OF assms(2,3)] by blast
  obtain x where x: "white x" "writeWithIndent (quoted kt) w = put_text (x @ quoted kt) w"
    using writeWithIndent_white [OF assms(5)] by blast
  obtain c y t where t: "white y" "plain_text n (normal v) t"
    "writeValue P v (put_text (x @ quoted kt @ '' : '') w)
      = put_text (y @ t) (put_text (x @ quoted kt @ '' : '') w)\<lparr>sw_childValues := c\<rparr>"
    by (rule writes_value_cases [of P n v "put_text (x @ quoted kt @ '' : '') w"]) (use assms in auto)
  show thesis by (rule that [OF x(1) kt(2) t(1,2)]) (use t(3) in \<open>simp add: kt(1) x(2)\<close>)
qed

lemma writeMembers_text:
  assumes "\<forall>(k, v)\<in>set m. writes_value P n v \<and> utf8_string k \<and> CHR 0x00 \<notin> set k" and "m \<noteq> []"
    and "\<not> sw_addChildValues w" and "white (sw_indentString w)"
  shows "\<exists>E c. (\<forall>w'. white w' \<longrightarrow> plain_members n (map (\<lambda>(k, v). (k, normal v)) m) (E @ w'))
    \<and> writeMembers P m w = put_text E w\<lparr>sw_childValues := c\<rparr>"
  using assms
proof (induction m arbitrary: w rule: induct_list012)
  case (2 kv)
  obtain k v where kv: "kv = (k, v)" by (cases kv)
  obtain c x kt y t where t: "white x" "string_text k kt" "white y" "plain_text n (normal v) t"
    "writeValue P v (put_text '' : '' (writeWithIndent (valueToQuotedString k) w))
      = put_text (x @ quoted kt @ '' '' @ CHR '':'' # (CHR '' '' # y) @ t) w\<lparr>sw_childValues := c\<rparr>"
    by (rule writeMember_text [of P n v k w]) (use 2 in \<open>auto simp: kv\<close>)
  have sp: "white '' ''" "white (CHR '' '' # y)" using t(3) by (simp_all add: json_space_def)
  let ?h = "x @ quoted kt @ '' '' @ CHR '':'' # (CHR '' '' # y) @ t"
  have "plain_members n (map (\<lambda>(k, v). (k, normal v)) [kv]) (?h @ w')" if "white w'" for w'
    using mt_last [OF t(1,2) sp t(4) that] by (simp add: kv)
  moreover have "writeMembers P [kv] w = put_text ?h w\<lparr>sw_childValues := c\<rparr>" by (simp add: kv t(5))
  ultimately show ?case by blast
next
  case (3 kv kv' m)
  obtain k v where kv: "kv = (k, v)" by (cases kv)
  obtain c x kt y t where t: "white x" "string_text k kt" "white y" "plain_text n (normal v) t"
    "writeValue P v (put_text '' : '' (writeWithIndent (valueToQuotedString k) w))
      = put_text (x @ quoted kt @ '' '' @ CHR '':'' # (CHR '' '' # y) @ t) w\<lparr>sw_childValues := c\<rparr>"
    by (rule writeMember_text [of P n v k w]) (use 3 in \<open>auto simp: kv\<close>)
  have sp: "white '' ''" "white (CHR '' '' # y)" using t(3) by (simp_all add: json_space_def)
  let ?h = "x @ quoted kt @ '' '' @ CHR '':'' # (CHR '' '' # y) @ t"
  let ?w = "put_text (?h @ '','') w\<lparr>sw_childValues := c\<rparr>"
  obtain E c' where E: "\<And>w'. white w' \<Longrightarrow> plain_members n (map (\<lambda>(k, v). (k, normal v)) (kv' # m)) (E @ w')"
    "writeMembers P (kv' # m) ?w = put_text E ?w\<lparr>sw_childValues := c'\<rparr>"
    using 3(2) [of ?w] 3(3-) by auto
  have "plain_members n (map (\<lambda>(k, v). (k, normal v)) (kv # kv' # m)) ((?h @ '','' @ E) @ w')" if "white w'" for w'
    using mt_more [OF t(1,2) sp t(4) white_Nil E(1) [OF that]] by (simp add: kv)
  moreover have "writeMembers P (kv # kv' # m) w = put_text (?h @ '','' @ E) w\<lparr>sw_childValues := c'\<rparr>"
    using E(2) by (simp add: kv t(5))
  ultimately show ?case by blast
qed simp

lemma bracketed:
  assumes "white (sw_indentString w)"
    and "body (indent (writeWithIndent opening w)) = put_text E (indent (writeWithIndent opening w))\<lparr>sw_childValues := c\<rparr>"
  shows "\<exists>x y. white x \<and> white y \<and> writeWithIndent closing (unindent (body (indent (writeWithIndent opening w))))
    = put_text (x @ opening @ E @ y @ closing) w\<lparr>sw_childValues := c\<rparr>"
proof -
  obtain x where x: "white x" "writeWithIndent opening w = put_text (x @ opening) w"
    using writeWithIndent_white [OF assms(1)] by blast
  let ?u = "put_text (x @ opening @ E) w\<lparr>sw_childValues := c\<rparr>"
  have u: "unindent (body (indent (writeWithIndent opening w))) = ?u"
    using assms(2) by (simp add: x(2) unindent_def indent_def put_text_def)
  obtain y where "white y" "writeWithIndent closing ?u = put_text (y @ closing) ?u"
    using writeWithIndent_white [of ?u] assms(1) by auto
  then show ?thesis using x(1) unfolding u by auto
qed

lemma writes_leaf:
  assumes "written_ok v" and "\<not> nonempty_container v"
  shows "writes_value P n v"
proof -
  obtain t where t: "plain_text n (normal v) t" "\<And>w. writeValue P v w = pushValue t w"
    using writeLeaf [OF assms] by blast
  have "pushValue t w = put_text ([] @ t) w\<lparr>sw_childValues := sw_childValues w\<rparr>" if "\<not> sw_addChildValues w" for w
    using that by (simp add: pushValue_def put_text_def)
  with t show ?thesis unfolding writes_value_def by (metis white_Nil)
qed

lemma writes_array:
  assumes "\<forall>v\<in>set vs. writes_value P n v" and "list_all written_ok vs" and "vs \<noteq> []"
  shows "writes_value P (Suc n) (JArray vs)"
  unfolding writes_value_def
proof (intro allI impI)
  fix w :: StyledWriter
  assume w: "\<not> sw_addChildValues w" "white (sw_indentString w)"
  define w2 where "w2 = (if wide_array vs then w\<lparr>sw_childValues := []\<rparr>
    else (writeLeaves P vs (w\<lparr>sw_childValues := [], sw_addChildValues := True\<rparr>))\<lparr>sw_addChildValues := False\<rparr>)"
  define w3 where "w3 = indent (writeWithIndent ''['' w2)"
  let ?body = "\<lambda>w. if sw_childValues w \<noteq> [] then writeTexts (sw_childValues w) w else writeElements P vs w"
  have eq: "writeValue P (JArray vs) w =
      (if wide_array vs \<or> long_line (sw_childValues w2) then writeWithIndent '']'' (unindent (?body w3))
       else put_text (''[ '' @ join_texts (sw_childValues w2) @ '' ]'') w2)"
    using assms(3) by (simp add: Let_def w2_def w3_def)
  obtain ts where ts: "w2 = w\<lparr>sw_childValues := ts\<rparr>"
    "ts \<noteq> [] \<Longrightarrow> list_all2 (plain_text n) (map normal vs) ts" "\<not> wide_array vs \<Longrightarrow> ts \<noteq> []"
  proof (cases "wide_array vs")
    case True
    then show thesis by (intro that [of "[]"]) (simp_all add: w2_def)
  next
    case False
    then have "\<not> list_ex nonempty_container vs" by (simp add: wide_array_def)
    then obtain ts where ts: "list_all2 (plain_text n) (map normal vs) ts"
      "\<And>w. sw_addChildValues w \<Longrightarrow> writeLeaves P vs w = w\<lparr>sw_childValues := sw_childValues w @ ts\<rparr>"
      using writeLeaves_texts [OF assms(2)] by blast
    with False w(1) assms(3) show thesis by (intro that [of ts]) (auto simp: w2_def)
  qed
  obtain x where "writeWithIndent ''['' w2 = put_text (x @ ''['') w2"
    using writeWithIndent_white [of w2] w(2) ts(1) by auto
  then have w3: "sw_childValues w3 = ts" "\<not> sw_addChildValues w3" "white (sw_indentString w3)"
    using w ts(1) by (simp_all add: w3_def indent_def white_spaces)
  have ws: "white (sw_indentString w2)" using w(2) ts(1) by simp
  show "\<exists>c x t. white x \<and> plain_text (Suc n) (normal (JArray vs)) t
      \<and> writeValue P (JArray vs) w = put_text (x @ t) w\<lparr>sw_childValues := c\<rparr>"
  proof (cases "wide_array vs \<or> long_line (sw_childValues w2)")
    case True
    obtain E c where E: "\<And>w'. white w' \<Longrightarrow> plain_elements n (map normal vs) (E @ w')"
      "?body w3 = put_text E w3\<lparr>sw_childValues := c\<rparr>"
    proof (cases "ts = []")
      case True
      with writeElements_text [OF assms(1,3) w3(2,3)] show thesis using w3(1) that by auto
    next
      case False
      with writeTexts_text [OF ts(2) _ w3(3)] obtain E where "\<And>w'. white w' \<Longrightarrow> plain_elements n (map normal vs) (E @ w')"
        "writeTexts ts w3 = put_text E w3" using assms(3) by blast
      with False show thesis using w3(1) that [of E "sw_childValues w3"] by (auto simp: put_text_def)
    qed
    obtain x y where xy: "white x" "white y"
      "writeWithIndent '']'' (unindent (?body w3)) = put_text (x @ ''['' @ E @ y @ '']'') w2\<lparr>sw_childValues := c\<rparr>"
      using bracketed [OF ws, of ?body "''[''" c E "'']''"] E(2) unfolding w3_def by blast
    from jt_array [OF E(1) [OF xy(2)]] have "plain_text (Suc n) (normal (JArray vs)) (''['' @ E @ y @ '']'')" by simp
    with xy show ?thesis unfolding eq using True ts(1) by auto
  next
    case False
    then have "list_all2 (plain_text n) (map normal vs) ts" using ts(2,3) by blast
    moreover have "white '' ''" by (simp add: json_space_def)
    ultimately have "plain_elements n (map normal vs) ('' '' @ join_texts ts @ '' '')"
      using elements_text_join assms(3) by blast
    from jt_array [OF this] have "plain_text (Suc n) (normal (JArray vs)) (''[ '' @ join_texts ts @ '' ]'')" by simp
    then show ?thesis unfolding eq using False ts(1) white_Nil by fastforce
  qed
qed

lemma writes_object:
  assumes "\<forall>(k, v)\<in>set m. writes_value P n v \<and> utf8_string k \<and> CHR 0x00 \<notin> set k" and "smap_ok m" and "m \<noteq> []"
  shows "writes_value P (Suc n) (JObject m)"
  unfolding writes_value_def
proof (intro allI impI)
  fix w :: StyledWriter
  assume w: "\<not> sw_addChildValues w" "white (sw_indentString w)"
  let ?m = "map (\<lambda>(k, v). (k, normal v)) m" and ?w = "indent (writeWithIndent ''{'' w)"
  obtain x where "writeWithIndent ''{'' w = put_text (x @ ''{'') w" using writeWithIndent_white [OF w(2)] by blast
  then have "\<not> sw_addChildValues ?w" "white (sw_indentString ?w)"
    using w by (simp_all add: indent_def white_spaces)
  from writeMembers_text [OF assms(1,3) this] obtain E c where
    E: "\<And>w'. white w' \<Longrightarrow> plain_members n ?m (E @ w')" "writeMembers P m ?w = put_text E ?w\<lparr>sw_childValues := c\<rparr>" by blast
  obtain x y where xy: "white x" "white y"
    "writeWithIndent ''}'' (unindent (writeMembers P m ?w)) = put_text (x @ ''{'' @ E @ y @ ''}'') w\<lparr>sw_childValues := c\<rparr>"
    using bracketed [of w "writeMembers P m" "''{''" c E "''}''"] w(2) E(2) by blast
  have "map fst ?m = map fst m" by (induction m) auto
  with assms(2) have "smap_ok ([] @ ?m)" by (simp only: smap_ok_def append_Nil)
  then have "fold put_member ?m [] = [] @ ?m" by (rule fold_put_member)
  with jt_object [OF E(1) [OF xy(2)]] have "plain_text (Suc n) (normal (JObject m)) (''{'' @ E @ y @ ''}'')" by simp
  with xy show "\<exists>c x t. white x \<and> plain_text (Suc n) (normal (JObject m)) t
      \<and> writeValue P (JObject m) w = put_text (x @ t) w\<lparr>sw_childValues := c\<rparr>"
    using assms(3) by auto
qed

lemma written_value: "written_ok v \<Longrightarrow> json_depth v \<le> n \<Longrightarrow> writes_value P n v"
proof (induction v arbitrary: n)
  case (JArray vs)
  show ?case
  proof (cases "vs = []")
    case False
    with JArray.prems(2) obtain k where n: "n = Suc k" by (cases n) (auto simp: foldr_max_le neq_Nil_conv)
    have "\<forall>v\<in>set vs. writes_value P k v"
      using JArray by (auto simp: n foldr_max_le list_all_iff)
    with JArray.prems False writes_array show ?thesis by (simp add: n)
  qed (simp add: writes_leaf nonempty_container_def)
next
  case (JObject m)
  show ?case
  proof (cases "m = []")
    case False
    with JObject.prems(2) obtain k where n: "n = Suc k"
      by (cases n) (auto simp: foldr_max_le neq_Nil_conv)
    have "\<forall>(k', v)\<in>set m. writes_value P k v \<and> utf8_string k' \<and> CHR 0x00 \<notin> set k'"
      using JObject by (fastforce simp: n foldr_max_le list_all_iff)
    with JObject.prems False writes_object show ?thesis by (simp add: n)
  qed (simp add: writes_leaf nonempty_container_def)
qed (simp_all add: writes_leaf nonempty_container_def)

lemma written_then_read:
  assumes "written_ok j" and "json_depth j < stackLimit_g"
  shows "Reader_parse D (StyledWriter_write P j) = Inr (True, normal j)"
proof -
  have "writes_value P (json_depth j) j" by (rule written_value [OF assms(1)]) simp
  then obtain c x t where t: "white x" "plain_text (json_depth j) (normal j) t" "writeValue P j
      \<lparr>sw_childValues = [], sw_document = [], sw_indentString = [], sw_addChildValues = False\<rparr>
    = put_text (x @ t) \<lparr>sw_childValues = c, sw_document = [], sw_indentString = [], sw_addChildValues = False\<rparr>"
    by (rule writes_value_cases [of P "json_depth j" j "\<lparr>sw_childValues = [], sw_document = [], sw_indentString = [], sw_addChildValues = False\<rparr>"]) auto
  have "ends_number [CHR 0x0A]" by (simp add: ends_number_def is_digit_def less_eq_char_def)
  then have "readValue D 1 JNull (x @ t @ [CHR 0x0A]) = Inr (True, normal j, [CHR 0x0A])"
    using text_accepted(1) [OF plain_text_any(1) [OF t(2), of D]] assms(2) by (simp add: readValue_white [OF t(1)] accepts_value_def)
  then show ?thesis by (simp add: Reader_parse_def StyledWriter_write_def t(3))
qed

lemma normal_normal: "normal (normal j) = normal j"
  by (induction j) (auto simp: number_value_def)

lemma ascii_utf8_string:
  assumes "list_all (\<lambda>c. of_char c < (0x80 :: nat)) s"
  shows "utf8_string s"
  unfolding utf8_string_def
proof (intro exI conjI)
  show "list_all scalar_value (map of_char s)" using assms by (induction s) (auto simp: scalar_value_def)
  show "s = utf8 (map of_char s)" using assms by (induction s) (auto simp: utf8_def codePointToUTF8_def)
qed



end
