(* ===== verification/Json_Types.thy ===== *)
theory Json_Types
  imports Json_Value "HOL-Library.Log_Nat"
begin

text \<open>
  The types of \<^verbatim>\<open>Json::Value\<close> (newJson/jsoncpp.cpp): the predicates \<^verbatim>\<open>isInt\<close> to
  \<^verbatim>\<open>isObject\<close>, \<^verbatim>\<open>isConvertibleTo\<close>, and the conversions to the numeric types of C++ with the
  ranges they check. A double that is converted to an integer type outside its range is
  undefined behaviour, the fault \<open>Bad_Cast\<close>.
\<close>

section \<open>Types\<close>

datatype value_type = nullValue | intValue | uintValue | realValue | stringValue | booleanValue | arrayValue | objectValue

fun json_type :: "json \<Rightarrow> value_type" where
  "json_type JNull = nullValue"
| "json_type (JInt _) = intValue"
| "json_type (JUInt _) = uintValue"
| "json_type (JReal _) = realValue"
| "json_type (JString _) = stringValue"
| "json_type (JBool _) = booleanValue"
| "json_type (JArray _) = arrayValue"
| "json_type (JObject _) = objectValue"

definition maxUInt :: int where "maxUInt = 2 ^ 32 - 1"
definition minInt64 :: int where "minInt64 = - (2 ^ 63)"
definition maxInt64 :: int where "maxInt64 = 2 ^ 63 - 1"
definition maxUInt64 :: int where "maxUInt64 = 2 ^ 64 - 1"

fun json_ranged :: "json \<Rightarrow> bool" where
  \<comment> \<open>the 64-bit members of the union\<close>
  "json_ranged (JInt i) \<longleftrightarrow> minInt64 \<le> i \<and> i \<le> maxInt64"
| "json_ranged (JUInt n) \<longleftrightarrow> int n \<le> maxUInt64"
| "json_ranged _ \<longleftrightarrow> True"

definition round53 :: "nat \<Rightarrow> nat" where
  \<comment> \<open>to 53 significant bits, to the nearest and to even when two are equally near\<close>
  "round53 n =
     (if n < 2 ^ 53 then n
      else let k = floorlog 2 n - 53; q = n div 2 ^ k; r = n mod 2 ^ k; half = 2 ^ (k - 1)
           in (if r > half \<or> r = half \<and> odd q then q + 1 else q) * 2 ^ k)"

definition int_to_double :: "int \<Rightarrow> rat" where
  \<comment> \<open>\<^verbatim>\<open>static_cast<double>\<close> of an integer\<close>
  "int_to_double i = (if i < 0 then - of_nat (round53 (nat (- i))) else of_nat (round53 (nat i)))"

definition InRange :: "double \<Rightarrow> int \<Rightarrow> int \<Rightarrow> bool" where
  "InRange d lo hi \<longleftrightarrow>
     (case d of Finite r \<Rightarrow> int_to_double lo \<le> r \<and> r \<le> int_to_double hi | _ \<Rightarrow> False)"

definition IsIntegral :: "rat \<Rightarrow> bool" where
  "IsIntegral r \<longleftrightarrow> of_int (trunc r) = r"

definition cast_int :: "int \<Rightarrow> int \<Rightarrow> double \<Rightarrow> int res" where
  \<comment> \<open>\<^verbatim>\<open>static_cast\<close> of a double to an integer type with this range\<close>
  "cast_int lo hi d =
     (case d of Finite r \<Rightarrow> if lo \<le> trunc r \<and> trunc r \<le> hi then Inr (trunc r) else Inl Bad_Cast | _ \<Rightarrow> Inl Bad_Cast)"

section \<open>Predicates\<close>

fun isUInt :: "json \<Rightarrow> bool" where
  "isUInt (JInt i) \<longleftrightarrow> 0 \<le> i \<and> i \<le> maxUInt"
| "isUInt (JUInt n) \<longleftrightarrow> int n \<le> maxUInt"
| "isUInt (JReal (Finite r)) \<longleftrightarrow> 0 \<le> r \<and> r \<le> of_int maxUInt \<and> IsIntegral r"
| "isUInt _ \<longleftrightarrow> False"

fun isInt64 :: "json \<Rightarrow> bool" where
  "isInt64 (JInt i) \<longleftrightarrow> True"
| "isInt64 (JUInt n) \<longleftrightarrow> int n \<le> maxInt64"
| "isInt64 (JReal (Finite r)) \<longleftrightarrow> int_to_double minInt64 \<le> r \<and> r < int_to_double maxInt64 \<and> IsIntegral r"
| "isInt64 _ \<longleftrightarrow> False"

fun isUInt64 :: "json \<Rightarrow> bool" where
  "isUInt64 (JInt i) \<longleftrightarrow> 0 \<le> i"
| "isUInt64 (JUInt n) \<longleftrightarrow> True"
| "isUInt64 (JReal (Finite r)) \<longleftrightarrow> 0 \<le> r \<and> r < int_to_double maxUInt64 \<and> IsIntegral r"
| "isUInt64 _ \<longleftrightarrow> False"

fun isIntegral :: "json \<Rightarrow> bool" where
  "isIntegral (JInt i) \<longleftrightarrow> True"
| "isIntegral (JUInt n) \<longleftrightarrow> True"
| "isIntegral (JReal (Finite r)) \<longleftrightarrow> int_to_double minInt64 \<le> r \<and> r < int_to_double maxUInt64 \<and> IsIntegral r"
| "isIntegral _ \<longleftrightarrow> False"

definition isDouble :: "json \<Rightarrow> bool" where
  "isDouble v \<longleftrightarrow> json_type v \<in> {intValue, uintValue, realValue}"

definition isNumeric :: "json \<Rightarrow> bool" where "isNumeric v = isDouble v"
definition isNull :: "json \<Rightarrow> bool" where "isNull v \<longleftrightarrow> json_type v = nullValue"
definition isBool :: "json \<Rightarrow> bool" where "isBool v \<longleftrightarrow> json_type v = booleanValue"
definition isString :: "json \<Rightarrow> bool" where "isString v \<longleftrightarrow> json_type v = stringValue"
definition isArray :: "json \<Rightarrow> bool" where "isArray v \<longleftrightarrow> json_type v = arrayValue"
definition isObject :: "json \<Rightarrow> bool" where "isObject v \<longleftrightarrow> json_type v = objectValue"

section \<open>Conversions\<close>

fun asUInt :: "json \<Rightarrow> int res" where
  "asUInt (JInt i) = (if isUInt (JInt i) then Inr i else Inl Logic_Error)"
| "asUInt (JUInt n) = (if isUInt (JUInt n) then Inr (int n) else Inl Logic_Error)"
| "asUInt (JReal d) = (if InRange d 0 maxUInt then cast_int 0 maxUInt d else Inl Logic_Error)"
| "asUInt JNull = Inr 0"
| "asUInt (JBool b) = Inr (if b then 1 else 0)"
| "asUInt _ = Inl Logic_Error"

fun asInt64 :: "json \<Rightarrow> int res" where
  "asInt64 (JInt i) = Inr i"
| "asInt64 (JUInt n) = (if isInt64 (JUInt n) then Inr (int n) else Inl Logic_Error)"
| "asInt64 (JReal d) = (if InRange d minInt64 maxInt64 then cast_int minInt64 maxInt64 d else Inl Logic_Error)"
| "asInt64 JNull = Inr 0"
| "asInt64 (JBool b) = Inr (if b then 1 else 0)"
| "asInt64 _ = Inl Logic_Error"

fun asUInt64 :: "json \<Rightarrow> int res" where
  "asUInt64 (JInt i) = (if isUInt64 (JInt i) then Inr i else Inl Logic_Error)"
| "asUInt64 (JUInt n) = Inr (int n)"
| "asUInt64 (JReal d) = (if InRange d 0 maxUInt64 then cast_int 0 maxUInt64 d else Inl Logic_Error)"
| "asUInt64 JNull = Inr 0"
| "asUInt64 (JBool b) = Inr (if b then 1 else 0)"
| "asUInt64 _ = Inl Logic_Error"

definition asLargestInt :: "json \<Rightarrow> int res" where "asLargestInt v = asInt64 v"
definition asLargestUInt :: "json \<Rightarrow> int res" where "asLargestUInt v = asUInt64 v"

fun asDouble :: "json \<Rightarrow> double res" where
  "asDouble (JInt i) = Inr (Finite (int_to_double i))"
| "asDouble (JUInt n) = Inr (Finite (int_to_double (int n)))"
| "asDouble (JReal d) = Inr d"
| "asDouble JNull = Inr (Finite 0)"
| "asDouble (JBool b) = Inr (Finite (if b then 1 else 0))"
| "asDouble _ = Inl Logic_Error"

fun isConvertibleTo :: "value_type \<Rightarrow> json_lib \<Rightarrow> json \<Rightarrow> bool" where
  "isConvertibleTo nullValue L v \<longleftrightarrow>
     (isNumeric v \<and> asDouble v = Inr (Finite 0)) \<or> v = JBool False
     \<or> (json_type v = stringValue \<and> asString L v = Inr []) \<or> v = JArray [] \<or> v = JObject [] \<or> json_type v = nullValue"
| "isConvertibleTo intValue L v \<longleftrightarrow>
     isInt v \<or> (case v of JReal d \<Rightarrow> InRange d minInt maxInt | _ \<Rightarrow> False)
     \<or> json_type v = booleanValue \<or> json_type v = nullValue"
| "isConvertibleTo uintValue L v \<longleftrightarrow>
     isUInt v \<or> (case v of JReal d \<Rightarrow> InRange d 0 maxUInt | _ \<Rightarrow> False)
     \<or> json_type v = booleanValue \<or> json_type v = nullValue"
| "isConvertibleTo realValue L v \<longleftrightarrow> isNumeric v \<or> json_type v = booleanValue \<or> json_type v = nullValue"
| "isConvertibleTo booleanValue L v \<longleftrightarrow> isNumeric v \<or> json_type v = booleanValue \<or> json_type v = nullValue"
| "isConvertibleTo stringValue L v \<longleftrightarrow>
     isNumeric v \<or> json_type v = booleanValue \<or> json_type v = stringValue \<or> json_type v = nullValue"
| "isConvertibleTo arrayValue L v \<longleftrightarrow> json_type v = arrayValue \<or> json_type v = nullValue"
| "isConvertibleTo objectValue L v \<longleftrightarrow> json_type v = objectValue \<or> json_type v = nullValue"

section \<open>Laws\<close>

lemma round53_small: "n < 2 ^ 53 \<Longrightarrow> round53 n = n"
  by (simp add: round53_def)

lemma int_to_double_small: "\<bar>i\<bar> < 2 ^ 53 \<Longrightarrow> int_to_double i = of_int i"
proof -
  assume "\<bar>i\<bar> < 2 ^ 53"
  then have "nat \<bar>i\<bar> < 2 ^ 53" by (simp add: nat_less_iff)
  then show ?thesis by (auto simp: int_to_double_def round53_small)
qed

lemma double_limits:
  "int_to_double minInt = of_int minInt" "int_to_double maxInt = of_int maxInt" "int_to_double maxUInt = of_int maxUInt"
  "int_to_double 0 = 0"
  by (simp_all add: int_to_double_small minInt_def maxInt_def maxUInt_def)

text \<open>The largest integers of 64 bits round up, so \<^verbatim>\<open>InRange\<close> lets one double too many pass.\<close>

lemma double_limits64:
  "int_to_double minInt64 = of_int minInt64" "int_to_double maxInt64 = of_int maxInt64 + 1"
  "int_to_double maxUInt64 = of_int maxUInt64 + 1"
proof -
  have "round53 (2 ^ 63) = 2 ^ 63" "round53 (2 ^ 63 - 1) = 2 ^ 63" "round53 (2 ^ 64 - 1) = 2 ^ 64"
    by (simp_all add: round53_def compute_floorlog Let_def)
  then show "int_to_double minInt64 = of_int minInt64" "int_to_double maxInt64 = of_int maxInt64 + 1"
    "int_to_double maxUInt64 = of_int maxUInt64 + 1"
    by (simp_all add: int_to_double_def minInt64_def maxInt64_def maxUInt64_def)
qed

lemma trunc_bounds:
  assumes "of_int lo \<le> r" "r \<le> of_int hi" "lo \<le> 0" "0 \<le> hi"
  shows "lo \<le> trunc r" "trunc r \<le> hi"
proof -
  have "\<lfloor>- r\<rfloor> \<le> - lo" using assms(1) by (simp add: floor_le_iff)
  moreover have neg: "0 \<le> \<lfloor>- r\<rfloor>" if "r < 0" using that by (simp add: le_floor_iff)
  moreover have "lo \<le> \<lfloor>r\<rfloor>" using assms(1) by (simp add: le_floor_iff)
  ultimately show "lo \<le> trunc r" by (simp add: trunc_def)
  have "\<lfloor>r\<rfloor> \<le> hi" using assms(2) by (simp add: floor_le_iff)
  moreover have "- \<lfloor>- r\<rfloor> \<le> hi" if "r < 0" using neg [OF that] assms(4) by linarith
  ultimately show "trunc r \<le> hi" unfolding trunc_def by simp
qed

lemma limits_sign: "minInt \<le> 0" "0 \<le> maxInt" "0 \<le> maxUInt" "minInt64 \<le> 0" "0 \<le> maxInt64" "0 \<le> maxUInt64"
  "1 \<le> maxInt" "1 \<le> maxUInt" "maxInt64 \<le> maxUInt64"
  by (simp_all add: minInt_def maxInt_def maxUInt_def minInt64_def maxInt64_def maxUInt64_def)

fun numeric :: "json \<Rightarrow> rat option" where
  "numeric (JInt i) = Some (of_int i)"
| "numeric (JUInt n) = Some (of_nat n)"
| "numeric (JReal (Finite r)) = Some r"
| "numeric _ = None"

lemma asInt_convertible: "isConvertibleTo intValue L v \<longleftrightarrow> (\<exists>i. asInt v = Inr i)"
proof (cases v)
  case (JReal d)
  then show ?thesis by (cases d) (auto simp: InRange_def double_limits)
qed auto

lemma asUInt_convertible: "isConvertibleTo uintValue L v \<longleftrightarrow> (\<exists>i. asUInt v = Inr i)"
proof (cases v)
  case (JReal d)
  have "cast_int 0 maxUInt (Finite r) = Inr (trunc r)" if "0 \<le> r" "r \<le> of_int maxUInt" for r
    using trunc_bounds [of 0 r maxUInt] that limits_sign by (simp add: cast_int_def)
  with JReal show ?thesis by (cases d) (auto simp: InRange_def double_limits)
qed auto

lemma asInt_range: "asInt v = Inr i \<Longrightarrow> i \<in> {minInt .. maxInt}"
proof (cases v)
  case (JReal d)
  moreover assume "asInt v = Inr i"
  ultimately show ?thesis
    using trunc_bounds [of minInt _ maxInt] limits_sign by (cases d) (auto split: if_splits)
qed (use limits_sign in \<open>auto split: if_splits\<close>)

lemma cast_int_range: "cast_int lo hi d = Inr i \<Longrightarrow> lo \<le> i \<and> i \<le> hi"
  by (auto simp: cast_int_def split: double.splits if_splits)

lemma asUInt_range: "asUInt v = Inr i \<Longrightarrow> i \<in> {0 .. maxUInt}"
  using limits_sign by (cases v) (auto dest: cast_int_range split: if_splits)

lemma asDouble_convertible: "isConvertibleTo realValue L v \<longleftrightarrow> (\<exists>d. asDouble v = Inr d)"
  by (cases v) (simp_all add: isNumeric_def isDouble_def)

lemma asBool_convertible: "isConvertibleTo booleanValue L v \<longleftrightarrow> (\<exists>b. asBool v = Inr b)"
  by (cases v) (auto simp: isNumeric_def isDouble_def intro: exI [of _ False])

lemma asString_convertible: "isConvertibleTo stringValue L v \<longleftrightarrow> (\<exists>s. asString L v = Inr s)"
  by (cases v) (simp_all add: isNumeric_def isDouble_def)

lemma object_convertible: "isConvertibleTo objectValue L v \<longleftrightarrow> (\<exists>w. json_at v k = Inr w)"
  by (cases v) (simp_all add: json_at_eq)

lemma array_convertible: "isConvertibleTo arrayValue L v \<longleftrightarrow> (\<exists>w. json_append u v = Inr w)"
  by (cases v) (simp_all add: json_append_def)

text \<open>
  C35. The type predicates tell what the conversions do: a value converts to \<^verbatim>\<open>int\<close>, \<^verbatim>\<open>unsigned\<close>, \<^verbatim>\<open>double\<close>,
  \<^verbatim>\<open>bool\<close> or a string, or can be used as an object or an array, exactly when
  \<^verbatim>\<open>isConvertibleTo\<close> says so, and the integers are in the range of their type.
\<close>

theorem conversions_follow_types:
  "(isConvertibleTo intValue L v \<longleftrightarrow> (\<exists>i. asInt v = Inr i))
   \<and> (isConvertibleTo uintValue L v \<longleftrightarrow> (\<exists>i. asUInt v = Inr i))
   \<and> (isConvertibleTo realValue L v \<longleftrightarrow> (\<exists>d. asDouble v = Inr d))
   \<and> (isConvertibleTo booleanValue L v \<longleftrightarrow> (\<exists>b. asBool v = Inr b))
   \<and> (isConvertibleTo stringValue L v \<longleftrightarrow> (\<exists>s. asString L v = Inr s))
   \<and> (isConvertibleTo objectValue L v \<longleftrightarrow> (\<exists>w. json_at v k = Inr w))
   \<and> (isConvertibleTo arrayValue L v \<longleftrightarrow> (\<exists>w. json_append u v = Inr w))
   \<and> (\<forall>i. asInt v = Inr i \<longrightarrow> i \<in> {minInt .. maxInt})
   \<and> (\<forall>i. asUInt v = Inr i \<longrightarrow> i \<in> {0 .. maxUInt})"
  by (intro conjI allI impI asInt_convertible asUInt_convertible asDouble_convertible asBool_convertible
      asString_convertible object_convertible array_convertible asInt_range asUInt_range)

theorem conversions_follow_types_witness:
  "\<forall>L. isConvertibleTo intValue L (JReal (Finite (5 / 2))) \<and> asInt (JReal (Finite (5 / 2))) = Inr 2 \<and> 2 \<in> {minInt .. maxInt}"
proof
  fix L
  have i: "asInt (JReal (Finite (5 / 2))) = Inr 2" by (simp add: minInt_def maxInt_def trunc_def floor_eq_iff)
  note types = conversions_follow_types [of L "JReal (Finite (5 / 2))" "[]" JNull]
  have "isConvertibleTo intValue L (JReal (Finite (5 / 2)))" using types [THEN conjunct1] i by blast
  moreover have "\<forall>i. asInt (JReal (Finite (5 / 2))) = Inr i \<longrightarrow> i \<in> {minInt .. maxInt}" using types by (elim conjE)
  ultimately show "isConvertibleTo intValue L (JReal (Finite (5 / 2))) \<and> asInt (JReal (Finite (5 / 2))) = Inr 2
    \<and> 2 \<in> {minInt .. maxInt}" using i by (simp only: simp_thms)
qed

lemma real_cast:
  assumes "IsIntegral r" "of_int lo \<le> r" "r < of_int hi + 1" "lo \<le> 0" "0 \<le> hi"
  shows "cast_int lo hi (Finite r) = Inr (trunc r)" and "of_int (trunc r) = r"
proof -
  show r: "of_int (trunc r) = r" using assms(1) by (simp add: IsIntegral_def)
  have "lo \<le> trunc r" "trunc r \<le> hi" using assms(2,3) r by linarith+
  then show "cast_int lo hi (Finite r) = Inr (trunc r)" by (simp add: cast_int_def)
qed

text \<open>
  A value that is an integer of some width is converted to that width without loss, within the
  range of the width, and a value is integral exactly when it is an integer of 64 bits, signed or not.
\<close>

theorem integers_convert_exactly:
  assumes "json_ranged v"
  shows "(isInt v \<longrightarrow> (\<exists>i. asInt v = Inr i \<and> numeric v = Some (of_int i)))
    \<and> (isUInt v \<longrightarrow> (\<exists>i. asUInt v = Inr i \<and> numeric v = Some (of_int i)))
    \<and> (isInt64 v \<longrightarrow> (\<exists>i. asInt64 v = Inr i \<and> numeric v = Some (of_int i) \<and> minInt64 \<le> i \<and> i \<le> maxInt64))
    \<and> (isUInt64 v \<longrightarrow> (\<exists>i. asUInt64 v = Inr i \<and> numeric v = Some (of_int i) \<and> 0 \<le> i \<and> i \<le> maxUInt64))
    \<and> (isIntegral v \<longleftrightarrow> isInt64 v \<or> isUInt64 v)"
proof (cases v)
  case (JReal d)
  show ?thesis
  proof (cases d)
    case (Finite r)
    have int: "IsIntegral r \<Longrightarrow> of_int (trunc r) = r" by (simp add: IsIntegral_def)
    have below: "r \<le> of_int hi \<Longrightarrow> r < of_int hi + 1" for hi by linarith
    have "isInt v \<Longrightarrow> asInt v = Inr (trunc r)" "isUInt v \<Longrightarrow> asUInt v = Inr (trunc r)"
      "isInt64 v \<Longrightarrow> asInt64 v = Inr (trunc r) \<and> minInt64 \<le> trunc r \<and> trunc r \<le> maxInt64"
      "isUInt64 v \<Longrightarrow> asUInt64 v = Inr (trunc r) \<and> 0 \<le> trunc r \<and> trunc r \<le> maxUInt64"
      using real_cast(1) [of r 0 maxUInt] real_cast(1) [of r minInt64 maxInt64] real_cast(1) [of r 0 maxUInt64]
        cast_int_range [of minInt64 maxInt64 "Finite r" "trunc r"] cast_int_range [of 0 maxUInt64 "Finite r" "trunc r"]
        below limits_sign
      by (auto simp: JReal Finite InRange_def double_limits double_limits64)
    moreover have "isInt v \<or> isUInt v \<or> isInt64 v \<or> isUInt64 v \<Longrightarrow> of_int (trunc r) = r"
      using int by (auto simp: JReal Finite IsIntegral_def)
    moreover have "isIntegral v \<longleftrightarrow> isInt64 v \<or> isUInt64 v"
      using limits_sign by (auto simp: JReal Finite double_limits64 intro: less_le_trans order_trans)
    ultimately show ?thesis by (simp add: JReal Finite del: isInt.simps isUInt.simps isInt64.simps isUInt64.simps)
  qed (auto simp: JReal)
qed (use assms in \<open>auto simp: minInt64_def maxInt64_def maxUInt64_def\<close>)

theorem integers_convert_exactly_witness: "\<exists>i. asUInt64 (JInt 7) = Inr i \<and> numeric (JInt 7) = Some (of_int i)"
  using integers_convert_exactly [of "JInt 7"] by (simp add: minInt64_def maxInt64_def)

text \<open>At the upper ends of the 64-bit ranges a double passes the check and does not fit.\<close>

lemma asInt64_overflows:
  "asInt64 (JReal (Finite (2 ^ 63))) = Inl Bad_Cast" "asUInt64 (JReal (Finite (2 ^ 64))) = Inl Bad_Cast"
proof -
  have "cast_int minInt64 maxInt64 (Finite (2 ^ 63)) = Inl Bad_Cast" "cast_int 0 maxUInt64 (Finite (2 ^ 64)) = Inl Bad_Cast"
    by (simp_all add: cast_int_def trunc_def minInt64_def maxInt64_def maxUInt64_def)
  moreover have "InRange (Finite (2 ^ 63)) minInt64 maxInt64" "InRange (Finite (2 ^ 64)) 0 maxUInt64"
    unfolding InRange_def double.case double_limits double_limits64
    by (simp_all add: minInt64_def maxInt64_def maxUInt64_def)
  ultimately show "asInt64 (JReal (Finite (2 ^ 63))) = Inl Bad_Cast" "asUInt64 (JReal (Finite (2 ^ 64))) = Inl Bad_Cast"
    by simp_all
qed

end
