(* ===== verification/Json_Tree.thy ===== *)
theory Json_Tree
  imports Json_Types
begin

text \<open>
  \<^verbatim>\<open>Json::Value\<close> (newJson/jsoncpp.cpp) as the code stores it: an array is, like an object, a
  \<^verbatim>\<open>std::map\<close>, from indices instead of names, so it can have holes. The container operations and the
  comparison, the law that arrays without holes behave as lists, and the relation to the
  values of \<open>Json_Value\<close>, which the sessions use. \<^verbatim>\<open>JSON_ASSERT\<close> throws \<^verbatim>\<open>Json::LogicError\<close>, as
  \<^verbatim>\<open>JSON_ASSERT_MESSAGE\<close> does.
\<close>

section \<open>Values\<close>

datatype czstring = Index nat | Name string

instantiation czstring :: linorder
begin

fun less_eq_czstring :: "czstring \<Rightarrow> czstring \<Rightarrow> bool" where
  "less_eq_czstring (Index i) (Index j) \<longleftrightarrow> i \<le> j"
| "less_eq_czstring (Name s) (Name t) \<longleftrightarrow> s \<le> t"
| "less_eq_czstring (Index _) (Name _) \<longleftrightarrow> True"
| "less_eq_czstring (Name _) (Index _) \<longleftrightarrow> False"

fun less_czstring :: "czstring \<Rightarrow> czstring \<Rightarrow> bool" where
  "less_czstring (Index i) (Index j) \<longleftrightarrow> i < j"
| "less_czstring (Name s) (Name t) \<longleftrightarrow> s < t"
| "less_czstring (Index _) (Name _) \<longleftrightarrow> True"
| "less_czstring (Name _) (Index _) \<longleftrightarrow> False"

instance
proof
  fix x y z :: czstring
  show "x < y \<longleftrightarrow> x \<le> y \<and> \<not> y \<le> x" by (cases x; cases y) auto
  show "x \<le> x" by (cases x) auto
  show "x \<le> y \<or> y \<le> x" by (cases x; cases y) auto
  show "x \<le> y \<Longrightarrow> y \<le> z \<Longrightarrow> x \<le> z" by (cases x; cases y; cases z) auto
  show "x \<le> y \<Longrightarrow> y \<le> x \<Longrightarrow> x = y" by (cases x; cases y) auto
qed

end

datatype jvalue =
    VNull
  | VInt int
  | VUInt nat
  | VReal double
  | VString string
  | VBool bool
  | VArray "(czstring \<times> jvalue) list"
  | VObject "(czstring \<times> jvalue) list"

fun jv_type :: "jvalue \<Rightarrow> value_type" where
  "jv_type VNull = nullValue"
| "jv_type (VInt _) = intValue"
| "jv_type (VUInt _) = uintValue"
| "jv_type (VReal _) = realValue"
| "jv_type (VString _) = stringValue"
| "jv_type (VBool _) = booleanValue"
| "jv_type (VArray _) = arrayValue"
| "jv_type (VObject _) = objectValue"

fun cz_index :: "czstring \<Rightarrow> nat" where
  "cz_index (Index i) = i"
| "cz_index (Name _) = 0"

fun cz_name :: "czstring \<Rightarrow> string" where
  "cz_name (Name s) = s"
| "cz_name (Index _) = []"

section \<open>Containers\<close>

fun jv_size :: "jvalue \<Rightarrow> nat" where
  \<comment> \<open>an \<^verbatim>\<open>ArrayIndex\<close> has 32 bits\<close>
  "jv_size (VArray m) = (if m = [] then 0 else (cz_index (fst (last m)) + 1) mod 2 ^ 32)"
| "jv_size (VObject m) = length m mod 2 ^ 32"
| "jv_size _ = 0"

definition jv_empty :: "jvalue \<Rightarrow> bool" where
  "jv_empty v \<longleftrightarrow> jv_type v \<in> {nullValue, arrayValue, objectValue} \<and> jv_size v = 0"

definition jv_clear :: "jvalue \<Rightarrow> jvalue res" where
  "jv_clear v = (case v of VNull \<Rightarrow> Inr VNull | VArray _ \<Rightarrow> Inr (VArray []) | VObject _ \<Rightarrow> Inr (VObject []) | _ \<Rightarrow> Inl Logic_Error)"

definition array_ref :: "nat \<Rightarrow> jvalue \<Rightarrow> jvalue res" where
  \<comment> \<open>\<^verbatim>\<open>v[index]\<close> with write access: the value once the element exists\<close>
  "array_ref i v =
     (case v of VNull \<Rightarrow> Inr (VArray [(Index i, VNull)]) | VArray m \<Rightarrow> Inr (VArray (smap_insert (Index i) VNull m))
      | _ \<Rightarrow> Inl Logic_Error)"

definition array_get :: "nat \<Rightarrow> jvalue \<Rightarrow> jvalue res" where
  "array_get i v =
     (case v of VNull \<Rightarrow> Inr VNull
      | VArray m \<Rightarrow> Inr (case map_of m (Index i) of Some w \<Rightarrow> w | None \<Rightarrow> VNull)
      | _ \<Rightarrow> Inl Logic_Error)"

definition array_set :: "nat \<Rightarrow> jvalue \<Rightarrow> jvalue \<Rightarrow> jvalue res" where
  \<comment> \<open>\<^verbatim>\<open>v[index] = w\<close>\<close>
  "array_set i w v =
     rbind (array_ref i v) (\<lambda>v'. case v' of VArray m \<Rightarrow> Inr (VArray (smap_put (Index i) w m)) | _ \<Rightarrow> Inl Logic_Error)"

definition jv_get_index :: "nat \<Rightarrow> jvalue \<Rightarrow> jvalue \<Rightarrow> jvalue res" where
  \<comment> \<open>\<^verbatim>\<open>get(index, defaultValue)\<close>: the default only when there is no such element\<close>
  "jv_get_index i d v =
     (case v of VNull \<Rightarrow> Inr d
      | VArray m \<Rightarrow> Inr (case map_of m (Index i) of Some w \<Rightarrow> w | None \<Rightarrow> d)
      | _ \<Rightarrow> Inl Logic_Error)"

definition isValidIndex :: "nat \<Rightarrow> jvalue \<Rightarrow> bool" where
  "isValidIndex i v \<longleftrightarrow> i < jv_size v"

fun array_grow :: "nat \<Rightarrow> nat \<Rightarrow> jvalue \<Rightarrow> jvalue res" where
  \<comment> \<open>\<open>n\<close> elements from the index \<open>i\<close> on are made to exist\<close>
  "array_grow i 0 v = Inr v"
| "array_grow i (Suc n) v = rbind (array_ref i v) (array_grow (Suc i) n)"

fun array_shrink :: "nat \<Rightarrow> nat \<Rightarrow> (czstring \<times> jvalue) list \<Rightarrow> (czstring \<times> jvalue) list" where
  "array_shrink i 0 m = m"
| "array_shrink i (Suc n) m = array_shrink (Suc i) n (smap_erase (Index i) m)"

definition jv_resize :: "nat \<Rightarrow> jvalue \<Rightarrow> jvalue res" where
  "jv_resize newSize v =
     (case (if v = VNull then VArray [] else v) of
        VArray m \<Rightarrow>
          let oldSize = jv_size (VArray m)
          in if newSize = 0 then jv_clear (VArray m)
             else if newSize > oldSize then array_grow oldSize (newSize - oldSize) (VArray m)
             else let v' = VArray (array_shrink newSize (oldSize - newSize) m)
                  in if jv_size v' = newSize then Inr v' else Inl Logic_Error
      | _ \<Rightarrow> Inl Logic_Error)"

definition jv_append :: "jvalue \<Rightarrow> jvalue \<Rightarrow> jvalue res" where
  "jv_append w v =
     (case (if v = VNull then VArray [] else v) of
        VArray m \<Rightarrow> Inr (VArray (smap_insert (Index (jv_size (VArray m))) w m))
      | _ \<Rightarrow> Inl Logic_Error)"

definition array_move :: "nat \<Rightarrow> nat \<Rightarrow> jvalue \<Rightarrow> jvalue res" where
  \<comment> \<open>\<^verbatim>\<open>v[i] = std::move(v[j])\<close>: the elements are swapped\<close>
  "array_move i j v =
     rbind (array_ref j v) (\<lambda>v1. rbind (array_ref i v1) (\<lambda>v2.
     rbind (array_get i v2) (\<lambda>a. rbind (array_get j v2) (\<lambda>b.
     rbind (array_set i b v2) (array_set j a)))))"

fun insert_moves :: "nat \<Rightarrow> nat \<Rightarrow> jvalue \<Rightarrow> jvalue res" where
  \<comment> \<open>\<open>n\<close> turns of the loop, down to the index\<close>
  "insert_moves index 0 v = Inr v"
| "insert_moves index (Suc n) v = rbind (array_move (index + Suc n) (index + n) v) (insert_moves index n)"

definition jv_insert :: "nat \<Rightarrow> jvalue \<Rightarrow> jvalue \<Rightarrow> (bool \<times> jvalue) res" where
  "jv_insert index newValue v =
     (if jv_type v = nullValue \<or> jv_type v = arrayValue then
        let len = jv_size v
        in if index > len then Inr (False, v)
           else rbind (insert_moves index (len - index) v) (\<lambda>v1.
                rbind (array_set index newValue v1) (\<lambda>v2. Inr (True, v2)))
      else Inl Logic_Error)"

fun remove_moves :: "nat \<Rightarrow> nat \<Rightarrow> (czstring \<times> jvalue) list \<Rightarrow> (czstring \<times> jvalue) list" where
  \<comment> \<open>\<open>n\<close> turns of the loop from the index \<open>i\<close> on\<close>
  "remove_moves i 0 m = m"
| "remove_moves i (Suc n) m =
     (let m1 = smap_insert (Index (Suc i)) VNull m
      in remove_moves (Suc i) n (smap_put (Index i) (the (map_of m1 (Index (Suc i)))) m1))"

definition removeIndex :: "nat \<Rightarrow> jvalue \<Rightarrow> jvalue option \<times> jvalue" where
  "removeIndex index v =
     (case v of
        VArray m \<Rightarrow>
          (case map_of m (Index index) of
             None \<Rightarrow> (None, v)
           | Some w \<Rightarrow>
             let oldSize = jv_size v
             in (Some w, VArray (smap_erase (Index (oldSize - 1)) (remove_moves index (oldSize - 1 - index) m))))
      | _ \<Rightarrow> (None, v))"

section \<open>Members\<close>

definition jv_find :: "string \<Rightarrow> jvalue \<Rightarrow> jvalue option res" where
  "jv_find key v = (case v of VNull \<Rightarrow> Inr None | VObject m \<Rightarrow> Inr (map_of m (Name key)) | _ \<Rightarrow> Inl Logic_Error)"

definition jv_get :: "string \<Rightarrow> jvalue \<Rightarrow> jvalue \<Rightarrow> jvalue res" where
  "jv_get key d v = rbind (jv_find key v) (\<lambda>found. Inr (case found of None \<Rightarrow> d | Some w \<Rightarrow> w))"

definition member_const :: "string \<Rightarrow> jvalue \<Rightarrow> jvalue res" where
  \<comment> \<open>\<^verbatim>\<open>operator[](key) const\<close>\<close>
  "member_const key v = jv_get key VNull v"

definition jv_isMember :: "string \<Rightarrow> jvalue \<Rightarrow> bool res" where
  "jv_isMember key v = rbind (jv_find key v) (\<lambda>found. Inr (found \<noteq> None))"

definition member_ref :: "string \<Rightarrow> jvalue \<Rightarrow> jvalue res" where
  \<comment> \<open>\<^verbatim>\<open>resolveReference\<close>: the value once the member exists\<close>
  "member_ref key v =
     (case v of VNull \<Rightarrow> Inr (VObject [(Name key, VNull)]) | VObject m \<Rightarrow> Inr (VObject (smap_insert (Name key) VNull m))
      | _ \<Rightarrow> Inl Logic_Error)"

definition member_set :: "string \<Rightarrow> jvalue \<Rightarrow> jvalue \<Rightarrow> jvalue res" where
  "member_set key w v =
     rbind (member_ref key v) (\<lambda>v'. case v' of VObject m \<Rightarrow> Inr (VObject (smap_put (Name key) w m)) | _ \<Rightarrow> Inl Logic_Error)"

definition removeMember :: "string \<Rightarrow> jvalue \<Rightarrow> jvalue option \<times> jvalue" where
  "removeMember key v =
     (case v of
        VObject m \<Rightarrow> (case map_of m (Name key) of None \<Rightarrow> (None, v) | Some w \<Rightarrow> (Some w, VObject (smap_erase (Name key) m)))
      | _ \<Rightarrow> (None, v))"

definition removeMember_name :: "string \<Rightarrow> jvalue \<Rightarrow> jvalue res" where
  \<comment> \<open>\<^verbatim>\<open>removeMember(const String&)\<close>, through \<^verbatim>\<open>c_str\<close>\<close>
  "removeMember_name key v =
     (case v of VNull \<Rightarrow> Inr v | VObject m \<Rightarrow> Inr (VObject (smap_erase (Name (c_str key)) m)) | _ \<Rightarrow> Inl Logic_Error)"

definition getMemberNames :: "jvalue \<Rightarrow> string list res" where
  "getMemberNames v =
     (case v of VNull \<Rightarrow> Inr [] | VObject m \<Rightarrow> Inr (map (cz_name \<circ> fst) m) | _ \<Rightarrow> Inl Logic_Error)"

section \<open>Arrays without holes\<close>

definition enum :: "jvalue list \<Rightarrow> (czstring \<times> jvalue) list" where
  "enum vs = zip (map Index [0 ..< length vs]) vs"

lemma length_enum [simp]: "length (enum vs) = length vs"
  by (simp add: enum_def)

lemma enum_Nil [simp]: "enum [] = []" and enum_eq_Nil [simp]: "enum vs = [] \<longleftrightarrow> vs = []"
  by (simp_all add: enum_def)

lemma enum_snoc: "enum (vs @ [w]) = enum vs @ [(Index (length vs), w)]"
  by (simp add: enum_def)

lemma enum_ok [simp]: "smap_ok (enum vs)"
proof -
  have "sorted_wrt (<) (map Index [0 ..< n])" for n by (simp add: sorted_wrt_map)
  then show ?thesis by (simp add: smap_ok_def enum_def)
qed

lemma map_of_enum [simp]:
  "map_of (enum vs) (Index i) = (if i < length vs then Some (vs ! i) else None)"
  "map_of (enum vs) (Name s) = None"
proof -
  have "Name s \<notin> fst ` set (enum vs)" by (auto simp: enum_def dest: set_zip_leftD)
  then show "map_of (enum vs) (Name s) = None" by (simp add: map_of_eq_None_iff)
  show "map_of (enum vs) (Index i) = (if i < length vs then Some (vs ! i) else None)"
  proof (induction vs rule: rev_induct)
    case (snoc w vs)
    then show ?case by (auto simp: enum_snoc nth_append map_add_def split: option.split)
  qed simp
qed

lemma enum_eqI: "smap_ok m \<Longrightarrow> (\<And>s. map_of m (Name s) = None) \<Longrightarrow> (\<And>i. map_of m (Index i) = (if i < length vs then Some (vs ! i) else None))
    \<Longrightarrow> m = enum vs"
  by (rule smap_ext) (auto simp: fun_eq_iff, metis czstring.exhaust map_of_enum)

lemma size_enum [simp]: "jv_size (VArray (enum vs)) = length vs mod 2 ^ 32"
  by (cases vs rule: rev_cases) (simp_all add: enum_snoc)

declare jv_size.simps(1) [simp del]

lemma put_enum [simp]: "i < length vs \<Longrightarrow> smap_put (Index i) w (enum vs) = enum (vs[i := w])"
  by (rule enum_eqI) (auto simp: map_of_smap_put)

lemma put_enum_end [simp]: "smap_put (Index (length vs)) w (enum vs) = enum (vs @ [w])"
  by (rule enum_eqI) (auto simp: map_of_smap_put nth_append)

lemma insert_enum [simp]:
  "smap_insert (Index i) w (enum vs) = (if i < length vs then enum vs else smap_put (Index i) w (enum vs))"
  by (simp add: smap_insert_def)

lemma array_ref_enum:
  "i < length vs \<Longrightarrow> array_ref i (VArray (enum vs)) = Inr (VArray (enum vs))"
  "array_ref (length vs) (VArray (enum vs)) = Inr (VArray (enum (vs @ [VNull])))"
  by (simp_all add: array_ref_def)

lemma array_get_enum: "array_get i (VArray (enum vs)) = Inr (if i < length vs then vs ! i else VNull)"
  by (simp add: array_get_def)

lemma array_set_enum:
  "i < length vs \<Longrightarrow> array_set i w (VArray (enum vs)) = Inr (VArray (enum (vs[i := w])))"
  "array_set (length vs) w (VArray (enum vs)) = Inr (VArray (enum (vs @ [w])))"
  by (simp_all add: array_set_def array_ref_def)

lemma array_grow_enum: "array_grow (length vs) n (VArray (enum vs)) = Inr (VArray (enum (vs @ replicate n VNull)))"
proof (induction n arbitrary: vs)
  case (Suc n)
  from Suc [of "vs @ [VNull]"] show ?case by (simp add: array_ref_enum)
qed simp

lemma map_of_shrink:
  "smap_ok m \<Longrightarrow> smap_ok (array_shrink i n m)
    \<and> map_of (array_shrink i n m) = (\<lambda>k. if \<exists>j. i \<le> j \<and> j < i + n \<and> k = Index j then None else map_of m k)"
proof (induction n arbitrary: i m)
  case (Suc n)
  have "(\<exists>j. i \<le> j \<and> j < i + Suc n \<and> k = Index j) \<longleftrightarrow> k = Index i \<or> (\<exists>j. Suc i \<le> j \<and> j < Suc i + n \<and> k = Index j)" for k
    using Suc_le_eq by (auto simp: le_less) 
  with Suc.IH [of "smap_erase (Index i) m" "Suc i"] Suc.prems show ?case
    by (auto simp: map_of_smap_erase fun_eq_iff)
qed (auto simp: fun_eq_iff)

lemma shrink_enum: "i \<le> length vs \<Longrightarrow> array_shrink i (length vs - i) (enum vs) = enum (take i vs)"
  using map_of_shrink [of "enum vs" i "length vs - i"] by (intro enum_eqI) auto

lemma array_move_enum:
  assumes "j < length vs"
  shows "i < length vs \<Longrightarrow> array_move i j (VArray (enum vs)) = Inr (VArray (enum (vs[i := vs ! j, j := vs ! i])))"
    and "array_move (length vs) j (VArray (enum vs)) = Inr (VArray (enum (vs[j := VNull] @ [vs ! j])))"
  using assms
  by (auto simp: array_move_def array_ref_enum array_get_enum array_set_enum nth_append list_update_append)

lemma insert_moves_hole:
  "length us = index \<Longrightarrow> length xs = n \<Longrightarrow>
   insert_moves index n (VArray (enum (us @ xs @ VNull # ys))) = Inr (VArray (enum (us @ VNull # xs @ ys)))"
proof (induction n arbitrary: xs ys)
  case (Suc n)
  obtain xs' x where xs: "xs = xs' @ [x]" using Suc.prems(2) by (cases xs rule: rev_cases) auto
  with Suc.prems have n: "length xs' = n" by simp
  let ?vs = "us @ xs @ VNull # ys"
  have "array_move (index + Suc n) (index + n) (VArray (enum ?vs)) = Inr (VArray (enum (us @ xs' @ VNull # x # ys)))"
    using Suc.prems(1) n by (subst array_move_enum) (simp_all add: xs nth_append list_update_append)
  with Suc.IH [OF Suc.prems(1) n, of "x # ys"] show ?case by (simp add: xs)
qed simp

lemma insert_moves_enum:
  assumes "index < length vs"
  shows "insert_moves index (length vs - index) (VArray (enum vs)) = Inr (VArray (enum (take index vs @ VNull # drop index vs)))"
proof -
  obtain ws x where vs: "vs = ws @ [x]" using assms by (cases vs rule: rev_cases) auto
  have n: "length vs - index = Suc (length ws - index)" "index \<le> length ws" using assms vs by auto
  have "array_move (length vs) (length ws) (VArray (enum vs)) = Inr (VArray (enum (ws @ VNull # [x])))"
    using array_move_enum(2) [of "length ws" vs] by (simp add: vs list_update_append)
  moreover have "insert_moves index (length ws - index) (VArray (enum (take index ws @ drop index ws @ VNull # [x])))
      = Inr (VArray (enum (take index ws @ VNull # drop index ws @ [x])))"
    using n(2) by (intro insert_moves_hole) simp_all
  moreover have "take index ws @ drop index ws @ VNull # [x] = ws @ VNull # [x]" by (simp flip: append_assoc)
  ultimately show ?thesis using n by (simp add: vs)
qed

lemma remove_moves_enum:
  "remove_moves (length us) (length ws) (enum (us @ x # ws)) = enum (us @ ws @ [last (x # ws)])"
proof (induction ws arbitrary: us x)
  case (Cons w ws)
  from Cons.IH [of "us @ [w]" w] show ?case by (simp add: nth_append list_update_append Let_def)
qed simp

lemma erase_enum: "smap_erase (Index (length vs)) (enum (vs @ [x])) = enum vs"
  by (rule enum_eqI) (auto simp: map_of_smap_erase nth_append)

lemma removeIndex_enum:
  assumes "length vs < 2 ^ 32"
  shows "removeIndex i (VArray (enum vs)) = (if i < length vs then (Some (vs ! i), VArray (enum (take i vs @ drop (Suc i) vs)))
      else (None, VArray (enum vs)))"
proof (cases "i < length vs")
  case True
  let ?us = "take i vs" and ?ws = "drop (Suc i) vs"
  have vs: "vs = ?us @ vs ! i # ?ws" using True by (simp add: id_take_nth_drop)
  have len: "length vs mod 2 ^ 32 - 1 = length (?us @ ?ws)" "length vs mod 2 ^ 32 - 1 - i = length ?ws" "length ?us = i"
    using True assms by auto
  have "remove_moves i (length ?ws) (enum vs) = enum ((?us @ ?ws) @ [last (vs ! i # ?ws)])"
    using remove_moves_enum [of ?us ?ws "vs ! i"] vs len(3) by (metis append_assoc)
  then have "smap_erase (Index (length (?us @ ?ws))) (remove_moves i (length ?ws) (enum vs)) = enum (?us @ ?ws)"
    by (simp only: erase_enum)
  with True len show ?thesis unfolding removeIndex_def jvalue.case map_of_enum size_enum Let_def by (simp only: if_True option.case)
qed (simp add: removeIndex_def)

text \<open>
  C36. On an array without holes the operations are those of lists: \<^verbatim>\<open>append\<close> adds at the end,
  \<^verbatim>\<open>operator[]\<close> reads, writes and extends by one, \<^verbatim>\<open>insert\<close> shifts to the right and refuses an index
  behind the end, \<^verbatim>\<open>removeIndex\<close> shifts to the left, \<^verbatim>\<open>resize\<close> cuts or fills with null; and the
  array has no holes afterwards.
\<close>

theorem dense_arrays_are_lists:
  assumes "length vs < 2 ^ 32"
  shows "jv_size (VArray (enum vs)) = length vs
    \<and> array_get i (VArray (enum vs)) = Inr (if i < length vs then vs ! i else VNull)
    \<and> jv_append w (VArray (enum vs)) = Inr (VArray (enum (vs @ [w])))
    \<and> (i \<le> length vs \<longrightarrow> array_set i w (VArray (enum vs)) = Inr (VArray (enum (take i vs @ w # drop (Suc i) vs))))
    \<and> jv_insert i w (VArray (enum vs)) =
        Inr (if i \<le> length vs then (True, VArray (enum (take i vs @ w # drop i vs))) else (False, VArray (enum vs)))
    \<and> removeIndex i (VArray (enum vs)) =
        (if i < length vs then (Some (vs ! i), VArray (enum (take i vs @ drop (Suc i) vs))) else (None, VArray (enum vs)))
    \<and> jv_resize n (VArray (enum vs)) = Inr (VArray (enum (take n vs @ replicate (n - length vs) VNull)))"
proof (intro conjI impI)
  show size: "jv_size (VArray (enum vs)) = length vs" using assms by simp
  show "array_get i (VArray (enum vs)) = Inr (if i < length vs then vs ! i else VNull)" by (rule array_get_enum)
  show "jv_append w (VArray (enum vs)) = Inr (VArray (enum (vs @ [w])))"
    unfolding jv_append_def using size by simp
  show set: "array_set i w (VArray (enum vs)) = Inr (VArray (enum (take i vs @ w # drop (Suc i) vs)))" if "i \<le> length vs"
    using that array_set_enum(1) [of i vs w] array_set_enum(2) [of vs w] by (cases "i = length vs") (auto simp: upd_conv_take_nth_drop)
  show "jv_insert i w (VArray (enum vs)) =
      Inr (if i \<le> length vs then (True, VArray (enum (take i vs @ w # drop i vs))) else (False, VArray (enum vs)))"
  proof (cases "i < length vs")
    case True
    then have "array_set i w (VArray (enum (take i vs @ VNull # drop i vs))) = Inr (VArray (enum (take i vs @ w # drop i vs)))"
      by (subst array_set_enum(1)) (simp_all add: list_update_append)
    with insert_moves_enum [OF True] True size show ?thesis by (simp add: jv_insert_def Let_def)
  next
    case False
    then show ?thesis using size set by (cases "i = length vs") (auto simp: jv_insert_def Let_def)
  qed
  show "jv_resize n (VArray (enum vs)) = Inr (VArray (enum (take n vs @ replicate (n - length vs) VNull)))"
  proof (cases "n \<le> length vs")
    case True
    then have "jv_size (VArray (array_shrink n (length vs - n) (enum vs))) = n" using assms by (simp add: shrink_enum)
    with True size show ?thesis by (auto simp: jv_resize_def Let_def jv_clear_def shrink_enum)
  next
    case False
    with size array_grow_enum [of vs "n - length vs"] show ?thesis by (simp add: jv_resize_def Let_def)
  qed
qed (rule removeIndex_enum [OF assms])

theorem dense_arrays_are_lists_witness:
  "jv_insert 1 (VBool True) (VArray (enum [VInt 1, VInt 2])) = Inr (True, VArray (enum [VInt 1, VBool True, VInt 2]))"
  using dense_arrays_are_lists [of "[VInt 1, VInt 2]" 1 "VBool True" 0] by simp

text \<open>
  An array with a hole is another matter: writing behind the end leaves the elements between
  missing; shrinking such an array throws, because its size is not the one asked for.
\<close>

lemma sparse_arrays:
  "array_set 5 w (VArray []) = Inr (VArray [(Index 5, w)])" "jv_size (VArray [(Index 5, w)]) = 6"
  "array_get 2 (VArray [(Index 5, w)]) = Inr VNull" "removeIndex 2 (VArray [(Index 5, w)]) = (None, VArray [(Index 5, w)])"
  "jv_resize 3 (VArray [(Index 5, w)]) = Inl Logic_Error"
proof -
  show size: "jv_size (VArray [(Index 5, w)]) = 6" by (simp add: jv_size.simps)
  have "array_shrink 3 3 [(Index 5, w)] = []" by (simp add: numeral_3_eq_3)
  with size show "jv_resize 3 (VArray [(Index 5, w)]) = Inl Logic_Error" by (simp add: jv_resize_def Let_def jv_size.simps)
qed (simp_all add: array_set_def array_ref_def smap_insert_def array_get_def removeIndex_def)

section \<open>Values without holes and the values of the sessions\<close>

fun jv_of :: "json \<Rightarrow> jvalue" where
  \<comment> \<open>how a value of \<open>Json_Value\<close> is stored\<close>
  "jv_of JNull = VNull"
| "jv_of (JInt i) = VInt i"
| "jv_of (JUInt n) = VUInt n"
| "jv_of (JReal d) = VReal d"
| "jv_of (JString s) = VString s"
| "jv_of (JBool b) = VBool b"
| "jv_of (JArray vs) = VArray (enum (map jv_of vs))"
| "jv_of (JObject m) = VObject (map (\<lambda>(k, v). (Name k, jv_of v)) m)"

abbreviation names :: "(string \<times> json) list \<Rightarrow> (czstring \<times> jvalue) list" where
  "names m \<equiv> map (\<lambda>(k, v). (Name k, jv_of v)) m"

lemma names_simps:
  "map_of (names m) (Name k) = map_option jv_of (map_of m k)"
  "smap_put (Name k) (jv_of w) (names m) = names (smap_put k w m)"
  "smap_insert (Name k) (jv_of w) (names m) = names (smap_insert k w m)"
  "smap_erase (Name k) (names m) = names (smap_erase k m)"
proof -
  show look: "map_of (names m) (Name k) = map_option jv_of (map_of m k)" by (induction m) auto
  show put: "smap_put (Name k) (jv_of w) (names m) = names (smap_put k w m)"
    by (induction k w m rule: smap_put.induct) auto
  show "smap_insert (Name k) (jv_of w) (names m) = names (smap_insert k w m)"
    using look put by (auto simp: smap_insert_def split: option.splits)
  show "smap_erase (Name k) (names m) = names (smap_erase k m)"
    by (induction k m rule: smap_erase.induct) auto
qed

lemma jv_of_null [simp]: "jv_of j = VNull \<longleftrightarrow> j = JNull"
  by (cases j) auto

text \<open>
  The operations of \<open>Json_Value\<close> on members and arrays are those of the stored values: null, an object
  and an array are changed and read as the code does it, and everything else throws.
\<close>

theorem json_values_refine:
  assumes "\<And>vs. j = JArray vs \<Longrightarrow> length vs < 2 ^ 32"
  shows "jv_append (jv_of w) (jv_of j) = map_sum id jv_of (json_append w j)
    \<and> member_ref k (jv_of j) = map_sum id jv_of (resolveReference k j)
    \<and> member_set k (jv_of w) (jv_of j) = map_sum id jv_of (json_put k w j)
    \<and> member_const k (jv_of j) = map_sum id jv_of (json_at j k)
    \<and> jv_isMember k (jv_of j) = isMember k j"
proof (intro conjI)
  note defs = member_ref_def resolveReference_def json_put_def member_set_def member_const_def jv_get_def jv_find_def
    jv_isMember_def isMember_def json_append_def jv_append_def
  have null: "[(Name k, VNull)] = names [(k, JNull)]" by simp
  show "jv_append (jv_of w) (jv_of j) = map_sum id jv_of (json_append w j)"
  proof (cases j)
    case JNull
    have "enum [jv_of w] = [(Index 0, jv_of w)]" by (simp add: enum_def)
    with JNull show ?thesis by (simp add: defs jv_size.simps smap_insert_def)
  next
    case (JArray vs)
    with assms have "length vs < 2 ^ 32" by blast
    with JArray show ?thesis using put_enum_end [of "map jv_of vs" "jv_of w"] by (simp add: defs)
  qed (simp_all add: defs)
  show "member_ref k (jv_of j) = map_sum id jv_of (resolveReference k j)"
    using names_simps(3) [of k JNull] by (cases j) (simp_all add: defs)
  show "member_set k (jv_of w) (jv_of j) = map_sum id jv_of (json_put k w j)"
    using names_simps(3) [of k JNull] names_simps(2) [of k w] by (cases j) (simp_all add: defs)
  show "member_const k (jv_of j) = map_sum id jv_of (json_at j k)"
    by (cases j) (simp_all add: defs json_at_eq names_simps split: option.splits)
  show "jv_isMember k (jv_of j) = isMember k j"
    by (cases j) (simp_all add: defs names_simps)
qed

theorem json_values_refine_witness:
  "member_set ''a'' (jv_of (JInt 1)) (jv_of (JObject [(''b'', JNull)])) = Inr (jv_of (JObject [(''a'', JInt 1), (''b'', JNull)]))"
  using json_values_refine [of "JObject [(''b'', JNull)]" "JInt 1" "''a''"]
  by (simp add: json_put_def resolveReference_def smap_insert_def)

end
