(* ===== verification/Json_Order.thy ===== *)
theory Json_Order
  imports Json_Tree
begin

text \<open>
  The comparison of \<^verbatim>\<open>Json::Value\<close>s (newJson/jsoncpp.cpp): \<^verbatim>\<open>operator<\<close>, \<^verbatim>\<open>operator==\<close>,
  \<^verbatim>\<open>compare\<close>. Values of different types are ordered by their types, arrays and objects by their
  size first and then as the library orders maps, lexicographically by pairs of key and value.
\<close>

section \<open>The operators\<close>

fun type_rank :: "value_type \<Rightarrow> nat" where
  \<comment> \<open>the enumerators of \<^verbatim>\<open>ValueType\<close>\<close>
  "type_rank nullValue = 0"
| "type_rank intValue = 1"
| "type_rank uintValue = 2"
| "type_rank realValue = 3"
| "type_rank stringValue = 4"
| "type_rank booleanValue = 5"
| "type_rank arrayValue = 6"
| "type_rank objectValue = 7"

fun double_less :: "double \<Rightarrow> double \<Rightarrow> bool" where
  "double_less (Finite a) (Finite b) \<longleftrightarrow> a < b"
| "double_less (Infinity n) (Finite _) \<longleftrightarrow> n"
| "double_less (Finite _) (Infinity n) \<longleftrightarrow> \<not> n"
| "double_less (Infinity m) (Infinity n) \<longleftrightarrow> m \<and> \<not> n"
| "double_less _ _ \<longleftrightarrow> False"

definition double_eq :: "double \<Rightarrow> double \<Rightarrow> bool" where
  "double_eq a b \<longleftrightarrow> a = b \<and> a \<noteq> NaN"

abbreviation map_size :: "(czstring \<times> jvalue) list \<Rightarrow> nat" where
  "map_size \<equiv> size_list (size_prod (\<lambda>_. 0) size)"

function jv_less :: "jvalue \<Rightarrow> jvalue \<Rightarrow> bool" and map_less :: "(czstring \<times> jvalue) list \<Rightarrow> (czstring \<times> jvalue) list \<Rightarrow> bool" where
  "jv_less a b =
     (if jv_type a \<noteq> jv_type b then type_rank (jv_type a) < type_rank (jv_type b)
      else case (a, b) of
        (VInt i, VInt j) \<Rightarrow> i < j
      | (VUInt i, VUInt j) \<Rightarrow> i < j
      | (VReal d, VReal e) \<Rightarrow> double_less d e
      | (VBool p, VBool q) \<Rightarrow> \<not> p \<and> q
      | (VString s, VString t) \<Rightarrow> s < t
      | (VArray m, VArray n) \<Rightarrow> if length m \<noteq> length n then length m < length n else map_less m n
      | (VObject m, VObject n) \<Rightarrow> if length m \<noteq> length n then length m < length n else map_less m n
      | _ \<Rightarrow> False)"
| "map_less m n =
     (case m of
        [] \<Rightarrow> n \<noteq> []
      | (k, v) # m' \<Rightarrow>
        (case n of
           [] \<Rightarrow> False
         | (l, w) # n' \<Rightarrow>
             if k < l \<or> \<not> l < k \<and> jv_less v w then True
             else if l < k \<or> \<not> k < l \<and> jv_less w v then False
             else map_less m' n'))"
  by pat_completeness auto
termination
proof (relation "measure (case_sum (\<lambda>(a, b). size a + size b) (\<lambda>(m, n). map_size m + map_size n))")
qed auto

function jv_eq :: "jvalue \<Rightarrow> jvalue \<Rightarrow> bool" and map_eq :: "(czstring \<times> jvalue) list \<Rightarrow> (czstring \<times> jvalue) list \<Rightarrow> bool" where
  "jv_eq a b =
     (jv_type a = jv_type b \<and>
      (case (a, b) of
        (VInt i, VInt j) \<Rightarrow> i = j
      | (VUInt i, VUInt j) \<Rightarrow> i = j
      | (VReal d, VReal e) \<Rightarrow> double_eq d e
      | (VBool p, VBool q) \<Rightarrow> p = q
      | (VString s, VString t) \<Rightarrow> s = t
      | (VArray m, VArray n) \<Rightarrow> length m = length n \<and> map_eq m n
      | (VObject m, VObject n) \<Rightarrow> length m = length n \<and> map_eq m n
      | _ \<Rightarrow> True))"
| "map_eq m n =
     (case (m, n) of
        ((k, v) # m', (l, w) # n') \<Rightarrow> k = l \<and> jv_eq v w \<and> map_eq m' n'
      | _ \<Rightarrow> True)"
  by pat_completeness auto
termination
proof (relation "measure (case_sum (\<lambda>(a, b). size a + size b) (\<lambda>(m, n). map_size m + map_size n))")
qed auto

declare jv_less.simps [simp del] map_less.simps [simp del] jv_eq.simps [simp del] map_eq.simps [simp del]

definition jv_compare :: "jvalue \<Rightarrow> jvalue \<Rightarrow> int" where
  "jv_compare a b = (if jv_less a b then - 1 else if jv_less b a then 1 else 0)"

section \<open>Order\<close>

fun no_nan :: "jvalue \<Rightarrow> bool" where
  "no_nan (VReal d) \<longleftrightarrow> d \<noteq> NaN"
| "no_nan (VArray m) \<longleftrightarrow> (\<forall>p\<in>set m. no_nan (snd p))"
| "no_nan (VObject m) \<longleftrightarrow> (\<forall>p\<in>set m. no_nan (snd p))"
| "no_nan _ \<longleftrightarrow> True"

lemma type_rank_inj: "type_rank s = type_rank t \<longleftrightarrow> s = t"
  by (cases s; cases t) simp_all

lemma double_trans: "double_less d e \<Longrightarrow> double_less e f \<Longrightarrow> double_less d f"
  by (cases d; cases e; cases f) auto

definition three_way :: "('a \<Rightarrow> 'a \<Rightarrow> bool) \<Rightarrow> ('a \<Rightarrow> 'a \<Rightarrow> bool) \<Rightarrow> 'a \<Rightarrow> 'a \<Rightarrow> bool" where
  \<comment> \<open>exactly one of less, equal, greater\<close>
  "three_way lt eq a b \<longleftrightarrow>
     (lt a b \<and> \<not> lt b a \<and> a \<noteq> b \<and> \<not> eq a b \<and> \<not> eq b a)
     \<or> (\<not> lt a b \<and> \<not> lt b a \<and> a = b \<and> eq a b)
     \<or> (\<not> lt a b \<and> lt b a \<and> a \<noteq> b \<and> \<not> eq a b \<and> \<not> eq b a)"

lemma three_wayE:
  assumes "three_way lt eq a b"
  obtains "lt a b" "\<not> lt b a" "a \<noteq> b" "\<not> eq a b" "\<not> eq b a"
    | "a = b" "\<not> lt a a" "eq a a"
    | "\<not> lt a b" "lt b a" "a \<noteq> b" "\<not> eq a b" "\<not> eq b a"
  using assms by (auto simp: three_way_def)

abbreviation "ordered \<equiv> three_way jv_less jv_eq"
abbreviation "maps_are_ordered \<equiv> three_way map_less map_eq"

lemma map_less_Nil [simp]: "map_less [] n \<longleftrightarrow> n \<noteq> []" "\<not> map_less m []"
  by (cases m; simp add: map_less.simps)+

lemma map_less_Cons:
  assumes "ordered v w"
  shows "map_less ((k, v) # m) ((l, w) # n) \<longleftrightarrow> k < l \<or> k = l \<and> (jv_less v w \<or> v = w \<and> map_less m n)"
    and "map_less ((l, w) # n) ((k, v) # m) \<longleftrightarrow> l < k \<or> l = k \<and> (jv_less w v \<or> w = v \<and> map_less n m)"
proof -
  have "map_less ((k, v) # m) ((l, w) # n) \<longleftrightarrow>
      (if k < l \<or> \<not> l < k \<and> jv_less v w then True else if l < k \<or> \<not> k < l \<and> jv_less w v then False else map_less m n)"
    "map_less ((l, w) # n) ((k, v) # m) \<longleftrightarrow>
      (if l < k \<or> \<not> k < l \<and> jv_less w v then True else if k < l \<or> \<not> l < k \<and> jv_less v w then False else map_less n m)"
    by (subst map_less.simps, simp)+
  note step = this
  show "map_less ((k, v) # m) ((l, w) # n) \<longleftrightarrow> k < l \<or> k = l \<and> (jv_less v w \<or> v = w \<and> map_less m n)"
    unfolding step using assms by (elim three_wayE; cases k l rule: linorder_cases; auto)
  show "map_less ((l, w) # n) ((k, v) # m) \<longleftrightarrow> l < k \<or> l = k \<and> (jv_less w v \<or> w = v \<and> map_less n m)"
    unfolding step using assms by (elim three_wayE; cases k l rule: linorder_cases; auto)
qed

lemma map_eq_Cons: "map_eq ((k, v) # m) ((l, w) # n) \<longleftrightarrow> k = l \<and> jv_eq v w \<and> map_eq m n"
  by (simp add: map_eq.simps [of "(k, v) # m"])

lemma maps_ordered:
  assumes "\<forall>p\<in>set m. \<forall>w. no_nan w \<longrightarrow> ordered (snd p) w" and "\<forall>p\<in>set n. no_nan (snd p)"
    and "length m = length n"
  shows "maps_are_ordered m n"
  using assms
proof (induction m arbitrary: n)
  case Nil
  then show ?case by (simp add: map_eq.simps three_way_def)
next
  case (Cons p m)
  obtain k v where p: "p = (k, v)" by (cases p)
  obtain l w n' where n: "n = (l, w) # n'" using Cons.prems(3) by (cases n) auto
  have o: "ordered v w" using Cons.prems p n by auto
  from Cons.IH [of n'] Cons.prems n have IH: "maps_are_ordered m n'" by auto
  consider "k < l" | "k = l" | "l < k" by fastforce
  then show ?case
    unfolding p n three_way_def map_less_Cons [OF o] map_eq_Cons
    using o IH by (cases; elim three_wayE; auto)
qed

lemma jv_less_types: "jv_type a \<noteq> jv_type b \<Longrightarrow> jv_less a b \<longleftrightarrow> type_rank (jv_type a) < type_rank (jv_type b)"
  "jv_type a \<noteq> jv_type b \<Longrightarrow> \<not> jv_eq a b"
  by (simp_all add: jv_less.simps [of a] jv_eq.simps [of a])

lemma jv_less_eqs [simp]:
  "jv_less (VInt i) (VInt j) \<longleftrightarrow> i < j" "jv_less (VUInt x) (VUInt y) \<longleftrightarrow> x < y" "jv_less (VReal d) (VReal e) \<longleftrightarrow> double_less d e"
  "jv_less (VBool q) (VBool r) \<longleftrightarrow> \<not> q \<and> r" "jv_less (VString s) (VString t) \<longleftrightarrow> s < t" "\<not> jv_less VNull VNull"
  "jv_less (VArray m) (VArray n) \<longleftrightarrow> length m < length n \<or> length m = length n \<and> map_less m n"
  "jv_less (VObject m) (VObject n) \<longleftrightarrow> length m < length n \<or> length m = length n \<and> map_less m n"
  by (auto simp: jv_less.simps)

lemma jv_eq_eqs [simp]:
  "jv_eq (VInt i) (VInt j) \<longleftrightarrow> i = j" "jv_eq (VUInt x) (VUInt y) \<longleftrightarrow> x = y" "jv_eq (VReal d) (VReal e) \<longleftrightarrow> double_eq d e"
  "jv_eq (VBool q) (VBool r) \<longleftrightarrow> q = r" "jv_eq (VString s) (VString t) \<longleftrightarrow> s = t" "jv_eq VNull VNull"
  "jv_eq (VArray m) (VArray n) \<longleftrightarrow> length m = length n \<and> map_eq m n"
  "jv_eq (VObject m) (VObject n) \<longleftrightarrow> length m = length n \<and> map_eq m n"
  by (auto simp: jv_eq.simps)

lemma ordered_types: "jv_type a \<noteq> jv_type b \<Longrightarrow> ordered a b"
proof -
  assume t: "jv_type a \<noteq> jv_type b"
  then have "type_rank (jv_type a) \<noteq> type_rank (jv_type b)" by (simp add: type_rank_inj)
  then show ?thesis using t by (auto simp: three_way_def jv_less_types)
qed

lemma ordered_containers:
  assumes "\<And>p w. p \<in> set m \<Longrightarrow> no_nan w \<Longrightarrow> ordered (snd p) w" "\<forall>p\<in>set n. no_nan (snd p)"
  shows "ordered (VArray m) (VArray n)" "ordered (VObject m) (VObject n)"
proof -
  have "maps_are_ordered m n" if "length m = length n" using maps_ordered [OF _ assms(2) that] assms(1) by blast
  then show "ordered (VArray m) (VArray n)" "ordered (VObject m) (VObject n)"
    by (cases "length m = length n"; auto simp: three_way_def)+
qed

lemma doubles_ordered: "d \<noteq> NaN \<Longrightarrow> e \<noteq> NaN \<Longrightarrow> three_way double_less double_eq d e"
  by (cases d; cases e) (auto simp: three_way_def double_eq_def)

definition is_leaf :: "jvalue \<Rightarrow> bool" where
  "is_leaf v \<longleftrightarrow> jv_type v \<noteq> arrayValue \<and> jv_type v \<noteq> objectValue"

lemma leaf_simps [simp]:
  "is_leaf VNull" "is_leaf (VInt i)" "is_leaf (VUInt n)" "is_leaf (VReal d)" "is_leaf (VString s)" "is_leaf (VBool b)"
  "\<not> is_leaf (VArray m)" "\<not> is_leaf (VObject m)"
  by (simp_all add: is_leaf_def)

lemma leaves_ordered: "is_leaf a \<Longrightarrow> no_nan a \<Longrightarrow> no_nan b \<Longrightarrow> ordered a b"
proof (cases "jv_type a = jv_type b")
  case True
  assume "is_leaf a" "no_nan a" "no_nan b"
  with True show ?thesis
  proof (cases a)
    case (VReal d)
    with True obtain e where "b = VReal e" by (cases b) auto
    with VReal \<open>no_nan a\<close> \<open>no_nan b\<close> doubles_ordered [of d e] show ?thesis by (simp add: three_way_def)
  qed (cases b; auto simp: three_way_def)+
qed (rule ordered_types)

lemma values_ordered: "no_nan a \<Longrightarrow> no_nan b \<Longrightarrow> ordered a b"
proof (induction a arbitrary: b)
  case (VArray m)
  show ?case
  proof (cases b)
    case (VArray n)
    show ?thesis unfolding VArray
    proof (rule ordered_containers)
      show "ordered (snd p) w" if "p \<in> set m" "no_nan w" for p w
        using VArray.IH [of p "snd p" w] VArray.prems(1) that by (auto simp: snds.simps)
    qed (use VArray.prems VArray in auto)
  qed (rule ordered_types, simp)+
next
  case (VObject m)
  show ?case
  proof (cases b)
    case (VObject n)
    show ?thesis unfolding VObject
    proof (rule ordered_containers)
      show "ordered (snd p) w" if "p \<in> set m" "no_nan w" for p w
        using VObject.IH [of p "snd p" w] VObject.prems(1) that by (auto simp: snds.simps)
    qed (use VObject.prems VObject in auto)
  qed (rule ordered_types, simp)+
qed (rule leaves_ordered; simp)+

lemma maps_trans:
  assumes "\<forall>p\<in>set m. \<forall>w u. no_nan w \<longrightarrow> no_nan u \<longrightarrow> jv_less (snd p) w \<longrightarrow> jv_less w u \<longrightarrow> jv_less (snd p) u"
    and "\<forall>p\<in>set m \<union> set n \<union> set z. no_nan (snd p)" and "map_less m n" "map_less n z"
  shows "map_less m z"
  using assms
proof (induction m arbitrary: n z)
  case Nil
  then show ?case by (cases z) auto
next
  case (Cons p m)
  obtain k v where p: "p = (k, v)" by (cases p)
  obtain l w n' where n: "n = (l, w) # n'" using Cons.prems(3) by (cases n) auto
  obtain q u z' where z: "z = (q, u) # z'" using Cons.prems(4) by (cases z) auto
  have nan: "no_nan v" "no_nan w" "no_nan u" using Cons.prems(2) p n z by auto
  have step: "jv_less v w \<Longrightarrow> jv_less w u \<Longrightarrow> jv_less v u"
  proof -
    have mem: "(k, v) \<in> set (p # m)" by (simp add: p)
    have "\<forall>w u. no_nan w \<longrightarrow> no_nan u \<longrightarrow> jv_less v w \<longrightarrow> jv_less w u \<longrightarrow> jv_less v u"
      using bspec [OF Cons.prems(1) mem] unfolding snd_conv .
    then show "jv_less v w \<Longrightarrow> jv_less w u \<Longrightarrow> jv_less v u" using nan(2,3) by blast
  qed
  note o = values_ordered [OF nan(1,2)] values_ordered [OF nan(2,3)] values_ordered [OF nan(1,3)]
  have others: "\<forall>p\<in>set m. \<forall>w u. no_nan w \<longrightarrow> no_nan u \<longrightarrow> jv_less (snd p) w \<longrightarrow> jv_less w u \<longrightarrow> jv_less (snd p) u"
    using Cons.prems(1) by (intro ballI) (rule bspec [OF Cons.prems(1)], rule list.set_intros)
  have nans: "\<forall>p\<in>set m \<union> set n' \<union> set z'. no_nan (snd p)" using Cons.prems(2) n z by simp
  note tail = Cons.IH [OF others nans]
  have less: "k < l \<or> k = l \<and> (jv_less v w \<or> v = w \<and> map_less m n')" "l < q \<or> l = q \<and> (jv_less w u \<or> w = u \<and> map_less n' z')"
    using Cons.prems(3,4) map_less_Cons(1) [OF o(1), of k m l n'] map_less_Cons(1) [OF o(2), of l n' q z'] by (auto simp: p n z)
  have "k < q \<or> k = q \<and> (jv_less v u \<or> v = u \<and> map_less m z')"
    using less step tail by (metis order.strict_trans)
  then show ?case using map_less_Cons(1) [OF o(3), of k m q z'] by (simp add: p z)
qed

lemma less_rank: "jv_less a b \<Longrightarrow> type_rank (jv_type a) \<le> type_rank (jv_type b)"
  by (cases "jv_type a = jv_type b") (simp_all add: jv_less_types)

lemma less_trans_types:
  assumes "jv_less a b" "jv_less b c" "\<not> (jv_type a = jv_type b \<and> jv_type b = jv_type c)"
  shows "jv_less a c"
proof -
  have le: "type_rank (jv_type a) \<le> type_rank (jv_type b)" "type_rank (jv_type b) \<le> type_rank (jv_type c)"
    using assms(1,2) by (simp_all add: less_rank)
  with assms(3) have "type_rank (jv_type a) < type_rank (jv_type c)"
    using type_rank_inj by (metis le_neq_implies_less order.strict_trans1 order.strict_trans2)
  moreover from this have "jv_type a \<noteq> jv_type c" by auto
  ultimately show ?thesis by (simp add: jv_less_types)
qed

lemma containers_trans:
  assumes "\<forall>p\<in>set m. \<forall>w u. no_nan w \<longrightarrow> no_nan u \<longrightarrow> jv_less (snd p) w \<longrightarrow> jv_less w u \<longrightarrow> jv_less (snd p) u"
    and "\<forall>p\<in>set m \<union> set n \<union> set z. no_nan (snd p)"
    and "length m < length n \<or> length m = length n \<and> map_less m n" "length n < length z \<or> length n = length z \<and> map_less n z"
  shows "length m < length z \<or> length m = length z \<and> map_less m z"
proof (cases "length m = length n \<and> length n = length z")
  case True
  then have "map_less m n" "map_less n z" using assms(3,4) by simp_all
  from maps_trans [OF assms(1,2) this] True show ?thesis by simp
qed (use assms(3,4) in linarith)

lemma leaves_trans:
  assumes "is_leaf a" "jv_type a = jv_type b" "jv_type b = jv_type c" "jv_less a b" "jv_less b c"
  shows "jv_less a c"
proof (cases a)
  case (VReal d)
  with assms obtain e f where "b = VReal e" "c = VReal f" by (cases b; cases c; simp)
  with VReal assms(4,5) double_trans show ?thesis by simp
qed (use assms in \<open>cases b; cases c; simp\<close>)+

lemma values_trans: "no_nan a \<Longrightarrow> no_nan b \<Longrightarrow> no_nan c \<Longrightarrow> jv_less a b \<Longrightarrow> jv_less b c \<Longrightarrow> jv_less a c"
proof (induction a arbitrary: b c)
  case (VArray m)
  show ?case
  proof (cases "jv_type b = arrayValue \<and> jv_type c = arrayValue")
    case True
    then obtain n z where b: "b = VArray n" "c = VArray z" by (cases b; cases c; simp)
    have IH: "\<forall>p\<in>set m. \<forall>w u. no_nan w \<longrightarrow> no_nan u \<longrightarrow> jv_less (snd p) w \<longrightarrow> jv_less w u \<longrightarrow> jv_less (snd p) u"
    proof (intro ballI allI impI)
      fix p w u
      assume "p \<in> set m" "no_nan w" "no_nan u" "jv_less (snd p) w" "jv_less w u"
      then show "jv_less (snd p) u" using VArray.IH [of p "snd p" w u] VArray.prems(1) by (simp add: snds.simps)
    qed
    have "\<forall>p\<in>set m \<union> set n \<union> set z. no_nan (snd p)" using VArray.prems(1-3) by (auto simp: b)
    from containers_trans [OF IH this] VArray.prems(4,5) show ?thesis by (simp add: b)
  next
    case False
    then show ?thesis by (intro less_trans_types [OF VArray.prems(4,5)]) auto
  qed
next
  case (VObject m)
  show ?case
  proof (cases "jv_type b = objectValue \<and> jv_type c = objectValue")
    case True
    then obtain n z where b: "b = VObject n" "c = VObject z" by (cases b; cases c; simp)
    have IH: "\<forall>p\<in>set m. \<forall>w u. no_nan w \<longrightarrow> no_nan u \<longrightarrow> jv_less (snd p) w \<longrightarrow> jv_less w u \<longrightarrow> jv_less (snd p) u"
    proof (intro ballI allI impI)
      fix p w u
      assume "p \<in> set m" "no_nan w" "no_nan u" "jv_less (snd p) w" "jv_less w u"
      then show "jv_less (snd p) u" using VObject.IH [of p "snd p" w u] VObject.prems(1) by (simp add: snds.simps)
    qed
    have "\<forall>p\<in>set m \<union> set n \<union> set z. no_nan (snd p)" using VObject.prems(1-3) by (auto simp: b)
    from containers_trans [OF IH this] VObject.prems(4,5) show ?thesis by (simp add: b)
  next
    case False
    then show ?thesis by (intro less_trans_types [OF VObject.prems(4,5)]) auto
  qed
qed (metis leaves_trans less_trans_types leaf_simps)+

text \<open>
  C37. The comparison is a total order on the values without not-a-number: \<^verbatim>\<open>compare\<close> gives 0 exactly for equal
  values, as \<^verbatim>\<open>operator==\<close> says, the opposite sign when the values are exchanged, and it is transitive.
\<close>

theorem values_are_ordered:
  assumes "no_nan a" "no_nan b" "no_nan c"
  shows "(jv_compare a b = 0 \<longleftrightarrow> a = b) \<and> (jv_eq a b \<longleftrightarrow> a = b) \<and> jv_compare b a = - jv_compare a b
    \<and> (jv_compare a b < 0 \<and> jv_compare b c < 0 \<longrightarrow> jv_compare a c < 0)"
proof -
  have "(jv_compare a b = 0 \<longleftrightarrow> a = b) \<and> (jv_eq a b \<longleftrightarrow> a = b) \<and> jv_compare b a = - jv_compare a b"
    using values_ordered [OF assms(1,2)] by (elim three_wayE) (simp_all add: jv_compare_def)
  moreover have "jv_compare x y < 0 \<longleftrightarrow> jv_less x y" for x y by (simp add: jv_compare_def)
  ultimately show ?thesis using values_trans [OF assms] by simp
qed

theorem values_are_ordered_witness:
  "jv_compare (VArray [(Index 0, VInt 2)]) (VArray [(Index 0, VInt 1)]) = - jv_compare (VArray [(Index 0, VInt 1)]) (VArray [(Index 0, VInt 2)])"
  using values_are_ordered [of "VArray [(Index 0, VInt 1)]" "VArray [(Index 0, VInt 2)]" VNull] by simp

text \<open>A not-a-number compares as 0 with every double and equals none.\<close>

lemma nan_unordered: "jv_compare (VReal NaN) (VReal d) = 0" "\<not> jv_eq (VReal NaN) (VReal d)"
  by (cases d; simp add: jv_compare_def double_eq_def)+

end
