(* ===== verification/Query_Result.thy ===== *)
theory Query_Result
  imports Server_Prelude
begin

text \<open>
  \<^verbatim>\<open>Field\<close> (Field.cpp) and \<^verbatim>\<open>QueryResult\<close> (QueryResult.cpp): one row at a time of a MySQL
  result set, read through a cursor. A \<^verbatim>\<open>MYSQL_RES\<close> is its column descriptions and the rows
  not yet fetched; a null cell is \<open>None\<close>. Access with the index \<open>-1\<close> that an unknown
  column name gives is an access outside the vector.
\<close>

section \<open>Field\<close>

datatype DataTypes = ENY_TYPE_NONE | ENY_TYPE_STRING | ENY_TYPE_INTEGER | ENY_TYPE_FLOAT
  | ENY_TYPE_BOOL | ENY_TYPE_NULL

record Field =
  m_value :: string
  m_name :: string
  m_type :: DataTypes
  m_isNull :: bool

definition Field_new :: Field where
  "Field_new = \<lparr>m_value = [], m_name = [], m_type = ENY_TYPE_NULL, m_isNull = True\<rparr>"

definition SetType :: "DataTypes \<Rightarrow> Field \<Rightarrow> Field" where
  "SetType tp f = f\<lparr>m_type := tp\<rparr>"

definition SetName :: "string \<Rightarrow> Field \<Rightarrow> Field" where
  "SetName name f = f\<lparr>m_name := name\<rparr>"

definition SetValue :: "string option \<Rightarrow> Field \<Rightarrow> Field" where
  "SetValue v f =
     (case v of
        None \<Rightarrow> f\<lparr>m_isNull := True, m_value := []\<rparr>
      | Some s \<Rightarrow> if length s = 0 then f\<lparr>m_isNull := True, m_value := []\<rparr>
                 else f\<lparr>m_value := s, m_isNull := False\<rparr>)"

text \<open>
  \<^verbatim>\<open>atoi\<close> and \<^verbatim>\<open>atoll\<close> of the C library on the platform: \<^verbatim>\<open>strtol\<close> stops at the first
  character that is not a digit (a zero byte among them), saturates at 64 bits, and the
  result is cut to the width.
\<close>

fun strtol_digits :: "string \<Rightarrow> int \<Rightarrow> int" where
  "strtol_digits [] acc = acc"
| "strtol_digits (c # cs) acc =
     (if CHR ''0'' \<le> c \<and> c \<le> CHR ''9'' then strtol_digits cs (10 * acc + int (digit_val c))
      else acc)"

definition is_space :: "char \<Rightarrow> bool" where
  "is_space c \<longleftrightarrow> c = CHR '' '' \<or> (9 \<le> (of_char c :: nat) \<and> (of_char c :: nat) \<le> 13)"

definition strtol :: "string \<Rightarrow> int" where
  "strtol s =
     (let t = dropWhile is_space s;
          v = (case t of
                 [] \<Rightarrow> 0
               | c # cs \<Rightarrow> if c = CHR ''-'' then - strtol_digits cs 0
                           else if c = CHR ''+'' then strtol_digits cs 0
                           else strtol_digits t 0)
      in max (- (2 ^ 63)) (min v (2 ^ 63 - 1)))"

definition atoi :: "string \<Rightarrow> 32 word" where "atoi s = word_of_int (strtol s)"
definition atoll :: "string \<Rightarrow> 64 word" where "atoll s = word_of_int (strtol s)"

definition toBool :: "Field \<Rightarrow> bool" where "toBool f \<longleftrightarrow> atoi (m_value f) \<noteq> 0"
definition toInt8 :: "Field \<Rightarrow> 8 word" where "toInt8 f = ucast (atoi (m_value f))"
definition toUInt8 :: "Field \<Rightarrow> 8 word" where "toUInt8 f = ucast (atoi (m_value f))"
definition toInt32 :: "Field \<Rightarrow> 32 word" where "toInt32 f = atoi (m_value f)"
definition toUInt32 :: "Field \<Rightarrow> 32 word" where "toUInt32 f = atoi (m_value f)"
definition toInt64 :: "Field \<Rightarrow> 64 word" where "toInt64 f = atoll (m_value f)"
definition toUInt64 :: "Field \<Rightarrow> 64 word" where "toUInt64 f = atoll (m_value f)"
definition GetString :: "Field \<Rightarrow> string" where "GetString f = m_value f"

section \<open>Result sets\<close>

datatype enum_field_types =
    FIELD_TYPE_DECIMAL | FIELD_TYPE_TINY | FIELD_TYPE_SHORT | FIELD_TYPE_LONG | FIELD_TYPE_FLOAT
  | FIELD_TYPE_DOUBLE | FIELD_TYPE_NULL | FIELD_TYPE_TIMESTAMP | FIELD_TYPE_LONGLONG
  | FIELD_TYPE_INT24 | FIELD_TYPE_DATE | FIELD_TYPE_TIME | FIELD_TYPE_DATETIME | FIELD_TYPE_YEAR
  | FIELD_TYPE_ENUM | FIELD_TYPE_SET | FIELD_TYPE_BLOB | FIELD_TYPE_VAR_STRING
  | FIELD_TYPE_STRING | FIELD_TYPE_OTHER

type_synonym sql_row = "string option list"

record MYSQL_RES =
  res_fields :: "(string \<times> enum_field_types) list"
  res_rows :: "sql_row list"

record QueryResult =
  m_CurrentRow :: "Field list"
  m_vecFieldName :: "string list"
  m_result :: "MYSQL_RES option"
  m_rowcount :: "32 word"
  m_cloumncout :: nat
  m_storage :: bool \<comment> \<open>\<^verbatim>\<open>m_CurrentRow\<close> has been given storage; \<^verbatim>\<open>clear\<close> keeps it\<close>

fun toEDYType :: "enum_field_types \<Rightarrow> DataTypes" where
  "toEDYType FIELD_TYPE_TIMESTAMP = ENY_TYPE_STRING"
| "toEDYType FIELD_TYPE_DATE = ENY_TYPE_STRING"
| "toEDYType FIELD_TYPE_TIME = ENY_TYPE_STRING"
| "toEDYType FIELD_TYPE_DATETIME = ENY_TYPE_STRING"
| "toEDYType FIELD_TYPE_YEAR = ENY_TYPE_STRING"
| "toEDYType FIELD_TYPE_STRING = ENY_TYPE_STRING"
| "toEDYType FIELD_TYPE_VAR_STRING = ENY_TYPE_STRING"
| "toEDYType FIELD_TYPE_BLOB = ENY_TYPE_STRING"
| "toEDYType FIELD_TYPE_SET = ENY_TYPE_STRING"
| "toEDYType FIELD_TYPE_NULL = ENY_TYPE_NULL"
| "toEDYType FIELD_TYPE_TINY = ENY_TYPE_INTEGER"
| "toEDYType FIELD_TYPE_SHORT = ENY_TYPE_INTEGER"
| "toEDYType FIELD_TYPE_LONG = ENY_TYPE_INTEGER"
| "toEDYType FIELD_TYPE_LONGLONG = ENY_TYPE_INTEGER"
| "toEDYType FIELD_TYPE_INT24 = ENY_TYPE_INTEGER"
| "toEDYType FIELD_TYPE_ENUM = ENY_TYPE_INTEGER"
| "toEDYType FIELD_TYPE_DECIMAL = ENY_TYPE_FLOAT"
| "toEDYType FIELD_TYPE_FLOAT = ENY_TYPE_FLOAT"
| "toEDYType FIELD_TYPE_DOUBLE = ENY_TYPE_FLOAT"
| "toEDYType FIELD_TYPE_OTHER = ENY_TYPE_NONE"

definition EndQuery :: "QueryResult \<Rightarrow> QueryResult" where
  "EndQuery q = q\<lparr>m_CurrentRow := [], m_vecFieldName := [], m_result := None,
                  m_cloumncout := 0, m_rowcount := 0\<rparr>"

definition mysql_fetch_row :: "MYSQL_RES \<Rightarrow> (sql_row \<times> MYSQL_RES) option" where
  "mysql_fetch_row r =
     (case res_rows r of [] \<Rightarrow> None | row # rows \<Rightarrow> Some (row, r\<lparr>res_rows := rows\<rparr>))"

text \<open>
  The constructor: a null \<^verbatim>\<open>MYSQL_RES*\<close> is dereferenced by \<^verbatim>\<open>mysql_fetch_fields\<close>; the
  loop indexes the column and row arrays up to \<^verbatim>\<open>cloumncout\<close>.
\<close>

definition QueryResult_new :: "MYSQL_RES option \<Rightarrow> 32 word \<Rightarrow> nat \<Rightarrow> QueryResult res" where
  "QueryResult_new result rowcount cloumncout =
     (case result of
        None \<Rightarrow> Inl Null_Deref
      | Some r \<Rightarrow>
          let q = \<lparr>m_CurrentRow = replicate cloumncout Field_new,
                   m_vecFieldName = replicate cloumncout [],
                   m_result = Some r, m_rowcount = rowcount, m_cloumncout = cloumncout,
                   m_storage = (cloumncout > 0)\<rparr>
          in case mysql_fetch_row r of
               None \<Rightarrow> Inr (EndQuery q)
             | Some (row, r') \<Rightarrow>
                 if cloumncout > length (res_fields r) \<or> cloumncout > length row
                 then Inl Out_Of_Range
                 else Inr (q\<lparr>m_result := Some r',
                   m_vecFieldName := map fst (take cloumncout (res_fields r)),
                   m_CurrentRow :=
                     map (\<lambda>((name, tp), v). SetValue v (SetName name (SetType (toEDYType tp) Field_new)))
                       (zip (take cloumncout (res_fields r)) row)\<rparr>))"

definition NextRow :: "QueryResult \<Rightarrow> (bool \<times> QueryResult) res" where
  "NextRow q =
     (case m_result q of
        None \<Rightarrow> Inr (False, q)
      | Some r \<Rightarrow>
          (case mysql_fetch_row r of
             None \<Rightarrow> Inr (False, EndQuery q)
           | Some (row, r') \<Rightarrow>
               if m_cloumncout q > length row then Inl Out_Of_Range
               else Inr (True, q\<lparr>m_result := Some r',
                 m_CurrentRow := map (\<lambda>(v, f). SetValue v f) (zip row (m_CurrentRow q))\<rparr>)))"

definition Fetch :: "QueryResult \<Rightarrow> bool" where
  \<comment> \<open>whether \<^verbatim>\<open>m_CurrentRow.data()\<close> is not null\<close>
  "Fetch q = m_storage q"

definition Value_at :: "nat \<Rightarrow> QueryResult \<Rightarrow> Field res" where
  "Value_at i q = (if i < length (m_CurrentRow q) then Inr (m_CurrentRow q ! i) else Inl Out_Of_Range)"

definition GetFieldIndexByName :: "string \<Rightarrow> QueryResult \<Rightarrow> nat option" where
  "GetFieldIndexByName name q = index_where (\<lambda>n. n = name) (m_vecFieldName q)"

definition Value_named :: "string \<Rightarrow> QueryResult \<Rightarrow> Field res" where
  "Value_named name q =
     (case GetFieldIndexByName name q of None \<Rightarrow> Inl Out_Of_Range | Some i \<Rightarrow> Value_at i q)"

definition query_size :: "QueryResult \<Rightarrow> nat" where
  "query_size q = length (m_CurrentRow q)"

section \<open>The cursor against the rows of the result set\<close>

definition rows_left :: "QueryResult \<Rightarrow> nat" where
  "rows_left q = (case m_result q of None \<Rightarrow> 0 | Some r \<Rightarrow> length (res_rows r))"

text \<open>
  \<open>at_row q cols row rest\<close>: the cursor stands on \<open>row\<close> of a result with the columns \<open>cols\<close>,
  and \<open>rest\<close> are the rows after it.
\<close>

definition cell_text :: "string option \<Rightarrow> string" where
  "cell_text v = (case v of None \<Rightarrow> [] | Some s \<Rightarrow> s)"

definition at_row :: "QueryResult \<Rightarrow> string list \<Rightarrow> sql_row \<Rightarrow> sql_row list \<Rightarrow> bool" where
  "at_row q cols row rest \<longleftrightarrow>
     m_vecFieldName q = cols \<and> m_cloumncout q = length cols \<and> length row = length cols
     \<and> map m_value (m_CurrentRow q) = map cell_text row
     \<and> (\<exists>r. m_result q = Some r \<and> res_rows r = rest) \<and> m_storage q = (cols \<noteq> [])"

definition well_formed :: "MYSQL_RES \<Rightarrow> bool" where
  "well_formed r \<longleftrightarrow> (\<forall>row\<in>set (res_rows r). length row = length (res_fields r))"

lemma m_value_SetValue [simp]: "m_value (SetValue v f) = cell_text v"
  by (auto simp: SetValue_def cell_text_def split: option.splits)

lemma QueryResult_new_at_row:
  assumes "well_formed r" and "res_rows r = row # rest"
  shows "\<exists>q. QueryResult_new (Some r) n (length (res_fields r)) = Inr q
    \<and> at_row q (map fst (res_fields r)) row rest"
proof -
  have len: "length row = length (res_fields r)" using assms by (simp add: well_formed_def)
  have "map (m_value \<circ> (\<lambda>((name, tp), v). SetValue v (SetName name (SetType (toEDYType tp) Field_new))))
      (zip (res_fields r) row) = map (cell_text \<circ> snd) (zip (res_fields r) row)"
    by (intro map_cong) auto
  also have "\<dots> = map cell_text row"
    using len by (metis list.map_comp map_snd_zip)
  finally show ?thesis
    using assms(2) len by (auto simp: QueryResult_new_def mysql_fetch_row_def at_row_def)
qed

lemma NextRow_at_row:
  assumes "at_row q cols row (row' # rest)" and "length row' = length cols"
  shows "\<exists>q'. NextRow q = Inr (True, q') \<and> at_row q' cols row' rest"
proof -
  obtain r where r: "m_result q = Some r" "res_rows r = row' # rest"
    using assms(1) by (auto simp: at_row_def)
  have "length (m_CurrentRow q) = length cols"
    using assms(1) by (metis at_row_def length_map)
  then have zip: "map fst (zip row' (m_CurrentRow q)) = row'" using assms(2) by simp
  have "map (m_value \<circ> (\<lambda>(v, f). SetValue v f)) (zip row' (m_CurrentRow q))
      = map (cell_text \<circ> fst) (zip row' (m_CurrentRow q))"
    by (intro map_cong) auto
  also have "\<dots> = map cell_text row'" by (simp only: list.map_comp [symmetric] zip)
  finally have "map m_value (map (\<lambda>(v, f). SetValue v f) (zip row' (m_CurrentRow q)))
      = map cell_text row'" by simp
  then show ?thesis
    using assms r by (simp add: NextRow_def mysql_fetch_row_def at_row_def)
qed

lemma NextRow_last: "at_row q cols row [] \<Longrightarrow> NextRow q = Inr (False, EndQuery q)"
  by (auto simp: NextRow_def mysql_fetch_row_def at_row_def)

lemma Value_named_at_row:
  assumes "at_row q cols row rest" and "distinct cols" and "i < length cols"
  shows "\<exists>f. Value_named (cols ! i) q = Inr f \<and> GetString f = cell_text (row ! i)"
proof -
  have "index_where (\<lambda>n. n = cols ! i) cols = Some i"
    using assms(2,3) by (auto simp: index_where_Some nth_eq_iff_index_eq)
  moreover have len: "length (m_CurrentRow q) = length cols"
    using assms(1) by (metis at_row_def length_map)
  moreover have "m_value (m_CurrentRow q ! i) = cell_text (row ! i)"
  proof -
    have "map m_value (m_CurrentRow q) ! i = map cell_text row ! i"
      using assms(1) by (simp add: at_row_def)
    then show ?thesis using assms len by (simp add: at_row_def)
  qed
  ultimately show ?thesis
    using assms by (simp add: Value_named_def GetFieldIndexByName_def Value_at_def at_row_def GetString_def)
qed

section \<open>Properties\<close>

text \<open>
  The reading loop every loader of the program has: while its guard holds, read something
  from the current row, then leave when \<^verbatim>\<open>NextRow\<close> is false. A row is lost in every round,
  so the loop ends.
\<close>

function read_rows :: "(QueryResult \<Rightarrow> bool) \<Rightarrow> (QueryResult \<Rightarrow> 'a res) \<Rightarrow> QueryResult \<Rightarrow> 'a list res" where
  "read_rows guard rd q =
     (if \<not> guard q then Inr []
      else rbind (rd q) (\<lambda>a.
        rbind (NextRow q) (\<lambda>(m, q').
          if m \<and> rows_left q' < rows_left q
          then rbind (read_rows guard rd q') (\<lambda>as. Inr (a # as))
          else Inr [a])))"
  by pat_completeness auto
termination by (relation "measure (rows_left \<circ> snd \<circ> snd)") auto

declare read_rows.simps [simp del]

definition get_string :: "string \<Rightarrow> QueryResult \<Rightarrow> string res" where
  \<comment> \<open>\<^verbatim>\<open>result->Value(name).GetString()\<close>\<close>
  "get_string name q = rbind (Value_named name q) (\<lambda>f. Inr (GetString f))"

lemma NextRow_rows_left:
  "NextRow q = Inr (True, q') \<Longrightarrow> rows_left q' < rows_left q"
  by (auto simp: NextRow_def rows_left_def mysql_fetch_row_def
      split: option.splits list.splits if_splits)

lemma at_row_rows_left: "at_row q cols row rest \<Longrightarrow> rows_left q = length rest"
  by (auto simp: at_row_def rows_left_def)

lemma read_rows_at_row:
  assumes "at_row q cols row rest" and "\<forall>row\<in>set rest. length row = length cols"
    and "\<And>q row rest. at_row q cols row rest \<Longrightarrow> guard q \<and> rd q = Inr (g row)"
  shows "read_rows guard rd q = Inr (map g (row # rest))"
  using assms(1,2)
proof (induction rest arbitrary: q row)
  case Nil
  with assms(3) [OF Nil.prems(1)] NextRow_last [OF Nil.prems(1)]
  show ?case by (subst read_rows.simps) auto
next
  case (Cons row' rest)
  obtain q' where q': "NextRow q = Inr (True, q')" "at_row q' cols row' rest"
    using NextRow_at_row [OF Cons.prems(1)] Cons.prems(2) by auto
  from Cons.IH [OF q'(2)] Cons.prems(2)
  have "read_rows guard rd q' = Inr (map g (row' # rest))" by simp
  with assms(3) [OF Cons.prems(1)] q'(1) NextRow_rows_left [OF q'(1)] show ?case
    by (subst read_rows.simps) simp
qed

definition row_text :: "string list \<Rightarrow> string \<Rightarrow> sql_row \<Rightarrow> string" where
  \<comment> \<open>the text of the named column\<close>
  "row_text cols name row =
     (case index_where (\<lambda>n. n = name) cols of None \<Rightarrow> [] | Some i \<Rightarrow> cell_text (row ! i))"

lemma get_string_at_row:
  assumes "at_row q cols row rest" and "distinct cols" and "name \<in> set cols"
  shows "get_string name q = Inr (row_text cols name row)"
proof -
  obtain i where i: "i < length cols" "name = cols ! i" using assms(3) by (auto simp: in_set_conv_nth)
  then have "index_where (\<lambda>n. n = name) cols = Some i"
    using assms(2) by (auto simp: index_where_Some nth_eq_iff_index_eq)
  then show ?thesis
    using Value_named_at_row [OF assms(1,2) i(1)] i(2) by (auto simp: get_string_def row_text_def)
qed

lemma at_row_guards: "at_row q cols row rest \<Longrightarrow> cols \<noteq> [] \<Longrightarrow> Fetch q \<and> query_size q > 0"
  by (metis Fetch_def at_row_def length_greater_0_conv length_map query_size_def)

text \<open>
  A result set without rows: \<^verbatim>\<open>Fetch\<close> is not null all the same, so a caller's null test
  passes, and the first read of a column is outside the vector.
\<close>

lemma empty_result:
  assumes "res_rows r = []" and "n > 0"
  shows "\<exists>q. QueryResult_new (Some r) k n = Inr q \<and> Fetch q \<and> query_size q = 0
    \<and> Value_named name q = Inl Out_Of_Range \<and> Value_at i q = Inl Out_Of_Range"
  using assms
  by (simp add: QueryResult_new_def mysql_fetch_row_def EndQuery_def Fetch_def query_size_def
      Value_named_def Value_at_def GetFieldIndexByName_def)

definition cursor_loop :: "(QueryResult \<Rightarrow> bool) \<Rightarrow> string \<Rightarrow> MYSQL_RES \<Rightarrow> 32 word \<Rightarrow> string list res" where
  \<comment> \<open>the loop over a fresh result set that reads one column\<close>
  "cursor_loop guard name r n =
     rbind (QueryResult_new (Some r) n (length (res_fields r))) (read_rows guard (get_string name))"

lemma cursor_loop_rows:
  assumes "well_formed r" and "res_rows r \<noteq> []" and "distinct (map fst (res_fields r))"
    and "name \<in> fst ` set (res_fields r)" and guard: "\<And>q. Fetch q \<and> query_size q > 0 \<Longrightarrow> guard q"
  shows "cursor_loop guard name r n = Inr (map (row_text (map fst (res_fields r)) name) (res_rows r))"
proof -
  obtain row rest where rows: "res_rows r = row # rest" using assms(2) by (cases "res_rows r") auto
  from QueryResult_new_at_row [OF assms(1) rows] obtain q where
    q: "QueryResult_new (Some r) n (length (res_fields r)) = Inr q"
      "at_row q (map fst (res_fields r)) row rest" by blast
  have len: "\<forall>row\<in>set rest. length row = length (map fst (res_fields r))"
    using assms(1) rows by (simp add: well_formed_def)
  have "read_rows guard (get_string name) q
      = Inr (map (row_text (map fst (res_fields r)) name) (row # rest))"
  proof (rule read_rows_at_row [OF q(2) len])
    fix q' row' rest' assume at: "at_row q' (map fst (res_fields r)) row' rest'"
    show "guard q' \<and> get_string name q' = Inr (row_text (map fst (res_fields r)) name row')"
      using guard [OF at_row_guards [OF at]] get_string_at_row [OF at assms(3)] assms(4)
      by (metis empty_iff empty_set imageE list.set_map)
  qed
  with q(1) rows show ?thesis by (simp add: cursor_loop_def)
qed

text \<open>
  C14. A loop over a fresh result set that reads a column by its name sees it in every
  row, in order, and no row twice: a null cell reads as the empty string. On a result set without rows the
  loops that ask for \<^verbatim>\<open>size() > 0\<close> read nothing; those that only test \<^verbatim>\<open>Fetch\<close> or the pointer to the result read
  outside the empty vector of fields.
\<close>

theorem cursor_visits_all_rows:
  assumes "well_formed r" and "distinct (map fst (res_fields r))" and "name \<in> fst ` set (res_fields r)"
  shows "cursor_loop (\<lambda>q. query_size q > 0) name r n = Inr (map (row_text (map fst (res_fields r)) name) (res_rows r))
    \<and> (\<forall>guard\<in>{Fetch, \<lambda>_. True}. cursor_loop guard name r n
          = (if res_rows r = [] then Inl Out_Of_Range else Inr (map (row_text (map fst (res_fields r)) name) (res_rows r))))"
proof (cases "res_rows r = []")
  case True
  have "length (res_fields r) > 0" using assms(3) by (cases "res_fields r") auto
  from empty_result [OF True this] obtain q where q: "QueryResult_new (Some r) n (length (res_fields r)) = Inr q"
    "Fetch q" "query_size q = 0" "Value_named name q = Inl Out_Of_Range" by blast
  then have "get_string name q = Inl Out_Of_Range" by (simp add: get_string_def)
  with q True show ?thesis by (simp add: cursor_loop_def read_rows.simps [of _ _ q])
next
  case False
  with cursor_loop_rows [OF assms(1) False assms(2,3)] show ?thesis by simp
qed

theorem cursor_visits_all_rows_witness:
  "cursor_loop (\<lambda>_. True) ''b'' \<lparr>res_fields = [(''a'', FIELD_TYPE_LONG), (''b'', FIELD_TYPE_BLOB)],
        res_rows = [[Some ''1'', None], [Some ''2'', Some ''x'']]\<rparr> 2 = Inr [[], ''x'']
   \<and> cursor_loop Fetch ''a'' \<lparr>res_fields = [(''a'', FIELD_TYPE_LONG)], res_rows = []\<rparr> 0 = Inl Out_Of_Range"
  using cursor_visits_all_rows [of "\<lparr>res_fields = [(''a'', FIELD_TYPE_LONG), (''b'', FIELD_TYPE_BLOB)],
        res_rows = [[Some ''1'', None], [Some ''2'', Some ''x'']]\<rparr>" "''b''" 2]
    cursor_visits_all_rows [of "\<lparr>res_fields = [(''a'', FIELD_TYPE_LONG)], res_rows = []\<rparr>" "''a''" 0]
  by (simp add: well_formed_def cell_text_def row_text_def)

subsection \<open>Numbers through their decimal text\<close>

lemma strtol_digits_append:
  "\<forall>c\<in>set ds. CHR ''0'' \<le> c \<and> c \<le> CHR ''9'' \<Longrightarrow>
   strtol_digits ds acc = foldl (\<lambda>a c. 10 * a + int (digit_val c)) acc ds"
  by (induction ds arbitrary: acc) auto

lemma foldl_int_digits:
  "foldl (\<lambda>a c. 10 * a + int (digit_val c)) (int acc) ds
   = int (foldl (\<lambda>a c. a * 10 + digit_val c) acc ds)"
proof (induction ds arbitrary: acc)
  case (Cons d ds)
  have "10 * int acc + int (digit_val d) = int (acc * 10 + digit_val d)" by simp
  with Cons.IH [of "acc * 10 + digit_val d"] show ?case by (simp only: foldl.simps)
qed simp

lemma strtol_digits_to_string: "strtol_digits (to_string_nat n) 0 = int n"
  using strtol_digits_append [of "to_base 10 n" 0] to_base_10_digits
    foldl_int_digits [of 0 "to_base 10 n"] from_base_to_base [of 10 n]
  by (simp add: to_string_nat_def from_base_def)

lemma digit_not_space: "CHR ''0'' \<le> c \<Longrightarrow> \<not> is_space c"
  by (auto simp: is_space_def less_eq_char_def)

lemma strtol_to_string:
  assumes "- (2 ^ 63) \<le> i" and "i < 2 ^ 63"
  shows "strtol (to_string_int i) = i"
proof (cases "i < 0")
  case True
  then show ?thesis
    using assms strtol_digits_to_string [of "nat (- i)"]
    by (simp add: strtol_def to_string_int_def is_space_def)
next
  case False
  obtain c cs where c: "to_string_nat (nat i) = c # cs"
    by (cases "to_string_nat (nat i)") (auto simp: to_string_nat_def)
  have "CHR ''0'' \<le> c" using to_base_10_digits [of c "nat i"] c by (simp add: to_string_nat_def)
  moreover from this have "\<not> is_space c" "c \<noteq> CHR ''-''" "c \<noteq> CHR ''+''"
    using digit_not_space by (auto simp: less_eq_char_def)
  ultimately show ?thesis
    using False assms strtol_digits_to_string [of "nat i"] c
    by (simp add: strtol_def to_string_int_def)
qed

text \<open>
  An integer of 32 bits written to a column with \<^verbatim>\<open>std::to_string\<close> is read back by
  \<^verbatim>\<open>toInt32\<close>, and one of 64 bits by \<^verbatim>\<open>toInt64\<close>.
\<close>

theorem field_int_roundtrip:
  "- (2 ^ 31) \<le> i \<Longrightarrow> i < 2 ^ 31 \<Longrightarrow>
     toInt32 (SetValue (Some (to_string_int i)) f) = word_of_int i
   \<and> sint (toInt32 (SetValue (Some (to_string_int i)) f)) = i
   \<and> toInt64 (SetValue (Some (to_string_int i)) f) = word_of_int i"
  by (simp add: toInt32_def toInt64_def atoi_def atoll_def cell_text_def strtol_to_string
      signed_of_int signed_take_bit_int_eq_self)

theorem field_int_roundtrip_witness:
  "sint (toInt32 (SetValue (Some ''-12'') Field_new)) = - 12"
proof -
  have "to_string_int (- 12) = ''-12''"
    by code_simp
  then show ?thesis using field_int_roundtrip [of "- 12" Field_new] by simp
qed

end
