(* ===== verification/MySql_Manager.thy ===== *)
theory MySql_Manager
  imports Query_Result
begin

text \<open>
  \<^verbatim>\<open>MySQLTool\<close> (mysqltool.cpp), the connection to the database with its retry, and
  \<^verbatim>\<open>MySqlManager\<close> (MySqlManager.cpp), which checks at start-up that the database and the
  tables of the program exist and have the expected columns.

  The MySQL client library is an argument, \<open>mysql_api\<close>: its functions act on a state
  \<open>'w\<close> that stands for the connection and the server behind it. A query gives the error
  number of \<^verbatim>\<open>mysql_errno\<close>, 0 for success. The handle \<^verbatim>\<open>m_mysql\<close> matters only as null or
  not: a query on the null handle is a null dereference.
\<close>

record 'w mysql_api =
  my_close :: "'w \<Rightarrow> 'w"
  my_connect :: "string \<Rightarrow> string \<Rightarrow> string \<Rightarrow> string \<Rightarrow> nat \<Rightarrow> 'w \<Rightarrow> bool \<times> 'w"
  my_query :: "string \<Rightarrow> 'w \<Rightarrow> nat \<times> 'w"
  my_store :: "'w \<Rightarrow> MYSQL_RES option \<times> 'w"
  my_affected :: "'w \<Rightarrow> 32 word"
  my_field_count :: "'w \<Rightarrow> nat"

section \<open>The connection\<close>

record MySQLTool =
  m_mysql :: bool \<comment> \<open>the handle is not null\<close>
  m_host :: string
  m_user :: string
  m_passwd :: string
  m_dbname :: string
  m_port :: nat

type_synonym 'w tool_state = "MySQLTool \<times> 'w"

definition MySQLTool_new :: MySQLTool where
  "MySQLTool_new = \<lparr>m_mysql = False, m_host = [], m_user = [], m_passwd = [], m_dbname = [],
                    m_port = 3306\<rparr>"

definition tool_connect ::
    "'w mysql_api \<Rightarrow> string \<Rightarrow> string \<Rightarrow> string \<Rightarrow> string \<Rightarrow> nat \<Rightarrow> 'w tool_state \<Rightarrow> bool \<times> 'w tool_state"
  where
  "tool_connect A host user passwd db port = (\<lambda>(t, w).
     let w0 = (if m_mysql t then my_close A w else w);
         (ok, w1) = my_connect A (c_str host) (c_str user) (c_str passwd) (c_str db) port w0
     in if ok
        then (True, t\<lparr>m_mysql := True, m_host := host, m_user := user, m_passwd := passwd,
                      m_dbname := db\<rparr>, snd (my_query A ''set name utf8;'' w1))
        else (False, t\<lparr>m_mysql := False\<rparr>, w1))"

definition reconnect :: "'w mysql_api \<Rightarrow> 'w tool_state \<Rightarrow> bool \<times> 'w tool_state" where
  \<comment> \<open>\<^verbatim>\<open>connect(m_host, m_user, m_passwd, m_dbname)\<close>, with the default port\<close>
  "reconnect A s =
     tool_connect A (m_host (fst s)) (m_user (fst s)) (m_passwd (fst s)) (m_dbname (fst s)) 3306 s"

definition CR_SERVER_GONE_ERROR :: nat where "CR_SERVER_GONE_ERROR = 2006"

definition tool_result :: "'w mysql_api \<Rightarrow> 'w tool_state \<Rightarrow> (QueryResult option \<times> 'w tool_state) res" where
  "tool_result A = (\<lambda>(t, w).
     let (result, w') = my_store A w;
         rowcount = my_affected A w';
         cloumcount = my_field_count A w'
     in rbind (QueryResult_new result rowcount cloumcount) (\<lambda>q. Inr (Some q, t, w')))"

definition tool_Query ::
    "'w mysql_api \<Rightarrow> string \<Rightarrow> 'w tool_state \<Rightarrow> (QueryResult option \<times> 'w tool_state) res" where
  "tool_Query A sql s0 =
     (let (connected, s) = (if m_mysql (fst s0) then (False, s0) else reconnect A s0)
      in if connected then Inr (None, s)
         else if \<not> m_mysql (fst s) then Inl Null_Deref
         else
           let (t, w) = s; (ret, w1) = my_query A sql w
           in if ret = 0 then tool_result A (t, w1)
              else if ret = CR_SERVER_GONE_ERROR then
                (let (ok, t2, w2) = reconnect A (t, w1)
                 in if \<not> ok then Inr (None, t2, w2)
                    else let (ret2, w3) = my_query A sql w2
                         in if ret2 \<noteq> 0 then Inr (None, t2, w3) else tool_result A (t2, w3))
              else Inr (None, t, w1))"

text \<open>
  \<^verbatim>\<open>Execute\<close> sets the count of affected rows only after a retry; the \<^verbatim>\<open>nErrno\<close> it
  computes is a local variable that shadows the reference parameter, which it never sets.
\<close>

definition tool_Execute ::
    "'w mysql_api \<Rightarrow> string \<Rightarrow> 32 word \<Rightarrow> 'w tool_state \<Rightarrow> ((bool \<times> 32 word) \<times> 'w tool_state) res" where
  "tool_Execute A sql nAffectedCount s0 =
     (let (connected, s) = (if m_mysql (fst s0) then (False, s0) else reconnect A s0)
      in if connected then Inr ((False, nAffectedCount), s)
         else if \<not> m_mysql (fst s) then Inl Null_Deref
         else
           let (t, w) = s; (ret, w1) = my_query A (c_str sql) w
           in if ret = 0 then Inr ((True, nAffectedCount), t, w1)
              else if ret = CR_SERVER_GONE_ERROR then
                (let (ok, t2, w2) = reconnect A (t, w1)
                 in if \<not> ok then Inr ((False, nAffectedCount), t2, w2)
                    else let (ret2, w3) = my_query A (c_str sql) w2
                         in if ret2 \<noteq> 0 then Inr ((False, nAffectedCount), t2, w3)
                            else Inr ((True, my_affected A w3), t2, w3))
              else Inr ((False, nAffectedCount), t, w1))"

definition tool_Execute1 :: "'w mysql_api \<Rightarrow> string \<Rightarrow> 'w tool_state \<Rightarrow> (bool \<times> 'w tool_state) res" where
  \<comment> \<open>the overload that drops the count, which it leaves uninitialised\<close>
  "tool_Execute1 A sql s = rbind (tool_Execute A sql 0 s) (\<lambda>((ok, _), s'). Inr (ok, s'))"

section \<open>Tables\<close>

record sFieldInfo =
  f_sName :: string
  f_sType :: string
  f_sDesc :: string

record sTableInfo =
  t_sName :: string
  mapField :: "(string \<times> sFieldInfo) list"
  sKey :: string

definition fieldinfo :: "string \<Rightarrow> string \<Rightarrow> string \<Rightarrow> sFieldInfo" where
  "fieldinfo name tp desc = \<lparr>f_sName = name, f_sType = tp, f_sDesc = desc\<rparr>"

fun put_fields :: "(string \<times> string \<times> string) list \<Rightarrow> sTableInfo \<Rightarrow> sTableInfo" where
  \<comment> \<open>a run of \<^verbatim>\<open>info.mapField[name] = {name, type, desc}\<close>\<close>
  "put_fields [] info = info"
| "put_fields ((n, tp, d) # fs) info =
     put_fields fs (info\<lparr>mapField := smap_put n (fieldinfo n tp d) (mapField info)\<rparr>)"

definition clear_fields :: "sTableInfo \<Rightarrow> sTableInfo" where
  "clear_fields info = info\<lparr>mapField := []\<rparr>"

definition user_fields :: "(string \<times> string \<times> string) list" where
  "user_fields =
     [(''u_id'', ''varchar(64) NOT NULL'', ''varchar(64)''),
      (''u_userName'', ''varchar(255) NOT NULL'', ''varchar(255)''),
      (''u_password'', ''varchar(255) NOT NULL'', ''varchar(255)''),
      (''u_headImage'', ''varchar(255) NULL'', ''varchar(255)''),
      (''u_sex'', ''bit NOT NULL'', ''bit'')]"

definition video_fields :: "(string \<times> string \<times> string) list" where
  "video_fields =
     [(''v_id'', ''varchar(64) NOT NULL'', ''varchar(64)''),
      (''v_upName'', ''varchar(255) NOT NULL'', ''varchar(255)''),
      (''v_videoTitle'', ''varchar(255) NOT NULL'', ''varchar(255)''),
      (''v_filePath'', ''varchar(255) NOT NULL'', ''varchar(255)''),
      (''v_headImgPath'', ''varchar(255) NULL'', ''varchar(255)''),
      (''v_synopsis'', ''text NOT NULL'', ''text''),
      (''v_courses'', ''varchar(255) NOT NULL'', ''varchar(255)''),
      (''v_uID'', ''varchar(64) NOT NULL'', ''varchar(64)'')]"

definition audio_fields :: "(string \<times> string \<times> string) list" where
  "audio_fields =
     [(''a_id'', ''varchar(64) NOT NULL'', ''varchar(64)''),
      (''a_upName'', ''varchar(255) NOT NULL'', ''varchar(255)''),
      (''a_audioTitle'', ''varchar(255) NOT NULL'', ''varchar(255)''),
      (''a_filePath'', ''varchar(255) NOT NULL'', ''varchar(255)''),
      (''a_headImgPath'', ''varchar(255) NULL'', ''varchar(255)''),
      (''a_courses'', ''varchar(255) NOT NULL'', ''varchar(255)''),
      (''a_uID'', ''varchar(64) NOT NULL'', ''varchar(64)'')]"

definition text_fields :: "(string \<times> string \<times> string) list" where
  "text_fields =
     [(''t_id'', ''varchar(64) NOT NULL'', ''varchar(64)''),
      (''t_upName'', ''varchar(64) NOT NULL'', ''varchar(64)''),
      (''t_title'', ''varchar(255) NOT NULL'', ''varchar(255)''),
      (''t_courses'', ''varchar(255) NOT NULL'', ''varchar(255)''),
      (''t_uID'', ''varchar(64) NOT NULL'', ''varchar(64)'')]"

definition collect_fields :: "(string \<times> string \<times> string) list" where
  "collect_fields =
     [(''c_id'', ''varchar(64) NOT NULL'', ''varchar(64)''),
      (''c_uID'', ''varchar(64) NOT NULL'', ''varchar(64)''),
      (''c_assetsType'', ''varchar(8) NOT NULL'', ''varchar(8)''),
      (''c_assetsTitle'', ''varchar(255) NOT NULL'', ''varchar(255)'')]"

definition browse_fields :: "(string \<times> string \<times> string) list" where
  "browse_fields =
     [(''b_id'', ''varchar(64) NOT NULL'', ''varchar(64)''),
      (''b_assetsType'', ''varchar(8) NOT NULL'', ''varchar(8)''),
      (''b_browseTime'', ''datetime NOT NULL'', ''datetime''),
      (''b_browseTitle'', ''varchar(255) NOT NULL'', ''varchar(255)''),
      (''b_uID'', ''varchar(64) NOT NULL'', ''varchar(64)'')]"

definition register_table :: "sTableInfo \<Rightarrow> (string \<times> sTableInfo) list \<Rightarrow> (string \<times> sTableInfo) list" where
  "register_table info tables = smap_insert (t_sName info) info tables"

text \<open>
  The constructor fills one \<^verbatim>\<open>sTableInfo\<close> variable after the other. The columns of
  \<^verbatim>\<open>tab_textData\<close> are put, but the table is not inserted and the columns are not cleared.
\<close>

definition MySqlManager_tables :: "(string \<times> sTableInfo) list" where
  "MySqlManager_tables =
     (let i1 = (put_fields user_fields \<lparr>t_sName = ''tab_user'', mapField = [], sKey = []\<rparr>)
                 \<lparr>sKey := ''PRIMARY KEY (u_id)''\<rparr>;
          T1 = register_table i1 [];
          i2 = (put_fields video_fields ((clear_fields i1)\<lparr>t_sName := ''tab_videoData''\<rparr>))
                 \<lparr>sKey := ''PRIMARY KEY (v_id),CONSTRAINT `v_uID` FOREIGN KEY (`v_uID`) REFERENCES `tab_user` (`u_id`)''\<rparr>;
          T2 = register_table i2 T1;
          i3 = (put_fields audio_fields ((clear_fields i2)\<lparr>t_sName := ''tab_audioData''\<rparr>))
                 \<lparr>sKey := ''PRIMARY KEY (a_id),CONSTRAINT `a_uID` FOREIGN KEY (`a_uID`) REFERENCES `tab_user` (`u_id`)''\<rparr>;
          T3 = register_table i3 T2;
          i4 = (put_fields text_fields ((clear_fields i3)\<lparr>t_sName := ''tab_textData''\<rparr>))
                 \<lparr>sKey := ''PRIMARY KEY (t_id),CONSTRAINT `t_uID` FOREIGN KEY (`t_uID`) REFERENCES `tab_user` (`u_id`)''\<rparr>;
          i5 = (put_fields collect_fields (i4\<lparr>t_sName := ''tab_assetsCollect''\<rparr>))
                 \<lparr>sKey := ''PRIMARY KEY (`c_id`),CONSTRAINT `c_uID` FOREIGN KEY (`c_uID`) REFERENCES `tab_user` (`u_id`)''\<rparr>;
          T5 = register_table i5 T3;
          i6 = (put_fields browse_fields ((clear_fields i5)\<lparr>t_sName := ''tab_browseRecords''\<rparr>))
                 \<lparr>sKey := ''PRIMARY KEY (b_id),CONSTRAINT `b_uID` FOREIGN KEY (`b_uID`) REFERENCES `tab_user` (`u_id`)''\<rparr>
      in register_table i6 T5)"

section \<open>The manager\<close>

record 'w MySqlManager =
  m_mapTable :: "(string \<times> sTableInfo) list"
  mgr_mysql :: "MySQLTool option"
  mgr_world :: 'w

definition MySqlManager_new :: "'w \<Rightarrow> 'w MySqlManager" where
  "MySqlManager_new w = \<lparr>m_mapTable = MySqlManager_tables, mgr_mysql = None, mgr_world = w\<rparr>"

definition with_tool ::
    "'a \<Rightarrow> ('w tool_state \<Rightarrow> ('a \<times> 'w tool_state) res) \<Rightarrow> ('w MySqlManager, 'a) op" where
  \<comment> \<open>a call through the \<^verbatim>\<open>shared_ptr\<close>, after the test that it is not null\<close>
  "with_tool none f m =
     (case mgr_mysql m of
        None \<Rightarrow> Inr (none, m)
      | Some t \<Rightarrow> rbind (f (t, mgr_world m)) (\<lambda>(a, t', w').
          Inr (a, m\<lparr>mgr_mysql := Some t', mgr_world := w'\<rparr>)))"

definition mgr_Query :: "'w mysql_api \<Rightarrow> string \<Rightarrow> ('w MySqlManager, QueryResult option) op" where
  "mgr_Query A sql = with_tool None (tool_Query A sql)"

definition Excute :: "'w mysql_api \<Rightarrow> string \<Rightarrow> ('w MySqlManager, bool) op" where
  "Excute A sql = with_tool False (tool_Execute1 A sql)"

function find_database :: "string \<Rightarrow> QueryResult \<Rightarrow> bool res" where
  "find_database dbname q =
     (if \<not> Fetch q then Inr False
      else rbind (Value_at 0 q) (\<lambda>f.
        if GetString f = dbname then Inr True
        else rbind (NextRow q) (\<lambda>(m, q').
          if m \<and> rows_left q' < rows_left q then find_database dbname q' else Inr False)))"
  by pat_completeness auto
termination by (relation "measure (rows_left \<circ> snd)") auto

declare find_database.simps [simp del]

definition CheckDatabase :: "'w mysql_api \<Rightarrow> ('w MySqlManager, bool) op" where
  "CheckDatabase A m =
     (case mgr_mysql m of
        None \<Rightarrow> Inr (False, m)
      | Some t \<Rightarrow> sbind (mgr_Query A ''show databases;'') (\<lambda>result.
          case result of
            None \<Rightarrow> sret False
          | Some q \<Rightarrow> sbind (sget (\<lambda>m. case mgr_mysql m of None \<Rightarrow> [] | Some t \<Rightarrow> m_dbname t))
              (\<lambda>dbname. slift (find_database dbname q))) m)"

text \<open>
  The loop of \<^verbatim>\<open>CheckTable\<close> over the rows of \<^verbatim>\<open>desc\<close>. A column that the program does not
  know sends the loop back to its head with the same row, for ever.
\<close>

function check_columns ::
    "(string \<times> sFieldInfo) list \<Rightarrow> (string \<times> sFieldInfo) list \<Rightarrow> QueryResult
     \<Rightarrow> ((string \<times> sFieldInfo) list \<times> (string \<times> sFieldInfo) list) res" where
  "check_columns known rest q =
     (if \<not> Fetch q then Inr (rest, [])
      else rbind (Value_at 0 q) (\<lambda>f0. rbind (Value_at 1 q) (\<lambda>f1.
        let name = GetString f0; tp = GetString f1
        in case map_of known name of
             None \<Rightarrow> Inl Diverges
           | Some info \<Rightarrow>
               let rest' = smap_erase name rest
               in if \<not> str_contains tp (f_sDesc info) then Inr (rest', smap_insert name info [])
                  else rbind (NextRow q) (\<lambda>(m, q').
                    if m \<and> rows_left q' < rows_left q then check_columns known rest' q'
                    else Inr (rest', [])))))"
  by pat_completeness auto
termination by (relation "measure (rows_left \<circ> snd \<circ> snd)") auto

declare check_columns.simps [simp del]

fun execute_all :: "'w mysql_api \<Rightarrow> string list \<Rightarrow> ('w MySqlManager, bool) op" where
  \<comment> \<open>a loop of \<^verbatim>\<open>Execute\<close> calls that stops at the first failure\<close>
  "execute_all A [] = sret True"
| "execute_all A (sql # sqls) =
     sbind (Excute A sql) (\<lambda>ok. if ok then execute_all A sqls else sret False)"

definition add_column_sql :: "sTableInfo \<Rightarrow> string \<times> sFieldInfo \<Rightarrow> string" where
  "add_column_sql info = (\<lambda>(_, f).
     '' alter table '' @ t_sName info @ '' add colum '' @ f_sName f @ '' '' @ f_sType f @ '';'')"

definition modify_column_sql :: "sTableInfo \<Rightarrow> string \<times> sFieldInfo \<Rightarrow> string" where
  "modify_column_sql info = (\<lambda>(_, f).
     '' alter table '' @ t_sName info @ '' modify column '' @ f_sName f @ '' '' @ f_sType f @ '';'')"

fun join_fields :: "(string \<times> sFieldInfo) list \<Rightarrow> string" where
  "join_fields [] = []"
| "join_fields [(_, f)] = f_sName f @ '' '' @ f_sType f"
| "join_fields ((_, f) # fs) = f_sName f @ '' '' @ f_sType f @ '','' @ join_fields fs"

definition create_table_sql :: "sTableInfo \<Rightarrow> string" where
  "create_table_sql info =
     '' create table if not exists `'' @ t_sName info @ ''` ('' @ join_fields (mapField info)
     @ (if length (sKey info) > 0 then '','' @ sKey info else [])
     @ '') default charset=utf8,ENGINE=InnoDB;''"

definition CreateTable :: "'w mysql_api \<Rightarrow> sTableInfo \<Rightarrow> ('w MySqlManager, bool) op" where
  "CreateTable A info m =
     (if mgr_mysql m = None then Inr (False, m)
      else if length (mapField info) = 0 then Inr (False, m)
      else Excute A (create_table_sql info) m)"

definition desc_sql :: "sTableInfo \<Rightarrow> string" where
  "desc_sql info = '' desc '' @ t_sName info @ '';''"

definition CheckTable :: "'w mysql_api \<Rightarrow> sTableInfo \<Rightarrow> ('w MySqlManager, bool) op" where
  "CheckTable A info m =
     (if mgr_mysql m = None then Inr (False, m)
      else sbind (mgr_Query A (desc_sql info)) (\<lambda>result.
        case result of
          None \<Rightarrow> CreateTable A info
        | Some q \<Rightarrow>
            sbind (slift (check_columns (mapField info) (mapField info) q)) (\<lambda>(rest, mapChange).
            sbind (execute_all A (map (add_column_sql info) rest)) (\<lambda>ok.
              if \<not> ok then sret False
              else execute_all A (map (modify_column_sql info) mapChange)))) m)"

definition CreateDatabase :: "'w mysql_api \<Rightarrow> ('w MySqlManager, bool) op" where
  "CreateDatabase A m =
     (case mgr_mysql m of
        None \<Rightarrow> Inr (False, m)
      | Some t \<Rightarrow>
          sbind (with_tool (False, 0) (tool_Execute A ('' create database '' @ m_dbname t @ '';'') 0))
            (\<lambda>(ok, naffect). if \<not> ok then sret False else sret (naffect = 1)) m)"

definition UpdateTable :: "'w mysql_api \<Rightarrow> sTableInfo \<Rightarrow> ('w MySqlManager, bool) op" where
  "UpdateTable A info =
     sbind (CheckTable A info) (\<lambda>ok. if \<not> ok then CreateTable A info else sret True)"

definition ensure_table :: "'w mysql_api \<Rightarrow> sTableInfo \<Rightarrow> ('w MySqlManager, bool) op" where
  \<comment> \<open>the body of the loop of \<^verbatim>\<open>Init\<close>: \<open>False\<close> is the early return\<close>
  "ensure_table A info =
     sbind (CheckTable A info) (\<lambda>ok. if ok then sret True else CreateTable A info)"

fun ensure_tables :: "'w mysql_api \<Rightarrow> (string \<times> sTableInfo) list \<Rightarrow> ('w MySqlManager, bool) op" where
  "ensure_tables A [] = sret True"
| "ensure_tables A ((_, info) # ts) =
     sbind (ensure_table A info) (\<lambda>ok. if ok then ensure_tables A ts else sret False)"

definition ensure_database :: "'w mysql_api \<Rightarrow> ('w MySqlManager, bool) op" where
  "ensure_database A = sbind (CheckDatabase A) (\<lambda>ok. if ok then sret True else CreateDatabase A)"

definition mgr_Init ::
    "'w mysql_api \<Rightarrow> string \<Rightarrow> string \<Rightarrow> string \<Rightarrow> string \<Rightarrow> nat \<Rightarrow> ('w MySqlManager, bool) op" where
  "mgr_Init A host user passwd dbname port m =
     (let (ok, t, w) = tool_connect A host user passwd dbname port (MySQLTool_new, mgr_world m);
          m1 = m\<lparr>mgr_mysql := Some t, mgr_world := w\<rparr>
      in if \<not> ok then Inr (False, m1)
         else sbind (ensure_database A) (\<lambda>ok.
           if \<not> ok then sret False
           else case map_of (m_mapTable m) ''tab_user'' of
             None \<Rightarrow> sfail Null_Deref
           | Some info \<Rightarrow> sbind (ensure_table A info) (\<lambda>ok.
               if \<not> ok then sret False else ensure_tables A (m_mapTable m))) m1)"

section \<open>Statements\<close>

definition log_api :: "(string \<Rightarrow> string list \<Rightarrow> nat) \<Rightarrow> MYSQL_RES \<Rightarrow> string list mysql_api" where
  \<comment> \<open>a server that logs the statements, for concrete instances: \<open>errno\<close> decides their fate
    and every result is \<open>r\<close>\<close>
  "log_api errno r =
     \<lparr>my_close = (\<lambda>w. w), my_connect = (\<lambda>_ _ _ _ _ w. (True, ''connect'' # w)),
      my_query = (\<lambda>sql w. (errno sql w, sql # w)), my_store = (\<lambda>w. (Some r, w)),
      my_affected = (\<lambda>_. 0), my_field_count = (\<lambda>_. length (res_fields r))\<rparr>"

definition demo_tool :: MySQLTool where
  "demo_tool = \<lparr>m_mysql = True, m_host = ''h'', m_user = ''u'', m_passwd = ''p'', m_dbname = ''d'', m_port = 3306\<rparr>"

definition demo_desc :: MYSQL_RES where
  "demo_desc = \<lparr>res_fields = [(''Field'', FIELD_TYPE_STRING), (''Type'', FIELD_TYPE_STRING)],
     res_rows = [[Some ''u_id'', Some ''varchar(64)''], [Some ''u_sex'', Some ''bit'']]\<rparr>"

definition demo_mgr :: "string list MySqlManager" where
  "demo_mgr = \<lparr>m_mapTable = [], mgr_mysql = Some demo_tool, mgr_world = []\<rparr>"

definition demo_table :: sTableInfo where
  "demo_table = \<lparr>t_sName = ''t'', mapField = [(''u_id'', fieldinfo ''u_id'' ''varchar(64) NOT NULL'' ''varchar(64)''),
     (''u_name'', fieldinfo ''u_name'' ''text'' ''text''), (''u_sex'', fieldinfo ''u_sex'' ''bit NOT NULL'' ''bit'')],
     sKey = []\<rparr>"

lemmas demo_defs = log_api_def demo_tool_def demo_desc_def demo_mgr_def demo_table_def fieldinfo_def

text \<open>
  A statement is reported as executed only if the server accepted it, and then the
  state is the one that acceptance left.
\<close>

theorem Excute_accepted:
  assumes "Excute A sql m = Inr (True, m')"
  shows "\<exists>w. my_query A (c_str sql) w = (0, mgr_world m')"
  using assms
  by (auto simp: Excute_def with_tool_def tool_Execute1_def tool_Execute_def rbind_eq_Inr_iff Let_def
      split: option.splits prod.splits if_splits)

theorem Excute_accepted_witness:
  "Excute (log_api (\<lambda>_ _. 0) demo_desc) ''x'' demo_mgr = Inr (True, demo_mgr\<lparr>mgr_world := [''x'']\<rparr>)
   \<and> (\<exists>w. my_query (log_api (\<lambda>_ _. 0) demo_desc) (c_str ''x'') w = (0, [''x'']))"
proof -
  have "Excute (log_api (\<lambda>_ _. 0) demo_desc) ''x'' demo_mgr = Inr (True, demo_mgr\<lparr>mgr_world := [''x'']\<rparr>)"
    by (simp add: Excute_def with_tool_def tool_Execute1_def tool_Execute_def demo_defs c_str_def)
  from this Excute_accepted [OF this] show ?thesis by simp
qed

lemma tool_Query_live:
  assumes "m_mysql t" and "my_query A sql w = (0, w1)"
  shows "tool_Query A sql (t, w) = tool_result A (t, w1)"
  using assms by (simp add: tool_Query_def)

lemma tool_result_at_row:
  assumes "my_store A w = (Some r, w')" and "my_field_count A w' = length (res_fields r)"
    and "well_formed r" and "res_rows r = row # rest"
  shows "\<exists>q. tool_result A (t, w) = Inr (Some q, t, w') \<and> at_row q (map fst (res_fields r)) row rest"
  using QueryResult_new_at_row [OF assms(3,4), of "my_affected A w'"] assms(1,2)
  by (auto simp: tool_result_def)

text \<open>
  A query that meets a lost connection is answered all the same: the connection is
  made again with the stored credentials and the query is sent once more, and the cursor
  it gives stands on the first row of the answer.
\<close>

theorem Query_reconnects:
  assumes "m_mysql t" and "my_query A sql w = (CR_SERVER_GONE_ERROR, w1)"
    and "my_connect A (c_str (m_host t)) (c_str (m_user t)) (c_str (m_passwd t)) (c_str (m_dbname t))
      3306 (my_close A w1) = (True, w2)"
    and "my_query A sql (snd (my_query A ''set name utf8;'' w2)) = (0, w3)"
    and "my_store A w3 = (Some r, w4)" and "my_field_count A w4 = length (res_fields r)"
    and "well_formed r" and "res_rows r = row # rest"
  shows "\<exists>q. tool_Query A sql (t, w) = Inr (Some q, t, w4)
    \<and> at_row q (map fst (res_fields r)) row rest"
proof -
  have "reconnect A (t, w1) = (True, t, snd (my_query A ''set name utf8;'' w2))"
    using assms(1,3) by (simp add: reconnect_def tool_connect_def)
  then have "tool_Query A sql (t, w) = tool_result A (t, w3)"
    using assms(1,2,4) by (simp add: tool_Query_def CR_SERVER_GONE_ERROR_def)
  then show ?thesis using tool_result_at_row [OF assms(5-8)] by simp
qed

theorem Query_reconnects_witness:
  "\<exists>q. tool_Query (log_api (\<lambda>_ w. if w = [] then 2006 else 0) demo_desc) ''x'' (demo_tool, [])
      = Inr (Some q, demo_tool, [''x'', ''set name utf8;'', ''connect'', ''x''])
    \<and> at_row q [''Field'', ''Type''] [Some ''u_id'', Some ''varchar(64)''] [[Some ''u_sex'', Some ''bit'']]"
  using Query_reconnects [of demo_tool "log_api (\<lambda>_ w. if w = [] then 2006 else 0) demo_desc" "''x''" "[]"
      "[''x'']" "[''connect'', ''x'']" "[''x'', ''set name utf8;'', ''connect'', ''x'']" demo_desc
      "[''x'', ''set name utf8;'', ''connect'', ''x'']"]
  by (simp add: demo_defs CR_SERVER_GONE_ERROR_def well_formed_def)

text \<open>
  With no connection, a query that can be made again is not sent: a successful
  connection gives the null result, and a failed one goes on with the null handle.
\<close>

theorem Query_without_connection:
  assumes "\<not> m_mysql t"
  shows "tool_Query A sql (t, w) =
    (if fst (reconnect A (t, w)) then Inr (None, snd (reconnect A (t, w))) else Inl Null_Deref)"
proof -
  obtain ok t' w' where "reconnect A (t, w) = (ok, t', w')" by (cases "reconnect A (t, w)") auto
  moreover from this have "\<not> ok \<Longrightarrow> \<not> m_mysql t'"
    by (auto simp: reconnect_def tool_connect_def Let_def split: prod.splits if_splits)
  ultimately show ?thesis using assms by (auto simp: tool_Query_def)
qed

theorem Query_without_connection_witness:
  "tool_Query (log_api (\<lambda>_ _. 0) demo_desc) ''x'' (demo_tool\<lparr>m_mysql := False\<rparr>, [])
    = Inr (None, demo_tool, [''set name utf8;'', ''connect''])"
  using Query_without_connection [of "demo_tool\<lparr>m_mysql := False\<rparr>" "log_api (\<lambda>_ _. 0) demo_desc" "''x''" "[]"]
  by (simp add: reconnect_def tool_connect_def demo_defs)

text \<open>
  Creating the database: when the server accepts the statement at once, the count of
  affected rows stays 0 and the operation reports failure.
\<close>

theorem CreateDatabase_reports_failure:
  assumes "mgr_mysql m = Some t" and "m_mysql t"
    and "my_query A (c_str ('' create database '' @ m_dbname t @ '';'')) (mgr_world m) = (0, w1)"
  shows "CreateDatabase A m = Inr (False, m\<lparr>mgr_world := w1\<rparr>)"
  using assms
  by (simp add: CreateDatabase_def sbind_def with_tool_def tool_Execute_def)

theorem CreateDatabase_reports_failure_witness:
  "CreateDatabase (log_api (\<lambda>_ _. 0) demo_desc) demo_mgr
    = Inr (False, demo_mgr\<lparr>mgr_world := ['' create database d;'']\<rparr>)"
  using CreateDatabase_reports_failure [of demo_mgr demo_tool "log_api (\<lambda>_ _. 0) demo_desc"
      "['' create database d;'']"]
  by (simp add: demo_defs c_str_def)

text \<open>
  A server that answers a query on a live connection with the result set \<open>r\<close>, whose rows
  all have a cell for each column.
\<close>

definition answers ::
    "'w mysql_api \<Rightarrow> string \<Rightarrow> 'w MySqlManager \<Rightarrow> MYSQL_RES \<Rightarrow> 'w \<Rightarrow> bool" where
  "answers A sql m r w' \<longleftrightarrow>
     (\<exists>t w1. mgr_mysql m = Some t \<and> m_mysql t \<and> my_query A sql (mgr_world m) = (0, w1)
        \<and> my_store A w1 = (Some r, w') \<and> my_field_count A w' = length (res_fields r))
     \<and> well_formed r"

lemma mgr_Query_at_row:
  assumes "answers A sql m r w'" and "res_rows r = row # rest"
  shows "\<exists>q. mgr_Query A sql m = Inr (Some q, m\<lparr>mgr_world := w'\<rparr>)
    \<and> at_row q (map fst (res_fields r)) row rest"
proof -
  obtain t w1 where m: "mgr_mysql m = Some t" "m_mysql t" "my_query A sql (mgr_world m) = (0, w1)"
      "my_store A w1 = (Some r, w')" "my_field_count A w' = length (res_fields r)"
    and r: "well_formed r"
    using assms(1) by (auto simp: answers_def)
  from tool_result_at_row [OF m(4,5) r assms(2), of t] tool_Query_live [OF m(2,3)] m(1)
  show ?thesis by (auto simp: mgr_Query_def with_tool_def)
qed

lemma mgr_Query_empty:
  assumes "answers A sql m r w'" and "res_rows r = []"
  shows "\<exists>q. mgr_Query A sql m = Inr (Some q, m\<lparr>mgr_world := w'\<rparr>)
    \<and> query_size q = 0 \<and> Fetch q = (res_fields r \<noteq> []) \<and> (\<forall>name. Value_named name q = Inl Out_Of_Range)"
proof -
  obtain t w1 where m: "mgr_mysql m = Some t" "m_mysql t" "my_query A sql (mgr_world m) = (0, w1)"
      "my_store A w1 = (Some r, w')" "my_field_count A w' = length (res_fields r)"
    using assms(1) by (auto simp: answers_def)
  then show ?thesis
    using tool_Query_live [OF m(2,3)] assms(2)
    by (simp add: mgr_Query_def with_tool_def tool_result_def QueryResult_new_def mysql_fetch_row_def
        EndQuery_def query_size_def Fetch_def Value_named_def GetFieldIndexByName_def)
qed

section \<open>Table checks\<close>

lemma at_row_cells:
  assumes "at_row q cols row rest" and "i < length cols"
  shows "\<exists>f. Value_at i q = Inr f \<and> GetString f = cell_text (row ! i)"
proof -
  have len: "length (m_CurrentRow q) = length cols" "length row = length cols"
    using assms(1) by (metis at_row_def length_map) (use assms(1) in \<open>simp add: at_row_def\<close>)
  have "map m_value (m_CurrentRow q) ! i = map cell_text row ! i"
    using assms(1) by (simp add: at_row_def)
  then show ?thesis using len assms(2) by (simp add: Value_at_def GetString_def)
qed

definition known_column :: "(string \<times> sFieldInfo) list \<Rightarrow> sql_row \<Rightarrow> bool" where
  \<comment> \<open>a row of \<^verbatim>\<open>desc\<close> that is a column of the table with the expected type\<close>
  "known_column known row \<longleftrightarrow>
     (case map_of known (cell_text (row ! 0)) of
        None \<Rightarrow> False
      | Some info \<Rightarrow> str_contains (cell_text (row ! 1)) (f_sDesc info))"

definition missing_columns :: "sql_row list \<Rightarrow> (string \<times> sFieldInfo) list \<Rightarrow> (string \<times> sFieldInfo) list" where
  "missing_columns rows fs = filter (\<lambda>(n, _). n \<notin> (\<lambda>row. cell_text (row ! 0)) ` set rows) fs"

lemma check_columns_step:
  assumes "at_row q cols row rest" and "2 \<le> length cols" and "known_column known row"
  shows "check_columns known fs q =
    rbind (NextRow q) (\<lambda>(m, q').
      if m \<and> rows_left q' < rows_left q
      then check_columns known (smap_erase (cell_text (row ! 0)) fs) q'
      else Inr (smap_erase (cell_text (row ! 0)) fs, []))"
proof -
  obtain f0 f1 where "Value_at 0 q = Inr f0" "GetString f0 = cell_text (row ! 0)"
    "Value_at 1 q = Inr f1" "GetString f1 = cell_text (row ! 1)"
    using at_row_cells [OF assms(1), of 0] at_row_cells [OF assms(1), of 1] assms(2)
    by (metis Suc_1 Suc_le_lessD less_trans zero_less_one)
  moreover have "Fetch q" using assms(1,2) by (auto simp: Fetch_def at_row_def)
  ultimately show ?thesis using assms(3)
    by (subst check_columns.simps) (auto simp: known_column_def Let_def split: option.splits)
qed

lemma check_columns_rows:
  assumes "at_row q cols row rest" and "2 \<le> length cols" and "smap_ok fs"
    and "\<forall>row\<in>set rest. length row = length cols"
    and "\<forall>row\<in>set (row # rest). known_column known row"
  shows "check_columns known fs q = Inr (missing_columns (row # rest) fs, [])"
  using assms
proof (induction rest arbitrary: q row fs)
  case Nil
  then show ?case
    using check_columns_step [OF Nil.prems(1,2), of known] NextRow_last [OF Nil.prems(1)]
    by (simp add: missing_columns_def smap_erase_filter)
next
  case (Cons row' rest)
  obtain q' where q': "NextRow q = Inr (True, q')" "at_row q' cols row' rest"
    using NextRow_at_row [OF Cons.prems(1)] Cons.prems(4) by auto
  have "check_columns known fs q = check_columns known (smap_erase (cell_text (row ! 0)) fs) q'"
    using check_columns_step [OF Cons.prems(1,2), of known] q'(1) NextRow_rows_left [OF q'(1)]
      Cons.prems(5) by simp
  also have "\<dots> = Inr (missing_columns (row' # rest) (smap_erase (cell_text (row ! 0)) fs), [])"
    using Cons.IH [OF q'(2) Cons.prems(2)] Cons.prems(3-5) by simp
  also have "missing_columns (row' # rest) (smap_erase (cell_text (row ! 0)) fs)
      = missing_columns (row # row' # rest) fs"
    using Cons.prems(3)
    by (auto simp: missing_columns_def smap_erase_filter intro!: filter_cong)
  finally show ?case .
qed

lemma check_columns_unknown:
  assumes "at_row q cols row rest" and "2 \<le> length cols"
    and "map_of known (cell_text (row ! 0)) = None"
  shows "check_columns known fs q = Inl Diverges"
proof -
  obtain f0 f1 where "Value_at 0 q = Inr f0" "GetString f0 = cell_text (row ! 0)" "Value_at 1 q = Inr f1"
    using at_row_cells [OF assms(1), of 0] at_row_cells [OF assms(1), of 1] assms(2)
    by (metis Suc_1 Suc_le_lessD less_trans zero_less_one)
  moreover have "Fetch q" using assms(1,2) by (auto simp: Fetch_def at_row_def)
  ultimately show ?thesis using assms(3) by (subst check_columns.simps) simp
qed

lemma check_columns_stuck:
  assumes "at_row q cols row rest" and "2 \<le> length cols"
    and "\<forall>row\<in>set rest. length row = length cols"
    and "row # rest = good @ bad # more_rows"
    and "\<forall>row\<in>set good. known_column known row" and "map_of known (cell_text (bad ! 0)) = None"
  shows "check_columns known fs q = Inl Diverges"
  using assms
proof (induction good arbitrary: q row rest fs)
  case Nil
  then have "row = bad" by simp
  then show ?case using check_columns_unknown [OF Nil.prems(1,2)] Nil.prems(6) by blast
next
  case (Cons g good)
  then obtain row' rest' where rest: "rest = row' # rest'" "row' # rest' = good @ bad # more_rows"
    by (cases rest) auto
  obtain q' where q': "NextRow q = Inr (True, q')" "at_row q' cols row' rest'"
    using NextRow_at_row [of q cols row row' rest'] Cons.prems(1,3) rest(1) by auto
  have "check_columns known fs q = check_columns known (smap_erase (cell_text (row ! 0)) fs) q'"
    using check_columns_step [OF Cons.prems(1,2), of known] q'(1) NextRow_rows_left [OF q'(1)]
      Cons.prems(4,5) by simp
  also have "\<dots> = Inl Diverges"
    by (rule Cons.IH [OF q'(2) Cons.prems(2) _ rest(2) _ Cons.prems(6)])
      (use Cons.prems(3,5) rest(1) in auto)
  finally show ?case .
qed

text \<open>
  What the server answers to \<^verbatim>\<open>desc\<close>: a result set of at least two columns, the name and
  the type, and at least one row, as the MySQL manual describes it.
\<close>

definition describes ::
    "'w mysql_api \<Rightarrow> sTableInfo \<Rightarrow> 'w MySqlManager \<Rightarrow> MYSQL_RES \<Rightarrow> 'w \<Rightarrow> bool" where
  "describes A info m r w' \<longleftrightarrow>
     answers A (desc_sql info) m r w' \<and> 2 \<le> length (res_fields r) \<and> res_rows r \<noteq> []"

lemma CheckTable_after_desc:
  assumes "describes A info m r w'"
  obtains q row rest where "res_rows r = row # rest" "at_row q (map fst (res_fields r)) row rest"
    and "mgr_Query A (desc_sql info) m = Inr (Some q, m\<lparr>mgr_world := w'\<rparr>)"
    and "mgr_mysql m \<noteq> None" and "\<forall>row\<in>set rest. length row = length (map fst (res_fields r))"
proof -
  have ans: "answers A (desc_sql info) m r w'" and "res_rows r \<noteq> []"
    using assms by (auto simp: describes_def)
  then obtain row rest where rows: "res_rows r = row # rest" by (cases "res_rows r") auto
  from mgr_Query_at_row [OF ans rows] ans rows that show ?thesis
    by (auto simp: answers_def well_formed_def)
qed



text \<open>
  Checking a table in which an unknown column follows columns that match never
  returns.
\<close>

theorem CheckTable_diverges:
  assumes "describes A info m r w'" and "res_rows r = good @ bad # more_rows"
    and "\<forall>row\<in>set good. known_column (mapField info) row"
    and "map_of (mapField info) (cell_text (bad ! 0)) = None"
  shows "CheckTable A info m = Inl Diverges"
proof -
  obtain q row rest where q: "res_rows r = row # rest" "at_row q (map fst (res_fields r)) row rest"
      "mgr_Query A (desc_sql info) m = Inr (Some q, m\<lparr>mgr_world := w'\<rparr>)"
      "mgr_mysql m \<noteq> None"
      "\<forall>row\<in>set rest. length row = length (map fst (res_fields r))"
    using CheckTable_after_desc [OF assms(1)] by metis
  have "2 \<le> length (map fst (res_fields r))" using assms(1) by (simp add: describes_def)
  from check_columns_stuck [OF q(2) this q(5) _ assms(3,4)] q(1) assms(2)
  have "check_columns (mapField info) (mapField info) q = Inl Diverges" by metis
  then show ?thesis using q(4) by (auto simp: CheckTable_def sbind_def q(3) cong: if_cong)
qed

theorem CheckTable_diverges_witness:
  "CheckTable (log_api (\<lambda>_ _. 0) demo_desc) (demo_table\<lparr>mapField := take 2 (mapField demo_table)\<rparr>) demo_mgr
    = Inl Diverges"
proof -
  let ?info = "demo_table\<lparr>mapField := take 2 (mapField demo_table)\<rparr>"
  have "describes (log_api (\<lambda>_ _. 0) demo_desc) ?info demo_mgr demo_desc ['' desc t;'']"
    by (simp add: describes_def answers_def demo_defs desc_sql_def well_formed_def)
  moreover have "res_rows demo_desc = [[Some ''u_id'', Some ''varchar(64)'']] @ [Some ''u_sex'', Some ''bit''] # []"
    by (simp add: demo_desc_def)
  moreover have "\<forall>row\<in>set [[Some ''u_id'', Some ''varchar(64)'']]. known_column (mapField ?info) row" by code_simp
  moreover have "map_of (mapField ?info) (cell_text ([Some ''u_sex'', Some ''bit''] ! 0)) = None" by code_simp
  ultimately show ?thesis by (rule CheckTable_diverges)
qed

text \<open>
  The tables the program knows: \<^verbatim>\<open>tab_textData\<close>, which the user manager reads and
  writes, is not among them, and its columns are expected in \<^verbatim>\<open>tab_assetsCollect\<close>.
\<close>

theorem MySqlManager_tables_known:
  "map fst MySqlManager_tables =
     [''tab_assetsCollect'', ''tab_audioData'', ''tab_browseRecords'', ''tab_user'', ''tab_videoData'']
   \<and> map_option (map fst \<circ> mapField) (map_of MySqlManager_tables ''tab_assetsCollect'') =
       Some [''c_assetsTitle'', ''c_assetsType'', ''c_id'', ''c_uID'',
             ''t_courses'', ''t_id'', ''t_title'', ''t_uID'', ''t_upName'']"
  by code_simp

end
