(* ===== verification/User_Manager.thy ===== *)
theory User_Manager
  imports MySql_Manager
begin

text \<open>
  \<^verbatim>\<open>UserManager\<close> (UserManager.h, UserManager.cpp): the caches of users, videos, audios,
  texts, browse records and collections that the server keeps beside the database. Every
  operation that writes runs an SQL statement through \<^verbatim>\<open>Singleton<MySqlManager>\<close> and changes
  the cache only when it succeeded. The singleton is the field \<open>um_db\<close> of the state.

  The mutex guards single calls that do not call each other, so operations are atomic here.
\<close>

section \<open>Data\<close>

record User =
  userid :: "32 word"
  u_ID :: string
  username :: string
  password :: string
  custimface :: string
  sex :: bool
  status :: "32 word" \<comment> \<open>the constructor leaves it uninitialised; nothing reads it\<close>

definition User_new :: User where
  "User_new = \<lparr>userid = 0, u_ID = [], username = [], password = [], custimface = [], sex = True,
               status = 0\<rparr>"

record wordInfo =
  uID :: string
  t_id :: string
  title :: string
  upName :: string
  coursesStr :: string
  fileData :: string

record audioInfo =
  a_id :: string
  a_upName :: string
  a_title :: string
  a_filePath :: string
  a_headImgPath :: string
  a_courses :: string
  a_uID :: string

record videoInfo =
  v_id :: string
  v_upName :: string
  v_title :: string
  v_filePath :: string
  v_headImgPath :: string
  v_courses :: string
  v_synopsis :: string
  v_uID :: string

record browseInfo =
  b_id :: string
  b_uID :: string
  b_assetsType :: string
  b_browseTitle :: string

record collectInfo =
  c_id :: string
  c_uID :: string
  c_assetsType :: string
  c_assetsTitle :: string

record 'w UserManager =
  m_cachedUsers :: "User list"
  m_cacheVideoInfo :: "videoInfo list"
  m_cacheAudioInfo :: "audioInfo list"
  m_cacheWordInfo :: "wordInfo list"
  m_cacheBrowseInfo :: "browseInfo list"
  m_cacheCollectInfo :: "collectInfo list"
  m_mapUsers :: "(32 word \<times> User) list"
  m_baseUserID :: "32 word"
  um_db :: "'w MySqlManager"

definition UserManager_new :: "'w MySqlManager \<Rightarrow> 'w UserManager" where
  "UserManager_new d =
     \<lparr>m_cachedUsers = [], m_cacheVideoInfo = [], m_cacheAudioInfo = [], m_cacheWordInfo = [],
      m_cacheBrowseInfo = [], m_cacheCollectInfo = [], m_mapUsers = [], m_baseUserID = 0, um_db = d\<rparr>"

section \<open>The database behind the caches\<close>

definition run_db :: "('w MySqlManager, 'a) op \<Rightarrow> ('w UserManager, 'a) op" where
  "run_db f u = rbind (f (um_db u)) (\<lambda>(a, d). Inr (a, u\<lparr>um_db := d\<rparr>))"

definition insert_cached ::
    "'w mysql_api \<Rightarrow> string \<Rightarrow> ('w UserManager \<Rightarrow> 'w UserManager) \<Rightarrow> ('w UserManager, bool) op" where
  \<comment> \<open>the shape of every write: the statement, then the cache if it succeeded\<close>
  "insert_cached A sql upd =
     sbind (run_db (Excute A sql)) (\<lambda>result.
       if result = False then sret False else sbind (smodify upd) (\<lambda>_. sret True))"

section \<open>Users\<close>

definition bool_digit :: "bool \<Rightarrow> string" where
  \<comment> \<open>how a stream prints a bool\<close>
  "bool_digit b = (if b then ''1'' else ''0'')"

definition quote :: string where "quote = [CHR 0x27]"

definition add_user_sql :: "User \<Rightarrow> string" where
  "add_user_sql user =
     ''INSERT INTO tab_user (`u_id`,`u_userName`,`u_password`,`u_headImage`,`u_sex`)''
     @ '' VALUES('' @ quote @ u_ID user @ quote @ '','' @ quote @ username user @ quote @ '',''
     @ quote @ password user @ quote @ '','' @ quote @ custimface user @ quote @ '',''
     @ bool_digit (sex user) @ '');''"

definition AddUser :: "'w mysql_api \<Rightarrow> User \<Rightarrow> ('w UserManager, bool \<times> User) op" where
  \<comment> \<open>returns the reference parameter as the call leaves it\<close>
  "AddUser A user =
     sbind (smodify (\<lambda>u. u\<lparr>m_baseUserID := m_baseUserID u + 1\<rparr>)) (\<lambda>_.
     sbind (run_db (Excute A (add_user_sql user))) (\<lambda>result.
       if result = False then sret (False, user)
       else sbind (sget (\<lambda>u. user\<lparr>userid := m_baseUserID u\<rparr>)) (\<lambda>user'.
         sbind (smodify (\<lambda>u. u\<lparr>m_cachedUsers := m_cachedUsers u @ [user']\<rparr>)) (\<lambda>_.
           sret (True, user')))))"

definition user_of_row :: "QueryResult \<Rightarrow> User res" where
  "user_of_row q =
     rbind (get_string ''u_id'' q) (\<lambda>i.
     rbind (Value_named ''u_sex'' q) (\<lambda>s.
     rbind (get_string ''u_headImage'' q) (\<lambda>h.
     rbind (get_string ''u_password'' q) (\<lambda>p.
     rbind (get_string ''u_userName'' q) (\<lambda>n.
       Inr (User_new\<lparr>u_ID := i, sex := toBool s, custimface := h, password := p, username := n\<rparr>))))))"

definition load_cached ::
    "'w mysql_api \<Rightarrow> string \<Rightarrow> (QueryResult \<Rightarrow> bool) \<Rightarrow> (QueryResult \<Rightarrow> 'a res)
     \<Rightarrow> ('a list \<Rightarrow> 'w UserManager \<Rightarrow> 'w UserManager) \<Rightarrow> ('w UserManager, bool) op" where
  \<comment> \<open>the shape of every loader\<close>
  "load_cached A sql guard rd upd =
     sbind (run_db (mgr_Query A sql)) (\<lambda>result.
       case result of
         None \<Rightarrow> sret False
       | Some q \<Rightarrow> sbind (slift (read_rows guard rd q)) (\<lambda>xs.
           sbind (smodify (upd xs)) (\<lambda>_. sret True)))"

definition LoadUserFromDB :: "'w mysql_api \<Rightarrow> ('w UserManager, bool) op" where
  "LoadUserFromDB A =
     load_cached A ''SELECT * FROM tab_user;'' Fetch user_of_row
       (\<lambda>xs u. u\<lparr>m_cachedUsers := m_cachedUsers u @ xs\<rparr>)"

definition GetUserInfoByUsername :: "string \<Rightarrow> 'w UserManager \<Rightarrow> User option" where
  \<comment> \<open>\<open>None\<close> is the return value false, which leaves the out parameter alone\<close>
  "GetUserInfoByUsername name u = find (\<lambda>it. username it = name) (m_cachedUsers u)"

definition GetUserByID :: "32 word \<Rightarrow> 'w UserManager \<Rightarrow> User option" where
  "GetUserByID i u = map_of (m_mapUsers u) i"

text \<open>Operations whose body is commented out in the source.\<close>

definition LoadRelationshipFromDB :: "32 word \<Rightarrow> bool" where "LoadRelationshipFromDB i = True"
definition GetUserInfoByUserId :: "32 word \<Rightarrow> bool" where "GetUserInfoByUserId i = False"
definition AddFriendToUser :: "32 word \<Rightarrow> 32 word \<Rightarrow> bool" where "AddFriendToUser i j = False"
definition UpdateUserInfo :: "32 word \<Rightarrow> User \<Rightarrow> bool" where "UpdateUserInfo i u = False"
definition ModifyUserPassword :: "32 word \<Rightarrow> string \<Rightarrow> bool" where "ModifyUserPassword i p = False"

section \<open>Assets\<close>

type_synonym assets = "videoInfo list \<times> audioInfo list \<times> wordInfo list"

definition GetVideoInfoFromDB :: "videoInfo list \<Rightarrow> 'w UserManager \<Rightarrow> videoInfo list" where
  "GetVideoInfoFromDB v_list u = v_list @ m_cacheVideoInfo u"

definition GetAudioInfoFromDB :: "audioInfo list \<Rightarrow> 'w UserManager \<Rightarrow> audioInfo list" where
  "GetAudioInfoFromDB a_list u = a_list @ m_cacheAudioInfo u"

definition GetWordInfoFromDB :: "wordInfo list \<Rightarrow> 'w UserManager \<Rightarrow> wordInfo list" where
  "GetWordInfoFromDB t_list u = t_list @ m_cacheWordInfo u"

definition cached_assets :: "'w UserManager \<Rightarrow> assets" where
  \<comment> \<open>the three local lists that the queries below fill first\<close>
  "cached_assets u = (GetVideoInfoFromDB [] u, GetAudioInfoFromDB [] u, GetWordInfoFromDB [] u)"

definition add_matching :: "assets \<Rightarrow> string \<times> string \<Rightarrow> assets \<Rightarrow> assets" where
  \<comment> \<open>one round of the loops of the history and the collection query\<close>
  "add_matching = (\<lambda>(videoList, audioList, textList) (type, titltStr) (v_list, a_list, t_list).
     if type = ''video'' then (v_list @ filter (\<lambda>i. v_title i = titltStr) videoList, a_list, t_list)
     else if type = ''audio'' then (v_list, a_list @ filter (\<lambda>i. a_title i = titltStr) audioList, t_list)
     else if type = ''text'' then (v_list, a_list, t_list @ filter (\<lambda>i. title i = titltStr) textList)
     else (v_list, a_list, t_list))"

definition assets_of_rows ::
    "'w mysql_api \<Rightarrow> (User \<Rightarrow> string) \<Rightarrow> string \<Rightarrow> string \<Rightarrow> assets \<Rightarrow> string
     \<Rightarrow> ('w UserManager, bool \<times> assets) op" where
  \<comment> \<open>the common body of the history and the collection query\<close>
  "assets_of_rows A sql tcol ncol out userName u0 =
     (case GetUserInfoByUsername userName u0 of
        None \<Rightarrow> Inr ((False, out), u0)
      | Some us \<Rightarrow>
          sbind (run_db (mgr_Query A (sql us))) (\<lambda>result.
            case result of
              None \<Rightarrow> sret (False, out)
            | Some q \<Rightarrow>
                sbind (sget cached_assets) (\<lambda>cached.
                sbind (slift (read_rows (\<lambda>q. query_size q > 0)
                    (\<lambda>q. rbind (get_string tcol q) (\<lambda>t. rbind (get_string ncol q) (\<lambda>n. Inr (t, n)))) q))
                  (\<lambda>rows. sret (True, fold (add_matching cached) rows out)))) u0)"

definition history_sql :: "User \<Rightarrow> string" where
  "history_sql u = ''select * from tab_browseRecords where b_uID = '' @ quote @ u_ID u @ quote @ '';''"

definition GetHistoryInfoFromDB ::
    "'w mysql_api \<Rightarrow> assets \<Rightarrow> string \<Rightarrow> ('w UserManager, bool \<times> assets) op" where
  "GetHistoryInfoFromDB A =
     assets_of_rows A history_sql ''b_assetsType'' ''b_browseTitle''"

definition collect_sql :: "User \<Rightarrow> string" where
  "collect_sql u = ''select * from tab_assetsCollect where c_uID = '' @ quote @ u_ID u @ quote @ '';''"

definition GetCollectInfoFromDB ::
    "'w mysql_api \<Rightarrow> assets \<Rightarrow> string \<Rightarrow> ('w UserManager, bool \<times> assets) op" where
  "GetCollectInfoFromDB A =
     assets_of_rows A collect_sql ''c_assetsType'' ''c_assetsTitle''"

definition GetDynamicInfoFromDB :: "assets \<Rightarrow> string \<Rightarrow> 'w UserManager \<Rightarrow> assets" where
  "GetDynamicInfoFromDB out userName u =
     (case (cached_assets u, out) of
        ((videoList, audioList, textList), (v_list, a_list, t_list)) \<Rightarrow>
          (v_list @ filter (\<lambda>i. v_upName i = userName) videoList,
           a_list @ filter (\<lambda>i. a_upName i = userName) audioList,
           t_list @ filter (\<lambda>i. upName i = userName) textList))"

definition GetSearchInfoFromDB :: "assets \<Rightarrow> assets" where
  "GetSearchInfoFromDB out = out"

fun values_sql :: "string list \<Rightarrow> string" where
  \<comment> \<open>the quoted values of an insert\<close>
  "values_sql [] = []"
| "values_sql [v] = quote @ v @ quote"
| "values_sql (v # vs) = quote @ v @ quote @ '','' @ values_sql vs"

definition add_word_sql :: "wordInfo \<Rightarrow> string" where
  "add_word_sql i =
     ''insert into tab_textData (`t_id`,`t_upName`,`t_title`,`t_courses`,`t_data`,`t_uID`) values (''
     @ values_sql [t_id i, upName i, title i, coursesStr i, fileData i, uID i] @ '');''"

definition addWordInfoFromDB :: "'w mysql_api \<Rightarrow> wordInfo \<Rightarrow> ('w UserManager, bool) op" where
  "addWordInfoFromDB A info =
     insert_cached A (add_word_sql info) (\<lambda>u. u\<lparr>m_cacheWordInfo := m_cacheWordInfo u @ [info]\<rparr>)"

definition add_video_sql :: "videoInfo \<Rightarrow> string" where
  "add_video_sql i =
     ''insert into tab_videoData (`v_id`,`v_upName`,`v_videoTitle`,`v_courses`,`v_filePath`,`v_headImgPath`,`v_synopsis`,`v_uID`) values (''
     @ values_sql [v_id i, v_upName i, v_title i, v_courses i, v_filePath i, v_headImgPath i,
                   v_synopsis i, v_uID i] @ '');''"

definition addVideoInfoFromDB :: "'w mysql_api \<Rightarrow> videoInfo \<Rightarrow> ('w UserManager, bool) op" where
  "addVideoInfoFromDB A info =
     insert_cached A (add_video_sql info) (\<lambda>u. u\<lparr>m_cacheVideoInfo := m_cacheVideoInfo u @ [info]\<rparr>)"

definition add_audio_sql :: "audioInfo \<Rightarrow> string" where
  "add_audio_sql i =
     ''insert into tab_audioData (`a_id`,`a_upName`,`a_audioTitle`,`a_courses`,`a_filePath`,`a_headImgPath`,`a_uID`) values (''
     @ values_sql [a_id i, a_upName i, a_title i, a_courses i, a_filePath i, a_headImgPath i, a_uID i]
     @ '');''"

definition addAudioInfoFromDB :: "'w mysql_api \<Rightarrow> audioInfo \<Rightarrow> ('w UserManager, bool) op" where
  "addAudioInfoFromDB A info =
     insert_cached A (add_audio_sql info) (\<lambda>u. u\<lparr>m_cacheAudioInfo := m_cacheAudioInfo u @ [info]\<rparr>)"

definition add_browse_sql :: "string \<Rightarrow> string \<Rightarrow> string \<Rightarrow> string \<Rightarrow> string" where
  "add_browse_sql i uid ty ti =
     ''insert into tab_browseRecords (`b_id`,`b_uID`,`b_assetsType`,`b_browseTime`,`b_browseTitle`) values (''
     @ values_sql [i, uid, ty] @ '',NOW(),'' @ quote @ ti @ quote @ '');''"

definition addBrowseInfoFromDB ::
    "'w mysql_api \<Rightarrow> string \<Rightarrow> string \<Rightarrow> string \<Rightarrow> string \<Rightarrow> ('w UserManager, bool) op" where
  "addBrowseInfoFromDB A i uid ty ti =
     insert_cached A (add_browse_sql i uid ty ti)
       (\<lambda>u. u\<lparr>m_cacheBrowseInfo := m_cacheBrowseInfo u
               @ [\<lparr>b_id = i, b_uID = uid, b_assetsType = ty, b_browseTitle = ti\<rparr>]\<rparr>)"

definition add_collect_sql :: "string \<Rightarrow> string \<Rightarrow> string \<Rightarrow> string \<Rightarrow> string" where
  "add_collect_sql i uid ty ti =
     ''insert into tab_assetsCollect (`c_id`,`c_uID`,`c_assetsType`,`c_assetsTitle`) values (''
     @ values_sql [i, uid, ty, ti] @ '');''"

definition addCollectInfoFromDB ::
    "'w mysql_api \<Rightarrow> string \<Rightarrow> string \<Rightarrow> string \<Rightarrow> string \<Rightarrow> ('w UserManager, bool) op" where
  "addCollectInfoFromDB A i uid ty ti =
     insert_cached A (add_collect_sql i uid ty ti)
       (\<lambda>u. u\<lparr>m_cacheCollectInfo := m_cacheCollectInfo u
               @ [\<lparr>c_id = i, c_uID = uid, c_assetsType = ty, c_assetsTitle = ti\<rparr>]\<rparr>)"

definition collects :: "string \<Rightarrow> string \<Rightarrow> string \<Rightarrow> collectInfo \<Rightarrow> bool" where
  "collects uid ti ty it \<longleftrightarrow> c_uID it = uid \<and> c_assetsTitle it = ti \<and> c_assetsType it = ty"

fun erase_first :: "('a \<Rightarrow> bool) \<Rightarrow> 'a list \<Rightarrow> 'a list" where
  "erase_first P [] = []"
| "erase_first P (x # xs) = (if P x then xs else x # erase_first P xs)"

definition remove_collect_sql :: "string \<Rightarrow> string \<Rightarrow> string \<Rightarrow> string" where
  "remove_collect_sql uid ti ty =
     ''delete from tab_assetsCollect where c_uID = '' @ quote @ uid @ quote @ '' AND c_assetsTitle = ''
     @ quote @ ti @ quote @ '' AND c_assetsType = '' @ quote @ ty @ quote @ '';''"

definition removeOneCollectInfo ::
    "'w mysql_api \<Rightarrow> string \<Rightarrow> string \<Rightarrow> string \<Rightarrow> ('w UserManager, bool) op" where
  "removeOneCollectInfo A uid assetsTitle assetsType u =
     (if \<not> list_ex (collects uid assetsTitle assetsType) (m_cacheCollectInfo u) then Inr (False, u)
      else insert_cached A (remove_collect_sql uid assetsTitle assetsType)
        (\<lambda>u. u\<lparr>m_cacheCollectInfo :=
          erase_first (collects uid assetsTitle assetsType) (m_cacheCollectInfo u)\<rparr>) u)"

section \<open>Loading\<close>

definition video_of_row :: "QueryResult \<Rightarrow> videoInfo res" where
  "video_of_row q =
     rbind (get_string ''v_id'' q) (\<lambda>i. rbind (get_string ''v_upName'' q) (\<lambda>n.
     rbind (get_string ''v_filePath'' q) (\<lambda>f. rbind (get_string ''v_videoTitle'' q) (\<lambda>t.
     rbind (get_string ''v_headImgPath'' q) (\<lambda>h. rbind (get_string ''v_synopsis'' q) (\<lambda>s.
     rbind (get_string ''v_courses'' q) (\<lambda>c. rbind (get_string ''v_uID'' q) (\<lambda>uid.
       Inr \<lparr>v_id = i, v_upName = n, v_title = t, v_filePath = f, v_headImgPath = h, v_courses = c,
            v_synopsis = s, v_uID = uid\<rparr>))))))))"

definition loadVideoInfoFromDB :: "'w mysql_api \<Rightarrow> ('w UserManager, bool) op" where
  "loadVideoInfoFromDB A =
     load_cached A ''select * from tab_videoData;'' (\<lambda>_. True) video_of_row
       (\<lambda>xs u. u\<lparr>m_cacheVideoInfo := m_cacheVideoInfo u @ xs\<rparr>)"

definition audio_of_row :: "QueryResult \<Rightarrow> audioInfo res" where
  "audio_of_row q =
     rbind (get_string ''a_id'' q) (\<lambda>i. rbind (get_string ''a_upName'' q) (\<lambda>n.
     rbind (get_string ''a_filePath'' q) (\<lambda>f. rbind (get_string ''a_audioTitle'' q) (\<lambda>t.
     rbind (get_string ''a_headImgPath'' q) (\<lambda>h. rbind (get_string ''a_courses'' q) (\<lambda>c.
     rbind (get_string ''a_uID'' q) (\<lambda>uid.
       Inr \<lparr>a_id = i, a_upName = n, a_title = t, a_filePath = f, a_headImgPath = h, a_courses = c,
            a_uID = uid\<rparr>)))))))"

definition loadAudioInfoFromDB :: "'w mysql_api \<Rightarrow> ('w UserManager, bool) op" where
  "loadAudioInfoFromDB A =
     load_cached A ''select * from tab_audioData;'' (\<lambda>_. True) audio_of_row
       (\<lambda>xs u. u\<lparr>m_cacheAudioInfo := m_cacheAudioInfo u @ xs\<rparr>)"

definition word_of_row :: "QueryResult \<Rightarrow> wordInfo res" where
  "word_of_row q =
     rbind (get_string ''t_id'' q) (\<lambda>i. rbind (get_string ''t_upName'' q) (\<lambda>n.
     rbind (get_string ''t_data'' q) (\<lambda>d. rbind (get_string ''t_title'' q) (\<lambda>t.
     rbind (get_string ''t_courses'' q) (\<lambda>c. rbind (get_string ''t_uID'' q) (\<lambda>uid.
       Inr \<lparr>uID = uid, t_id = i, title = t, upName = n, coursesStr = c, fileData = d\<rparr>))))))"

definition loadWordInfoFromDB :: "'w mysql_api \<Rightarrow> ('w UserManager, bool) op" where
  "loadWordInfoFromDB A =
     load_cached A ''select * from tab_textData;'' (\<lambda>_. True) word_of_row
       (\<lambda>xs u. u\<lparr>m_cacheWordInfo := m_cacheWordInfo u @ xs\<rparr>)"

definition browse_of_row :: "QueryResult \<Rightarrow> browseInfo res" where
  "browse_of_row q =
     rbind (get_string ''b_id'' q) (\<lambda>i. rbind (get_string ''b_assetsType'' q) (\<lambda>t.
     rbind (get_string ''b_browseTitle'' q) (\<lambda>n. rbind (get_string ''b_uID'' q) (\<lambda>uid.
       Inr \<lparr>b_id = i, b_uID = uid, b_assetsType = t, b_browseTitle = n\<rparr>))))"

definition loadBrowseInfoFromDB :: "'w mysql_api \<Rightarrow> ('w UserManager, bool) op" where
  "loadBrowseInfoFromDB A =
     load_cached A ''select * from tab_browseRecords;'' (\<lambda>q. query_size q > 0) browse_of_row
       (\<lambda>xs u. u\<lparr>m_cacheBrowseInfo := m_cacheBrowseInfo u @ xs\<rparr>)"

definition collect_of_row :: "QueryResult \<Rightarrow> collectInfo res" where
  "collect_of_row q =
     rbind (get_string ''c_id'' q) (\<lambda>i. rbind (get_string ''c_assetsType'' q) (\<lambda>t.
     rbind (get_string ''c_assetsTitle'' q) (\<lambda>n. rbind (get_string ''c_uID'' q) (\<lambda>uid.
       Inr \<lparr>c_id = i, c_uID = uid, c_assetsType = t, c_assetsTitle = n\<rparr>))))"

definition loadCollectInfoFromDB :: "'w mysql_api \<Rightarrow> ('w UserManager, bool) op" where
  "loadCollectInfoFromDB A =
     load_cached A ''select * from tab_assetsCollect;'' (\<lambda>q. query_size q > 0) collect_of_row
       (\<lambda>xs u. u\<lparr>m_cacheCollectInfo := m_cacheCollectInfo u @ xs\<rparr>)"

fun all_true :: "('s, bool) op list \<Rightarrow> ('s, bool) op" where
  \<comment> \<open>a conjunction of calls, evaluated up to the first false\<close>
  "all_true [] = sret True"
| "all_true (f # fs) = sbind f (\<lambda>ok. if ok then all_true fs else sret False)"

definition um_Init :: "'w mysql_api \<Rightarrow> ('w UserManager, bool) op" where
  "um_Init A =
     all_true [LoadUserFromDB A, loadVideoInfoFromDB A, loadAudioInfoFromDB A, loadWordInfoFromDB A,
               loadBrowseInfoFromDB A, loadCollectInfoFromDB A]"

section \<open>Caches that follow the database\<close>

lemma run_db_Inr:
  "run_db f u = Inr (a, u') \<longleftrightarrow> (\<exists>d. f (um_db u) = Inr (a, d) \<and> u' = u\<lparr>um_db := d\<rparr>)"
  by (auto simp: run_db_def rbind_eq_Inr_iff)

lemma insert_cached_Inr:
  "insert_cached A sql upd u = Inr (ok, u') \<longleftrightarrow>
   (\<exists>d. Excute A sql (um_db u) = Inr (ok, d)
      \<and> u' = (if ok then upd (u\<lparr>um_db := d\<rparr>) else u\<lparr>um_db := d\<rparr>))"
  by (auto simp: insert_cached_def sbind_eq_Inr run_db_Inr split: if_splits)

text \<open>
  The contract of a write: the verdict is the one of the statement, and the cache gets the
  entry at its end exactly when the statement succeeded.
\<close>

locale cached_table =
  fixes add :: "'a \<Rightarrow> 'u \<Rightarrow> (bool \<times> 'u) res"
    and cache :: "'u \<Rightarrow> 'a list"
    and exec :: "'a \<Rightarrow> 'd \<Rightarrow> (bool \<times> 'd) res"
    and db :: "'u \<Rightarrow> 'd"
  assumes add_exec: "add x u = Inr (ok, u') \<Longrightarrow> exec x (db u) = Inr (ok, db u')"
    and add_cache: "add x u = Inr (ok, u') \<Longrightarrow> cache u' = cache u @ (if ok then [x] else [])"
    and add_fault: "exec x (db u) = Inr (ok, d) \<Longrightarrow> \<exists>u'. add x u = Inr (ok, u')"
begin

fun add_list :: "'a list \<Rightarrow> 'u \<Rightarrow> (bool list \<times> 'u) res" where
  "add_list [] u = Inr ([], u)"
| "add_list (x # xs) u =
     rbind (add x u) (\<lambda>(ok, u'). rbind (add_list xs u') (\<lambda>(oks, u''). Inr (ok # oks, u'')))"

fun exec_list :: "'a list \<Rightarrow> 'd \<Rightarrow> (bool list \<times> 'd) res" where
  "exec_list [] d = Inr ([], d)"
| "exec_list (x # xs) d =
     rbind (exec x d) (\<lambda>(ok, d'). rbind (exec_list xs d') (\<lambda>(oks, d''). Inr (ok # oks, d'')))"

lemma add_list_follows:
  "exec_list xs (db u) = Inr (oks, d) \<Longrightarrow>
   \<exists>u'. add_list xs u = Inr (oks, u') \<and> db u' = d
     \<and> cache u' = cache u @ map fst (filter snd (zip xs oks))"
proof (induction xs arbitrary: u oks)
  case (Cons x xs)
  then obtain ok d1 oks' where e: "exec x (db u) = Inr (ok, d1)" "exec_list xs d1 = Inr (oks', d)"
      "oks = ok # oks'"
    by (auto simp: rbind_eq_Inr_iff split: prod.splits)
  obtain u1 where u1: "add x u = Inr (ok, u1)" using add_fault [OF e(1)] by blast
  then have "db u1 = d1" using add_exec [OF u1] e(1) by simp
  with Cons.IH [of u1] e(2,3) u1 add_cache [OF u1] show ?case by fastforce
qed simp

lemma add_accepted:
  "add x u = Inr (True, u') \<Longrightarrow> last (cache u') = x \<and> butlast (cache u') = cache u"
  using add_cache by fastforce

lemma add_refused: "add x u = Inr (False, u') \<Longrightarrow> cache u' = cache u"
  using add_cache by fastforce

end

interpretation videos: cached_table "addVideoInfoFromDB A" m_cacheVideoInfo
    "\<lambda>i. Excute A (add_video_sql i)" um_db for A
  by unfold_locales (auto simp: addVideoInfoFromDB_def insert_cached_Inr)

interpretation audios: cached_table "addAudioInfoFromDB A" m_cacheAudioInfo
    "\<lambda>i. Excute A (add_audio_sql i)" um_db for A
  by unfold_locales (auto simp: addAudioInfoFromDB_def insert_cached_Inr)

interpretation texts: cached_table "addWordInfoFromDB A" m_cacheWordInfo
    "\<lambda>i. Excute A (add_word_sql i)" um_db for A
  by unfold_locales (auto simp: addWordInfoFromDB_def insert_cached_Inr)

interpretation browses: cached_table
    "\<lambda>i. addBrowseInfoFromDB A (b_id i) (b_uID i) (b_assetsType i) (b_browseTitle i)" m_cacheBrowseInfo
    "\<lambda>i. Excute A (add_browse_sql (b_id i) (b_uID i) (b_assetsType i) (b_browseTitle i))" um_db for A
  by unfold_locales (auto simp: addBrowseInfoFromDB_def insert_cached_Inr)

interpretation collections: cached_table
    "\<lambda>i. addCollectInfoFromDB A (c_id i) (c_uID i) (c_assetsType i) (c_assetsTitle i)" m_cacheCollectInfo
    "\<lambda>i. Excute A (add_collect_sql (c_id i) (c_uID i) (c_assetsType i) (c_assetsTitle i))" um_db for A
  by unfold_locales (auto simp: addCollectInfoFromDB_def insert_cached_Inr)

section \<open>Properties of the users\<close>

lemma AddUser_eq:
  "AddUser A user u =
   rbind (Excute A (add_user_sql user) (um_db u)) (\<lambda>(ok, d).
     let user' = (if ok then user\<lparr>userid := m_baseUserID u + 1\<rparr> else user)
     in Inr ((ok, user'), u\<lparr>m_baseUserID := m_baseUserID u + 1, um_db := d,
               m_cachedUsers := m_cachedUsers u @ (if ok then [user'] else [])\<rparr>))"
proof (cases "Excute A (add_user_sql user) (um_db u)")
  case (Inr r)
  obtain ok d where "r = (ok, d)" by (cases r)
  with Inr show ?thesis by (cases ok) (simp_all add: AddUser_def sbind_def run_db_def Let_def)
qed (simp add: AddUser_def sbind_def run_db_def)

text \<open>
  Registering a user: the lookup by name afterwards gives the new user only when no
  user of that name was known; an earlier user of the same name keeps hiding the new one.
  A refused statement leaves every lookup as it was.
\<close>

theorem AddUser_lookup:
  assumes "AddUser A user u = Inr ((ok, user'), u')"
  shows "GetUserInfoByUsername name u' =
    (case GetUserInfoByUsername name u of
       Some old \<Rightarrow> Some old
     | None \<Rightarrow> if ok \<and> name = username user then Some (user\<lparr>userid := m_baseUserID u + 1\<rparr>) else None)"
proof -
  from assms obtain d where "u' = u\<lparr>m_baseUserID := m_baseUserID u + 1, um_db := d,
      m_cachedUsers := m_cachedUsers u @ (if ok then [user\<lparr>userid := m_baseUserID u + 1\<rparr>] else [])\<rparr>"
    by (auto simp: AddUser_eq rbind_eq_Inr_iff Let_def split: prod.splits if_splits)
  then show ?thesis by (simp add: GetUserInfoByUsername_def find_append split: option.split)
qed

text \<open>A state with one live connection to a server that accepts everything, for the instances.\<close>

definition demo_api :: "string list mysql_api" where
  "demo_api = log_api (\<lambda>_ _. 0) demo_desc"

definition demo_um :: "string list UserManager" where
  "demo_um = UserManager_new demo_mgr"

lemma demo_Excute:
  "mgr_mysql m = Some demo_tool \<Longrightarrow> Excute (log_api (\<lambda>_ _. 0) r) sql m
   = Inr (True, m\<lparr>mgr_world := c_str sql # mgr_world m\<rparr>)"
  by (simp add: Excute_def with_tool_def tool_Execute1_def tool_Execute_def log_api_def demo_tool_def)

lemma demo_um_db [simp]: "um_db demo_um = demo_mgr" "mgr_mysql demo_mgr = Some demo_tool"
  by (simp_all add: demo_um_def UserManager_new_def demo_mgr_def)

theorem AddUser_lookup_witness:
  "\<exists>u'. AddUser demo_api (User_new\<lparr>username := ''ann''\<rparr>) demo_um = Inr ((True, User_new\<lparr>username := ''ann'', userid := 1\<rparr>), u')
    \<and> GetUserInfoByUsername ''ann'' u' = Some (User_new\<lparr>username := ''ann'', userid := 1\<rparr>)"
proof -
  obtain u' where u': "AddUser demo_api (User_new\<lparr>username := ''ann''\<rparr>) demo_um
      = Inr ((True, User_new\<lparr>username := ''ann'', userid := 1\<rparr>), u')"
    by (simp add: AddUser_eq demo_api_def demo_Excute Let_def)
      (simp add: demo_um_def UserManager_new_def User_new_def)
  from AddUser_lookup [OF this, of "''ann''"] u' show ?thesis
    by (simp add: demo_um_def UserManager_new_def GetUserInfoByUsername_def)
qed

section \<open>Loading the caches\<close>

lemma load_cached_rows:
  assumes "answers A sql (um_db u) r w'" and "res_rows r \<noteq> []"
    and "\<And>q row rest. at_row q (map fst (res_fields r)) row rest \<Longrightarrow> guard q \<and> rd q = Inr (g row)"
  shows "load_cached A sql guard rd upd u
    = Inr (True, upd (map g (res_rows r)) (u\<lparr>um_db := (um_db u)\<lparr>mgr_world := w'\<rparr>\<rparr>))"
proof -
  obtain row rest where rows: "res_rows r = row # rest" using assms(2) by (cases "res_rows r") auto
  obtain q where q: "mgr_Query A sql (um_db u) = Inr (Some q, (um_db u)\<lparr>mgr_world := w'\<rparr>)"
      "at_row q (map fst (res_fields r)) row rest"
    using mgr_Query_at_row [OF assms(1) rows] by blast
  have "\<forall>row\<in>set rest. length row = length (map fst (res_fields r))"
    using assms(1) rows by (simp add: answers_def well_formed_def)
  from read_rows_at_row [OF q(2) this assms(3)] rows
  have "read_rows guard rd q = Inr (map g (res_rows r))" by simp
  with q(1) show ?thesis by (simp add: load_cached_def sbind_def run_db_def)
qed

definition video_row :: "string list \<Rightarrow> sql_row \<Rightarrow> videoInfo" where
  "video_row cols row =
     \<lparr>v_id = row_text cols ''v_id'' row, v_upName = row_text cols ''v_upName'' row,
      v_title = row_text cols ''v_videoTitle'' row, v_filePath = row_text cols ''v_filePath'' row,
      v_headImgPath = row_text cols ''v_headImgPath'' row, v_courses = row_text cols ''v_courses'' row,
      v_synopsis = row_text cols ''v_synopsis'' row, v_uID = row_text cols ''v_uID'' row\<rparr>"

text \<open>
  Loading the videos: from a table with the columns the program created, every row
  becomes one cache entry, in the order of the rows, with each member taken from the
  column it is stored in.
\<close>

theorem loadVideoInfoFromDB_rows:
  assumes "answers A ''select * from tab_videoData;'' (um_db u) r w'" and "res_rows r \<noteq> []"
    and "distinct (map fst (res_fields r))" and "fst ` set video_fields \<subseteq> fst ` set (res_fields r)"
  shows "loadVideoInfoFromDB A u = Inr (True, u
    \<lparr>m_cacheVideoInfo := m_cacheVideoInfo u @ map (video_row (map fst (res_fields r))) (res_rows r),
     um_db := (um_db u)\<lparr>mgr_world := w'\<rparr>\<rparr>)"
proof -
  have "video_of_row q = Inr (video_row (map fst (res_fields r)) row)"
    if at: "at_row q (map fst (res_fields r)) row rest" for q row rest
    using assms(4) get_string_at_row [OF at assms(3)]
    by (simp add: video_of_row_def video_row_def video_fields_def)
  then show ?thesis
    by (simp add: loadVideoInfoFromDB_def load_cached_rows [OF assms(1,2)])
qed

definition demo_videos :: MYSQL_RES where
  "demo_videos =
     \<lparr>res_fields = [(''v_id'', FIELD_TYPE_STRING), (''v_upName'', FIELD_TYPE_STRING),
        (''v_videoTitle'', FIELD_TYPE_STRING), (''v_filePath'', FIELD_TYPE_STRING),
        (''v_headImgPath'', FIELD_TYPE_STRING), (''v_synopsis'', FIELD_TYPE_BLOB),
        (''v_courses'', FIELD_TYPE_STRING), (''v_uID'', FIELD_TYPE_STRING)],
      res_rows = [[Some ''1'', Some ''ann'', Some ''t'', Some ''f'', None, Some ''s'', Some ''c'', Some ''9'']]\<rparr>"

theorem loadVideoInfoFromDB_rows_witness:
  "\<exists>u'. loadVideoInfoFromDB (log_api (\<lambda>_ _. 0) demo_videos) demo_um = Inr (True, u')
    \<and> m_cacheVideoInfo u' = [\<lparr>v_id = ''1'', v_upName = ''ann'', v_title = ''t'', v_filePath = ''f'',
          v_headImgPath = [], v_courses = ''c'', v_synopsis = ''s'', v_uID = ''9''\<rparr>]"
proof -
  have "answers (log_api (\<lambda>_ _. 0) demo_videos) ''select * from tab_videoData;'' (um_db demo_um)
      demo_videos [''select * from tab_videoData;'']"
    by (simp add: answers_def log_api_def demo_videos_def well_formed_def demo_mgr_def demo_tool_def)
  moreover have "res_rows demo_videos \<noteq> []" by (simp add: demo_videos_def)
  moreover have "distinct (map fst (res_fields demo_videos))" by (simp add: demo_videos_def)
  moreover have "fst ` set video_fields \<subseteq> fst ` set (res_fields demo_videos)"
    by (simp add: demo_videos_def video_fields_def)
  moreover have "map (video_row (map fst (res_fields demo_videos))) (res_rows demo_videos)
      = [\<lparr>v_id = ''1'', v_upName = ''ann'', v_title = ''t'', v_filePath = ''f'',
          v_headImgPath = [], v_courses = ''c'', v_synopsis = ''s'', v_uID = ''9''\<rparr>]"
    by code_simp
  ultimately show ?thesis
    using loadVideoInfoFromDB_rows [of "log_api (\<lambda>_ _. 0) demo_videos" demo_um demo_videos]
    by (simp add: demo_um_def UserManager_new_def)
qed

lemma load_cached_no_row:
  assumes "answers A sql (um_db u) r w'" and "res_rows r = []" and "res_fields r \<noteq> []"
    and "\<And>q. Fetch q \<Longrightarrow> guard q"
    and "\<And>q. \<forall>name. Value_named name q = Inl Out_Of_Range \<Longrightarrow> rd q = Inl Out_Of_Range"
  shows "load_cached A sql guard rd upd u = Inl Out_Of_Range"
  using mgr_Query_empty [OF assms(1,2)] assms(3-5)
  by (auto simp: load_cached_def sbind_def run_db_def read_rows.simps)

lemma load_cached_guarded:
  assumes "answers A sql (um_db u) r w'" and "res_rows r = []"
  shows "load_cached A sql (\<lambda>q. query_size q > 0) rd upd u
    = Inr (True, upd [] (u\<lparr>um_db := (um_db u)\<lparr>mgr_world := w'\<rparr>\<rparr>))"
  using mgr_Query_empty [OF assms]
  by (auto simp: load_cached_def sbind_def run_db_def read_rows.simps)

text \<open>
  Loading from empty tables: the browse records and the collections load as empty, but
  the users, videos, audios and texts are read from a row that does not exist, so the
  server cannot start on a fresh database.
\<close>

theorem load_from_empty_tables:
  assumes "\<forall>sql\<in>{''SELECT * FROM tab_user;'', ''select * from tab_videoData;'',
      ''select * from tab_audioData;'', ''select * from tab_textData;'',
      ''select * from tab_browseRecords;'', ''select * from tab_assetsCollect;''}.
      answers A sql (um_db u) r w'"
    and "res_rows r = []" and "res_fields r \<noteq> []"
  shows "LoadUserFromDB A u = Inl Out_Of_Range \<and> loadVideoInfoFromDB A u = Inl Out_Of_Range
    \<and> loadAudioInfoFromDB A u = Inl Out_Of_Range \<and> loadWordInfoFromDB A u = Inl Out_Of_Range
    \<and> loadBrowseInfoFromDB A u = Inr (True, u\<lparr>um_db := (um_db u)\<lparr>mgr_world := w'\<rparr>\<rparr>)
    \<and> loadCollectInfoFromDB A u = Inr (True, u\<lparr>um_db := (um_db u)\<lparr>mgr_world := w'\<rparr>\<rparr>)
    \<and> um_Init A u = Inl Out_Of_Range"
proof -
  note ans = assms(1) [rule_format]
  have rows: "user_of_row q = Inl Out_Of_Range" "video_of_row q = Inl Out_Of_Range"
      "audio_of_row q = Inl Out_Of_Range" "word_of_row q = Inl Out_Of_Range"
    if "\<forall>name. Value_named name q = Inl Out_Of_Range" for q
    using that
    by (simp_all add: user_of_row_def video_of_row_def audio_of_row_def word_of_row_def get_string_def)
  note fault = load_cached_no_row [OF _ assms(2,3)]
  have users: "LoadUserFromDB A u = Inl Out_Of_Range"
    unfolding LoadUserFromDB_def by (rule fault [OF ans]) (simp_all add: rows)
  moreover have "loadVideoInfoFromDB A u = Inl Out_Of_Range"
    unfolding loadVideoInfoFromDB_def by (rule fault [OF ans]) (simp_all add: rows)
  moreover have "loadAudioInfoFromDB A u = Inl Out_Of_Range"
    unfolding loadAudioInfoFromDB_def by (rule fault [OF ans]) (simp_all add: rows)
  moreover have "loadWordInfoFromDB A u = Inl Out_Of_Range"
    unfolding loadWordInfoFromDB_def by (rule fault [OF ans]) (simp_all add: rows)
  moreover have "loadBrowseInfoFromDB A u = Inr (True, u\<lparr>um_db := (um_db u)\<lparr>mgr_world := w'\<rparr>\<rparr>)"
    unfolding loadBrowseInfoFromDB_def by (subst load_cached_guarded [OF ans assms(2)]) simp_all
  moreover have "loadCollectInfoFromDB A u = Inr (True, u\<lparr>um_db := (um_db u)\<lparr>mgr_world := w'\<rparr>\<rparr>)"
    unfolding loadCollectInfoFromDB_def by (subst load_cached_guarded [OF ans assms(2)]) simp_all
  moreover have "um_Init A u = Inl Out_Of_Range" using users by (simp add: um_Init_def sbind_def)
  ultimately show ?thesis by blast
qed

definition empty_table :: MYSQL_RES where
  "empty_table = \<lparr>res_fields = [(''x'', FIELD_TYPE_STRING)], res_rows = []\<rparr>"

theorem load_from_empty_tables_witness:
  "um_Init (log_api (\<lambda>_ _. 0) empty_table\<lparr>my_query := \<lambda>_ _. (0, [])\<rparr>) demo_um = Inl Out_Of_Range"
proof -
  let ?A = "log_api (\<lambda>_ _. 0) empty_table\<lparr>my_query := \<lambda>_ _. (0, [])\<rparr>"
  have "answers ?A sql (um_db demo_um) empty_table []" for sql
    by (simp add: answers_def log_api_def empty_table_def well_formed_def demo_mgr_def demo_tool_def)
  then show ?thesis
    using load_from_empty_tables [of ?A demo_um empty_table "[]"] by (simp add: empty_table_def)
qed

section \<open>Assets of a user\<close>

lemma addVideo_Inr:
  "addVideoInfoFromDB A i u = Inr (True, u') \<Longrightarrow>
   \<exists>d. u' = u\<lparr>um_db := d, m_cacheVideoInfo := m_cacheVideoInfo u @ [i]\<rparr>"
  by (auto simp: addVideoInfoFromDB_def insert_cached_Inr)

text \<open>
  An uploaded video is in the dynamic list of its uploader, after the ones uploaded
  before, and in no other user's list.
\<close>

theorem uploaded_video_in_dynamic:
  assumes "addVideoInfoFromDB A i u = Inr (True, u')"
  shows "GetDynamicInfoFromDB ([], [], []) name u' =
    (case GetDynamicInfoFromDB ([], [], []) name u of
       (v, a, t) \<Rightarrow> (if name = v_upName i then v @ [i] else v, a, t))"
  using videos.add_cache [OF assms] addVideo_Inr [OF assms]
  by (auto simp: GetDynamicInfoFromDB_def cached_assets_def GetVideoInfoFromDB_def
      GetAudioInfoFromDB_def GetWordInfoFromDB_def)

theorem uploaded_video_in_dynamic_witness:
  "\<exists>u'. addVideoInfoFromDB demo_api (video_row [''v_upName''] [Some ''ann'']) demo_um = Inr (True, u')
    \<and> GetDynamicInfoFromDB ([], [], []) ''ann'' u' = ([video_row [''v_upName''] [Some ''ann'']], [], [])"
proof -
  obtain u' where u': "addVideoInfoFromDB demo_api (video_row [''v_upName''] [Some ''ann'']) demo_um = Inr (True, u')"
    using videos.add_fault [of demo_api "video_row [''v_upName''] [Some ''ann'']" demo_um]
    by (auto simp: demo_api_def demo_Excute)
  have "v_upName (video_row [''v_upName''] [Some ''ann'']) = ''ann''" by code_simp
  with uploaded_video_in_dynamic [OF u', of "''ann''"] u' show ?thesis
    by (simp add: GetDynamicInfoFromDB_def cached_assets_def GetVideoInfoFromDB_def
        GetAudioInfoFromDB_def GetWordInfoFromDB_def demo_um_def UserManager_new_def)
qed

definition assets_named :: "assets \<Rightarrow> (string \<times> string) list \<Rightarrow> assets" where
  \<comment> \<open>the assets that a list of (kind, title) pairs names, in the order of the pairs\<close>
  "assets_named = (\<lambda>(V, A, T) rows.
     (concat (map (\<lambda>(k, n). if k = ''video'' then filter (\<lambda>i. v_title i = n) V else []) rows),
      concat (map (\<lambda>(k, n). if k = ''audio'' then filter (\<lambda>i. a_title i = n) A else []) rows),
      concat (map (\<lambda>(k, n). if k = ''text'' then filter (\<lambda>i. title i = n) T else []) rows)))"

lemma fold_add_matching:
  "fold (add_matching (V, A, T)) rows (v, a, t) =
   (case assets_named (V, A, T) rows of (v', a', t') \<Rightarrow> (v @ v', a @ a', t @ t'))"
  by (induction rows arbitrary: v a t) (auto simp: add_matching_def assets_named_def)

lemma fold_add_matching_empty: "fold (add_matching cached) rows ([], [], []) = assets_named cached rows"
  by (cases cached) (simp add: fold_add_matching split: prod.split)

lemma assets_of_rows_eq:
  assumes "GetUserInfoByUsername name u = Some us" and "answers A (sql us) (um_db u) r w'"
    and "distinct (map fst (res_fields r))" and "{tcol, ncol} \<subseteq> fst ` set (res_fields r)"
  shows "assets_of_rows A sql tcol ncol ([], [], []) name u =
    Inr ((True, assets_named (cached_assets u)
      (map (\<lambda>row. (row_text (map fst (res_fields r)) tcol row, row_text (map fst (res_fields r)) ncol row))
        (res_rows r))), u\<lparr>um_db := (um_db u)\<lparr>mgr_world := w'\<rparr>\<rparr>)"
proof -
  let ?cols = "map fst (res_fields r)"
  let ?rd = "\<lambda>q. rbind (get_string tcol q) (\<lambda>t. rbind (get_string ncol q) (\<lambda>n. Inr (t, n)))"
  have cached: "cached_assets (u\<lparr>um_db := d\<rparr>) = cached_assets u" for d
    by (simp add: cached_assets_def GetVideoInfoFromDB_def GetAudioInfoFromDB_def GetWordInfoFromDB_def)
  obtain q where q: "mgr_Query A (sql us) (um_db u) = Inr (Some q, (um_db u)\<lparr>mgr_world := w'\<rparr>)"
      "read_rows (\<lambda>q. query_size q > 0) ?rd q
        = Inr (map (\<lambda>row. (row_text ?cols tcol row, row_text ?cols ncol row)) (res_rows r))"
  proof (cases "res_rows r")
    case Nil
    then show ?thesis using mgr_Query_empty [OF assms(2)] that by (auto simp: read_rows.simps)
  next
    case (Cons row rest)
    obtain q where q: "mgr_Query A (sql us) (um_db u) = Inr (Some q, (um_db u)\<lparr>mgr_world := w'\<rparr>)"
        "at_row q ?cols row rest" using mgr_Query_at_row [OF assms(2) Cons] by blast
    have len: "\<forall>row\<in>set rest. length row = length ?cols"
      using assms(2) Cons by (simp add: answers_def well_formed_def)
    have "0 < query_size q' \<and> ?rd q' = Inr (row_text ?cols tcol row', row_text ?cols ncol row')"
      if at: "at_row q' ?cols row' rest'" for q' row' rest'
      using at_row_guards [OF at] get_string_at_row [OF at assms(3)] assms(4) by fastforce
    from read_rows_at_row [OF q(2) len this] that [OF q(1)] Cons show ?thesis by simp
  qed
  then show ?thesis
    using assms(1)
    by (simp add: assets_of_rows_def sbind_def run_db_def cached fold_add_matching_empty)
qed

definition demo_um2 :: "string list UserManager" where
  "demo_um2 = demo_um\<lparr>m_cachedUsers := [User_new\<lparr>username := ''ann'', u_ID := ''9''\<rparr>],
     m_cacheVideoInfo := [video_row [''v_videoTitle''] [Some ''s''], video_row [''v_videoTitle''] [Some ''t'']]\<rparr>"

definition demo_browse :: MYSQL_RES where
  "demo_browse = \<lparr>res_fields = [(''b_assetsType'', FIELD_TYPE_STRING), (''b_browseTitle'', FIELD_TYPE_STRING)],
     res_rows = [[Some ''video'', Some ''t''], [Some ''audio'', Some ''t'']]\<rparr>"

text \<open>
  C13. The history of a user is the join of the browse records that the database returns
  for that user with the cached assets: per record, the assets of the record's kind with
  the record's title, in the order of the records; no other asset.
\<close>

theorem history_is_join:
  assumes "GetUserInfoByUsername name u = Some us" and "answers A (history_sql us) (um_db u) r w'"
    and "distinct (map fst (res_fields r))"
    and "{''b_assetsType'', ''b_browseTitle''} \<subseteq> fst ` set (res_fields r)"
  shows "GetHistoryInfoFromDB A ([], [], []) name u =
    Inr ((True, assets_named (cached_assets u)
      (map (\<lambda>row. (row_text (map fst (res_fields r)) ''b_assetsType'' row,
                   row_text (map fst (res_fields r)) ''b_browseTitle'' row)) (res_rows r))),
      u\<lparr>um_db := (um_db u)\<lparr>mgr_world := w'\<rparr>\<rparr>)"
  unfolding GetHistoryInfoFromDB_def by (rule assets_of_rows_eq [where sql = history_sql, OF assms])

theorem history_is_join_witness:
  "GetHistoryInfoFromDB (log_api (\<lambda>_ _. 0) demo_browse) ([], [], []) ''ann'' demo_um2 =
     Inr ((True, [video_row [''v_videoTitle''] [Some ''t'']], [], []),
       demo_um2\<lparr>um_db := demo_mgr\<lparr>mgr_world := [history_sql (hd (m_cachedUsers demo_um2))]\<rparr>\<rparr>)"
proof -
  let ?us = "User_new\<lparr>username := ''ann'', u_ID := ''9''\<rparr>"
  have "GetUserInfoByUsername ''ann'' demo_um2 = Some ?us"
    by (simp add: demo_um2_def GetUserInfoByUsername_def)
  moreover have "answers (log_api (\<lambda>_ _. 0) demo_browse) (history_sql ?us) (um_db demo_um2)
      demo_browse [history_sql ?us]"
    by (simp add: answers_def log_api_def demo_browse_def well_formed_def demo_um2_def demo_mgr_def demo_tool_def)
  moreover have "distinct (map fst (res_fields demo_browse))"
    "{''b_assetsType'', ''b_browseTitle''} \<subseteq> fst ` set (res_fields demo_browse)"
    by (simp_all add: demo_browse_def)
  moreover have "assets_named (cached_assets demo_um2)
      (map (\<lambda>row. (row_text (map fst (res_fields demo_browse)) ''b_assetsType'' row,
                   row_text (map fst (res_fields demo_browse)) ''b_browseTitle'' row)) (res_rows demo_browse))
      = ([video_row [''v_videoTitle''] [Some ''t'']], [], [])"
    by code_simp
  ultimately show ?thesis
    using history_is_join [of "''ann''" demo_um2 ?us "log_api (\<lambda>_ _. 0) demo_browse" demo_browse "[history_sql ?us]"]
    by (simp add: demo_um2_def)
qed

section \<open>Collections\<close>

lemma erase_first_append_new: "\<not> list_ex P xs \<Longrightarrow> P x \<Longrightarrow> erase_first P (xs @ [x]) = xs"
  by (induction xs) auto

lemma erase_first_length:
  "list_ex P xs \<Longrightarrow> length (filter P (erase_first P xs)) = length (filter P xs) - 1"
  by (induction xs) (auto simp: list_ex_iff filter_empty_conv Suc_diff_le length_greater_0_conv [symmetric]
      simp del: length_greater_0_conv)

text \<open>
  Removing a collection entry: without a matching entry it reports false and runs no
  statement; otherwise the verdict is the server's, and exactly one matching entry, the
  first, leaves the cache when the server accepted, although the statement deletes every
  matching row.
\<close>

theorem removeOneCollectInfo_first:
  "removeOneCollectInfo A uid ti ty u =
     (if \<not> list_ex (collects uid ti ty) (m_cacheCollectInfo u) then Inr (False, u)
      else rbind (Excute A (remove_collect_sql uid ti ty) (um_db u)) (\<lambda>(ok, d).
        Inr (ok, u\<lparr>um_db := d, m_cacheCollectInfo :=
          (if ok then erase_first (collects uid ti ty) (m_cacheCollectInfo u) else m_cacheCollectInfo u)\<rparr>)))
   \<and> (list_ex (collects uid ti ty) (m_cacheCollectInfo u) \<longrightarrow>
        length (filter (collects uid ti ty) (erase_first (collects uid ti ty) (m_cacheCollectInfo u)))
        = length (filter (collects uid ti ty) (m_cacheCollectInfo u)) - 1)"
proof (cases "Excute A (remove_collect_sql uid ti ty) (um_db u)")
  case (Inr r)
  obtain ok d where "r = (ok, d)" by (cases r)
  with Inr show ?thesis
    by (cases ok) (simp_all add: removeOneCollectInfo_def insert_cached_def sbind_def run_db_def erase_first_length)
qed (simp add: removeOneCollectInfo_def insert_cached_def sbind_def run_db_def erase_first_length)

text \<open>
  Collecting an asset that was not collected and removing it again leaves the cache
  of collections as it was.
\<close>

theorem collect_then_remove:
  assumes "addCollectInfoFromDB A i uid ty ti u = Inr (True, u1)"
    and "removeOneCollectInfo A uid ti ty u1 = Inr (True, u2)"
    and "\<not> list_ex (collects uid ti ty) (m_cacheCollectInfo u)"
  shows "m_cacheCollectInfo u2 = m_cacheCollectInfo u"
proof -
  let ?x = "\<lparr>c_id = i, c_uID = uid, c_assetsType = ty, c_assetsTitle = ti\<rparr>"
  have c1: "m_cacheCollectInfo u1 = m_cacheCollectInfo u @ [?x]"
    using collections.add_cache [of A ?x u True u1] assms(1) by simp
  have "m_cacheCollectInfo u2 = erase_first (collects uid ti ty) (m_cacheCollectInfo u1)"
    using assms(2) by (auto simp: removeOneCollectInfo_def insert_cached_Inr split: if_splits)
  also have "\<dots> = m_cacheCollectInfo u"
    unfolding c1 by (rule erase_first_append_new [OF assms(3)]) (simp add: collects_def)
  finally show ?thesis .
qed

definition demo_collect :: collectInfo where
  "demo_collect = \<lparr>c_id = ''1'', c_uID = ''9'', c_assetsType = ''video'', c_assetsTitle = ''t''\<rparr>"

theorem removeOneCollectInfo_first_witness:
  "removeOneCollectInfo demo_api ''9'' ''t'' ''video'' (demo_um\<lparr>m_cacheCollectInfo := [demo_collect, demo_collect]\<rparr>)
   = Inr (True, demo_um\<lparr>um_db := demo_mgr\<lparr>mgr_world := [c_str (remove_collect_sql ''9'' ''t'' ''video'')]\<rparr>,
        m_cacheCollectInfo := [demo_collect]\<rparr>)"
  using removeOneCollectInfo_first [of demo_api "''9''" "''t''" "''video''"
      "demo_um\<lparr>m_cacheCollectInfo := [demo_collect, demo_collect]\<rparr>"]
  by (simp add: demo_api_def demo_Excute collects_def demo_collect_def) (simp add: demo_mgr_def)

theorem collect_then_remove_witness:
  "\<exists>u1 u2. addCollectInfoFromDB demo_api ''1'' ''9'' ''video'' ''t'' demo_um = Inr (True, u1)
    \<and> removeOneCollectInfo demo_api ''9'' ''t'' ''video'' u1 = Inr (True, u2) \<and> m_cacheCollectInfo u2 = []"
proof -
  obtain u1 where u1: "addCollectInfoFromDB demo_api ''1'' ''9'' ''video'' ''t'' demo_um = Inr (True, u1)"
      "m_cacheCollectInfo u1 = [demo_collect]" "mgr_mysql (um_db u1) = Some demo_tool"
    by (simp add: addCollectInfoFromDB_def insert_cached_Inr demo_api_def demo_Excute)
      (simp add: demo_um_def UserManager_new_def demo_collect_def)
  obtain u2 where u2: "removeOneCollectInfo demo_api ''9'' ''t'' ''video'' u1 = Inr (True, u2)"
    using u1(2,3)
    by (simp add: removeOneCollectInfo_def insert_cached_Inr demo_api_def demo_Excute collects_def demo_collect_def)
  have "m_cacheCollectInfo demo_um = []" by (simp add: demo_um_def UserManager_new_def)
  with collect_then_remove [OF u1(1) u2] u1(1) u2 show ?thesis by simp
qed

end
