(* ===== verification/Client_Session.thy ===== *)
theory Client_Session
  imports User_Manager Json_Writer
begin

text \<open>
  \<^verbatim>\<open>ClientSession\<close> (ClientSession.h, ClientSession.cpp): the handlers of the JSON messages
  a client sends. The state of a session has the texts sent on its connection, oldest
  first, and the user manager, a singleton in the source. Console output is left out.

  Texts are read and written by the definitions of \<open>Json_Reader\<close> and \<open>Json_Writer\<close>; the clock, the conversion to local time and
  the draws of a freshly seeded generator are the argument \<open>clock_env\<close>, one value per call
  of a handler, since a handler makes at most one identifier.
\<close>

section \<open>Messages\<close>

text \<open>The enumerators of \<^verbatim>\<open>rInfoType\<close> and the one of \<^verbatim>\<open>lFileType\<close> in use.\<close>

definition MSG_type_heartbeat :: int where "MSG_type_heartbeat = 100"
definition MSG_type_login :: int where "MSG_type_login = 101"
definition MSG_type_register :: int where "MSG_type_register = 102"
definition MSG_type_upload_video :: int where "MSG_type_upload_video = 103"
definition MSG_type_upload_audio :: int where "MSG_type_upload_audio = 104"
definition MSG_type_upload_text :: int where "MSG_type_upload_text = 105"
definition MSG_type_loadInfo_history :: int where "MSG_type_loadInfo_history = 106"
definition MSG_type_loadInfo_dynamic :: int where "MSG_type_loadInfo_dynamic = 107"
definition MSG_type_loadInfo_normal :: int where "MSG_type_loadInfo_normal = 108"
definition MSG_type_loadInfo_collect :: int where "MSG_type_loadInfo_collect = 109"
definition MSG_type_loadInfo_search :: int where "MSG_type_loadInfo_search = 110"
definition MSG_type_add_history :: int where "MSG_type_add_history = 111"
definition MSG_type_add_collect :: int where "MSG_type_add_collect = 112"
definition F_TYPE_IMG :: int where "F_TYPE_IMG = 300"

lemmas MSG_type_defs =
  MSG_type_heartbeat_def MSG_type_login_def MSG_type_register_def MSG_type_upload_video_def
  MSG_type_upload_audio_def MSG_type_upload_text_def MSG_type_loadInfo_history_def
  MSG_type_loadInfo_dynamic_def MSG_type_loadInfo_normal_def MSG_type_loadInfo_collect_def
  MSG_type_loadInfo_search_def MSG_type_add_history_def MSG_type_add_collect_def

section \<open>Identifiers\<close>

record tm =
  tm_year :: int
  tm_mon :: int
  tm_mday :: int
  tm_hour :: int
  tm_min :: int
  tm_sec :: int

record clock_env =
  env_now :: int \<comment> \<open>\<^verbatim>\<open>system_clock::now()\<close> in seconds\<close>
  env_time :: int \<comment> \<open>\<^verbatim>\<open>time(nullptr)\<close>, the seed\<close>
  env_localtime :: "int \<Rightarrow> tm"
  env_draw :: "int \<Rightarrow> nat \<Rightarrow> nat" \<comment> \<open>the draws between 0 and 15 for a seed\<close>

definition type_letter :: "string \<Rightarrow> string" where
  "type_letter t_type =
     (if t_type = ''user'' then ''u'' else if t_type = ''video'' then ''v''
      else if t_type = ''audio'' then ''a'' else if t_type = ''text'' then ''t''
      else if t_type = ''browse'' then ''b'' else if t_type = ''collect'' then ''c'' else [])"

definition time_string :: "tm \<Rightarrow> string" where
  "time_string t =
     to_string_int (tm_year t + 1900) @ to_string_int (tm_mon t + 1) @ to_string_int (tm_mday t)
     @ to_string_int (tm_hour t) @ to_string_int (tm_min t) @ to_string_int (tm_sec t)"

definition rand_char :: "nat \<Rightarrow> char" where
  "rand_char n = (if n \<ge> 10 then char_of (97 + (n - 10)) else char_of (48 + n))"

definition getTableID :: "clock_env \<Rightarrow> string \<Rightarrow> string" where
  "getTableID E t_type =
     type_letter t_type @ time_string (env_localtime E (env_now E))
     @ map (\<lambda>i. rand_char (env_draw E (env_time E) i)) [0..<4]"

section \<open>Sessions\<close>

record 'w ClientSession =
  m_sessionid :: string
  m_seq :: int
  cs_user :: User
  m_conn_out :: "string list" \<comment> \<open>what has been sent on \<^verbatim>\<open>m_conn\<close>\<close>
  cs_um :: "'w UserManager"

definition ClientSession_new :: "string \<Rightarrow> 'w UserManager \<Rightarrow> 'w ClientSession" where
  \<comment> \<open>the identifier is the printed address of the connection\<close>
  "ClientSession_new addr um =
     \<lparr>m_sessionid = addr, m_seq = 0, cs_user = User_new, m_conn_out = [], cs_um = um\<rparr>"

definition UserID :: "'w ClientSession \<Rightarrow> 32 word" where
  "UserID s = userid (cs_user s)"

definition conn_send :: "string \<Rightarrow> ('w ClientSession, unit) op" where
  "conn_send msg = smodify (\<lambda>s. s\<lparr>m_conn_out := m_conn_out s @ [msg]\<rparr>)"

definition run_um :: "('w UserManager, 'a) op \<Rightarrow> ('w ClientSession, 'a) op" where
  "run_um f s = rbind (f (cs_um s)) (\<lambda>(a, u). Inr (a, s\<lparr>cs_um := u\<rparr>))"

definition get_member :: "json_lib \<Rightarrow> json \<Rightarrow> string \<Rightarrow> string res" where
  \<comment> \<open>\<^verbatim>\<open>root[key].asString()\<close>\<close>
  "get_member L rt key = rbind (json_at rt key) (asString L)"

definition send_json :: "json_lib \<Rightarrow> json res \<Rightarrow> string \<Rightarrow> ('w ClientSession, unit) op" where
  \<comment> \<open>\<^verbatim>\<open>StyledWriter::write\<close>, the appended text, and the send\<close>
  "send_json L j suffix = sbind (slift j) (\<lambda>v. conn_send (jl_write L v @ suffix))"

definition with_parsed ::
    "json_lib \<Rightarrow> string \<Rightarrow> (json \<Rightarrow> ('w ClientSession, unit) op) \<Rightarrow> ('w ClientSession, unit) op" where
  \<comment> \<open>the head of every handler: \<^verbatim>\<open>if(!reader.parse(data, rt)) return;\<close>\<close>
  "with_parsed L data f = sbind (slift (jl_parse L data)) (\<lambda>(ok, rt). if \<not> ok then sret () else f rt)"

fun rmap :: "('a \<Rightarrow> 'b res) \<Rightarrow> 'a list \<Rightarrow> 'b list res" where
  "rmap f [] = Inr []"
| "rmap f (x # xs) = rbind (f x) (\<lambda>y. rbind (rmap f xs) (\<lambda>ys. Inr (y # ys)))"

definition crlf :: string where "crlf = [CHR 0x0D, CHR 0x0A]"

section \<open>Registration and login\<close>

definition OnRegisterResponse ::
    "'w mysql_api \<Rightarrow> json_lib \<Rightarrow> clock_env \<Rightarrow> string \<Rightarrow> ('w ClientSession, unit) op" where
  "OnRegisterResponse A L E data =
     with_parsed L data (\<lambda>jsonRoot.
       sbind (slift (get_member L jsonRoot ''username'')) (\<lambda>name.
       sbind (slift (get_member L jsonRoot ''password'')) (\<lambda>pw.
       sbind (slift (get_member L jsonRoot ''filePath'')) (\<lambda>face.
       sbind (slift (rbind (json_at jsonRoot ''user_sex'') asBool)) (\<lambda>sx.
       sbind (run_um (AddUser A (User_new\<lparr>username := name, password := pw, u_ID := getTableID E ''user'',
           custimface := face, sex := sx\<rparr>))) (\<lambda>(ok, _).
         send_json L (json_puts [(''msgType'', JInt MSG_type_register),
           (''responsesState'', JInt (if \<not> ok then 0 else 1))] JNull) []))))))"

definition video_json :: "videoInfo \<Rightarrow> json res" where
  "video_json i =
     json_puts [(''fileData'', JString (v_filePath i)), (''courses'', JString (v_courses i)),
       (''title'', JString (v_title i)), (''synopsis'', JString (v_synopsis i)),
       (''upName'', JString (v_upName i)), (''headImgPath'', JString (v_headImgPath i))] JNull"

definition audio_json :: "audioInfo \<Rightarrow> json res" where
  "audio_json i =
     json_puts [(''fileData'', JString (a_filePath i)), (''courses'', JString (a_courses i)),
       (''title'', JString (a_title i)), (''upName'', JString (a_upName i)),
       (''headImgPath'', JString (a_headImgPath i))] JNull"

definition word_json :: "wordInfo \<Rightarrow> json res" where
  "word_json i =
     json_puts [(''fileData'', JString (fileData i)), (''courses'', JString (coursesStr i)),
       (''title'', JString (title i)), (''upName'', JString (upName i))] JNull"

definition model_json :: "string \<Rightarrow> json list \<Rightarrow> json res" where
  "model_json kind infos =
     rbind (json_appends infos JNull) (\<lambda>data.
       json_puts [(''fileType'', JString kind), (''data'', data)] JNull)"

definition assets_json :: "int \<Rightarrow> assets \<Rightarrow> json res" where
  \<comment> \<open>the message with the three lists, the common tail of the four list handlers\<close>
  "assets_json msgType = (\<lambda>(v_list, a_list, t_list).
     rbind (rmap video_json v_list) (\<lambda>vInfo.
     rbind (rmap audio_json a_list) (\<lambda>aInfo.
     rbind (rmap word_json t_list) (\<lambda>tInfo.
     rbind (model_json ''video'' vInfo) (\<lambda>v_model.
     rbind (model_json ''audio'' aInfo) (\<lambda>a_model.
     rbind (model_json ''text'' tInfo) (\<lambda>t_model.
     rbind (json_appends [v_model, a_model, t_model] JNull) (\<lambda>modelInfo.
       json_puts [(''msgType'', JInt msgType), (''modelInfo'', modelInfo)] JNull))))))))"

definition OnGetNotmalInfoResponse :: "json_lib \<Rightarrow> string \<Rightarrow> ('w ClientSession, unit) op" where
  "OnGetNotmalInfoResponse L data =
     sbind (sget (\<lambda>s. cached_assets (cs_um s))) (\<lambda>lists.
       send_json L (assets_json MSG_type_loadInfo_normal lists) [])"

definition OnGetDynamicInfoResponse :: "json_lib \<Rightarrow> string \<Rightarrow> ('w ClientSession, unit) op" where
  "OnGetDynamicInfoResponse L data =
     with_parsed L data (\<lambda>rt.
       sbind (slift (get_member L rt ''username'')) (\<lambda>userName.
       sbind (sget (\<lambda>s. GetDynamicInfoFromDB ([], [], []) userName (cs_um s))) (\<lambda>lists.
         send_json L (assets_json MSG_type_loadInfo_dynamic lists) crlf)))"

definition OnGetCollectInfoResponse ::
    "'w mysql_api \<Rightarrow> json_lib \<Rightarrow> string \<Rightarrow> ('w ClientSession, unit) op" where
  "OnGetCollectInfoResponse A L data =
     with_parsed L data (\<lambda>rt.
       sbind (slift (get_member L rt ''username'')) (\<lambda>userName.
       sbind (run_um (GetCollectInfoFromDB A ([], [], []) userName)) (\<lambda>(_, lists).
         send_json L (assets_json MSG_type_loadInfo_collect lists) crlf)))"

definition OnGetHistoryInfoResponse ::
    "'w mysql_api \<Rightarrow> json_lib \<Rightarrow> string \<Rightarrow> ('w ClientSession, unit) op" where
  "OnGetHistoryInfoResponse A L data =
     with_parsed L data (\<lambda>rt.
       sbind (slift (get_member L rt ''username'')) (\<lambda>userName.
       sbind (run_um (GetHistoryInfoFromDB A ([], [], []) userName)) (\<lambda>(_, lists).
         send_json L (assets_json MSG_type_loadInfo_history lists) crlf)))"

definition OnGetSearchInfoResponse :: "json_lib \<Rightarrow> string \<Rightarrow> ('w ClientSession, unit) op" where
  "OnGetSearchInfoResponse L data =
     with_parsed L data (\<lambda>rt. sbind (slift (get_member L rt ''searchInfo'')) (\<lambda>_. sret ()))"

definition login_state :: "string \<Rightarrow> string \<Rightarrow> User option \<Rightarrow> int" where
  "login_state userName pw found =
     (let us = (case found of None \<Rightarrow> User_new | Some u \<Rightarrow> u);
          l_state = (if found = None then 0 else - 1)
      in if userName = username us \<and> pw = password us then 1 else l_state)"

definition login_json :: "int \<Rightarrow> User \<Rightarrow> json res" where
  "login_json l_state us =
     json_puts [(''msgType'', JInt MSG_type_login), (''responsesState'', JInt l_state),
       (''username'', JString (username us)), (''user_sex'', JBool (sex us)),
       (''filePath'', JString (custimface us)), (''filetype'', JInt F_TYPE_IMG)] JNull"

definition OnLoginResponse ::
    "'w mysql_api \<Rightarrow> json_lib \<Rightarrow> string \<Rightarrow> ('w ClientSession, unit) op" where
  "OnLoginResponse A L data =
     with_parsed L data (\<lambda>jsonRoot.
       sbind (slift (get_member L jsonRoot ''username'')) (\<lambda>userName.
       sbind (slift (get_member L jsonRoot ''password'')) (\<lambda>pw.
       sbind (sget (\<lambda>s. GetUserInfoByUsername userName (cs_um s))) (\<lambda>found.
       let us = (case found of None \<Rightarrow> User_new | Some u \<Rightarrow> u)
       in sbind (send_json L (login_json (login_state userName pw found) us) []) (\<lambda>_.
          sbind (slift (json_puts [(''username'', JString (username us))] JNull)) (\<lambda>uNameJson.
          let uJsonStr = jl_write L uNameJson
          in sbind (OnGetDynamicInfoResponse L uJsonStr) (\<lambda>_.
             sbind (OnGetHistoryInfoResponse A L uJsonStr) (\<lambda>_.
               OnGetCollectInfoResponse A L uJsonStr))))))))"

section \<open>Uploads\<close>

definition uploader :: "string \<Rightarrow> ('w ClientSession, User) op" where
  \<comment> \<open>the lookup of the uploading user; an unknown one leaves the default\<close>
  "uploader name = sget (\<lambda>s. case GetUserInfoByUsername name (cs_um s) of None \<Rightarrow> User_new | Some u \<Rightarrow> u)"

definition OnUploadTextResponse ::
    "'w mysql_api \<Rightarrow> json_lib \<Rightarrow> clock_env \<Rightarrow> string \<Rightarrow> ('w ClientSession, unit) op" where
  "OnUploadTextResponse A L E data =
     with_parsed L data (\<lambda>jsonRoot.
       sbind (slift (get_member L jsonRoot ''username'')) (\<lambda>name.
       sbind (slift (get_member L jsonRoot ''fileType'')) (\<lambda>type.
       sbind (uploader name) (\<lambda>u.
       sbind (slift (get_member L jsonRoot ''fileData'')) (\<lambda>fd.
       sbind (slift (get_member L jsonRoot ''courses'')) (\<lambda>cs.
       sbind (slift (get_member L jsonRoot ''title'')) (\<lambda>ti.
       sbind (run_um (addWordInfoFromDB A \<lparr>uID = u_ID u, t_id = getTableID E type, title = ti,
           upName = name, coursesStr = cs, fileData = fd\<rparr>)) (\<lambda>ok.
         send_json L (json_puts ([(''msgType'', JInt MSG_type_upload_text),
             (''responsesState'', JInt (if ok then 1 else 0))]
           @ (if ok then [(''title'', JString ti), (''courses'', JString cs), (''fileData'', JString fd),
                          (''username'', JString name)] else [])) JNull) []))))))))"

definition OnUploadAudioResponse ::
    "'w mysql_api \<Rightarrow> json_lib \<Rightarrow> clock_env \<Rightarrow> string \<Rightarrow> ('w ClientSession, unit) op" where
  "OnUploadAudioResponse A L E data =
     with_parsed L data (\<lambda>jsonRoot.
       sbind (slift (get_member L jsonRoot ''username'')) (\<lambda>name.
       sbind (slift (get_member L jsonRoot ''fileType'')) (\<lambda>type.
       sbind (uploader name) (\<lambda>u.
       sbind (slift (get_member L jsonRoot ''courses'')) (\<lambda>cs.
       sbind (slift (get_member L jsonRoot ''fileData'')) (\<lambda>fd.
       sbind (slift (get_member L jsonRoot ''headImgPath'')) (\<lambda>hd.
       sbind (slift (get_member L jsonRoot ''title'')) (\<lambda>ti.
       sbind (run_um (addAudioInfoFromDB A \<lparr>a_id = getTableID E type, a_upName = name, a_title = ti,
           a_filePath = fd, a_headImgPath = hd, a_courses = cs, a_uID = u_ID u\<rparr>)) (\<lambda>ok.
         send_json L (json_puts ([(''msgType'', JInt MSG_type_upload_audio),
             (''responsesState'', JInt (if ok then 1 else 0))]
           @ (if ok then [(''title'', JString ti), (''courses'', JString cs), (''fileData'', JString fd),
                          (''headImgPath'', JString hd), (''username'', JString name)] else [])) JNull)
           [])))))))))"

definition OnUploadVideoResponse ::
    "'w mysql_api \<Rightarrow> json_lib \<Rightarrow> clock_env \<Rightarrow> string \<Rightarrow> ('w ClientSession, unit) op" where
  "OnUploadVideoResponse A L E data =
     with_parsed L data (\<lambda>jsonRoot.
       sbind (slift (get_member L jsonRoot ''username'')) (\<lambda>name.
       sbind (slift (get_member L jsonRoot ''fileType'')) (\<lambda>type.
       sbind (uploader name) (\<lambda>u.
       sbind (slift (get_member L jsonRoot ''courses'')) (\<lambda>cs.
       sbind (slift (get_member L jsonRoot ''fileData'')) (\<lambda>fd.
       sbind (slift (get_member L jsonRoot ''headImgPath'')) (\<lambda>hd.
       sbind (slift (get_member L jsonRoot ''title'')) (\<lambda>ti.
       sbind (slift (get_member L jsonRoot ''synopsis'')) (\<lambda>sy.
       sbind (run_um (addVideoInfoFromDB A \<lparr>v_id = getTableID E type, v_upName = name, v_title = ti,
           v_filePath = fd, v_headImgPath = hd, v_courses = cs, v_synopsis = sy, v_uID = u_ID u\<rparr>)) (\<lambda>ok.
         send_json L (json_puts ([(''msgType'', JInt MSG_type_upload_video),
             (''responsesState'', JInt (if ok then 1 else 0))]
           @ (if ok then [(''title'', JString ti), (''courses'', JString cs), (''fileData'', JString fd),
                          (''headImgPath'', JString hd), (''username'', JString name),
                          (''synopsis'', JString sy)] else [])) JNull) []))))))))))"

section \<open>Collections and history\<close>

definition OnAddCollectInfoResponse ::
    "'w mysql_api \<Rightarrow> json_lib \<Rightarrow> clock_env \<Rightarrow> string \<Rightarrow> ('w ClientSession, unit) op" where
  "OnAddCollectInfoResponse A L E data =
     with_parsed L data (\<lambda>JsonRoot.
       sbind (slift (get_member L JsonRoot ''username'')) (\<lambda>name.
       sbind (sget (\<lambda>s. GetUserInfoByUsername name (cs_um s))) (\<lambda>found.
       case found of
         None \<Rightarrow> send_json L (json_puts [(''msgType'', JInt MSG_type_add_collect),
             (''responsesState'', JInt (- 1))] JNull) []
       | Some u \<Rightarrow>
           sbind (slift (get_member L JsonRoot ''title'')) (\<lambda>ti.
           sbind (slift (get_member L JsonRoot ''fileType'')) (\<lambda>ty.
           sbind (slift (rbind (json_at JsonRoot ''collectState'') asInt)) (\<lambda>c_State.
           sbind (run_um (if c_State > 0 then addCollectInfoFromDB A (getTableID E ''collect'') (u_ID u) ty ti
                          else removeOneCollectInfo A (u_ID u) ti ty)) (\<lambda>isOK.
             send_json L (json_puts ([(''msgType'', JInt MSG_type_add_collect)]
               @ (if isOK then [(''title'', JString ti), (''fileType'', JString ty),
                                (''username'', JString name), (''collectState'', JInt c_State)] else [])
               @ [(''responsesState'', JInt (if isOK then 1 else - 1))]) JNull) [])))))))"

definition OnAddHistoryInfoResponse ::
    "'w mysql_api \<Rightarrow> json_lib \<Rightarrow> clock_env \<Rightarrow> string \<Rightarrow> ('w ClientSession, unit) op" where
  "OnAddHistoryInfoResponse A L E data =
     with_parsed L data (\<lambda>JsonRoot.
       sbind (slift (get_member L JsonRoot ''username'')) (\<lambda>name.
       sbind (sget (\<lambda>s. GetUserInfoByUsername name (cs_um s))) (\<lambda>found.
       case found of
         None \<Rightarrow> send_json L (json_puts [(''msgType'', JInt MSG_type_add_history),
             (''responsesState'', JInt (- 1))] JNull) []
       | Some u \<Rightarrow>
           sbind (slift (get_member L JsonRoot ''title'')) (\<lambda>ti.
           sbind (slift (get_member L JsonRoot ''fileType'')) (\<lambda>ty.
           sbind (run_um (addBrowseInfoFromDB A (getTableID E ''browse'') (u_ID u) ty ti)) (\<lambda>isOK.
             send_json L (json_puts ([(''msgType'', JInt MSG_type_add_history)]
               @ (if isOK then [(''title'', JString ti), (''fileType'', JString ty),
                                (''username'', JString name)] else [])
               @ [(''responsesState'', JInt (if isOK then 1 else - 1))]) JNull) []))))))"

section \<open>Dispatch\<close>

text \<open>Handlers with an empty body.\<close>

definition OnHeartbeatResponse :: "string \<Rightarrow> ('w ClientSession, unit) op" where
  "OnHeartbeatResponse data = sret ()"
definition OnFindResourceResponse :: "string \<Rightarrow> ('w ClientSession, unit) op" where
  "OnFindResourceResponse data = sret ()"
definition OnUpdateUserInfoResponse :: "string \<Rightarrow> ('w ClientSession, unit) op" where
  "OnUpdateUserInfoResponse data = sret ()"
definition OnModifyPasswordResponse :: "string \<Rightarrow> ('w ClientSession, unit) op" where
  "OnModifyPasswordResponse data = sret ()"
definition OnChatResponse :: "string \<Rightarrow> ('w ClientSession, unit) op" where
  "OnChatResponse data = sret ()"

definition dispatch ::
    "'w mysql_api \<Rightarrow> json_lib \<Rightarrow> clock_env \<Rightarrow> int \<Rightarrow> string \<Rightarrow> ('w ClientSession, unit) op" where
  \<comment> \<open>the switch of \<^verbatim>\<open>Process\<close>\<close>
  "dispatch A L E cmd msgbuff =
     (if cmd = MSG_type_heartbeat then OnHeartbeatResponse msgbuff
      else if cmd = MSG_type_login then OnLoginResponse A L msgbuff
      else if cmd = MSG_type_register then OnRegisterResponse A L E msgbuff
      else if cmd = MSG_type_upload_text then OnUploadTextResponse A L E msgbuff
      else if cmd = MSG_type_upload_audio then OnUploadAudioResponse A L E msgbuff
      else if cmd = MSG_type_upload_video then OnUploadVideoResponse A L E msgbuff
      else if cmd = MSG_type_loadInfo_normal then OnGetNotmalInfoResponse L msgbuff
      else if cmd = MSG_type_loadInfo_dynamic then OnGetDynamicInfoResponse L msgbuff
      else if cmd = MSG_type_loadInfo_history then OnGetHistoryInfoResponse A L msgbuff
      else if cmd = MSG_type_loadInfo_collect then OnGetCollectInfoResponse A L msgbuff
      else if cmd = MSG_type_loadInfo_search then OnGetSearchInfoResponse L msgbuff
      else if cmd = MSG_type_add_collect then OnAddCollectInfoResponse A L E msgbuff
      else if cmd = MSG_type_add_history then OnAddHistoryInfoResponse A L E msgbuff
      else sret ())"

definition Process ::
    "'w mysql_api \<Rightarrow> json_lib \<Rightarrow> clock_env \<Rightarrow> string \<Rightarrow> ('w ClientSession, bool) op" where
  \<comment> \<open>a failed parse is only logged; the value it left is used\<close>
  "Process A L E msgbuff =
     sbind (slift (jl_parse L msgbuff)) (\<lambda>(_, jsonData).
     sbind (slift (rbind (json_at jsonData ''msgType'') asInt)) (\<lambda>cmd.
     sbind (dispatch A L E cmd msgbuff) (\<lambda>_. sret True)))"

definition OnRead ::
    "'w mysql_api \<Rightarrow> json_lib \<Rightarrow> clock_env \<Rightarrow> string \<Rightarrow> ('w ClientSession, bool) op" where
  \<comment> \<open>the whole readable part of the buffer is one message; the result says whether the
    connection is kept\<close>
  "OnRead A L E readable = Process A L E readable"

section \<open>Replies\<close>

definition reply :: "json_lib \<Rightarrow> json res \<Rightarrow> string" where
  \<comment> \<open>the text of a message that could be built\<close>
  "reply L r = (case r of Inl _ \<Rightarrow> [] | Inr j \<Rightarrow> jl_write L j)"

lemma json_puts_total: "\<exists>j. json_puts kvs JNull = Inr j"
  using json_puts_indexable [of JNull kvs] by auto

lemma rmap_total: "(\<And>x. \<exists>y. f x = Inr y) \<Longrightarrow> \<exists>ys. rmap f xs = Inr ys"
proof (induction xs)
  case (Cons x xs)
  then obtain y ys where "f x = Inr y" "rmap f xs = Inr ys" by blast
  then show ?case by simp
qed simp

lemma info_json_total: "\<exists>j. video_json v = Inr j" "\<exists>j. audio_json a = Inr j" "\<exists>j. word_json t = Inr j"
  by (simp_all only: video_json_def audio_json_def word_json_def json_puts_total)

lemma model_json_total: "\<exists>j. model_json k infos = Inr j"
  using json_puts_total by (simp only: model_json_def json_appends_null rbind_Inr)

lemma assets_json_total: "\<exists>j. assets_json t ls = Inr j"
proof -
  obtain v a w where l: "ls = (v, a, w)" by (cases ls)
  obtain vi where vi: "rmap video_json v = Inr vi" using rmap_total [of video_json v, OF info_json_total(1)] by blast
  obtain ai where ai: "rmap audio_json a = Inr ai" using rmap_total [of audio_json a, OF info_json_total(2)] by blast
  obtain wi where wi: "rmap word_json w = Inr wi" using rmap_total [of word_json w, OF info_json_total(3)] by blast
  obtain vm am wm where m: "model_json ''video'' vi = Inr vm" "model_json ''audio'' ai = Inr am"
      "model_json ''text'' wi = Inr wm"
    using model_json_total [of "''video''" vi] model_json_total [of "''audio''" ai]
      model_json_total [of "''text''" wi] by blast
  have "\<exists>j. json_puts [(''msgType'', JInt t), (''modelInfo'', JArray [vm, am, wm])] JNull = Inr j"
    by (rule json_puts_total)
  then show ?thesis by (simp only: assets_json_def l prod.case vi ai wi m rbind_Inr json_appends_null) simp
qed

lemma send_json_total:
  "\<exists>j. r = Inr j \<Longrightarrow> send_json L r suffix s
     = Inr ((), s\<lparr>m_conn_out := m_conn_out s @ [reply L r @ suffix]\<rparr>)"
  by (auto simp: send_json_def conn_send_def reply_def)

lemmas send_json_puts [simp] = send_json_total [OF json_puts_total]
lemmas send_assets [simp] = send_json_total [OF assets_json_total]

lemma run_um_eval:
  "f (cs_um s) = Inr (a, u) \<Longrightarrow> run_um f s = Inr (a, s\<lparr>cs_um := u\<rparr>)"
  by (simp add: run_um_def)

section \<open>Login\<close>

lemma login_state_iff:
  "login_state name pw (GetUserInfoByUsername name u) = 1 \<longleftrightarrow>
   (case GetUserInfoByUsername name u of
      Some us \<Rightarrow> password us = pw
    | None \<Rightarrow> name = [] \<and> pw = [])"
proof (cases "GetUserInfoByUsername name u")
  case (Some us)
  then have "username us = name" by (auto simp: GetUserInfoByUsername_def find_Some_iff)
  with Some show ?thesis by (auto simp: login_state_def)
qed (auto simp: login_state_def User_new_def)

definition known_user :: "string \<Rightarrow> 'w UserManager \<Rightarrow> User" where
  "known_user name u = (case GetUserInfoByUsername name u of None \<Rightarrow> User_new | Some us \<Rightarrow> us)"

definition username_json :: "string \<Rightarrow> json" where
  "username_json n = JObject [(''username'', JString n)]"

lemma username_json_puts: "json_puts [(''username'', JString n)] JNull = Inr (username_json n)"
  by (simp add: json_put_def resolveReference_def username_json_def)

lemma username_json_read: "utf8_string n \<Longrightarrow> jl_parse L (jl_write L (username_json n)) = Inr (True, username_json n)"
  using written_then_read [of "username_json n"]
  by (simp add: username_json_def smap_ok_def ascii_utf8_string stackLimit_g_def)

lemma get_member_username: "get_member L (username_json n) ''username'' = Inr n"
  by (simp add: get_member_def username_json_def json_at_eq)

lemma OnLoginResponse_eq:
  assumes "jl_parse L data = Inr (True, rt)"
    and "get_member L rt ''username'' = Inr name" and "get_member L rt ''password'' = Inr pw"
    and "utf8_string (username (known_user name (cs_um s)))"
    and "GetHistoryInfoFromDB A ([], [], []) (username (known_user name (cs_um s))) (cs_um s) = Inr ((h, hist), u1)"
    and "GetCollectInfoFromDB A ([], [], []) (username (known_user name (cs_um s))) u1 = Inr ((c, coll), u2)"
  shows "OnLoginResponse A L data s = Inr ((), s\<lparr>cs_um := u2, m_conn_out := m_conn_out s @
      [reply L (login_json (login_state name pw (GetUserInfoByUsername name (cs_um s))) (known_user name (cs_um s))),
       reply L (assets_json MSG_type_loadInfo_dynamic
         (GetDynamicInfoFromDB ([], [], []) (username (known_user name (cs_um s))) (cs_um s))) @ crlf,
       reply L (assets_json MSG_type_loadInfo_history hist) @ crlf,
       reply L (assets_json MSG_type_loadInfo_collect coll) @ crlf]\<rparr>)"
proof -
  let ?us = "known_user name (cs_um s)"
  have user: "(case GetUserInfoByUsername name (cs_um s) of None \<Rightarrow> User_new | Some u \<Rightarrow> u) = ?us"
    by (simp add: known_user_def)
  have login: "\<exists>j. login_json st us = Inr j" for st us
    by (simp only: login_json_def json_puts_total)
  note parse = username_json_read [OF assms(4), of L]
  have "OnLoginResponse A L data s =
      sbind (OnGetDynamicInfoResponse L (jl_write L (username_json (username ?us)))) (\<lambda>_.
      sbind (OnGetHistoryInfoResponse A L (jl_write L (username_json (username ?us)))) (\<lambda>_.
        OnGetCollectInfoResponse A L (jl_write L (username_json (username ?us)))))
      (s\<lparr>m_conn_out := m_conn_out s @
        [reply L (login_json (login_state name pw (GetUserInfoByUsername name (cs_um s))) ?us)]\<rparr>)"
    by (simp add: OnLoginResponse_def with_parsed_def assms(1-3) sbind_def user
        send_json_total [OF login] username_json_puts Let_def del: json_puts.simps)
  then show ?thesis
    using assms(5,6)
    by (simp add: OnGetDynamicInfoResponse_def OnGetHistoryInfoResponse_def OnGetCollectInfoResponse_def
        with_parsed_def parse get_member_username sbind_def run_um_def)
qed

text \<open>
  C2. A login message that names a user and a password is answered by four messages: the
  verdict with the user's data, and the dynamic, history and collection lists of that user.
  The verdict is 1 for the stored password of the first user of that name, and also for
  the empty name with the empty password when no user has the empty name. The lists follow
  whatever the verdict is; they are made by writing the user's name to a text and handing
  that text to three other handlers, which works for every name that is UTF-8.
\<close>

theorem OnLoginResponse_replies:
  assumes "jl_parse L data = Inr (True, rt)"
    and "get_member L rt ''username'' = Inr name" and "get_member L rt ''password'' = Inr pw"
    and "utf8_string (username (known_user name (cs_um s)))"
    and "GetHistoryInfoFromDB A ([], [], []) (username (known_user name (cs_um s))) (cs_um s) = Inr ((h, hist), u1)"
    and "GetCollectInfoFromDB A ([], [], []) (username (known_user name (cs_um s))) u1 = Inr ((c, coll), u2)"
  shows "OnLoginResponse A L data s = Inr ((), s\<lparr>cs_um := u2, m_conn_out := m_conn_out s @
      [reply L (login_json (login_state name pw (GetUserInfoByUsername name (cs_um s))) (known_user name (cs_um s))),
       reply L (assets_json MSG_type_loadInfo_dynamic
         (GetDynamicInfoFromDB ([], [], []) (username (known_user name (cs_um s))) (cs_um s))) @ crlf,
       reply L (assets_json MSG_type_loadInfo_history hist) @ crlf,
       reply L (assets_json MSG_type_loadInfo_collect coll) @ crlf]\<rparr>)
    \<and> (login_state name pw (GetUserInfoByUsername name (cs_um s)) = 1 \<longleftrightarrow>
        (case GetUserInfoByUsername name (cs_um s) of
           Some us \<Rightarrow> password us = pw
         | None \<Rightarrow> name = [] \<and> pw = []))"
  using OnLoginResponse_eq [OF assms] login_state_iff by blast

definition demo_lib :: json_lib where
  \<comment> \<open>doubles for the instances: none can be scanned, all print as 0\<close>
  "demo_lib = \<lparr>jl_scan = (\<lambda>_. (False, NaN)), jl_real = (\<lambda>_. ''0'')\<rparr>"

definition demo_message :: json where
  "demo_message = JObject [(''password'', JString ''pw''), (''user_sex'', JBool True),
     (''username'', JString ''ann'')]"

definition demo_text :: string where
  "demo_text = jl_write demo_lib demo_message"

lemma demo_text_read: "jl_parse demo_lib demo_text = Inr (True, demo_message)"
  using written_then_read [of demo_message]
  by (simp add: demo_text_def demo_message_def smap_ok_def ascii_utf8_string stackLimit_g_def less_char_def)

definition null_text :: string where
  "null_text = jl_write demo_lib JNull"

definition array_text :: string where
  "array_text = jl_write demo_lib (JArray [])"

lemma demo_texts_read:
  "jl_parse demo_lib null_text = Inr (True, JNull)" "jl_parse demo_lib array_text = Inr (True, JArray [])"
  using written_then_read [of JNull] written_then_read [of "JArray []"]
  by (simp_all add: null_text_def array_text_def stackLimit_g_def)

definition demo_session :: "string list ClientSession" where
  "demo_session = ClientSession_new ''0x1'' demo_um"

lemma demo_session_simps [simp]: "cs_um demo_session = demo_um" "m_conn_out demo_session = []"
  by (simp_all add: demo_session_def ClientSession_new_def)

lemma demo_um_no_user [simp]: "GetUserInfoByUsername name demo_um = None"
  by (simp add: demo_um_def UserManager_new_def GetUserInfoByUsername_def)

theorem OnLoginResponse_replies_witness:
  "\<exists>s'. OnLoginResponse demo_api demo_lib null_text demo_session = Inr ((), s')
    \<and> hd (m_conn_out s') = reply demo_lib (login_json 1 User_new) \<and> length (m_conn_out s') = 4"
proof -
  let ?L = demo_lib
  have m: "get_member ?L JNull ''username'' = Inr []" "get_member ?L JNull ''password'' = Inr []"
    by (simp_all add: get_member_def json_at_eq)
  have q: "GetHistoryInfoFromDB demo_api ([], [], []) n demo_um = Inr ((False, ([], [], [])), demo_um)"
    "GetCollectInfoFromDB demo_api ([], [], []) n demo_um = Inr ((False, ([], [], [])), demo_um)" for n
    by (simp_all add: GetHistoryInfoFromDB_def GetCollectInfoFromDB_def assets_of_rows_def)
  have "known_user [] demo_um = User_new" by (simp add: known_user_def)
  moreover have "login_state [] [] None = 1" by (simp add: login_state_def User_new_def)
  ultimately show ?thesis
    using OnLoginResponse_replies [of ?L null_text JNull "[]" "[]" demo_session demo_api False
        "([], [], [])" demo_um False "([], [], [])" demo_um] m q
    by (simp add: demo_texts_read ascii_utf8_string User_new_def)
qed

section \<open>Registration\<close>

definition new_user :: "clock_env \<Rightarrow> string \<Rightarrow> string \<Rightarrow> string \<Rightarrow> bool \<Rightarrow> User" where
  "new_user E name pw face sx =
     User_new\<lparr>username := name, password := pw, u_ID := getTableID E ''user'', custimface := face, sex := sx\<rparr>"

text \<open>
  C5. A registration whose statement the server accepts is answered with state 1, and a
  login with the registered name and password then has verdict 1, provided the name was
  not taken; with a taken name the first user's password decides as before.
\<close>

theorem register_then_login:
  assumes "jl_parse L data = Inr (True, rt)"
    and "get_member L rt ''username'' = Inr name" and "get_member L rt ''password'' = Inr pw"
    and "get_member L rt ''filePath'' = Inr face" and "rbind (json_at rt ''user_sex'') asBool = Inr sx"
    and "Excute A (add_user_sql (new_user E name pw face sx)) (um_db (cs_um s)) = Inr (True, d)"
  shows "\<exists>s'. OnRegisterResponse A L E data s = Inr ((), s')
    \<and> m_conn_out s' = m_conn_out s @ [reply L (json_puts
        [(''msgType'', JInt MSG_type_register), (''responsesState'', JInt 1)] JNull)]
    \<and> (GetUserInfoByUsername name (cs_um s) = None \<longrightarrow>
        login_state name pw (GetUserInfoByUsername name (cs_um s')) = 1)
    \<and> (\<forall>us. GetUserInfoByUsername name (cs_um s) = Some us \<longrightarrow>
        GetUserInfoByUsername name (cs_um s') = Some us)"
proof -
  let ?u = "new_user E name pw face sx"
  let ?um = "(cs_um s)\<lparr>m_baseUserID := m_baseUserID (cs_um s) + 1, um_db := d,
      m_cachedUsers := m_cachedUsers (cs_um s) @ [?u\<lparr>userid := m_baseUserID (cs_um s) + 1\<rparr>]\<rparr>"
  have add: "AddUser A ?u (cs_um s) = Inr ((True, ?u\<lparr>userid := m_baseUserID (cs_um s) + 1\<rparr>), ?um)"
    using assms(6) by (simp add: AddUser_eq Let_def)
  have "OnRegisterResponse A L E data s = Inr ((), s\<lparr>cs_um := ?um, m_conn_out := m_conn_out s @
      [reply L (json_puts [(''msgType'', JInt MSG_type_register), (''responsesState'', JInt 1)] JNull)]\<rparr>)"
    using add
    by (simp add: OnRegisterResponse_def with_parsed_def assms(1-5) new_user_def run_um_def sbind_def
        del: json_puts.simps)
  moreover have "GetUserInfoByUsername name ?um =
      (case GetUserInfoByUsername name (cs_um s) of
         Some us \<Rightarrow> Some us | None \<Rightarrow> Some (?u\<lparr>userid := m_baseUserID (cs_um s) + 1\<rparr>))"
    by (simp add: GetUserInfoByUsername_def find_append new_user_def split: option.split)
  ultimately show ?thesis
    by (auto simp: login_state_def new_user_def)
qed

definition demo_clock :: clock_env where
  "demo_clock = \<lparr>env_now = 0, env_time = 0,
     env_localtime = (\<lambda>_. \<lparr>tm_year = 70, tm_mon = 0, tm_mday = 1, tm_hour = 0, tm_min = 0, tm_sec = 0\<rparr>),
     env_draw = (\<lambda>_ i. i)\<rparr>"

theorem register_then_login_witness:
  "\<exists>s'. OnRegisterResponse demo_api demo_lib demo_clock demo_text demo_session = Inr ((), s')
    \<and> login_state ''ann'' ''pw'' (GetUserInfoByUsername ''ann'' (cs_um s')) = 1"
proof -
  let ?L = demo_lib
  have "get_member ?L demo_message ''username'' = Inr ''ann''" "get_member ?L demo_message ''password'' = Inr ''pw''"
    "get_member ?L demo_message ''filePath'' = Inr []" "rbind (json_at demo_message ''user_sex'') asBool = Inr True"
    by (simp_all add: get_member_def json_at_eq demo_message_def)
  moreover have "Excute demo_api sql demo_mgr = Inr (True, demo_mgr\<lparr>mgr_world := c_str sql # mgr_world demo_mgr\<rparr>)" for sql
    by (simp add: demo_api_def demo_Excute)
  ultimately show ?thesis
    using register_then_login [of ?L demo_text demo_message "''ann''" "''pw''" "[]" True demo_api demo_clock demo_session]
    by (auto simp: demo_text_read)
qed

section \<open>Uploads\<close>

definition has_members :: "json_lib \<Rightarrow> json \<Rightarrow> (string \<times> string) list \<Rightarrow> bool" where
  "has_members L rt kvs \<longleftrightarrow> list_all (\<lambda>(k, v). get_member L rt k = Inr v) kvs"

text \<open>
  A video upload that the server accepts is in the list that the next request for all
  assets returns, after the videos known before, under the id of the uploading user.
\<close>

theorem upload_then_listed:
  assumes "jl_parse L data = Inr (True, rt)"
    and "has_members L rt [(''username'', name), (''fileType'', ty), (''courses'', cs), (''fileData'', fd),
      (''headImgPath'', hi), (''title'', ti), (''synopsis'', sy)]"
    and "i = \<lparr>v_id = getTableID E ty, v_upName = name, v_title = ti, v_filePath = fd, v_headImgPath = hi,
      v_courses = cs, v_synopsis = sy, v_uID = u_ID (known_user name (cs_um s))\<rparr>"
    and "Excute A (add_video_sql i) (um_db (cs_um s)) = Inr (True, d)"
  shows "\<exists>s'. OnUploadVideoResponse A L E data s = Inr ((), s')
    \<and> OnGetNotmalInfoResponse L data' s' = Inr ((), s'\<lparr>m_conn_out := m_conn_out s' @
        [reply L (assets_json MSG_type_loadInfo_normal
          (m_cacheVideoInfo (cs_um s) @ [i], m_cacheAudioInfo (cs_um s), m_cacheWordInfo (cs_um s)))]\<rparr>)"
proof -
  let ?um = "(cs_um s)\<lparr>um_db := d, m_cacheVideoInfo := m_cacheVideoInfo (cs_um s) @ [i]\<rparr>"
  have add: "addVideoInfoFromDB A i (cs_um s) = Inr (True, ?um)"
    using assms(4) by (simp add: addVideoInfoFromDB_def insert_cached_Inr)
  have "\<exists>out. OnUploadVideoResponse A L E data s = Inr ((), s\<lparr>cs_um := ?um, m_conn_out := out\<rparr>)"
    using assms(2) add
    by (simp add: OnUploadVideoResponse_def with_parsed_def assms(1) has_members_def uploader_def
        known_user_def [symmetric] assms(3) run_um_def sbind_def del: json_puts.simps) blast
  then show ?thesis
    by (fastforce simp: OnGetNotmalInfoResponse_def sbind_def cached_assets_def GetVideoInfoFromDB_def
        GetAudioInfoFromDB_def GetWordInfoFromDB_def)
qed

theorem upload_then_listed_witness:
  "\<exists>s'. OnUploadVideoResponse demo_api demo_lib demo_clock demo_text demo_session = Inr ((), s')
    \<and> (\<exists>i s''. OnGetNotmalInfoResponse demo_lib demo_text s' = Inr ((), s'')
      \<and> v_upName i = ''ann''
      \<and> last (m_conn_out s'') = reply demo_lib (assets_json MSG_type_loadInfo_normal ([i], [], [])))"
proof -
  let ?L = demo_lib
  have m: "has_members ?L demo_message [(''username'', ''ann''), (''fileType'', []), (''courses'', []),
      (''fileData'', []), (''headImgPath'', []), (''title'', []), (''synopsis'', [])]"
    by (simp add: has_members_def get_member_def json_at_eq demo_message_def)
  have x: "Excute demo_api sql demo_mgr = Inr (True, demo_mgr\<lparr>mgr_world := c_str sql # mgr_world demo_mgr\<rparr>)" for sql
    by (simp add: demo_api_def demo_Excute)
  have c: "m_cacheVideoInfo demo_um = []" "m_cacheAudioInfo demo_um = []" "m_cacheWordInfo demo_um = []"
    by (simp_all add: demo_um_def UserManager_new_def)
  let ?i = "\<lparr>v_id = getTableID demo_clock [], v_upName = ''ann'', v_title = [], v_filePath = [],
    v_headImgPath = [], v_courses = [], v_synopsis = [], v_uID = u_ID (known_user ''ann'' demo_um)\<rparr>"
  obtain s' where "OnUploadVideoResponse demo_api ?L demo_clock demo_text demo_session = Inr ((), s')"
      "OnGetNotmalInfoResponse ?L demo_text s' = Inr ((), s'\<lparr>m_conn_out := m_conn_out s' @
        [reply ?L (assets_json MSG_type_loadInfo_normal ([?i], [], []))]\<rparr>)"
    using upload_then_listed [where s = demo_session and A = demo_api and E = demo_clock and data' = demo_text,
        OF demo_text_read m refl] x c by auto
  moreover have "v_upName ?i = ''ann''" by simp
  moreover have "last (m_conn_out (s'\<lparr>m_conn_out := m_conn_out s' @
        [reply ?L (assets_json MSG_type_loadInfo_normal ([?i], [], []))]\<rparr>))
      = reply ?L (assets_json MSG_type_loadInfo_normal ([?i], [], []))" by simp
  ultimately show ?thesis by blast
qed

section \<open>Dispatch\<close>

lemma Process_ignored:
  assumes "jl_parse L msg = Inr (ok, j)" and "rbind (json_at j ''msgType'') asInt = Inr cmd"
    and "cmd \<le> 100 \<or> 112 < cmd"
  shows "Process A L E msg s = Inr (True, s)"
proof -
  have "dispatch A L E cmd msg = sret ()"
    using assms(3) by (auto simp: dispatch_def MSG_type_defs OnHeartbeatResponse_def fun_eq_iff)
  with assms(1,2) show ?thesis by (simp add: Process_def sbind_def)
qed

text \<open>
  What a message can do to a session: a text whose value is neither null nor an
  object ends the server with an uncaught error, whatever the parser said; a message type
  outside the table, and the heartbeat, change nothing; and no message ever makes the
  session ask for the connection to be closed.
\<close>

theorem Process_outcome:
  assumes "jl_parse L msg = Inr (ok, j)"
  shows "(\<not> indexable j \<longrightarrow> Process A L E msg s = Inl Logic_Error)
    \<and> (\<forall>cmd. rbind (json_at j ''msgType'') asInt = Inr cmd \<and> (cmd \<le> 100 \<or> 112 < cmd) \<longrightarrow>
        Process A L E msg s = Inr (True, s))
    \<and> (\<forall>r s'. Process A L E msg s = Inr (r, s') \<longrightarrow> r)"
proof (intro conjI allI impI)
  show "Process A L E msg s = Inl Logic_Error" if "\<not> indexable j"
    using that assms by (simp add: Process_def sbind_def json_at_eq)
next
  fix cmd assume cmd: "rbind (json_at j ''msgType'') asInt = Inr cmd \<and> (cmd \<le> 100 \<or> 112 < cmd)"
  with assms show "Process A L E msg s = Inr (True, s)" using Process_ignored by blast
next
  fix r s' assume "Process A L E msg s = Inr (r, s')"
  then show r by (auto simp: Process_def sbind_eq_Inr Let_def)
qed

theorem Process_outcome_witness:
  "Process demo_api demo_lib demo_clock array_text demo_session = Inl Logic_Error
   \<and> Process demo_api demo_lib demo_clock null_text demo_session = Inr (True, demo_session)"
proof -
  have "rbind (json_at JNull ''msgType'') asInt = Inr 0" by (simp add: json_at_eq)
  then show ?thesis
    using Process_outcome [OF demo_texts_read(2), of demo_api demo_clock demo_session]
      Process_outcome [OF demo_texts_read(1), of demo_api demo_clock demo_session] by auto
qed

text \<open>
  Recording a visit: for an unknown user one message with state -1 is sent and nothing
  else changes; for a known user and an accepted statement the record is cached under the
  user's id and the reply repeats the title, the kind and the name with state 1.
\<close>

theorem OnAddHistoryInfoResponse_replies:
  assumes "jl_parse L data = Inr (True, rt)"
    and "has_members L rt [(''username'', name), (''title'', ti), (''fileType'', ty)]"
  shows "case GetUserInfoByUsername name (cs_um s) of
      None \<Rightarrow> OnAddHistoryInfoResponse A L E data s = Inr ((), s\<lparr>m_conn_out := m_conn_out s @ [reply L
        (json_puts [(''msgType'', JInt MSG_type_add_history), (''responsesState'', JInt (- 1))] JNull)]\<rparr>)
    | Some u \<Rightarrow> \<forall>d. Excute A (add_browse_sql (getTableID E ''browse'') (u_ID u) ty ti) (um_db (cs_um s)) = Inr (True, d) \<longrightarrow>
        OnAddHistoryInfoResponse A L E data s = Inr ((), s
          \<lparr>cs_um := (cs_um s)\<lparr>um_db := d, m_cacheBrowseInfo := m_cacheBrowseInfo (cs_um s) @
             [\<lparr>b_id = getTableID E ''browse'', b_uID = u_ID u, b_assetsType = ty, b_browseTitle = ti\<rparr>]\<rparr>,
           m_conn_out := m_conn_out s @ [reply L (json_puts [(''msgType'', JInt MSG_type_add_history),
             (''title'', JString ti), (''fileType'', JString ty), (''username'', JString name),
             (''responsesState'', JInt 1)] JNull)]\<rparr>)"
proof (cases "GetUserInfoByUsername name (cs_um s)")
  case None
  then show ?thesis
    using assms
    by (simp add: OnAddHistoryInfoResponse_def with_parsed_def has_members_def sbind_def del: json_puts.simps)
next
  case (Some u)
  have "OnAddHistoryInfoResponse A L E data s = Inr ((), s
          \<lparr>cs_um := (cs_um s)\<lparr>um_db := d, m_cacheBrowseInfo := m_cacheBrowseInfo (cs_um s) @
             [\<lparr>b_id = getTableID E ''browse'', b_uID = u_ID u, b_assetsType = ty, b_browseTitle = ti\<rparr>]\<rparr>,
           m_conn_out := m_conn_out s @ [reply L (json_puts [(''msgType'', JInt MSG_type_add_history),
             (''title'', JString ti), (''fileType'', JString ty), (''username'', JString name),
             (''responsesState'', JInt 1)] JNull)]\<rparr>)"
    if "Excute A (add_browse_sql (getTableID E ''browse'') (u_ID u) ty ti) (um_db (cs_um s)) = Inr (True, d)" for d
  proof -
    have "addBrowseInfoFromDB A (getTableID E ''browse'') (u_ID u) ty ti (cs_um s) = Inr (True,
        (cs_um s)\<lparr>um_db := d, m_cacheBrowseInfo := m_cacheBrowseInfo (cs_um s) @
             [\<lparr>b_id = getTableID E ''browse'', b_uID = u_ID u, b_assetsType = ty, b_browseTitle = ti\<rparr>]\<rparr>)"
      using that by (simp add: addBrowseInfoFromDB_def insert_cached_Inr)
    with Some assms show ?thesis
      by (simp add: OnAddHistoryInfoResponse_def with_parsed_def has_members_def sbind_def run_um_def
          del: json_puts.simps)
  qed
  with Some show ?thesis by simp
qed

theorem OnAddHistoryInfoResponse_replies_witness:
  "\<exists>s'. OnAddHistoryInfoResponse demo_api demo_lib demo_clock demo_text demo_session = Inr ((), s')
    \<and> cs_um s' = demo_um"
proof -
  have "has_members demo_lib demo_message [(''username'', ''ann''), (''title'', []), (''fileType'', [])]"
    by (simp add: has_members_def get_member_def json_at_eq demo_message_def)
  from OnAddHistoryInfoResponse_replies [where s = demo_session and A = demo_api and E = demo_clock, OF demo_text_read this]
  show ?thesis by simp
qed

end
