(* ===== verification/Msg_Cache.thy ===== *)
theory Msg_Cache
  imports Server_Prelude
begin

text \<open>
  \<^verbatim>\<open>MsgCacheManager\<close> (MsgCacheManager.h, MsgCacheManager.cpp): the notifications and the
  chat messages kept for users that are not connected. Both caches obey the contract of a
  mailbox, stated as a locale and interpreted for each.
\<close>

record NotifyMsgCache =
  n_userid :: "32 word"
  notifymsg :: string

record ChatMsgCache =
  c_userid :: "32 word"
  chatmsg :: string

record MsgCacheManager =
  m_listNotifyMsgCache :: "NotifyMsgCache list"
  m_listChatMsgCache :: "ChatMsgCache list"

definition MsgCacheManager_new :: MsgCacheManager where
  "MsgCacheManager_new = \<lparr>m_listNotifyMsgCache = [], m_listChatMsgCache = []\<rparr>"

definition AddNotifyMsgCache :: "32 word \<Rightarrow> string \<Rightarrow> MsgCacheManager \<Rightarrow> MsgCacheManager" where
  "AddNotifyMsgCache uid cache m =
     m\<lparr>m_listNotifyMsgCache := m_listNotifyMsgCache m @ [\<lparr>n_userid = uid, notifymsg = cache\<rparr>]\<rparr>"

text \<open>The loop over the list: what it moves to the output, and what it leaves.\<close>

fun notify_loop ::
    "32 word \<Rightarrow> NotifyMsgCache list \<Rightarrow> NotifyMsgCache list \<Rightarrow> NotifyMsgCache list \<times> NotifyMsgCache list" where
  "notify_loop uid [] cache = (cache, [])"
| "notify_loop uid (x # xs) cache =
     (if n_userid x = uid then notify_loop uid xs (cache @ [x])
      else let (cache', rest) = notify_loop uid xs cache in (cache', x # rest))"

definition GetNotifyMsgCache ::
    "32 word \<Rightarrow> NotifyMsgCache list \<Rightarrow> MsgCacheManager \<Rightarrow> NotifyMsgCache list \<times> MsgCacheManager" where
  "GetNotifyMsgCache uid cache m =
     (let (cache', rest) = notify_loop uid (m_listNotifyMsgCache m) cache
      in (cache', m\<lparr>m_listNotifyMsgCache := rest\<rparr>))"

definition AddChatMsgCache :: "32 word \<Rightarrow> string \<Rightarrow> MsgCacheManager \<Rightarrow> MsgCacheManager" where
  "AddChatMsgCache uid cache m =
     m\<lparr>m_listChatMsgCache := m_listChatMsgCache m @ [\<lparr>c_userid = uid, chatmsg = cache\<rparr>]\<rparr>"

fun chat_loop ::
    "32 word \<Rightarrow> ChatMsgCache list \<Rightarrow> ChatMsgCache list \<Rightarrow> ChatMsgCache list \<times> ChatMsgCache list" where
  "chat_loop uid [] cache = (cache, [])"
| "chat_loop uid (x # xs) cache =
     (if c_userid x = uid then chat_loop uid xs (cache @ [x])
      else let (cache', rest) = chat_loop uid xs cache in (cache', x # rest))"

definition GetChatMagCache ::
    "32 word \<Rightarrow> ChatMsgCache list \<Rightarrow> MsgCacheManager \<Rightarrow> ChatMsgCache list \<times> MsgCacheManager" where
  "GetChatMagCache uid cache m =
     (let (cache', rest) = chat_loop uid (m_listChatMsgCache m) cache
      in (cache', m\<lparr>m_listChatMsgCache := rest\<rparr>))"

section \<open>The contract of a mailbox\<close>

text \<open>
  Messages of a user: \<open>inbox\<close> abstracts a state to a function from users to the texts that
  wait for them, in order.
\<close>

locale mailbox =
  fixes inbox :: "'m \<Rightarrow> 'u \<Rightarrow> 't list"
    and post :: "'u \<Rightarrow> 't \<Rightarrow> 'm \<Rightarrow> 'm"
    and take_all :: "'u \<Rightarrow> 'm \<Rightarrow> 't list \<times> 'm"
    and empty :: 'm
  assumes inbox_empty: "inbox empty = (\<lambda>_. [])"
    and inbox_post: "inbox (post u t m) = (inbox m)(u := inbox m u @ [t])"
    and take_all_texts: "fst (take_all u m) = inbox m u"
    and take_all_rest: "inbox (snd (take_all u m)) = (inbox m)(u := [])"
begin

lemma inbox_posts:
  "inbox (fold (\<lambda>(u, t). post u t) ps m) u = inbox m u @ map snd (filter (\<lambda>(v, _). v = u) ps)"
  by (induction ps arbitrary: m) (auto simp: inbox_post)

lemma delivered_once:
  "fst (take_all u (snd (take_all u m))) = []"
  by (simp add: take_all_texts take_all_rest)

lemma delivery:
  "fst (take_all u (fold (\<lambda>(u, t). post u t) ps empty)) = map snd (filter (\<lambda>(v, _). v = u) ps)"
  by (simp add: take_all_texts inbox_posts inbox_empty)

lemma others_kept: "v \<noteq> u \<Longrightarrow> fst (take_all v (snd (take_all u m))) = inbox m v"
  by (simp add: take_all_texts take_all_rest)

end

lemma notify_loop_eq:
  "notify_loop uid xs cache =
   (cache @ filter (\<lambda>x. n_userid x = uid) xs, filter (\<lambda>x. n_userid x \<noteq> uid) xs)"
  by (induction uid xs cache rule: notify_loop.induct) auto

lemma chat_loop_eq:
  "chat_loop uid xs cache =
   (cache @ filter (\<lambda>x. c_userid x = uid) xs, filter (\<lambda>x. c_userid x \<noteq> uid) xs)"
  by (induction uid xs cache rule: chat_loop.induct) auto

lemma map_filter_swap:
  "map f (filter (\<lambda>x. g x = v) (filter (\<lambda>x. g x \<noteq> u) xs))
   = (if v = u then [] else map f (filter (\<lambda>x. g x = v) xs))"
  by (induction xs) auto

definition notify_inbox :: "MsgCacheManager \<Rightarrow> 32 word \<Rightarrow> string list" where
  "notify_inbox m u = map notifymsg (filter (\<lambda>x. n_userid x = u) (m_listNotifyMsgCache m))"

definition chat_inbox :: "MsgCacheManager \<Rightarrow> 32 word \<Rightarrow> string list" where
  "chat_inbox m u = map chatmsg (filter (\<lambda>x. c_userid x = u) (m_listChatMsgCache m))"

interpretation notify: mailbox notify_inbox AddNotifyMsgCache
    "\<lambda>u m. map_prod (map notifymsg) id (GetNotifyMsgCache u [] m)" MsgCacheManager_new
  by unfold_locales
    (auto simp: notify_inbox_def AddNotifyMsgCache_def GetNotifyMsgCache_def notify_loop_eq
      MsgCacheManager_new_def fun_eq_iff map_filter_swap simp del: filter_filter)

interpretation chat: mailbox chat_inbox AddChatMsgCache
    "\<lambda>u m. map_prod (map chatmsg) id (GetChatMagCache u [] m)" MsgCacheManager_new
  by unfold_locales
    (auto simp: chat_inbox_def AddChatMsgCache_def GetChatMagCache_def chat_loop_eq
      MsgCacheManager_new_def fun_eq_iff map_filter_swap simp del: filter_filter)

section \<open>Properties\<close>

definition notify_after :: "(32 word \<times> string) list \<Rightarrow> MsgCacheManager" where
  "notify_after ps = fold (\<lambda>(u, t). AddNotifyMsgCache u t) ps MsgCacheManager_new"

definition chat_after :: "(32 word \<times> string) list \<Rightarrow> MsgCacheManager" where
  "chat_after ps = fold (\<lambda>(u, t). AddChatMsgCache u t) ps MsgCacheManager_new"

text \<open>
  A user who fetches the cached notifications gets exactly the ones addressed to that
  user since the start, in the order they were added; a second fetch gets none, and a fetch
  takes nothing from any other user.
\<close>

theorem notifications_delivered_once:
  "map notifymsg (fst (GetNotifyMsgCache u [] (notify_after ps))) = map snd (filter (\<lambda>(v, _). v = u) ps)
   \<and> map notifymsg (fst (GetNotifyMsgCache v [] (snd (GetNotifyMsgCache u [] (notify_after ps)))))
     = (if v = u then [] else map snd (filter (\<lambda>(w, _). w = v) ps))"
  using notify.delivery [of u ps] notify.delivered_once [of u "notify_after ps"]
    notify.others_kept [of v u "notify_after ps"] notify.inbox_posts [of ps MsgCacheManager_new v]
    notify.inbox_empty
  by (simp add: notify_after_def)

text \<open>The same for chat messages, which are independent of the notifications.\<close>

theorem chat_messages_delivered_once:
  "map chatmsg (fst (GetChatMagCache u [] (chat_after ps))) = map snd (filter (\<lambda>(v, _). v = u) ps)
   \<and> map chatmsg (fst (GetChatMagCache u [] (snd (GetChatMagCache u [] (chat_after ps))))) = []
   \<and> notify_inbox (snd (GetChatMagCache u [] m)) = notify_inbox m"
  using chat.delivery [of u ps] chat.delivered_once [of u "chat_after ps"]
  by (simp add: chat_after_def GetChatMagCache_def notify_inbox_def fun_eq_iff split: prod.split)

end
