(* ===== verification/Session_Registry.thy ===== *)
theory Session_Registry
  imports Client_Session
begin

text \<open>
  The connection tables of the two servers: \<^verbatim>\<open>IMServer\<close> (IMServer.cpp) and
  \<^verbatim>\<open>FileServer\<close> (FileServer/FileServer.cpp) keep a \<^verbatim>\<open>std::map\<close> from the printed address of a
  connection to its session. The events of the network layer drive them: a connection that
  opens and one that closes. The properties come from the contract of an ordered map
  (\<open>table\<close> in \<open>Server_Prelude\<close>).
\<close>

section \<open>The chat server\<close>

text \<open>A registry holds any kind of session; the chat server reads the user of a session.\<close>

type_synonym 's registry = "(string \<times> 's) list"

definition im_OnClose :: "string \<Rightarrow> 's registry \<Rightarrow> 's registry" where
  "im_OnClose addr m = (case map_of m addr of Some _ \<Rightarrow> smap_erase addr m | None \<Rightarrow> m)"

definition im_OnConnection :: "bool \<Rightarrow> string \<Rightarrow> 'w UserManager \<Rightarrow> 'w ClientSession registry
    \<Rightarrow> 'w ClientSession registry" where
  \<comment> \<open>the key is the session's own identifier, the printed address\<close>
  "im_OnConnection is_open addr um m =
     (if is_open then
        let client = ClientSession_new addr um in smap_insert (m_sessionid client) client m
      else im_OnClose addr m)"

definition GetSessionByID :: "32 word \<Rightarrow> 'w ClientSession registry \<Rightarrow> 'w ClientSession option" where
  "GetSessionByID uid m = map_option snd (find (\<lambda>(_, s). UserID s = uid) m)"

definition IsUserSessionExsit :: "32 word \<Rightarrow> 'w ClientSession registry \<Rightarrow> bool" where
  "IsUserSessionExsit uid m = list_ex (\<lambda>(_, s). UserID s = uid) m"

section \<open>The file server\<close>

definition fs_OnClose :: "string \<Rightarrow> 's registry \<Rightarrow> 's registry" where
  "fs_OnClose addr m = (case map_of m addr of Some _ \<Rightarrow> smap_erase addr m | None \<Rightarrow> m)"

definition fs_OnConnection :: "bool \<Rightarrow> string \<Rightarrow> 's \<Rightarrow> 's registry \<Rightarrow> 's registry" where
  "fs_OnConnection is_open addr session m =
     (if is_open then smap_insert addr session m else fs_OnClose addr m)"

section \<open>Connections that come and go\<close>

datatype event = Connect string | Disconnect string

fun im_run :: "'w UserManager \<Rightarrow> event list \<Rightarrow> 'w ClientSession registry \<Rightarrow> 'w ClientSession registry" where
  "im_run um [] m = m"
| "im_run um (Connect a # es) m = im_run um es (im_OnConnection True a um m)"
| "im_run um (Disconnect a # es) m = im_run um es (im_OnConnection False a um m)"

fun fs_run :: "(string \<Rightarrow> 's) \<Rightarrow> event list \<Rightarrow> 's registry \<Rightarrow> 's registry" where
  "fs_run new [] m = m"
| "fs_run new (Connect a # es) m = fs_run new es (fs_OnConnection True a (new a) m)"
| "fs_run new (Disconnect a # es) m = fs_run new es (fs_OnConnection False a (new a) m)"

fun open_after :: "event list \<Rightarrow> string set \<Rightarrow> string set" where
  \<comment> \<open>the addresses that are connected after the events\<close>
  "open_after [] S = S"
| "open_after (Connect a # es) S = open_after es (insert a S)"
| "open_after (Disconnect a # es) S = open_after es (S - {a})"

lemma smap_erase_absent: "map_of m k = None \<Longrightarrow> smap_erase k m = m"
  by (induction k m rule: smap_erase.induct) (auto split: if_splits)

lemma OnClose_erase: "im_OnClose a m = smap_erase a m" "fs_OnClose a m = smap_erase a m"
  by (auto simp: im_OnClose_def fs_OnClose_def smap_erase_absent split: option.split)

lemma im_OnConnection_eq:
  "im_OnConnection c a um m = (if c then smap_insert a (ClientSession_new a um) m else smap_erase a m)"
  by (simp add: im_OnConnection_def OnClose_erase ClientSession_new_def)

text \<open>
  The contract of a registry: what one event does to the set of known connections and to
  the sessions. Both servers meet it.
\<close>

locale connection_registry =
  fixes run :: "event list \<Rightarrow> 's registry \<Rightarrow> 's registry"
    and new :: "string \<Rightarrow> 's"
  assumes run_Nil: "run [] m = m"
    and run_Connect: "run (Connect a # es) m = run es (smap_insert a (new a) m)"
    and run_Disconnect: "run (Disconnect a # es) m = run es (smap_erase a m)"
begin

lemma run_ok: "smap_ok m \<Longrightarrow> smap_ok (run es m)"
proof (induction es arbitrary: m)
  case (Cons e es)
  then show ?case by (cases e) (simp_all add: run_Connect run_Disconnect)
qed (simp add: run_Nil)

lemma dom_insert: "smap_ok m \<Longrightarrow> dom (map_of (smap_insert a v m)) = insert a (dom (map_of m))"
  by (auto simp: smap.find_insert)

lemma dom_erase: "smap_ok m \<Longrightarrow> dom (map_of (smap_erase a m)) = dom (map_of m) - {a}"
  by (simp only: smap.find_erase dom_fun_upd) simp

lemma run_dom: "smap_ok m \<Longrightarrow> dom (map_of (run es m)) = open_after es (dom (map_of m))"
proof (induction es arbitrary: m)
  case (Cons e es)
  then show ?case
    by (cases e) (simp_all add: run_Connect run_Disconnect dom_insert dom_erase)
qed (simp add: run_Nil)

lemma run_new:
  "smap_ok m \<Longrightarrow> (\<And>a s. map_of m a = Some s \<Longrightarrow> s = new a) \<Longrightarrow> map_of (run es m) a = Some s \<Longrightarrow> s = new a"
proof (induction es arbitrary: m)
  case (Cons e es)
  show ?case
  proof (cases e)
    case (Connect b)
    then have "map_of (run es (smap_insert b (new b) m)) a = Some s"
      using Cons.prems(3) by (simp add: run_Connect)
    moreover have "t = new c" if "map_of (smap_insert b (new b) m) c = Some t" for c t
      using Cons.prems(2) [of c t] that
      by (simp add: smap.find_insert [OF Cons.prems(1)] split: if_splits)
    ultimately show ?thesis
      using Cons.IH [of "smap_insert b (new b) m"] smap.ok_insert [OF Cons.prems(1)] by blast
  next
    case (Disconnect b)
    then have "map_of (run es (smap_erase b m)) a = Some s"
      using Cons.prems(3) by (simp add: run_Disconnect)
    moreover have "t = new c" if "map_of (smap_erase b m) c = Some t" for c t
      using Cons.prems(2) [of c t] that
      by (simp add: smap.find_erase [OF Cons.prems(1)] split: if_splits)
    ultimately show ?thesis
      using Cons.IH [of "smap_erase b m"] smap.ok_erase [OF Cons.prems(1)] by blast
  qed
qed (simp add: run_Nil)

end

interpretation im: connection_registry "im_run um" "\<lambda>a. ClientSession_new a um" for um
  by unfold_locales (simp_all add: im_OnConnection_eq)

interpretation fs: connection_registry "fs_run new" new for new
  by unfold_locales (simp_all add: fs_OnConnection_def OnClose_erase)

section \<open>Properties\<close>

text \<open>
  Whatever connections come and go, the chat server's table has one session for each
  connection that is open and none for the others, in the order of the keys, and it holds
  the session made for that connection.
\<close>

theorem im_registry_tracks_connections:
  "smap_ok (im_run um es []) \<and> dom (map_of (im_run um es [])) = open_after es {}
   \<and> (\<forall>a\<in>open_after es {}. map_of (im_run um es []) a = Some (ClientSession_new a um))"
proof -
  have "map_of (im_run um es []) a = Some (ClientSession_new a um)" if "a \<in> open_after es {}" for a
    using that im.run_dom [of "[]" um es] im.run_new [of "[]" um es a] by (auto simp: dom_def)
  then show ?thesis using im.run_ok [of "[]" um es] im.run_dom [of "[]" um es] by simp
qed

theorem im_registry_tracks_connections_witness:
  "map_of (im_run demo_um [Connect ''a'', Connect ''b'', Disconnect ''a''] []) ''b'' = Some (ClientSession_new ''b'' demo_um)"
  using im_registry_tracks_connections [of demo_um "[Connect ''a'', Connect ''b'', Disconnect ''a'']"] by simp

text \<open>The same for the file server's table.\<close>

theorem fs_registry_tracks_connections:
  "smap_ok (fs_run new es []) \<and> dom (map_of (fs_run new es [])) = open_after es {}"
  using fs.run_ok [of "[]" new es] fs.run_dom [of "[]" new es] by simp

text \<open>
  Sessions are never told apart by their user: a session is made with the default user
  of id 0 (and no handler assigns another), so the lookup by id 0 finds the first connection
  and every other id finds none.
\<close>

theorem sessions_have_user_zero:
  "GetSessionByID uid (im_run um es []) =
     (if uid = 0 then (case im_run um es [] of [] \<Rightarrow> None | (_, s) # _ \<Rightarrow> Some s) else None)
   \<and> IsUserSessionExsit uid (im_run um es []) = (uid = 0 \<and> open_after es {} \<noteq> {})"
proof -
  have "UserID s = 0" if "(a, s) \<in> set (im_run um es [])" for a s
    using im.run_new [of "[]" um es a s] im.run_ok [of "[]" um es] that
    by (auto simp: UserID_def ClientSession_new_def User_new_def smap_ok_distinct)
  then have *: "(\<lambda>(_, s). UserID s = uid) x = (uid = 0)" if "x \<in> set (im_run um es [])" for x
    using that by force
  have "IsUserSessionExsit uid (im_run um es []) = (uid = 0 \<and> im_run um es [] \<noteq> [])"
  proof -
    have "IsUserSessionExsit uid (im_run um es []) = (\<exists>x\<in>set (im_run um es []). uid = 0)"
      unfolding IsUserSessionExsit_def list_ex_iff by (rule bex_cong [OF refl *])
    then show ?thesis by (cases "im_run um es []") auto
  qed
  moreover have "im_run um es [] = [] \<longleftrightarrow> open_after es {} = {}"
    using im.run_dom [of "[]" um es] by (cases "im_run um es []") (auto simp: dom_map_of_conv_image_fst)
  moreover have "GetSessionByID uid (im_run um es []) =
     (if uid = 0 then (case im_run um es [] of [] \<Rightarrow> None | (_, s) # _ \<Rightarrow> Some s) else None)"
  proof (cases "im_run um es []")
    case (Cons x xs)
    have "find (\<lambda>(_, s). UserID s = uid) (im_run um es []) = (if uid = 0 then Some x else None)"
    proof (cases "uid = 0")
      case True
      then show ?thesis using * [of x] Cons by simp
    next
      case False
      then have "\<not> (\<exists>y. y \<in> set (im_run um es []) \<and> (\<lambda>(_, s). UserID s = uid) y)" using * by blast
      then show ?thesis using False by (simp add: find_None_iff)
    qed
    then show ?thesis using Cons by (auto simp: GetSessionByID_def split: prod.split)
  qed (simp add: GetSessionByID_def)
  ultimately show ?thesis by simp
qed

end
