(* ===== verification/File_Session.thy ===== *)
theory File_Session
  imports Json_Writer
begin

text \<open>
  The file server: \<^verbatim>\<open>FileManager\<close> (FileServer/FileManager.cpp) and \<^verbatim>\<open>FileSession\<close>
  (FileServer/FileSession.cpp), which takes uploads piece by piece and answers HTTP requests.

  Files are a map from paths to contents, part of the session's state. What the operating
  system decides is the argument \<open>os\<close>: whether a file can be opened or written, what a
  directory holds, what a command run with \<^verbatim>\<open>system\<close> does to the files, and the duration
  text that libavformat finds in a media file.
  The functions that drive libav frame by frame (\<^verbatim>\<open>streamMedia\<close>, \<^verbatim>\<open>onStreamMedia\<close>,
  \<^verbatim>\<open>writePacket\<close>) are not called by any other code and are left out.
\<close>

type_synonym files = "string \<Rightarrow> string option"

record os =
  os_dir :: "string \<Rightarrow> string list option"
  os_mkdir :: "string \<Rightarrow> bool"
  os_can_open :: "string \<Rightarrow> bool"
  os_can_write :: "string \<Rightarrow> string \<Rightarrow> bool"
  os_system :: "string \<Rightarrow> files \<Rightarrow> files"
  os_probe :: "files \<Rightarrow> string \<Rightarrow> string option"

section \<open>The list of files\<close>

type_synonym FileManager = "string list"

definition fm_Init :: "os \<Rightarrow> string \<Rightarrow> FileManager \<Rightarrow> bool \<times> FileManager" where
  "fm_Init Os basepath m_listFiles =
     (case os_dir Os basepath of
        None \<Rightarrow> (os_mkdir Os basepath, m_listFiles)
      | Some names \<Rightarrow> (True, m_listFiles @ filter (\<lambda>n. \<not> (n = ''.'' \<or> n = ''..'')) names))"

definition IsFileExsit :: "files \<Rightarrow> string \<Rightarrow> FileManager \<Rightarrow> bool \<times> FileManager" where
  "IsFileExsit fs filename m_listFiles =
     (if list_ex (\<lambda>n. n = filename) m_listFiles then (True, m_listFiles)
      else case fs filename of
        Some _ \<Rightarrow> (True, m_listFiles @ [filename])
      | None \<Rightarrow> (False, m_listFiles))"

definition addFile :: "string \<Rightarrow> FileManager \<Rightarrow> FileManager" where
  "addFile filename m_listFiles = m_listFiles @ [filename]"

section \<open>Sessions\<close>

record FileSession =
  m_fp :: "string option" \<comment> \<open>the path of the file open for writing\<close>
  m_fileName :: string
  m_filePath :: string
  m_isState :: bool
  m_fileOffset :: "32 word" \<comment> \<open>\<^verbatim>\<open>m_offset\<close>\<close>
  m_filesize :: "32 word"
  fs_out :: "string list" \<comment> \<open>what has been sent on the connection\<close>
  fs_files :: files
  fs_commands :: "string list" \<comment> \<open>commands run with \<^verbatim>\<open>system\<close>\<close>

definition FileSession_new :: "files \<Rightarrow> FileSession" where
  "FileSession_new fs =
     \<lparr>m_fp = None, m_fileName = [], m_filePath = [], m_isState = False, m_fileOffset = 0,
      m_filesize = 0, fs_out = [], fs_files = fs, fs_commands = []\<rparr>"

definition file_send :: "string \<Rightarrow> (FileSession, unit) op" where
  "file_send msg = smodify (\<lambda>s. s\<lparr>fs_out := fs_out s @ [msg]\<rparr>)"

definition file_sends :: "string list \<Rightarrow> (FileSession, unit) op" where
  "file_sends msgs = smodify (\<lambda>s. s\<lparr>fs_out := fs_out s @ msgs\<rparr>)"

definition run_system :: "os \<Rightarrow> string \<Rightarrow> (FileSession, unit) op" where
  "run_system Os cmd =
     smodify (\<lambda>s. s\<lparr>fs_files := os_system Os (c_str cmd) (fs_files s),
                     fs_commands := fs_commands s @ [c_str cmd]\<rparr>)"

definition OnFileWriteStateResponse :: "json_lib \<Rightarrow> int \<Rightarrow> string \<Rightarrow> (FileSession, unit) op" where
  "OnFileWriteStateResponse L state type =
     sbind (slift (json_puts [(''responsesState'', JInt state), (''fileState'', JString type)] JNull))
       (\<lambda>j. file_send (jl_write L j))"

definition ResetFile :: "FileSession \<Rightarrow> FileSession" where
  "ResetFile s =
     (case m_fp s of None \<Rightarrow> s
      | Some _ \<Rightarrow> s\<lparr>m_fileOffset := 0, m_filesize := 0, m_fp := None\<rparr>)"

section \<open>Uploads\<close>

definition source_dir :: string where
  "source_dir = ''/home/xjh/projects/GraduationProject/out/build/ubuntu/source_File''"

definition upload_path :: "string \<Rightarrow> string" where
  "upload_path fileName =
     source_dir
     @ (if str_contains ''.html'' fileName then ''/ptFile/''
        else if str_contains ''.mp4'' fileName then ''/video/''
        else if str_contains ''.mp3'' fileName then ''/audio/''
        else if str_contains ''.png'' fileName then ''/Img/'' else [])
     @ fileName"

definition handleVideo :: "os \<Rightarrow> string \<Rightarrow> (FileSession, unit) op" where
  "handleVideo Os fileName =
     (let tsVStr = (case str_find ''.mp4'' fileName of
                      Some p \<Rightarrow> str_replace p 4 ''.ts'' fileName | None \<Rightarrow> fileName)
      in run_system Os (''ffmpeg -i '' @ fileName
           @ '' -c:v copy -c:a copy -bsf:v h264_mp4toannexb -f mpegts '' @ tsVStr))"

definition upload_head :: "os \<Rightarrow> json_lib \<Rightarrow> json \<Rightarrow> (FileSession, unit) op" where
  \<comment> \<open>the first branch of \<^verbatim>\<open>OnUploadFileResponse\<close>, with \<^verbatim>\<open>m_isState\<close> already set\<close>
  "upload_head Os L jsonStr =
     sbind (slift (rbind (isMember ''fileSize'' jsonStr) (\<lambda>b.
        if \<not> b then Inr False else rbind (json_at jsonStr ''fileSize'') (\<lambda>v. Inr (isInt v))))) (\<lambda>ok.
     if \<not> ok then
       sbind (OnFileWriteStateResponse L (- 1) ''InvalidJSON'') (\<lambda>_.
         smodify (\<lambda>s. s\<lparr>m_isState := False\<rparr>))
     else
       sbind (slift (rbind (json_at jsonStr ''fileName'') (asString L))) (\<lambda>fileName.
       sbind (slift (rbind (json_at jsonStr ''fileSize'') asInt)) (\<lambda>size.
       sbind (smodify (\<lambda>s. s\<lparr>m_filesize := word_of_int size\<rparr>)) (\<lambda>_.
       let dirStr = upload_path fileName; path = c_str dirStr
       in if \<not> os_can_open Os path then
            sbind (smodify (\<lambda>s. s\<lparr>m_fp := None\<rparr>)) (\<lambda>_.
            sbind (OnFileWriteStateResponse L (- 1) ''FaildOpen'') (\<lambda>_.
              smodify (\<lambda>s. s\<lparr>m_fileOffset := 0, m_filesize := 0, m_isState := False\<rparr>)))
          else smodify (\<lambda>s. s\<lparr>m_fp := Some path, fs_files := (fs_files s)(path \<mapsto> []),
                 m_filePath := dirStr, m_fileName := fileName\<rparr>)))))"

definition end_upload :: "FileSession \<Rightarrow> FileSession" where
  "end_upload s = s\<lparr>m_fp := None, m_fileOffset := 0, m_filesize := 0, m_isState := False\<rparr>"

definition clear_names :: "FileSession \<Rightarrow> FileSession" where
  "clear_names s = s\<lparr>m_fileName := [], m_filePath := []\<rparr>"

definition append_file :: "string \<Rightarrow> string \<Rightarrow> files \<Rightarrow> files" where
  "append_file path data fs = fs(path \<mapsto> (case fs path of None \<Rightarrow> [] | Some c \<Rightarrow> c) @ data)"

definition upload_done :: "os \<Rightarrow> json_lib \<Rightarrow> (FileSession, unit) op" where
  \<comment> \<open>the last piece has been written\<close>
  "upload_done Os L =
     sbind (smodify end_upload) (\<lambda>_.
     sbind (sget m_fileName) (\<lambda>name.
     sbind (OnFileWriteStateResponse L 1
        (if str_contains ''.html'' name then ''html''
         else if str_contains ''.png'' name then ''Next'' else ''Ok'')) (\<lambda>_.
     sbind (sget m_filePath) (\<lambda>path.
     sbind (if str_contains ''.mp4'' name then handleVideo Os path else sret ()) (\<lambda>_.
       smodify clear_names)))))"

definition upload_data :: "os \<Rightarrow> json_lib \<Rightarrow> string \<Rightarrow> (FileSession, unit) op" where
  \<comment> \<open>the second branch of \<^verbatim>\<open>OnUploadFileResponse\<close>; \<^verbatim>\<open>fwrite\<close> of no bytes writes no item\<close>
  "upload_data Os L filedata =
     sbind (sget m_fp) (\<lambda>fp.
     case fp of
       None \<Rightarrow> sbind (OnFileWriteStateResponse L (- 1) ''FaildOpen'') (\<lambda>_.
         smodify (clear_names \<circ> end_upload))
     | Some path \<Rightarrow>
         if length filedata = 0 \<or> \<not> os_can_write Os path filedata then
           sbind (smodify (clear_names \<circ> end_upload)) (\<lambda>_.
             OnFileWriteStateResponse L (- 1) ''writeError'')
         else
           sbind (smodify (\<lambda>s. s\<lparr>fs_files := append_file path filedata (fs_files s),
             m_fileOffset := m_fileOffset s + of_nat (length filedata)\<rparr>)) (\<lambda>_.
           sbind (sget (\<lambda>s. sint (m_fileOffset s) \<ge> sint (m_filesize s))) (\<lambda>full.
             if full then upload_done Os L else sret ())))"

definition OnUploadFileResponse :: "os \<Rightarrow> json_lib \<Rightarrow> string \<Rightarrow> (FileSession, unit) op" where
  "OnUploadFileResponse Os L filedata =
     sbind (sget m_isState) (\<lambda>st.
     if st then upload_data Os L filedata
     else sbind (slift (jl_parse L filedata)) (\<lambda>(ok, jsonStr).
       if ok then sbind (smodify (\<lambda>s. s\<lparr>m_isState := True\<rparr>)) (\<lambda>_. upload_head Os L jsonStr)
       else upload_data Os L filedata))"

section \<open>HTTP\<close>

definition isHTTPProtocol :: "string \<Rightarrow> bool" where
  "isHTTPProtocol str =
     list_ex (\<lambda>method. str_find method str = Some 0)
       [''GET'', ''POST'', ''PUT'', ''DELETE'', ''HEAD'', ''OPTIONS'']"

definition http_crlf :: string where "http_crlf = [CHR 0x0D, CHR 0x0A]"
definition lf :: string where "lf = [CHR 0x0A]"

definition parseHTTPRequest :: "string \<Rightarrow> string" where
  "parseHTTPRequest request =
     (case index_where (\<lambda>c. c = CHR 0x0D \<or> c = CHR 0x0A) request of
        None \<Rightarrow> []
      | Some request_line_end \<Rightarrow>
          let request_line = take request_line_end request
          in case index_where (\<lambda>c. c = CHR '' '') request_line of
               None \<Rightarrow> []
             | Some sep \<Rightarrow>
                 let uri = drop (sep + 1) request_line
                 in case index_where (\<lambda>c. c \<noteq> CHR ''/'') uri of
                      None \<Rightarrow> []
                    | Some start \<Rightarrow>
                        let file_name = drop start uri
                        in case str_find '' '' file_name of
                             None \<Rightarrow> file_name
                           | Some n \<Rightarrow> take n file_name)"

definition open_file :: "string \<Rightarrow> FileSession \<Rightarrow> string option" where
  \<comment> \<open>\<^verbatim>\<open>std::ifstream file(path)\<close>: the content, if it opens\<close>
  "open_file path s = fs_files s (c_str path)"

definition http_header :: "string \<Rightarrow> nat \<Rightarrow> string" where
  "http_header contentType fileSize =
     ''HTTP/1.1 200 OK'' @ http_crlf @ ''Content-Type: '' @ contentType @ http_crlf
     @ ''Content-Length: '' @ to_string_nat fileSize @ http_crlf
     @ ''Connection: close'' @ http_crlf @ http_crlf"

definition packHTTPResponse :: "string \<Rightarrow> string \<Rightarrow> FileSession \<Rightarrow> string" where
  "packHTTPResponse filename contentType s =
     (case open_file filename s of None \<Rightarrow> [] | Some c \<Rightarrow> http_header contentType (length c))"

definition packHTTPResponse_file :: "string \<Rightarrow> string \<Rightarrow> FileSession \<Rightarrow> string" where
  \<comment> \<open>the content is copied from the stream after \<^verbatim>\<open>close\<close>, so nothing is copied\<close>
  "packHTTPResponse_file filename contentType s =
     (case open_file filename s of None \<Rightarrow> []
      | Some c \<Rightarrow> let fileContent = [] in http_header contentType (length c) @ fileContent)"

function read_pieces :: "nat \<Rightarrow> 'a list \<Rightarrow> 'a list list" where
  \<comment> \<open>the full reads of a stream, then what is left\<close>
  "read_pieces k xs =
     (if k = 0 \<or> length xs < k then (if length xs > 0 then [xs] else [])
      else take k xs # read_pieces k (drop k xs))"
  by pat_completeness auto
termination by (relation "measure (length \<circ> snd)") auto

declare read_pieces.simps [simp del]

definition sendFileData :: "string \<Rightarrow> (FileSession, bool) op" where
  "sendFileData filePath =
     sbind (sget (open_file filePath)) (\<lambda>file.
     case file of
       None \<Rightarrow> sret False
     | Some c \<Rightarrow> sbind (file_sends (read_pieces (8 * 1024) c)) (\<lambda>_. sret True))"

definition chunk_decimal :: "string \<Rightarrow> string list" where
  "chunk_decimal p = [to_string_nat (length p) @ http_crlf, p, http_crlf]"

definition chunk_hex :: "string \<Rightarrow> string list" where
  "chunk_hex p = [to_hex_nat (length p) @ http_crlf, p, http_crlf]"

definition last_chunk :: string where "last_chunk = ''0'' @ http_crlf @ http_crlf"

definition sendChunkedData :: "string \<Rightarrow> (FileSession, unit) op" where
  "sendChunkedData filePath =
     sbind (sget (open_file filePath)) (\<lambda>file.
     case file of
       None \<Rightarrow> sret ()
     | Some c \<Rightarrow> file_sends
         ([''HTTP/1.1 200 OK'' @ http_crlf @ ''Content-Type: video/mp4'' @ http_crlf
           @ ''Transfer-Encoding: chunked'' @ http_crlf @ ''Connection: close'' @ http_crlf @ http_crlf]
          @ concat (map chunk_decimal (read_pieces 4096 c)) @ [last_chunk]))"

definition ts_header :: string where
  "ts_header = ''HTTP/1.1 200 OK'' @ http_crlf @ ''Content-Type: video/MP2T'' @ http_crlf
     @ ''Connection: keep-alive'' @ http_crlf @ ''Transfer-Encoding: chunked'' @ http_crlf @ http_crlf"

definition ts_body :: "string \<Rightarrow> string list" where
  "ts_body c = concat (map chunk_hex (read_pieces 4096 c)) @ [last_chunk]"

definition streamMedia_ts :: "string \<Rightarrow> (FileSession, unit) op" where
  "streamMedia_ts filePath =
     sbind (sget (open_file filePath)) (\<lambda>file.
     case file of
       None \<Rightarrow> file_send (''HTTP/1.1 500 Internal Server Error'' @ http_crlf
                 @ ''Content-Length: 0'' @ http_crlf @ http_crlf)
     | Some c \<Rightarrow> file_sends (ts_header # ts_body c))"

definition streamMedia_m3u8 :: "string \<Rightarrow> (FileSession, unit) op" where
  "streamMedia_m3u8 filePath =
     sbind (sget (open_file filePath)) (\<lambda>file.
     case file of
       None \<Rightarrow> sret ()
     | Some c \<Rightarrow> file_sends
         [''HTTP/1.1 200 OK'' @ http_crlf @ ''Content-Type: application/vnd.apple.mpegurl'' @ http_crlf
          @ ''Content-Length: '' @ to_string_nat (length c) @ http_crlf
          @ ''Connection: keep-alive'' @ http_crlf @ http_crlf, c])"

definition m3u8_content :: "string \<Rightarrow> string \<Rightarrow> string" where
  "m3u8_content fname file_duration =
     ''#EXTM3U'' @ lf @ ''#EXT-X-VERSION:3'' @ lf @ ''#EXT-X-TARGETDURATION:'' @ file_duration @ lf
     @ ''#EXT-X-MEDIA-SEQUENCE:0'' @ lf @ ''#EXTINF:'' @ file_duration @ '','' @ lf @ fname @ lf
     @ ''#EXT-X-ENDLIST'' @ lf"

definition base_name :: "string \<Rightarrow> string" where
  "base_name fileName =
     (case last_index_where (\<lambda>c. c = CHR ''/'') fileName of
        None \<Rightarrow> fileName | Some p \<Rightarrow> drop (p + 1) fileName)"

definition streamMedia_m3u8Str :: "os \<Rightarrow> string \<Rightarrow> string \<Rightarrow> (FileSession, unit) op" where
  "streamMedia_m3u8Str Os fileName file_duration =
     sbind (sget (\<lambda>s. os_probe Os (fs_files s) (c_str fileName))) (\<lambda>vtime.
     case vtime of
       None \<Rightarrow> sret ()
     | Some t \<Rightarrow>
         let dur = (if length file_duration < 1 then t else file_duration);
             content = m3u8_content (base_name fileName) dur
         in file_send (''HTTP/1.1 200 OK'' @ http_crlf
              @ ''Content-Type: application/vnd.apple.mpegurl'' @ http_crlf
              @ ''Content-Length: '' @ to_string_nat (length content) @ http_crlf
              @ ''Connection: keep-alive'' @ http_crlf @ http_crlf @ content))"

definition startFFmpeg :: "os \<Rightarrow> string \<Rightarrow> (FileSession, unit) op" where
  "startFFmpeg Os command = run_system Os command"

definition onMediaRequest :: "os \<Rightarrow> string \<Rightarrow> string \<Rightarrow> (FileSession, unit) op" where
  "onMediaRequest Os client_ip filePath =
     run_system Os (''ffmpeg -re -i '' @ filePath @ '' -c:v copy -c:a copy -f mpegts ''
       @ ''http://'' @ client_ip @ ''/stream'')"

definition OnDownloadFileResponse :: "string \<Rightarrow> (FileSession, unit) op" where
  "OnDownloadFileResponse filemd5 =
     (if filemd5 = [] then sret () else sbind (sendFileData filemd5) (\<lambda>_. sret ()))"

definition http_target :: "string \<Rightarrow> string \<times> string" where
  \<comment> \<open>the directory and the content type of a requested file\<close>
  "http_target filename =
     (if str_contains ''.mp4'' filename then (source_dir @ ''/video/'', ''video/mp4'')
      else if str_contains ''.mp3'' filename then (source_dir @ ''/audio/'', ''audio/mpeg'')
      else if str_contains ''.html'' filename then (source_dir @ ''/ptFile/'', ''text/plain'')
      else if str_contains ''.png'' filename then (source_dir @ ''/Img/'', ''image/png'')
      else if str_contains ''.ts'' filename then (source_dir @ ''/video/'', [])
      else ([], []))"

definition http_plain :: "string \<Rightarrow> string \<Rightarrow> (FileSession, unit) op" where
  \<comment> \<open>the tail of \<^verbatim>\<open>OnHttpResponse\<close>\<close>
  "http_plain filePath contentType =
     sbind (sget (packHTTPResponse filePath contentType)) (\<lambda>httpResponseStr.
     if length httpResponseStr < 10 then sendChunkedData filePath
     else sbind (file_send httpResponseStr) (\<lambda>_. sbind (sendFileData filePath) (\<lambda>_. sret ())))"

definition OnHttpResponse :: "os \<Rightarrow> string \<Rightarrow> (FileSession, unit) op" where
  "OnHttpResponse Os buff =
     (let filename = parseHTTPRequest buff;
          (dirStr, contentType) = http_target filename;
          filePath = dirStr @ filename;
          download = str_contains ''download'' filename;
          filePath' = (if download then
             (case str_find ''download/'' filePath of
                Some pos \<Rightarrow> str_erase pos 9 filePath | None \<Rightarrow> filePath) else filePath)
      in sbind (if download then OnDownloadFileResponse filePath' else sret ()) (\<lambda>_.
         if str_contains ''.mp4'' filename then
           streamMedia_m3u8Str Os
             (case str_find ''.mp4'' filePath' of
                Some p \<Rightarrow> str_replace p 4 ''.ts'' filePath' | None \<Rightarrow> filePath') []
         else sbind (if str_contains ''.ts'' filename then streamMedia_ts filePath' else sret ()) (\<lambda>_.
           http_plain filePath' contentType)))"

section \<open>Dispatch\<close>

definition SendUserStatusChangeMsg :: "(FileSession, unit) op" where
  "SendUserStatusChangeMsg = sret ()"

definition file_Process :: "os \<Rightarrow> json_lib \<Rightarrow> string \<Rightarrow> (FileSession, bool) op" where
  "file_Process Os L buffer =
     sbind (slift (jl_parse L buffer)) (\<lambda>(ok, _).
     if \<not> ok \<and> isHTTPProtocol buffer
     then sbind (OnHttpResponse Os buffer) (\<lambda>_. sret True)
     else sbind (OnUploadFileResponse Os L buffer) (\<lambda>_. sret True))"

definition file_OnRead :: "os \<Rightarrow> json_lib \<Rightarrow> string \<Rightarrow> (FileSession, bool) op" where
  \<comment> \<open>the whole readable part of the buffer is one message\<close>
  "file_OnRead Os L readable = file_Process Os L readable"

section \<open>The upload state machine\<close>

definition upload_fields :: "FileSession \<Rightarrow> string option \<times> bool \<times> 32 word \<times> 32 word \<times> string \<times> string" where
  "upload_fields s = (m_fp s, m_isState s, m_fileOffset s, m_filesize s, m_fileName s, m_filePath s)"

lemma file_ops_Inr [simp]:
  "file_send msg s = Inr ((), s\<lparr>fs_out := fs_out s @ [msg]\<rparr>)"
  "file_sends msgs s = Inr ((), s\<lparr>fs_out := fs_out s @ msgs\<rparr>)"
  by (simp_all add: file_send_def file_sends_def)

lemma OnFileWriteStateResponse_Inr:
  "\<exists>j. json_puts [(''responsesState'', JInt st), (''fileState'', JString ty)] JNull = Inr j
    \<and> OnFileWriteStateResponse L st ty s = Inr ((), s\<lparr>fs_out := fs_out s @ [jl_write L j]\<rparr>)"
proof -
  obtain j where "json_puts [(''responsesState'', JInt st), (''fileState'', JString ty)] JNull = Inr j"
    using json_puts_indexable [of JNull "[(''responsesState'', JInt st), (''fileState'', JString ty)]"] by auto
  then show ?thesis by (simp add: OnFileWriteStateResponse_def del: json_puts.simps)
qed

definition state_reply :: "json_lib \<Rightarrow> int \<Rightarrow> string \<Rightarrow> string" where
  "state_reply L st ty =
     (case json_puts [(''responsesState'', JInt st), (''fileState'', JString ty)] JNull of
        Inl _ \<Rightarrow> [] | Inr j \<Rightarrow> jl_write L j)"

lemma OnFileWriteStateResponse_eq [simp]:
  "OnFileWriteStateResponse L st ty s = Inr ((), s\<lparr>fs_out := fs_out s @ [state_reply L st ty]\<rparr>)"
  using OnFileWriteStateResponse_Inr [of st ty L s] by (auto simp: state_reply_def)

definition keeps_upload :: "(FileSession, 'a) op \<Rightarrow> bool" where
  \<comment> \<open>the operation leaves the fields of the upload alone\<close>
  "keeps_upload f \<longleftrightarrow> (\<forall>s x s'. f s = Inr (x, s') \<longrightarrow> upload_fields s' = upload_fields s)"

lemma keeps_upload_basic [intro]:
  "keeps_upload (sret a)" "keeps_upload (sget g)" "keeps_upload (file_send m)" "keeps_upload (file_sends ms)"
  by (auto simp: keeps_upload_def upload_fields_def)

lemma keeps_upload_sbind [intro]:
  "keeps_upload f \<Longrightarrow> (\<And>a. keeps_upload (g a)) \<Longrightarrow> keeps_upload (sbind f g)"
  unfolding keeps_upload_def sbind_eq_Inr by metis

lemma keeps_upload_cases [intro]:
  "(b \<Longrightarrow> keeps_upload f) \<Longrightarrow> (\<not> b \<Longrightarrow> keeps_upload g) \<Longrightarrow> keeps_upload (if b then f else g)"
  "keeps_upload f \<Longrightarrow> (\<And>x. keeps_upload (h x)) \<Longrightarrow> keeps_upload (case v of None \<Rightarrow> f | Some x \<Rightarrow> h x)"
  by (simp_all split: option.split)

lemma http_parts_keep_upload [intro]:
  "keeps_upload (sendFileData p)" "keeps_upload (streamMedia_ts p)" "keeps_upload (sendChunkedData p)"
  "keeps_upload (streamMedia_m3u8Str Os p d)"
  unfolding sendFileData_def streamMedia_ts_def sendChunkedData_def streamMedia_m3u8Str_def Let_def
  by (intro keeps_upload_basic keeps_upload_sbind keeps_upload_cases)+

lemma http_keeps_upload: "keeps_upload (OnHttpResponse Os buff)"
  unfolding OnHttpResponse_def Let_def case_prod_unfold OnDownloadFileResponse_def http_plain_def
  by (intro keeps_upload_basic keeps_upload_sbind keeps_upload_cases http_parts_keep_upload)

definition file_inv :: "FileSession \<Rightarrow> bool" where
  "file_inv s \<longleftrightarrow> m_isState s = (m_fp s \<noteq> None)
     \<and> (m_fp s = None \<longrightarrow> m_fileOffset s = 0 \<and> m_filesize s = 0)"

lemma file_inv_upload_fields: "upload_fields s = upload_fields t \<Longrightarrow> file_inv s = file_inv t"
  by (auto simp: upload_fields_def file_inv_def)

definition head_valid :: "json \<Rightarrow> bool res" where
  "head_valid j = rbind (isMember ''fileSize'' j) (\<lambda>b.
     if \<not> b then Inr False else rbind (json_at j ''fileSize'') (\<lambda>v. Inr (isInt v)))"

lemma upload_head_eq:
  "upload_head Os L j s =
   rbind (head_valid j) (\<lambda>ok.
     if \<not> ok then Inr ((), s\<lparr>fs_out := fs_out s @ [state_reply L (- 1) ''InvalidJSON''], m_isState := False\<rparr>)
     else rbind (rbind (json_at j ''fileName'') (asString L)) (\<lambda>fileName.
       rbind (rbind (json_at j ''fileSize'') asInt) (\<lambda>size.
         if \<not> os_can_open Os (c_str (upload_path fileName))
         then Inr ((), s\<lparr>m_fp := None, fs_out := fs_out s @ [state_reply L (- 1) ''FaildOpen''],
                m_fileOffset := 0, m_filesize := 0, m_isState := False\<rparr>)
         else Inr ((), s\<lparr>m_filesize := word_of_int size, m_fp := Some (c_str (upload_path fileName)),
                fs_files := (fs_files s)(c_str (upload_path fileName) \<mapsto> []),
                m_filePath := upload_path fileName, m_fileName := fileName\<rparr>))))"
proof (cases "head_valid j")
  case (Inr ok)
  show ?thesis
  proof (cases "\<not> ok")
    case True
    with Inr show ?thesis by (simp add: upload_head_def sbind_def head_valid_def [symmetric])
  next
    case False
    with Inr show ?thesis
      by (cases "rbind (json_at j ''fileName'') (asString L)"; cases "rbind (json_at j ''fileSize'') asInt")
        (simp_all add: upload_head_def sbind_def head_valid_def [symmetric] Let_def)
  qed
qed (simp add: upload_head_def sbind_def head_valid_def [symmetric])

lemma upload_head_inv:
  assumes "file_inv s" and "\<not> m_isState s" and "upload_head Os L j (s\<lparr>m_isState := True\<rparr>) = Inr (x, s')"
  shows "file_inv s'"
proof -
  obtain ok where ok: "head_valid j = Inr ok" using assms(3) by (auto simp: upload_head_eq rbind_eq_Inr_iff)
  show ?thesis
  proof (cases ok)
    case False
    with assms ok show ?thesis by (auto simp: upload_head_eq file_inv_def)
  next
    case True
    obtain fileName size where "rbind (json_at j ''fileName'') (asString L) = Inr fileName"
        "rbind (json_at j ''fileSize'') asInt = Inr size"
      using assms(3) ok True by (auto simp: upload_head_eq rbind_eq_Inr_iff)
    with assms ok True show ?thesis by (auto simp: upload_head_eq file_inv_def split: if_splits)
  qed
qed

definition done_kind :: "string \<Rightarrow> string" where
  "done_kind name =
     (if str_contains ''.html'' name then ''html'' else if str_contains ''.png'' name then ''Next'' else ''Ok'')"

lemma upload_done_eq:
  obtains fs cmds where "upload_done Os L s = Inr ((), s\<lparr>m_fp := None, m_fileOffset := 0, m_filesize := 0,
      m_isState := False, m_fileName := [], m_filePath := [],
      fs_out := fs_out s @ [state_reply L 1 (done_kind (m_fileName s))], fs_files := fs, fs_commands := cmds\<rparr>)"
    and "\<And>path. (\<And>cmd fs. os_system Os cmd fs path = fs path) \<Longrightarrow> fs path = fs_files s path"
proof (cases "str_contains ''.mp4'' (m_fileName s)")
  case False
  then show ?thesis
    by (intro that [where fs = "fs_files s" and cmds = "fs_commands s"])
      (simp_all add: upload_done_def sbind_def end_upload_def clear_names_def done_kind_def)
next
  case True
  then obtain cmd where "handleVideo Os (m_filePath s) = run_system Os cmd"
    by (simp add: handleVideo_def)
  with True show ?thesis
    by (intro that [where fs = "os_system Os (c_str cmd) (fs_files s)" and cmds = "fs_commands s @ [c_str cmd]"])
      (simp_all add: upload_done_def sbind_def end_upload_def clear_names_def done_kind_def run_system_def)
qed

lemma upload_data_eq:
  assumes "m_fp s = Some path" and "d \<noteq> []" and "os_can_write Os path d"
  shows "upload_data Os L d s =
    (let s1 = s\<lparr>fs_files := append_file path d (fs_files s),
                m_fileOffset := m_fileOffset s + of_nat (length d)\<rparr>
     in if sint (m_fileOffset s1) \<ge> sint (m_filesize s1) then upload_done Os L s1 else Inr ((), s1))"
  using assms by (simp add: upload_data_def sbind_def)

lemma upload_data_inv:
  assumes "file_inv s" and "upload_data Os L d s = Inr (x, s')"
  shows "file_inv s'"
proof (cases "\<exists>path. m_fp s = Some path \<and> d \<noteq> [] \<and> os_can_write Os path d")
  case True
  then obtain path where "m_fp s = Some path" "d \<noteq> []" "os_can_write Os path d" by blast
  note eq = upload_data_eq [OF this, of L, unfolded Let_def]
  let ?s1 = "s\<lparr>fs_files := append_file path d (fs_files s), m_fileOffset := m_fileOffset s + of_nat (length d)\<rparr>"
  obtain fs cmds where "upload_done Os L ?s1 = Inr ((), ?s1\<lparr>m_fp := None, m_fileOffset := 0, m_filesize := 0,
      m_isState := False, m_fileName := [], m_filePath := [],
      fs_out := fs_out ?s1 @ [state_reply L 1 (done_kind (m_fileName ?s1))], fs_files := fs, fs_commands := cmds\<rparr>)"
    by (rule upload_done_eq)
  with eq assms \<open>m_fp s = Some path\<close> show ?thesis by (auto simp: file_inv_def split: if_splits)
next
  case False
  then have "upload_fields s' = (None, False, 0, 0, [], [])"
    using assms(2)
    by (auto simp: upload_data_def sbind_def end_upload_def clear_names_def upload_fields_def split: option.splits)
  then show ?thesis by (auto simp: upload_fields_def file_inv_def)
qed

lemma file_OnRead_inv:
  assumes "file_inv s" and "file_OnRead Os L d s = Inr (x, s')"
  shows "file_inv s'"
proof -
  obtain ok j where p: "jl_parse L d = Inr (ok, j)"
    using assms(2) by (auto simp: file_OnRead_def file_Process_def sbind_eq_Inr)
  show ?thesis
  proof (cases "\<not> ok \<and> isHTTPProtocol d")
    case True
    with assms(2) p obtain u where "OnHttpResponse Os d s = Inr (u, s')"
      by (auto simp: file_OnRead_def file_Process_def sbind_eq_Inr)
    then have "upload_fields s' = upload_fields s" using http_keeps_upload by (auto simp: keeps_upload_def)
    from file_inv_upload_fields [OF this] assms(1) show ?thesis by simp
  next
    case False
    with assms(2) p obtain u where u: "OnUploadFileResponse Os L d s = Inr (u, s')"
      by (auto simp: file_OnRead_def file_Process_def sbind_eq_Inr split: if_splits)
    show ?thesis
    proof (cases "\<not> m_isState s \<and> ok")
      case True
      with u p have "upload_head Os L j (s\<lparr>m_isState := True\<rparr>) = Inr (u, s')"
        by (auto simp: OnUploadFileResponse_def sbind_eq_Inr)
      from upload_head_inv [OF assms(1) _ this] True show ?thesis by simp
    next
      case False
      with u p have "upload_data Os L d s = Inr (u, s')"
        by (auto simp: OnUploadFileResponse_def sbind_eq_Inr split: if_splits)
      from upload_data_inv [OF assms(1) this] show ?thesis .
    qed
  qed
qed

inductive file_reach :: "os \<Rightarrow> json_lib \<Rightarrow> FileSession \<Rightarrow> bool" for Os L where
  start: "file_reach Os L (FileSession_new fs)"
| message: "file_reach Os L s \<Longrightarrow> file_OnRead Os L d s = Inr (x, s') \<Longrightarrow> file_reach Os L s'"

inductive_cases file_reachE: "file_reach Os L s"

text \<open>
  C6. In every state a session can reach, whatever texts arrive, an upload is in progress
  exactly when a file is open, and with no file open the offset and the size are 0, so
  every upload starts counting at 0.
\<close>

theorem file_session_invariant:
  assumes "file_reach Os L s"
  shows "m_isState s = (m_fp s \<noteq> None) \<and> (m_fp s = None \<longrightarrow> m_fileOffset s = 0 \<and> m_filesize s = 0)"
proof -
  from assms have "file_inv s"
  proof induction
    case (start fs)
    show ?case by (simp add: file_inv_def FileSession_new_def)
  next
    case (message s d x s')
    then show ?case using file_OnRead_inv by blast
  qed
  then show ?thesis by (simp add: file_inv_def)
qed

section \<open>Uploading a file\<close>

fun file_run :: "os \<Rightarrow> json_lib \<Rightarrow> string list \<Rightarrow> FileSession \<Rightarrow> FileSession res" where
  \<comment> \<open>texts that arrive one after the other\<close>
  "file_run Os L [] s = Inr s"
| "file_run Os L (d # ds) s = rbind (file_OnRead Os L d s) (\<lambda>(_, s'). file_run Os L ds s')"

definition uploading :: "string \<Rightarrow> string \<Rightarrow> nat \<Rightarrow> string \<Rightarrow> FileSession \<Rightarrow> bool" where
  \<comment> \<open>the upload of the file \<open>name\<close> of \<open>n\<close> bytes to \<open>path\<close> has reached the content \<open>c\<close>\<close>
  "uploading path name n c s \<longleftrightarrow>
     m_isState s \<and> m_fp s = Some path \<and> m_fileOffset s = of_nat (length c) \<and> m_filesize s = of_nat n
     \<and> fs_files s path = Some c \<and> m_fileName s = name"

definition upload_text :: "json_lib \<Rightarrow> string \<Rightarrow> bool" where
  \<comment> \<open>a text that \<^verbatim>\<open>Process\<close> does not take for an HTTP request\<close>
  "upload_text L d \<longleftrightarrow>
     (case jl_parse L d of Inl _ \<Rightarrow> False | Inr (ok, _) \<Rightarrow> ok \<or> \<not> isHTTPProtocol d)"

lemma sint_of_nat_32: "n < 2 ^ 31 \<Longrightarrow> sint (of_nat n :: 32 word) = int n"
  by (simp add: signed_of_nat signed_take_bit_int_eq_self)

lemma file_OnRead_piece:
  assumes "uploading path name n c s" and "upload_text L d"
  shows "file_OnRead Os L d s = rbind (upload_data Os L d s) (\<lambda>(_, s'). Inr (True, s'))"
proof -
  have "m_isState s" using assms(1) by (simp add: uploading_def)
  then have "OnUploadFileResponse Os L d s = upload_data Os L d s"
    by (simp add: OnUploadFileResponse_def sbind_def)
  with assms(2) show ?thesis
    by (auto simp: file_OnRead_def file_Process_def upload_text_def sbind_def case_prod_unfold split: sum.splits)
qed

lemma upload_more:
  assumes "uploading path name n c s" and "upload_text L d" and "d \<noteq> []" and "os_can_write Os path d"
    and "length (c @ d) < n" and "n < 2 ^ 31"
  shows "\<exists>s'. file_OnRead Os L d s = Inr (True, s') \<and> uploading path name n (c @ d) s' \<and> fs_out s' = fs_out s"
proof -
  have "sint (of_nat (length c) + of_nat (length d) :: 32 word) = int (length (c @ d))"
    using sint_of_nat_32 [of "length (c @ d)"] assms(5,6) by simp
  moreover have "sint (of_nat n :: 32 word) = int n" using assms(6) by (rule sint_of_nat_32)
  ultimately show ?thesis
    using assms(1,3,4,5) file_OnRead_piece [OF assms(1,2), of Os] upload_data_eq [of s path d Os L]
    by (simp add: uploading_def append_file_def)
qed

lemma upload_last:
  assumes "uploading path name n c s" and "upload_text L d" and "d \<noteq> []" and "os_can_write Os path d"
    and "length (c @ d) = n" and "n < 2 ^ 31" and "\<And>cmd fs. os_system Os cmd fs path = fs path"
  shows "\<exists>s'. file_OnRead Os L d s = Inr (True, s') \<and> upload_fields s' = (None, False, 0, 0, [], [])
    \<and> fs_files s' path = Some (c @ d) \<and> fs_out s' = fs_out s @ [state_reply L 1 (done_kind name)]"
proof -
  let ?s1 = "s\<lparr>fs_files := append_file path d (fs_files s), m_fileOffset := m_fileOffset s + of_nat (length d)\<rparr>"
  have "sint (of_nat (length c) + of_nat (length d) :: 32 word) = int n"
    using sint_of_nat_32 [of "length (c @ d)"] assms(5,6) by simp
  moreover have "sint (of_nat n :: 32 word) = int n" using assms(6) by (rule sint_of_nat_32)
  ultimately have "upload_data Os L d s = upload_done Os L ?s1"
    using assms(1,3,4) upload_data_eq [of s path d Os L] by (simp add: uploading_def)
  moreover obtain fs cmds where dn: "upload_done Os L ?s1 = Inr ((), ?s1\<lparr>m_fp := None, m_fileOffset := 0, m_filesize := 0,
      m_isState := False, m_fileName := [], m_filePath := [],
      fs_out := fs_out ?s1 @ [state_reply L 1 (done_kind (m_fileName ?s1))], fs_files := fs, fs_commands := cmds\<rparr>)"
      and fs: "\<And>p. (\<And>cmd fs. os_system Os cmd fs p = fs p) \<Longrightarrow> fs p = fs_files ?s1 p"
    using upload_done_eq [of Os L ?s1] by blast
  moreover have "fs path = fs_files ?s1 path" using fs assms(7) by blast
  ultimately show ?thesis
    using assms(1) file_OnRead_piece [OF assms(1,2), of Os]
    by (simp add: uploading_def append_file_def upload_fields_def)
qed

lemma upload_pieces:
  assumes "uploading path name n c s" and "\<forall>d\<in>set ds. d \<noteq> [] \<and> upload_text L d \<and> os_can_write Os path d"
    and "ds \<noteq> []" and "length c + length (concat ds) = n" and "n < 2 ^ 31"
    and "\<And>cmd fs. os_system Os cmd fs path = fs path"
  shows "\<exists>s'. file_run Os L ds s = Inr s' \<and> upload_fields s' = (None, False, 0, 0, [], [])
    \<and> fs_files s' path = Some (c @ concat ds) \<and> fs_out s' = fs_out s @ [state_reply L 1 (done_kind name)]"
  using assms(1-4)
proof (induction ds arbitrary: c s)
  case (Cons d ds)
  show ?case
  proof (cases ds)
    case Nil
    then show ?thesis
      using upload_last [OF Cons.prems(1) _ _ _ _ assms(5,6), of L d] Cons.prems(2,4) by auto
  next
    case (Cons e es)
    have d: "upload_text L d" "d \<noteq> []" "os_can_write Os path d" and e: "e \<noteq> []"
      using Cons.prems(2) Cons by auto
    have "length (c @ d) < n" using Cons.prems(4) Cons e by auto
    from upload_more [OF Cons.prems(1) d this assms(5)] obtain s1 where
      s1: "file_OnRead Os L d s = Inr (True, s1)" "uploading path name n (c @ d) s1" "fs_out s1 = fs_out s"
      by blast
    have "length (c @ d) + length (concat ds) = n" using Cons.prems(4) by simp
    from Cons.IH [OF s1(2) _ _ this] Cons.prems(2) Cons s1(1,3) show ?thesis by simp
  qed
qed simp

lemma upload_starts:
  assumes "file_inv s" and "m_fp s = None" and "jl_parse L hdr = Inr (True, j)"
    and "json_map j ''fileName'' = Some (JString name)" and "json_map j ''fileSize'' = Some (JInt (int n))"
    and "n < 2 ^ 31" and "os_can_open Os (c_str (upload_path name))"
  shows "\<exists>s'. file_OnRead Os L hdr s = Inr (True, s')
    \<and> uploading (c_str (upload_path name)) name n [] s' \<and> fs_out s' = fs_out s"
proof -
  obtain m where j: "j = JObject m" using assms(4) by (cases j) (auto simp: json_map_def)
  have "isInt (JInt (int n))" using assms(6) by (simp add: minInt_def maxInt_def)
  then have "head_valid j = Inr True" "rbind (json_at j ''fileSize'') asInt = Inr (int n)"
      "rbind (json_at j ''fileName'') (asString L) = Inr name"
    using assms(4,5) j by (simp_all add: head_valid_def isMember_def json_at_eq)
  then show ?thesis
    using assms(1-3,7)
    by (simp add: file_OnRead_def file_Process_def OnUploadFileResponse_def sbind_def upload_head_eq
        uploading_def file_inv_def)
qed


definition demo_os :: os where
  "demo_os = \<lparr>os_dir = (\<lambda>_. None), os_mkdir = (\<lambda>_. True), os_can_open = (\<lambda>_. True),
     os_can_write = (\<lambda>_ _. True), os_system = (\<lambda>_ fs. fs), os_probe = (\<lambda>_ _. None)\<rparr>"

definition demo_doubles :: json_lib where
  \<comment> \<open>doubles for the instance: none can be scanned, all print as 0\<close>
  "demo_doubles = \<lparr>jl_scan = (\<lambda>_. (False, NaN)), jl_real = (\<lambda>_. ''0'')\<rparr>"

definition demo_header :: json where
  "demo_header = JObject [(''fileName'', JString ''a.html''), (''fileSize'', JInt 5)]"

lemma demo_header_read: "jl_parse demo_doubles (jl_write demo_doubles demo_header) = Inr (True, demo_header)"
  using written_then_read [of demo_header]
  by (simp add: demo_header_def smap_ok_def ascii_utf8_string stackLimit_g_def less_char_def
      minLargestInt_def maxLargestInt_def number_value_def maxInt_def)

lemma demo_pieces_read:
  "jl_parse demo_doubles ''hel'' = Inr (False, JNull)" "jl_parse demo_doubles ''lo'' = Inr (False, JNull)"
  by code_simp+


text \<open>The invariant in the middle of an upload.\<close>

theorem file_session_invariant_witness:
  "\<exists>s. file_reach demo_os demo_doubles s \<and> m_fp s = Some (c_str (upload_path ''a.html'')) \<and> m_isState s \<and> m_filesize s = 5"
proof -
  have header: "json_map demo_header ''fileName'' = Some (JString ''a.html'')" "json_map demo_header ''fileSize'' = Some (JInt (int 5))"
    "os_can_open demo_os (c_str (upload_path ''a.html''))"
    by (simp_all add: demo_header_def demo_os_def)
  have "file_inv (FileSession_new Map.empty)" "m_fp (FileSession_new Map.empty) = None" "(5 :: nat) < 2 ^ 31"
    by (simp_all add: file_inv_def FileSession_new_def)
  from upload_starts [OF this(1,2) demo_header_read header(1,2) this(3) header(3)] obtain s where
    s: "file_OnRead demo_os demo_doubles (jl_write demo_doubles demo_header) (FileSession_new Map.empty) = Inr (True, s)"
      "uploading (c_str (upload_path ''a.html'')) ''a.html'' 5 [] s" by blast
  have "file_reach demo_os demo_doubles s" by (rule file_reach.message [OF file_reach.start s(1)])
  with file_session_invariant [OF this] s(2) show ?thesis by (auto simp: uploading_def)
qed

text \<open>A piece of the content that begins like an HTTP request is answered, not stored.\<close>

lemma http_piece_lost:
  assumes "jl_parse L d = Inr (False, j)" and "isHTTPProtocol d" and "file_OnRead Os L d s = Inr (x, s')"
  shows "upload_fields s' = upload_fields s"
  using assms http_keeps_upload [of Os d]
  by (auto simp: file_OnRead_def file_Process_def sbind_eq_Inr keeps_upload_def)

section \<open>Answers to HTTP requests\<close>

lemma read_pieces_concat: "concat (read_pieces k xs) = xs"
  by (induction k xs rule: read_pieces.induct) (subst read_pieces.simps, auto)

lemma read_pieces_bounds: "p \<in> set (read_pieces k xs) \<Longrightarrow> p \<noteq> [] \<and> (k > 0 \<longrightarrow> length p \<le> k)"
proof (induction k xs rule: read_pieces.induct)
  case (1 k xs)
  show ?case
  proof (cases "k = 0 \<or> length xs < k")
    case True
    with 1(2) show ?thesis by (subst (asm) read_pieces.simps) (auto split: if_splits)
  next
    case False
    with 1(2) have "p = take k xs \<or> p \<in> set (read_pieces k (drop k xs))"
      by (subst (asm) read_pieces.simps) auto
    with 1(1) [OF False] False show ?thesis by auto
  qed
qed

lemma http_plain_found:
  assumes "open_file path s = Some c"
  shows "http_plain path ct s = Inr ((), s\<lparr>fs_out := fs_out s @ http_header ct (length c) # read_pieces (8 * 1024) c\<rparr>)"
  using assms by (simp add: http_plain_def packHTTPResponse_def sbind_def sendFileData_def open_file_def http_header_def)

lemma http_plain_missing: "open_file path s = None \<Longrightarrow> http_plain path ct s = Inr ((), s)"
  by (simp add: http_plain_def packHTTPResponse_def sbind_def sendChunkedData_def)

definition plain_page :: "string \<Rightarrow> bool" where
  \<comment> \<open>requests that go straight to the plain answer\<close>
  "plain_page f \<longleftrightarrow> \<not> str_contains ''.mp4'' f \<and> \<not> str_contains ''.ts'' f \<and> \<not> str_contains ''download'' f"

text \<open>
  A request for a stored page, picture or audio file is answered by one header whose
  content length is the size of the file, followed by pieces of at most 8 KiB that are the
  file when put together; a request for a file that does not exist is not answered at all.
\<close>

theorem OnHttpResponse_plain:
  assumes "plain_page (parseHTTPRequest buff)"
    and "http_target (parseHTTPRequest buff) = (dirStr, ct)"
  shows "case open_file (dirStr @ parseHTTPRequest buff) s of
      Some c \<Rightarrow> \<exists>ps. OnHttpResponse Os buff s = Inr ((), s\<lparr>fs_out := fs_out s @ http_header ct (length c) # ps\<rparr>)
        \<and> concat ps = c \<and> (\<forall>p\<in>set ps. p \<noteq> [] \<and> length p \<le> 8192)
    | None \<Rightarrow> OnHttpResponse Os buff s = Inr ((), s)"
proof -
  have eq: "OnHttpResponse Os buff s = http_plain (dirStr @ parseHTTPRequest buff) ct s"
    using assms by (simp add: OnHttpResponse_def plain_page_def Let_def)
  show ?thesis
  proof (cases "open_file (dirStr @ parseHTTPRequest buff) s")
    case (Some c)
    have "\<forall>p\<in>set (read_pieces 8192 c). p \<noteq> [] \<and> length p \<le> 8192"
      using read_pieces_bounds [of _ 8192 c] by auto
    with Some eq http_plain_found [OF Some, of ct] read_pieces_concat [of 8192 c] show ?thesis by auto
  qed (simp add: eq http_plain_missing)
qed

theorem OnHttpResponse_plain_witness:
  "\<exists>ps. OnHttpResponse demo_os (''GET /a.html HTTP/1.1'' @ http_crlf)
      (FileSession_new [c_str (source_dir @ ''/ptFile/a.html'') \<mapsto> ''hello''])
    = Inr ((), (FileSession_new [c_str (source_dir @ ''/ptFile/a.html'') \<mapsto> ''hello''])
        \<lparr>fs_out := http_header ''text/plain'' 5 # ps\<rparr>) \<and> concat ps = ''hello''"
proof -
  let ?b = "''GET /a.html HTTP/1.1'' @ http_crlf"
  let ?s = "FileSession_new [c_str (source_dir @ ''/ptFile/a.html'') \<mapsto> ''hello'']"
  have p: "parseHTTPRequest ?b = ''a.html''" by code_simp
  have t: "http_target ''a.html'' = (source_dir @ ''/ptFile/'', ''text/plain'')" by code_simp
  have pl: "plain_page ''a.html''" by code_simp
  have "open_file ((source_dir @ ''/ptFile/'') @ ''a.html'') ?s = Some ''hello''"
    by (simp add: open_file_def FileSession_new_def)
  with OnHttpResponse_plain [where buff = ?b and dirStr = "source_dir @ ''/ptFile/''" and ct = "''text/plain''" and s = ?s and Os = demo_os] p t pl
  show ?thesis by (auto simp: FileSession_new_def eval_nat_numeral)
qed

subsection \<open>Chunked transfer coding\<close>

text \<open>
  A receiver of the chunked coding of RFC 7230: sizes in hexadecimal, each chunk followed
  by a line end, a chunk of size 0 and an empty line at the end.
\<close>

function dechunk :: "string \<Rightarrow> string option" where
  "dechunk s =
     (let h = takeWhile (\<lambda>c. c \<noteq> CHR 0x0D) s;
          r = drop (length h + 2) s;
          n = from_base 16 h
      in if h = [] \<or> take 2 (drop (length h) s) \<noteq> http_crlf then None
         else if n = 0 then (if r = http_crlf then Some [] else None)
         else if length r < n + 2 \<or> take 2 (drop n r) \<noteq> http_crlf then None
         else map_option ((@) (take n r)) (dechunk (drop (n + 2) r)))"
  by pat_completeness auto
termination
  by (relation "measure length") (auto simp: length_greater_0_conv [symmetric] simp del: length_greater_0_conv
      dest!: length_takeWhile_le [THEN le_trans])

declare dechunk.simps [simp del]

lemma to_base_16_digits: "c \<in> set (to_base 16 n) \<Longrightarrow> c \<noteq> CHR 0x0D"
proof (induction "16::nat" n rule: to_base.induct)
  case (1 n)
  have "digit_char d \<noteq> CHR 0x0D" if "d < 16" for d
  proof
    assume "digit_char d = CHR 0x0D"
    then have "(of_char (digit_char d) :: nat) = 13" by simp
    with that show False by (auto simp: digit_char_def split: if_splits)
  qed
  from this [of "n mod 16"] this [of n] 1 show ?case
    by (subst (asm) (2) to_base.simps) (auto split: if_splits)
qed

lemma takeWhile_to_hex: "takeWhile (\<lambda>c. c \<noteq> CHR 0x0D) (to_hex_nat n @ http_crlf @ t) = to_hex_nat n"
  using to_base_16_digits by (subst takeWhile_append2) (auto simp: to_hex_nat_def http_crlf_def)

lemma dechunk_chunk:
  assumes "p \<noteq> []"
  shows "dechunk (concat (chunk_hex p) @ t) = map_option ((@) p) (dechunk t)"
proof -
  have n: "from_base 16 (to_hex_nat (length p)) = length p" by (simp add: to_hex_nat_def from_base_to_base)
  have ne: "to_hex_nat (length p) \<noteq> []" by (simp add: to_hex_nat_def)
  have two: "length http_crlf = 2" by (simp add: http_crlf_def)
  show ?thesis
    using assms
    by (subst dechunk.simps) (simp add: chunk_hex_def takeWhile_to_hex n ne two Let_def)
qed

lemma dechunk_last: "dechunk last_chunk = Some []"
  by (subst dechunk.simps) (simp add: last_chunk_def http_crlf_def Let_def from_base_def digit_val_def)

text \<open>
  The body that \<^verbatim>\<open>streamMedia_ts\<close> sends for a file decodes, with the chunked transfer
  coding that its header announces, to the file.
\<close>

theorem ts_body_decodes: "dechunk (concat (ts_body c)) = Some c"
proof -
  have "dechunk (concat (concat (map chunk_hex ps)) @ last_chunk) = Some (concat ps)"
    if "\<forall>p\<in>set ps. p \<noteq> []" for ps
    using that
  proof (induction ps)
    case (Cons p ps)
    then show ?case using dechunk_chunk [of p "concat (concat (map chunk_hex ps)) @ last_chunk"] by simp
  qed (simp add: dechunk_last)
  from this [of "read_pieces 4096 c"] read_pieces_bounds [of _ 4096 c] read_pieces_concat [of 4096 c]
  show ?thesis by (auto simp: ts_body_def)
qed

text \<open>With the decimal sizes of \<^verbatim>\<open>sendChunkedData\<close> a body of ten bytes does not decode.\<close>

lemma decimal_chunks_do_not_decode:
  "dechunk (concat (chunk_decimal ''0123456789'') @ last_chunk) = None"
  by code_simp

subsection \<open>The requested file\<close>

text \<open>
  The name a request line asks for is read back exactly, for every name that does not
  begin with a slash and has no space and no line end, whatever follows the line.
\<close>

theorem parseHTTPRequest_name:
  assumes "name \<noteq> []" and "hd name \<noteq> CHR ''/''"
    and "\<forall>c\<in>set name. c \<noteq> CHR '' '' \<and> c \<noteq> CHR 0x0D \<and> c \<noteq> CHR 0x0A"
  shows "parseHTTPRequest (''GET /'' @ name @ '' HTTP/1.1'' @ http_crlf @ rest) = name"
proof -
  have line: "index_where (\<lambda>c. c = CHR 0x0D \<or> c = CHR 0x0A) (xs @ http_crlf @ rest) = Some (length xs)"
    if "\<forall>c\<in>set xs. c \<noteq> CHR 0x0D \<and> c \<noteq> CHR 0x0A" for xs
    using that by (induction xs) (auto simp: http_crlf_def)
  have space: "str_find '' '' (xs @ '' HTTP/1.1'') = Some (length xs)" if "\<forall>c\<in>set xs. c \<noteq> CHR '' ''" for xs
    using that by (induction xs) auto
  obtain c cs where name: "name = c # cs" "c \<noteq> CHR ''/''" using assms(1,2) by (cases name) auto
  show ?thesis
    using line [of "''GET /'' @ name @ '' HTTP/1.1''"] space [of name] assms(3) name
    by (simp add: parseHTTPRequest_def)
qed

theorem parseHTTPRequest_name_witness:
  "parseHTTPRequest (''GET /'' @ ''a.html'' @ '' HTTP/1.1'' @ http_crlf @ []) = ''a.html''"
  by (rule parseHTTPRequest_name) simp_all

end
