(* ===== verification/Net_Buffer.thy ===== *)
theory Net_Buffer
  imports Server_Prelude
begin

text \<open>
  \<^verbatim>\<open>muduo::net::Buffer\<close> (net/Buffer.h, net/Buffer.cc): the growing buffer between a socket
  and a session. A buffer is a vector with two indices; the readable bytes between them are
  its abstract content, and every operation is shown to act on that content as on a queue
  of bytes. A failed \<^verbatim>\<open>assert\<close> is the fault \<open>Assert_Failed\<close>.
\<close>

record Buffer =
  bufferVec :: "byte list"
  readerIndex :: nat
  writerIndex :: nat

definition kCheapPrepend :: nat where "kCheapPrepend = 8"
definition kInitialSize :: nat where "kInitialSize = 1024"
definition kCRLF :: "byte list" where "kCRLF = [0x0D, 0x0A]"

definition Buffer_new :: "nat \<Rightarrow> Buffer" where
  "Buffer_new initialSize =
     \<lparr>bufferVec = replicate (kCheapPrepend + initialSize) 0, readerIndex = kCheapPrepend,
      writerIndex = kCheapPrepend\<rparr>"

definition readableBytes :: "Buffer \<Rightarrow> nat" where "readableBytes b = writerIndex b - readerIndex b"
definition writableBytes :: "Buffer \<Rightarrow> nat" where "writableBytes b = length (bufferVec b) - writerIndex b"
definition prependableBytes :: "Buffer \<Rightarrow> nat" where "prependableBytes b = readerIndex b"

definition buffer_swap :: "Buffer \<Rightarrow> Buffer \<Rightarrow> Buffer \<times> Buffer" where
  "buffer_swap b rhs = (rhs, b)"

definition peek :: "nat \<Rightarrow> Buffer \<Rightarrow> byte list" where
  \<comment> \<open>\<open>len\<close> bytes from \<^verbatim>\<open>peek()\<close>\<close>
  "peek len b = take len (drop (readerIndex b) (bufferVec b))"

definition findCRLF :: "Buffer \<Rightarrow> nat option" where
  \<comment> \<open>the offset from \<^verbatim>\<open>peek()\<close>\<close>
  "findCRLF b = str_find kCRLF (peek (readableBytes b) b)"

definition findCRLF_from :: "nat \<Rightarrow> Buffer \<Rightarrow> nat option res" where
  "findCRLF_from start b =
     (if start \<le> readableBytes b
      then Inr (map_option (\<lambda>i. start + i) (str_find kCRLF (drop start (peek (readableBytes b) b))))
      else Inl Assert_Failed)"

definition findEOL :: "Buffer \<Rightarrow> nat option" where
  "findEOL b = index_where (\<lambda>c. c = 0x0A) (peek (readableBytes b) b)"

definition findEOL_from :: "nat \<Rightarrow> Buffer \<Rightarrow> nat option res" where
  "findEOL_from start b =
     (if start \<le> readableBytes b
      then Inr (map_option (\<lambda>i. start + i)
             (index_where (\<lambda>c. c = 0x0A) (drop start (peek (readableBytes b) b))))
      else Inl Assert_Failed)"

definition retrieveAll :: "Buffer \<Rightarrow> Buffer" where
  "retrieveAll b = b\<lparr>readerIndex := kCheapPrepend, writerIndex := kCheapPrepend\<rparr>"

definition retrieve :: "nat \<Rightarrow> Buffer \<Rightarrow> Buffer res" where
  "retrieve len b =
     (if \<not> len \<le> readableBytes b then Inl Assert_Failed
      else if len < readableBytes b then Inr (b\<lparr>readerIndex := readerIndex b + len\<rparr>)
      else Inr (retrieveAll b))"

definition retrieveUntil :: "nat \<Rightarrow> Buffer \<Rightarrow> Buffer res" where
  \<comment> \<open>the argument is the offset of \<^verbatim>\<open>end\<close> from \<^verbatim>\<open>peek()\<close>\<close>
  "retrieveUntil off b = (if off \<le> readableBytes b then retrieve off b else Inl Assert_Failed)"

definition retrieveAsString :: "nat \<Rightarrow> Buffer \<Rightarrow> (byte list \<times> Buffer) res" where
  "retrieveAsString len b =
     (if len \<le> readableBytes b
      then rbind (retrieve len b) (\<lambda>b'. Inr (peek len b, b')) else Inl Assert_Failed)"

definition retrieveAllAsString :: "Buffer \<Rightarrow> (byte list \<times> Buffer) res" where
  "retrieveAllAsString b = retrieveAsString (readableBytes b) b"

definition toStringPiece :: "Buffer \<Rightarrow> byte list" where
  \<comment> \<open>of less than 2^31 bytes, where the cast of the size to \<^verbatim>\<open>int\<close> is exact\<close>
  "toStringPiece b = peek (readableBytes b) b"

definition buffer_resize :: "nat \<Rightarrow> byte list \<Rightarrow> byte list" where
  "buffer_resize n xs = take n xs @ replicate (n - length xs) 0"

definition makeSpace :: "nat \<Rightarrow> Buffer \<Rightarrow> Buffer res" where
  "makeSpace len b =
     (if writableBytes b + prependableBytes b < len + kCheapPrepend
      then Inr (b\<lparr>bufferVec := buffer_resize (writerIndex b + len) (bufferVec b)\<rparr>)
      else if \<not> kCheapPrepend < readerIndex b then Inl Assert_Failed
      else
        let readable = readableBytes b;
            b' = b\<lparr>bufferVec := list_write kCheapPrepend (peek readable b) (bufferVec b),
                   readerIndex := kCheapPrepend, writerIndex := kCheapPrepend + readable\<rparr>
        in if readable = readableBytes b' then Inr b' else Inl Assert_Failed)"

definition ensureWritableBytes :: "nat \<Rightarrow> Buffer \<Rightarrow> Buffer res" where
  "ensureWritableBytes len b =
     rbind (if writableBytes b < len then makeSpace len b else Inr b) (\<lambda>b'.
       if writableBytes b' \<ge> len then Inr b' else Inl Assert_Failed)"

definition hasWritten :: "nat \<Rightarrow> Buffer \<Rightarrow> Buffer res" where
  "hasWritten len b =
     (if len \<le> writableBytes b then Inr (b\<lparr>writerIndex := writerIndex b + len\<rparr>)
      else Inl Assert_Failed)"

definition unwrite :: "nat \<Rightarrow> Buffer \<Rightarrow> Buffer res" where
  "unwrite len b =
     (if len \<le> readableBytes b then Inr (b\<lparr>writerIndex := writerIndex b - len\<rparr>)
      else Inl Assert_Failed)"

definition buffer_append :: "byte list \<Rightarrow> Buffer \<Rightarrow> Buffer res" where
  "buffer_append data b =
     rbind (ensureWritableBytes (length data) b) (\<lambda>b'.
       hasWritten (length data) (b'\<lparr>bufferVec := list_write (writerIndex b') data (bufferVec b')\<rparr>))"

definition buffer_prepend :: "byte list \<Rightarrow> Buffer \<Rightarrow> Buffer res" where
  "buffer_prepend data b =
     (if length data \<le> prependableBytes b
      then let r = readerIndex b - length data
           in Inr (b\<lparr>readerIndex := r, bufferVec := list_write r data (bufferVec b)\<rparr>)
      else Inl Assert_Failed)"

section \<open>Integers in network order\<close>

definition hostToNetwork :: "nat \<Rightarrow> 'a::len word \<Rightarrow> 'a word" where
  \<comment> \<open>\<^verbatim>\<open>htobe64\<close>, \<^verbatim>\<open>htobe32\<close>, \<^verbatim>\<open>htobe16\<close> for 8, 4 and 2 bytes on a little-endian machine\<close>
  "hostToNetwork n x = le_word (rev (le_bytes n x))"

definition appendInt64 :: "64 word \<Rightarrow> Buffer \<Rightarrow> Buffer res" where
  "appendInt64 x = buffer_append (le_bytes 8 (hostToNetwork 8 x))"
definition appendInt32 :: "32 word \<Rightarrow> Buffer \<Rightarrow> Buffer res" where
  "appendInt32 x = buffer_append (le_bytes 4 (hostToNetwork 4 x))"
definition appendInt16 :: "16 word \<Rightarrow> Buffer \<Rightarrow> Buffer res" where
  "appendInt16 x = buffer_append (le_bytes 2 (hostToNetwork 2 x))"
definition appendInt8 :: "8 word \<Rightarrow> Buffer \<Rightarrow> Buffer res" where
  "appendInt8 x = buffer_append (le_bytes 1 x)"

definition peek_int :: "nat \<Rightarrow> Buffer \<Rightarrow> 'a::len word res" where
  "peek_int n b =
     (if readableBytes b \<ge> n then Inr (hostToNetwork n (le_word (peek n b))) else Inl Assert_Failed)"

definition peekInt64 :: "Buffer \<Rightarrow> 64 word res" where "peekInt64 = peek_int 8"
definition peekInt32 :: "Buffer \<Rightarrow> 32 word res" where "peekInt32 = peek_int 4"
definition peekInt16 :: "Buffer \<Rightarrow> 16 word res" where "peekInt16 = peek_int 2"
definition peekInt8 :: "Buffer \<Rightarrow> 8 word res" where "peekInt8 = peek_int 1"

definition readInt64 :: "Buffer \<Rightarrow> (64 word \<times> Buffer) res" where
  "readInt64 b = rbind (peekInt64 b) (\<lambda>x. rbind (retrieve 8 b) (\<lambda>b'. Inr (x, b')))"
definition readInt32 :: "Buffer \<Rightarrow> (32 word \<times> Buffer) res" where
  "readInt32 b = rbind (peekInt32 b) (\<lambda>x. rbind (retrieve 4 b) (\<lambda>b'. Inr (x, b')))"
definition readInt16 :: "Buffer \<Rightarrow> (16 word \<times> Buffer) res" where
  "readInt16 b = rbind (peekInt16 b) (\<lambda>x. rbind (retrieve 2 b) (\<lambda>b'. Inr (x, b')))"
definition readInt8 :: "Buffer \<Rightarrow> (8 word \<times> Buffer) res" where
  "readInt8 b = rbind (peekInt8 b) (\<lambda>x. rbind (retrieve 1 b) (\<lambda>b'. Inr (x, b')))"

definition prependInt64 :: "64 word \<Rightarrow> Buffer \<Rightarrow> Buffer res" where
  "prependInt64 x = buffer_prepend (le_bytes 8 (hostToNetwork 8 x))"
definition prependInt32 :: "32 word \<Rightarrow> Buffer \<Rightarrow> Buffer res" where
  "prependInt32 x = buffer_prepend (le_bytes 4 (hostToNetwork 4 x))"
definition prependInt16 :: "16 word \<Rightarrow> Buffer \<Rightarrow> Buffer res" where
  "prependInt16 x = buffer_prepend (le_bytes 2 (hostToNetwork 2 x))"
definition prependInt8 :: "8 word \<Rightarrow> Buffer \<Rightarrow> Buffer res" where
  "prependInt8 x = buffer_prepend (le_bytes 1 x)"

definition shrink :: "nat \<Rightarrow> Buffer \<Rightarrow> Buffer res" where
  "shrink reserve b =
     rbind (ensureWritableBytes (readableBytes b + reserve) (Buffer_new kInitialSize)) (\<lambda>other.
     rbind (buffer_append (toStringPiece b) other) (\<lambda>other'. Inr (fst (buffer_swap b other'))))"

text \<open>
  \<^verbatim>\<open>readFd\<close>: the kernel is an argument that for a capacity gives the bytes \<^verbatim>\<open>readv\<close> delivers,
  or \<open>None\<close> for an error. The result is the count, or \<open>None\<close> for -1.
\<close>

definition extrabuf_size :: nat where "extrabuf_size = 65536"

definition readv_capacity :: "Buffer \<Rightarrow> nat" where
  \<comment> \<open>the extra buffer is offered when less room than its size is left\<close>
  "readv_capacity b =
     (if writableBytes b < extrabuf_size then writableBytes b + extrabuf_size else writableBytes b)"

definition readFd :: "(nat \<Rightarrow> byte list option) \<Rightarrow> Buffer \<Rightarrow> (nat option \<times> Buffer) res" where
  "readFd readv b =
     (let writable = writableBytes b
      in case readv (readv_capacity b) of
           None \<Rightarrow> Inr (None, b)
         | Some data \<Rightarrow>
             let n = length data;
                 b1 = b\<lparr>bufferVec := list_write (writerIndex b) (take writable data) (bufferVec b)\<rparr>
             in if n \<le> writable then Inr (Some n, b1\<lparr>writerIndex := writerIndex b1 + n\<rparr>)
                else rbind (buffer_append (drop writable data) (b1\<lparr>writerIndex := length (bufferVec b1)\<rparr>))
                       (\<lambda>b2. Inr (Some n, b2)))"

section \<open>The invariant and the content\<close>

definition buffer_ok :: "Buffer \<Rightarrow> bool" where
  "buffer_ok b \<longleftrightarrow> readerIndex b \<le> writerIndex b \<and> writerIndex b \<le> length (bufferVec b)
     \<and> kCheapPrepend \<le> length (bufferVec b)"

definition content :: "Buffer \<Rightarrow> byte list" where
  "content b = take (writerIndex b - readerIndex b) (drop (readerIndex b) (bufferVec b))"

lemma length_content: "buffer_ok b \<Longrightarrow> length (content b) = readableBytes b"
  by (auto simp: buffer_ok_def content_def readableBytes_def)

lemma peek_content: "len \<le> readableBytes b \<Longrightarrow> peek len b = take len (content b)"
  by (simp add: peek_def content_def readableBytes_def min_def)

lemma peek_all: "peek (readableBytes b) b = content b"
  by (simp add: peek_def content_def readableBytes_def)

lemma Buffer_new_ok: "buffer_ok (Buffer_new n)" "content (Buffer_new n) = []"
  by (simp_all add: buffer_ok_def Buffer_new_def content_def)

lemma makeSpace_ok:
  assumes "buffer_ok b" and "writableBytes b < len"
  shows "\<exists>b'. makeSpace len b = Inr b' \<and> buffer_ok b' \<and> content b' = content b \<and> len \<le> writableBytes b'"
proof (cases "writableBytes b + prependableBytes b < len + kCheapPrepend")
  case True
  let ?b' = "b\<lparr>bufferVec := buffer_resize (writerIndex b + len) (bufferVec b)\<rparr>"
  have ext: "buffer_resize (writerIndex b + len) (bufferVec b)
      = bufferVec b @ replicate (writerIndex b + len - length (bufferVec b)) 0"
    using assms by (simp add: buffer_resize_def writableBytes_def)
  have "content ?b' = content b"
    using assms(1) by (simp add: content_def ext buffer_ok_def)
  moreover have "buffer_ok ?b'" "len \<le> writableBytes ?b'"
    using assms by (auto simp: ext buffer_ok_def writableBytes_def)
  ultimately show ?thesis using True by (simp add: makeSpace_def)
next
  case False
  have r: "kCheapPrepend < readerIndex b"
    using False assms(2) by (simp add: prependableBytes_def)
  let ?c = "content b"
  let ?b' = "b\<lparr>bufferVec := list_write kCheapPrepend ?c (bufferVec b), readerIndex := kCheapPrepend,
      writerIndex := kCheapPrepend + readableBytes b\<rparr>"
  have len: "length ?c = readableBytes b" using assms(1) by (rule length_content)
  have fit: "kCheapPrepend + length ?c \<le> length (bufferVec b)"
    using assms(1) r len unfolding buffer_ok_def readableBytes_def by linarith
  have "content ?b' = take (readableBytes b) ?c"
    unfolding content_def [of ?b'] using fit len by (simp add: list_write_def)
  then have "content ?b' = ?c" using len by simp
  moreover have "buffer_ok ?b'" using fit len by (simp add: buffer_ok_def)
  moreover have "len \<le> writableBytes ?b'"
    using False fit len assms r
    by (simp add: writableBytes_def prependableBytes_def readableBytes_def buffer_ok_def)
  moreover have "readableBytes ?b' = readableBytes b" by (simp add: readableBytes_def)
  ultimately show ?thesis using False r by (simp add: makeSpace_def peek_all Let_def)
qed

lemma ensureWritableBytes_ok:
  assumes "buffer_ok b"
  shows "\<exists>b'. ensureWritableBytes len b = Inr b' \<and> buffer_ok b' \<and> content b' = content b
    \<and> len \<le> writableBytes b'"
proof (cases "writableBytes b < len")
  case True
  with makeSpace_ok [OF assms True] show ?thesis by (auto simp: ensureWritableBytes_def)
next
  case False
  with assms show ?thesis by (simp add: ensureWritableBytes_def)
qed

lemma write_ok:
  assumes "buffer_ok b" and "length data \<le> writableBytes b"
  shows "buffer_ok (b\<lparr>bufferVec := list_write (writerIndex b) data (bufferVec b), writerIndex := writerIndex b + length data\<rparr>)"
    and "content (b\<lparr>bufferVec := list_write (writerIndex b) data (bufferVec b), writerIndex := writerIndex b + length data\<rparr>)
      = content b @ data"
  using assms by (auto simp: buffer_ok_def content_def writableBytes_def list_write_def drop_take)

lemma buffer_append_ok:
  assumes "buffer_ok b"
  shows "\<exists>b'. buffer_append data b = Inr b' \<and> buffer_ok b' \<and> content b' = content b @ data"
proof -
  obtain b1 where b1: "ensureWritableBytes (length data) b = Inr b1" "buffer_ok b1"
      "content b1 = content b" "length data \<le> writableBytes b1"
    using ensureWritableBytes_ok [OF assms] by blast
  have fit: "writerIndex b1 + length data \<le> length (bufferVec b1)"
    using b1(2,4) by (auto simp: buffer_ok_def writableBytes_def)
  have "hasWritten (length data) (b1\<lparr>bufferVec := list_write (writerIndex b1) data (bufferVec b1)\<rparr>)
      = Inr (b1\<lparr>bufferVec := list_write (writerIndex b1) data (bufferVec b1), writerIndex := writerIndex b1 + length data\<rparr>)"
    using fit by (simp add: hasWritten_def writableBytes_def)
  with write_ok [OF b1(2,4)] b1(1,3) show ?thesis by (simp add: buffer_append_def)
qed

lemma retrieve_ok:
  assumes "buffer_ok b" and "len \<le> length (content b)"
  shows "\<exists>b'. retrieve len b = Inr b' \<and> buffer_ok b' \<and> content b' = drop len (content b)"
proof (cases "len < readableBytes b")
  case True
  then show ?thesis
    using assms
    by (auto simp: retrieve_def buffer_ok_def content_def readableBytes_def drop_take add.commute)
next
  case False
  with assms length_content [OF assms(1)] show ?thesis
    by (auto simp: retrieve_def retrieveAll_def buffer_ok_def content_def)
qed

lemma retrieve_refused: "buffer_ok b \<Longrightarrow> length (content b) < len \<Longrightarrow> retrieve len b = Inl Assert_Failed"
  by (simp add: retrieve_def length_content)

lemma retrieveAsString_ok:
  assumes "buffer_ok b"
  shows "len \<le> length (content b) \<Longrightarrow>
      \<exists>b'. retrieveAsString len b = Inr (take len (content b), b') \<and> buffer_ok b' \<and> content b' = drop len (content b)"
    and "length (content b) < len \<Longrightarrow> retrieveAsString len b = Inl Assert_Failed"
  using retrieve_ok [OF assms, of len] length_content [OF assms]
  by (auto simp: retrieveAsString_def peek_content)

lemma buffer_prepend_ok:
  assumes "buffer_ok b" and "length data \<le> readerIndex b"
  shows "\<exists>b'. buffer_prepend data b = Inr b' \<and> buffer_ok b' \<and> content b' = data @ content b"
proof -
  let ?r = "readerIndex b - length data"
  let ?b' = "b\<lparr>readerIndex := ?r, bufferVec := list_write ?r data (bufferVec b)\<rparr>"
  have fit: "?r + length data = readerIndex b" using assms(2) by simp
  have "take (writerIndex b - ?r) (data @ drop (readerIndex b) (bufferVec b))
      = data @ take (writerIndex b - readerIndex b) (drop (readerIndex b) (bufferVec b))"
    using assms by (auto simp: buffer_ok_def)
  moreover have "drop ?r (list_write ?r data (bufferVec b)) = data @ drop (readerIndex b) (bufferVec b)"
    using assms fit by (simp add: list_write_def buffer_ok_def)
  ultimately have "content ?b' = data @ content b" by (simp add: content_def)
  moreover have "buffer_ok ?b'" using assms by (auto simp: buffer_ok_def)
  ultimately show ?thesis using assms(2) by (simp add: buffer_prepend_def prependableBytes_def Let_def)
qed

section \<open>A queue of bytes\<close>

text \<open>
  What a session relies on: appending adds at the end and never fails, taking removes from
  the front and fails only when there is too little.
\<close>

locale byte_queue =
  fixes bytes :: "'b \<Rightarrow> byte list"
    and ok :: "'b \<Rightarrow> bool"
    and put :: "byte list \<Rightarrow> 'b \<Rightarrow> 'b res"
    and get :: "nat \<Rightarrow> 'b \<Rightarrow> (byte list \<times> 'b) res"
    and fresh :: 'b
  assumes fresh_ok: "ok fresh" "bytes fresh = []"
    and put_ok: "ok b \<Longrightarrow> \<exists>b'. put d b = Inr b' \<and> ok b' \<and> bytes b' = bytes b @ d"
    and get_ok: "ok b \<Longrightarrow> n \<le> length (bytes b) \<Longrightarrow>
      \<exists>b'. get n b = Inr (take n (bytes b), b') \<and> ok b' \<and> bytes b' = drop n (bytes b)"
begin

fun put_list :: "byte list list \<Rightarrow> 'b \<Rightarrow> 'b res" where
  "put_list [] b = Inr b"
| "put_list (d # ds) b = rbind (put d b) (put_list ds)"

fun get_list :: "nat list \<Rightarrow> 'b \<Rightarrow> (byte list list \<times> 'b) res" where
  "get_list [] b = Inr ([], b)"
| "get_list (n # ns) b = rbind (get n b) (\<lambda>(d, b'). rbind (get_list ns b') (\<lambda>(ds, b''). Inr (d # ds, b'')))"

lemma put_list_ok: "ok b \<Longrightarrow> \<exists>b'. put_list ds b = Inr b' \<and> ok b' \<and> bytes b' = bytes b @ concat ds"
proof (induction ds arbitrary: b)
  case (Cons d ds)
  obtain b1 where "put d b = Inr b1" "ok b1" "bytes b1 = bytes b @ d" using put_ok [OF Cons.prems] by blast
  with Cons.IH [of b1] show ?case by auto
qed simp

lemma get_list_ok:
  "ok b \<Longrightarrow> bytes b = concat ds @ rest \<Longrightarrow>
   \<exists>b'. get_list (map length ds) b = Inr (ds, b') \<and> ok b' \<and> bytes b' = rest"
proof (induction ds arbitrary: b)
  case (Cons d ds)
  obtain b1 where "get (length d) b = Inr (d, b1)" "ok b1" "bytes b1 = concat ds @ rest"
    using get_ok [OF Cons.prems(1), of "length d"] Cons.prems(2) by auto
  with Cons.IH [of b1] show ?case by auto
qed simp

lemma stream_in_order:
  assumes "ok b" and "bytes b = []" and "concat ds = concat es"
  shows "\<exists>b1 b2. put_list ds b = Inr b1 \<and> get_list (map length es) b1 = Inr (es, b2) \<and> bytes b2 = []"
proof -
  obtain b1 where b1: "put_list ds b = Inr b1" "ok b1" "bytes b1 = concat ds"
    using put_list_ok [OF assms(1)] assms(2) by auto
  from get_list_ok [OF b1(2), of es "[]"] b1 assms(3) show ?thesis by auto
qed

end

interpretation nb: byte_queue content buffer_ok buffer_append retrieveAsString "Buffer_new kInitialSize"
  using buffer_append_ok retrieveAsString_ok(1) by unfold_locales (auto simp: Buffer_new_ok)

fun append_list :: "byte list list \<Rightarrow> Buffer \<Rightarrow> Buffer res" where
  "append_list [] b = Inr b"
| "append_list (d # ds) b = rbind (buffer_append d b) (append_list ds)"

fun retrieve_list :: "nat list \<Rightarrow> Buffer \<Rightarrow> (byte list list \<times> Buffer) res" where
  "retrieve_list [] b = Inr ([], b)"
| "retrieve_list (n # ns) b =
     rbind (retrieveAsString n b) (\<lambda>(d, b'). rbind (retrieve_list ns b') (\<lambda>(ds, b''). Inr (d # ds, b'')))"

lemma append_list_nb: "append_list ds b = nb.put_list ds b"
  by (induction ds arbitrary: b) (auto intro!: rbind_cong)

lemma retrieve_list_nb: "retrieve_list ns b = nb.get_list ns b"
  by (induction ns arbitrary: b) (auto intro!: rbind_cong split: prod.split)

text \<open>
  C4. Refinement: on a buffer within its invariant, \<^verbatim>\<open>append\<close> never fails an assertion and
  adds at the end of the readable bytes, however it makes room; \<^verbatim>\<open>retrieveAsString\<close> takes
  from the front, and fails its assertion exactly when it asks for more than is readable.
\<close>

theorem buffer_refines_queue:
  assumes "buffer_ok b"
  shows "(\<exists>b'. buffer_append data b = Inr b' \<and> buffer_ok b' \<and> content b' = content b @ data)
    \<and> (if len \<le> length (content b)
        then \<exists>b'. retrieveAsString len b = Inr (take len (content b), b') \<and> buffer_ok b' \<and> content b' = drop len (content b)
        else retrieveAsString len b = Inl Assert_Failed)"
  using buffer_append_ok [OF assms] retrieveAsString_ok [OF assms, of len] by auto

theorem buffer_refines_queue_witness:
  "\<exists>b'. buffer_append [1, 2] (Buffer_new 0) = Inr b' \<and> content b' = [1, 2]"
  using buffer_refines_queue [OF Buffer_new_ok(1), of "[1, 2]" 0] by (auto simp: Buffer_new_ok)

text \<open>
  A stream cut into pieces by the network and read in frames of other lengths: the
  frames are what was sent, in order, with nothing lost, and the buffer is empty at the end.
\<close>

theorem buffer_stream_in_order:
  assumes "concat ds = concat es"
  shows "\<exists>b1 b2. append_list ds (Buffer_new kInitialSize) = Inr b1
    \<and> retrieve_list (map length es) b1 = Inr (es, b2) \<and> content b2 = []"
  using nb.stream_in_order [OF nb.fresh_ok assms] by (simp add: append_list_nb retrieve_list_nb)

theorem buffer_stream_in_order_witness:
  "\<exists>b1 b2. append_list [[1], [2, 3]] (Buffer_new kInitialSize) = Inr b1
    \<and> retrieve_list [2, 1] b1 = Inr ([[1, 2], [3]], b2) \<and> content b2 = []"
  using buffer_stream_in_order [of "[[1], [2, 3]]" "[[1, 2], [3]]"] by (simp add: eval_nat_numeral)

section \<open>Integers and the socket\<close>

lemma hostToNetwork_involution:
  fixes x :: "'a::len word"
  assumes "8 * n = LENGTH('a)"
  shows "hostToNetwork n (hostToNetwork n x) = x"
proof -
  have "le_bytes n (le_word (rev (le_bytes n x)) :: 'a word) = rev (le_bytes n x)"
    using le_bytes_le_word [of "rev (le_bytes n x)", where 'a = 'a] assms by simp
  then show ?thesis using assms by (simp add: hostToNetwork_def le_word_le_bytes)
qed

lemma peek_int_appended:
  fixes x :: "'a::len word"
  assumes "buffer_ok b" and "content b = le_bytes n (hostToNetwork n x) @ rest" and "8 * n = LENGTH('a)"
  shows "peek_int n b = Inr x"
proof -
  have n: "n \<le> readableBytes b" using length_content [OF assms(1)] assms(2) by simp
  then have "peek n b = le_bytes n (hostToNetwork n x)" using assms(2) by (simp add: peek_content)
  with n assms(3) show ?thesis
    by (simp add: peek_int_def le_word_le_bytes hostToNetwork_involution)
qed

text \<open>
  An integer appended in network order to an empty buffer and read back is the same
  integer, for 64, 32 and 16 bits, and leaves the buffer empty.
\<close>

theorem int_through_buffer:
  assumes "buffer_ok b" and "content b = []"
  shows "(\<exists>b1 b2. appendInt64 x b = Inr b1 \<and> readInt64 b1 = Inr (x, b2) \<and> content b2 = [])
    \<and> (\<exists>b1 b2. appendInt32 y b = Inr b1 \<and> readInt32 b1 = Inr (y, b2) \<and> content b2 = [])
    \<and> (\<exists>b1 b2. appendInt16 z b = Inr b1 \<and> readInt16 b1 = Inr (z, b2) \<and> content b2 = [])"
proof -
  have *: "\<exists>b1 b2. buffer_append (le_bytes n (hostToNetwork n w)) b = Inr b1 \<and> peek_int n b1 = Inr w
      \<and> retrieve n b1 = Inr b2 \<and> content b2 = []" if "8 * n = LENGTH('a)" for n and w :: "'a::len word"
  proof -
    obtain b1 where b1: "buffer_append (le_bytes n (hostToNetwork n w)) b = Inr b1" "buffer_ok b1"
        "content b1 = le_bytes n (hostToNetwork n w)"
      using buffer_append_ok [OF assms(1)] assms(2) by fastforce
    with peek_int_appended [OF b1(2), of n w "[]"] retrieve_ok [OF b1(2), of n] that show ?thesis by auto
  qed
  have "\<exists>b1 b2. appendInt64 x b = Inr b1 \<and> readInt64 b1 = Inr (x, b2) \<and> content b2 = []"
    using * [of 8 x] by (auto simp: appendInt64_def readInt64_def peekInt64_def)
  moreover have "\<exists>b1 b2. appendInt32 y b = Inr b1 \<and> readInt32 b1 = Inr (y, b2) \<and> content b2 = []"
    using * [of 4 y] by (auto simp: appendInt32_def readInt32_def peekInt32_def)
  moreover have "\<exists>b1 b2. appendInt16 z b = Inr b1 \<and> readInt16 b1 = Inr (z, b2) \<and> content b2 = []"
    using * [of 2 z] by (auto simp: appendInt16_def readInt16_def peekInt16_def)
  ultimately show ?thesis by blast
qed

theorem int_through_buffer_witness:
  "\<exists>b1 b2. appendInt32 7 (Buffer_new 0) = Inr b1 \<and> readInt32 b1 = Inr (7, b2) \<and> content b2 = []"
  using int_through_buffer [OF Buffer_new_ok] by blast

text \<open>
  Reading from a socket appends exactly the bytes the kernel delivered, whether they
  fit or spill into the extra buffer, and an error changes nothing.
\<close>

theorem readFd_appends:
  assumes "buffer_ok b"
  shows "case readv (readv_capacity b) of
      None \<Rightarrow> readFd readv b = Inr (None, b)
    | Some data \<Rightarrow> \<exists>b'. readFd readv b = Inr (Some (length data), b') \<and> buffer_ok b' \<and> content b' = content b @ data"
proof (cases "readv (readv_capacity b)")
  case None
  then show ?thesis by (simp add: readFd_def)
next
  case (Some data)
  show ?thesis
  proof (cases "length data \<le> writableBytes b")
    case True
    with Some write_ok [OF assms True] show ?thesis by (simp add: readFd_def Let_def)
  next
    case False
    let ?d = "take (writableBytes b) data"
    let ?b1 = "b\<lparr>bufferVec := list_write (writerIndex b) ?d (bufferVec b), writerIndex := writerIndex b + length ?d\<rparr>"
    have end_: "length (list_write (writerIndex b) ?d (bufferVec b)) = writerIndex b + length ?d"
      using assms False by (auto simp: buffer_ok_def writableBytes_def list_write_def)
    have "buffer_ok ?b1" "content ?b1 = content b @ ?d"
      using write_ok [OF assms, of ?d] by simp_all
    then obtain b' where "buffer_append (drop (writableBytes b) data) ?b1 = Inr b'" "buffer_ok b'"
        "content b' = content b @ data"
      using buffer_append_ok [of ?b1 "drop (writableBytes b) data"] by auto
    with Some False end_ show ?thesis by (simp add: readFd_def Let_def)
  qed
qed

theorem readFd_appends_witness:
  "\<exists>b'. readFd (\<lambda>_. Some [1, 2, 3]) (Buffer_new 1) = Inr (Some 3, b') \<and> content b' = [1, 2, 3]"
  using readFd_appends [OF Buffer_new_ok(1), of "\<lambda>_. Some [1, 2, 3]" 1]
  by (auto simp: Buffer_new_ok eval_nat_numeral)

lemma shrink_keeps:
  assumes "buffer_ok b"
  shows "\<exists>b'. shrink reserve b = Inr b' \<and> buffer_ok b' \<and> content b' = content b"
proof -
  obtain o1 where "ensureWritableBytes (readableBytes b + reserve) (Buffer_new kInitialSize) = Inr o1"
      "buffer_ok o1" "content o1 = []"
    using ensureWritableBytes_ok [OF Buffer_new_ok(1)] Buffer_new_ok(2) by metis
  with buffer_append_ok [of o1 "content b"] show ?thesis
    by (auto simp: shrink_def toStringPiece_def peek_all buffer_swap_def)
qed

end
