(* ===== verification/Net_Connection.thy ===== *)
theory Net_Connection
  imports Net_Buffer
begin

text \<open>
  \<^verbatim>\<open>Channel\<close> and \<^verbatim>\<open>TcpConnection\<close> (net/Channel.h, net/Channel.cc, net/TcpConnection.h,
  net/TcpConnection.cc) in the thread of their event loop: the states of a connection, the
  events it asks for, both buffers, and the functors it queues in the loop. The socket is
  the bytes it has taken and whether its write side was shut down; what \<^verbatim>\<open>write\<close> and
  \<^verbatim>\<open>readv\<close> return is an argument. The user's callbacks are sequences of calls on the
  connection, arguments of the event that runs them, and are logged in the state. Logging
  and the socket options are left out.
\<close>

section \<open>Channels\<close>

definition POLLIN :: "32 word" where "POLLIN = 1"
definition POLLPRI :: "32 word" where "POLLPRI = 2"
definition POLLOUT :: "32 word" where "POLLOUT = 4"
definition POLLERR :: "32 word" where "POLLERR = 8"
definition POLLHUP :: "32 word" where "POLLHUP = 16"
definition POLLNVAL :: "32 word" where "POLLNVAL = 32"
definition POLLRDHUP :: "32 word" where "POLLRDHUP = 0x2000"

definition kNoneEvent :: "32 word" where "kNoneEvent = 0"
definition kReadEvent :: "32 word" where "kReadEvent = POLLIN OR POLLPRI"
definition kWriteEvent :: "32 word" where "kWriteEvent = POLLOUT"

lemmas poll_defs = POLLIN_def POLLPRI_def POLLOUT_def POLLERR_def POLLHUP_def POLLNVAL_def POLLRDHUP_def
  kNoneEvent_def kReadEvent_def kWriteEvent_def

record Channel =
  ch_events :: "32 word"
  ch_tied :: bool
  ch_eventHandling :: bool
  ch_addedToLoop :: bool

definition Channel_new :: Channel where
  "Channel_new = \<lparr>ch_events = 0, ch_tied = False, ch_eventHandling = False, ch_addedToLoop = False\<rparr>"

definition isNoneEvent :: "Channel \<Rightarrow> bool" where "isNoneEvent c \<longleftrightarrow> ch_events c = kNoneEvent"
definition isWriting :: "Channel \<Rightarrow> bool" where "isWriting c \<longleftrightarrow> ch_events c AND kWriteEvent \<noteq> 0"
definition isReading :: "Channel \<Rightarrow> bool" where "isReading c \<longleftrightarrow> ch_events c AND kReadEvent \<noteq> 0"

definition channel_update :: "Channel \<Rightarrow> Channel" where
  "channel_update c = c\<lparr>ch_addedToLoop := True\<rparr>"

definition enableReading :: "Channel \<Rightarrow> Channel" where
  "enableReading c = channel_update (c\<lparr>ch_events := ch_events c OR kReadEvent\<rparr>)"
definition disableReading :: "Channel \<Rightarrow> Channel" where
  "disableReading c = channel_update (c\<lparr>ch_events := ch_events c AND NOT kReadEvent\<rparr>)"
definition enableWriting :: "Channel \<Rightarrow> Channel" where
  "enableWriting c = channel_update (c\<lparr>ch_events := ch_events c OR kWriteEvent\<rparr>)"
definition disableWriting :: "Channel \<Rightarrow> Channel" where
  "disableWriting c = channel_update (c\<lparr>ch_events := ch_events c AND NOT kWriteEvent\<rparr>)"
definition disableAll :: "Channel \<Rightarrow> Channel" where
  "disableAll c = channel_update (c\<lparr>ch_events := kNoneEvent\<rparr>)"
definition channel_tie :: "Channel \<Rightarrow> Channel" where
  "channel_tie c = c\<lparr>ch_tied := True\<rparr>"

definition channel_remove :: "Channel \<Rightarrow> Channel res" where
  "channel_remove c = (if \<not> isNoneEvent c then Inl Assert_Failed else Inr (c\<lparr>ch_addedToLoop := False\<rparr>))"

lemma isWriting_bit: "isWriting c \<longleftrightarrow> bit (ch_events c) 2"
  using and_exp_eq_0_iff_not_bit [of "ch_events c" 2] by (simp add: isWriting_def poll_defs)

lemma isReading_bit: "isReading c \<longleftrightarrow> bit (ch_events c) 0 \<or> bit (ch_events c) (Suc 0)"
proof -
  have "ch_events c AND kReadEvent = (ch_events c AND 2 ^ 0) OR (ch_events c AND 2 ^ 1)"
    unfolding kReadEvent_def POLLIN_def POLLPRI_def by (simp only: bit.conj_disj_distrib power_0 power_one_right)
  then show ?thesis
    using and_exp_eq_0_iff_not_bit [of "ch_events c" 0] and_exp_eq_0_iff_not_bit [of "ch_events c" 1]
    by (simp add: isReading_def or_eq_0_iff)
qed

lemma event_bits [simp]:
  "bit kReadEvent 0" "bit kReadEvent (Suc 0)" "\<not> bit kReadEvent 2"
  "\<not> bit kWriteEvent 0" "\<not> bit kWriteEvent (Suc 0)" "bit kWriteEvent 2"
  by (simp_all add: poll_defs bit_or_iff bit_iff_odd)

lemma channel_simps [simp]:
  "isWriting (enableWriting c)" "\<not> isWriting (disableWriting c)" "\<not> isWriting (disableAll c)"
  "isWriting (enableReading c) = isWriting c" "isWriting (disableReading c) = isWriting c"
  "isReading (enableReading c)" "\<not> isReading (disableReading c)" "\<not> isReading (disableAll c)"
  "isReading (enableWriting c) = isReading c" "isReading (disableWriting c) = isReading c"
  by (simp_all add: isWriting_bit isReading_bit enableWriting_def disableWriting_def
      disableAll_def enableReading_def disableReading_def channel_update_def kNoneEvent_def
      bit_or_iff bit_and_iff bit_not_iff)

lemma channel_simps' [simp]:
  "isNoneEvent (disableAll c)" "isWriting (channel_tie c) = isWriting c" "isReading (channel_tie c) = isReading c"
  "isNoneEvent (channel_tie c) = isNoneEvent c" "\<not> isWriting Channel_new" "isNoneEvent Channel_new"
  by (simp_all add: isWriting_def isReading_def isNoneEvent_def disableAll_def channel_update_def
      channel_tie_def Channel_new_def kNoneEvent_def)

lemma isNoneEvent_not_writing: "isNoneEvent c \<Longrightarrow> \<not> isWriting c"
  by (simp add: isNoneEvent_def isWriting_def kNoneEvent_def)

definition eventsToString :: "int \<Rightarrow> 32 word \<Rightarrow> string" where
  "eventsToString fd ev = to_string_int fd @ '': '' @ concat (map (\<lambda>(bit, name). if ev AND bit \<noteq> 0 then name else [])
     [(POLLIN, ''IN ''), (POLLPRI, ''PRI ''), (POLLOUT, ''OUT ''), (POLLHUP, ''HUP ''), (POLLRDHUP, ''RDHUP ''),
      (POLLERR, ''ERR ''), (POLLNVAL, ''NVAL '')])"

section \<open>Connections\<close>

datatype StateE = kDisconnected | kConnecting | kConnected | kDisconnecting

datatype write_error = EWOULDBLOCK | EPIPE | ECONNRESET | Other_Error

datatype write_result = Wrote nat | Write_Failed write_error
  \<comment> \<open>what \<^verbatim>\<open>sockets::write\<close> returns\<close>

datatype pending_call = WriteComplete | HighWaterMark nat | ForceCloseInLoop | ConnectDestroyed
  \<comment> \<open>the functors a connection puts into its loop\<close>

datatype callback =
    OnConnection bool | OnMessage | OnWriteComplete | OnHighWaterMark nat | OnClosed
  | Sent "byte list" | Dropped "byte list"
  \<comment> \<open>the user's callbacks as they were called, the first with \<^verbatim>\<open>conn->connected()\<close>, and the
    messages they sent on the open connection\<close>

record TcpConnection =
  tc_state :: StateE
  tc_reading :: bool
  tc_channel :: Channel
  tc_writeCompleteCallback :: bool
  tc_highWaterMarkCallback :: bool
  tc_highWaterMark :: nat
  tc_inputBuffer :: Buffer
  tc_outputBuffer :: Buffer
  tc_pending :: "pending_call list"
  tc_wire :: "byte list"
  tc_shutWrite :: bool
  tc_calls :: "callback list"

definition TcpConnection_new :: TcpConnection where
  "TcpConnection_new =
     \<lparr>tc_state = kConnecting, tc_reading = True, tc_channel = Channel_new,
      tc_writeCompleteCallback = False, tc_highWaterMarkCallback = False,
      tc_highWaterMark = 64 * 1024 * 1024, tc_inputBuffer = Buffer_new kInitialSize,
      tc_outputBuffer = Buffer_new kInitialSize, tc_pending = [], tc_wire = [], tc_shutWrite = False,
      tc_calls = []\<rparr>"

definition queueInLoop :: "pending_call \<Rightarrow> TcpConnection \<Rightarrow> TcpConnection" where
  "queueInLoop f c = c\<lparr>tc_pending := tc_pending c @ [f]\<rparr>"

definition log_call :: "callback \<Rightarrow> TcpConnection \<Rightarrow> TcpConnection" where
  "log_call cb c = c\<lparr>tc_calls := tc_calls c @ [cb]\<rparr>"

definition on_channel :: "(Channel \<Rightarrow> Channel) \<Rightarrow> TcpConnection \<Rightarrow> TcpConnection" where
  "on_channel f c = c\<lparr>tc_channel := f (tc_channel c)\<rparr>"

fun stateToString :: "StateE \<Rightarrow> string" where
  "stateToString kDisconnected = ''kDisconnected''"
| "stateToString kConnecting = ''kConnecting''"
| "stateToString kConnected = ''kConnected''"
| "stateToString kDisconnecting = ''kDisconnecting''"

subsection \<open>Sending\<close>

definition write_now :: "write_result \<Rightarrow> byte list \<Rightarrow> TcpConnection \<Rightarrow> (nat \<times> bool \<times> TcpConnection) res" where
  \<comment> \<open>the direct write of \<^verbatim>\<open>sendInLoop\<close>: \<^verbatim>\<open>nwrote\<close>, \<^verbatim>\<open>faultError\<close>; more bytes than were offered
    fail \<^verbatim>\<open>assert(remaining <= len)\<close>\<close>
  "write_now w data c =
     (if \<not> isWriting (tc_channel c) \<and> readableBytes (tc_outputBuffer c) = 0 then
        case w of
          Wrote n \<Rightarrow>
            if n > length data then Inl Assert_Failed
            else let c1 = c\<lparr>tc_wire := tc_wire c @ take n data\<rparr>
                 in Inr (n, False,
                      if n = length data \<and> tc_writeCompleteCallback c then queueInLoop WriteComplete c1 else c1)
        | Write_Failed e \<Rightarrow> Inr (0, e = EPIPE \<or> e = ECONNRESET, c)
      else Inr (0, False, c))"

definition sendInLoop :: "write_result \<Rightarrow> byte list \<Rightarrow> TcpConnection \<Rightarrow> TcpConnection res" where
  "sendInLoop w data c =
     (if tc_state c = kDisconnected then Inr c
      else rbind (write_now w data c) (\<lambda>(nwrote, faultError, c1).
        let remaining = length data - nwrote
        in if \<not> faultError \<and> remaining > 0 then
             let oldLen = readableBytes (tc_outputBuffer c1);
                 c2 = (if oldLen + remaining \<ge> tc_highWaterMark c1 \<and> oldLen < tc_highWaterMark c1
                          \<and> tc_highWaterMarkCallback c1
                       then queueInLoop (HighWaterMark (oldLen + remaining)) c1 else c1)
             in rbind (buffer_append (drop nwrote data) (tc_outputBuffer c2)) (\<lambda>buf.
                  let c3 = c2\<lparr>tc_outputBuffer := buf\<rparr>
                  in Inr (if \<not> isWriting (tc_channel c3) then on_channel enableWriting c3 else c3))
           else Inr c1))"

definition tcp_send :: "write_result \<Rightarrow> byte list \<Rightarrow> TcpConnection \<Rightarrow> TcpConnection res" where
  "tcp_send w message c = (if tc_state c = kConnected then sendInLoop w message c else Inr c)"

subsection \<open>Closing\<close>

definition shutdownInLoop :: "TcpConnection \<Rightarrow> TcpConnection" where
  "shutdownInLoop c = (if \<not> isWriting (tc_channel c) then c\<lparr>tc_shutWrite := True\<rparr> else c)"

definition tcp_shutdown :: "TcpConnection \<Rightarrow> TcpConnection" where
  "tcp_shutdown c = (if tc_state c = kConnected then shutdownInLoop (c\<lparr>tc_state := kDisconnecting\<rparr>) else c)"

definition forceClose :: "TcpConnection \<Rightarrow> TcpConnection" where
  "forceClose c =
     (if tc_state c = kConnected \<or> tc_state c = kDisconnecting
      then queueInLoop ForceCloseInLoop (c\<lparr>tc_state := kDisconnecting\<rparr>) else c)"

definition startReadInLoop :: "TcpConnection \<Rightarrow> TcpConnection" where
  "startReadInLoop c =
     (if \<not> tc_reading c \<or> \<not> isReading (tc_channel c)
      then (on_channel enableReading c)\<lparr>tc_reading := True\<rparr> else c)"

definition stopReadInLoop :: "TcpConnection \<Rightarrow> TcpConnection" where
  "stopReadInLoop c =
     (if tc_reading c \<or> isReading (tc_channel c)
      then (on_channel disableReading c)\<lparr>tc_reading := False\<rparr> else c)"

subsection \<open>Callbacks\<close>

datatype api_call = Send "byte list" write_result | Shutdown | Force_Close | Start_Read | Stop_Read | Take_All
  \<comment> \<open>what a callback does with its connection; \<open>Take_All\<close> empties the input buffer\<close>

definition drops :: "write_result \<Rightarrow> TcpConnection \<Rightarrow> bool" where
  \<comment> \<open>a direct write to a broken connection: the message is given up\<close>
  "drops w c \<longleftrightarrow> \<not> isWriting (tc_channel c) \<and> readableBytes (tc_outputBuffer c) = 0
     \<and> (w = Write_Failed EPIPE \<or> w = Write_Failed ECONNRESET)"

fun run_call :: "api_call \<Rightarrow> TcpConnection \<Rightarrow> TcpConnection res" where
  "run_call (Send message w) c =
     (if tc_state c = kConnected
      then rbind (tcp_send w message c) (\<lambda>c'.
        Inr (log_call (if drops w c then Dropped message else Sent message) c'))
      else tcp_send w message c)"
| "run_call Shutdown c = Inr (tcp_shutdown c)"
| "run_call Force_Close c = Inr (forceClose c)"
| "run_call Start_Read c = Inr (startReadInLoop c)"
| "run_call Stop_Read c = Inr (stopReadInLoop c)"
| "run_call Take_All c =
     rbind (retrieveAllAsString (tc_inputBuffer c)) (\<lambda>(_, b). Inr (c\<lparr>tc_inputBuffer := b\<rparr>))"

fun run_calls :: "api_call list \<Rightarrow> TcpConnection \<Rightarrow> TcpConnection res" where
  "run_calls [] c = Inr c"
| "run_calls (a # as) c = rbind (run_call a c) (run_calls as)"

subsection \<open>Handlers\<close>

definition connectEstablished :: "api_call list \<Rightarrow> TcpConnection \<Rightarrow> TcpConnection res" where
  "connectEstablished up c =
     (if tc_state c \<noteq> kConnecting then Inl Assert_Failed
      else run_calls up (log_call (OnConnection True)
        (on_channel (enableReading \<circ> channel_tie) (c\<lparr>tc_state := kConnected\<rparr>))))"

definition connectDestroyed :: "api_call list \<Rightarrow> TcpConnection \<Rightarrow> TcpConnection res" where
  "connectDestroyed down c =
     rbind (if tc_state c = kConnected then
              run_calls down (log_call (OnConnection False) (on_channel disableAll (c\<lparr>tc_state := kDisconnected\<rparr>)))
            else Inr c) (\<lambda>c1.
     rbind (channel_remove (tc_channel c1)) (\<lambda>ch. Inr (c1\<lparr>tc_channel := ch\<rparr>)))"

definition handleClose :: "api_call list \<Rightarrow> TcpConnection \<Rightarrow> TcpConnection res" where
  \<comment> \<open>the close callback is \<^verbatim>\<open>TcpServer::removeConnection\<close>, which queues \<^verbatim>\<open>connectDestroyed\<close>\<close>
  "handleClose down c =
     (if \<not> (tc_state c = kConnected \<or> tc_state c = kDisconnecting) then Inl Assert_Failed
      else rbind (run_calls down (log_call (OnConnection False)
             (on_channel disableAll (c\<lparr>tc_state := kDisconnected\<rparr>)))) (\<lambda>c1.
        Inr (queueInLoop ConnectDestroyed (log_call OnClosed c1))))"

definition forceCloseInLoop :: "api_call list \<Rightarrow> TcpConnection \<Rightarrow> TcpConnection res" where
  "forceCloseInLoop down c =
     (if tc_state c = kConnected \<or> tc_state c = kDisconnecting then handleClose down c else Inr c)"

definition handleRead ::
    "(nat \<Rightarrow> byte list option) \<Rightarrow> api_call list \<Rightarrow> api_call list \<Rightarrow> TcpConnection \<Rightarrow> TcpConnection res" where
  "handleRead readv message down c =
     rbind (readFd readv (tc_inputBuffer c)) (\<lambda>(n, buf).
       let c1 = c\<lparr>tc_inputBuffer := buf\<rparr>
       in case n of
            None \<Rightarrow> Inr c1
          | Some k \<Rightarrow> if k > 0 then run_calls message (log_call OnMessage c1) else handleClose down c1)"

definition handleWrite :: "(nat \<Rightarrow> write_result) \<Rightarrow> TcpConnection \<Rightarrow> TcpConnection res" where
  "handleWrite w c =
     (if isWriting (tc_channel c) then
        case w (readableBytes (tc_outputBuffer c)) of
          Wrote n \<Rightarrow>
            if n > 0 then
              rbind (retrieve n (tc_outputBuffer c)) (\<lambda>buf.
                let c1 = c\<lparr>tc_wire := tc_wire c @ peek n (tc_outputBuffer c), tc_outputBuffer := buf\<rparr>
                in if readableBytes buf = 0 then
                     let c2 = on_channel disableWriting c1;
                         c3 = (if tc_writeCompleteCallback c2 then queueInLoop WriteComplete c2 else c2)
                     in Inr (if tc_state c3 = kDisconnecting then shutdownInLoop c3 else c3)
                   else Inr c1)
            else Inr c
        | Write_Failed _ \<Rightarrow> Inr c
      else Inr c)"

record io_env =
  io_readv :: "nat \<Rightarrow> byte list option"
  io_room :: write_result
  io_message :: "api_call list"
  io_down :: "api_call list"

definition socket_write :: "write_result \<Rightarrow> nat \<Rightarrow> write_result" where
  \<comment> \<open>what a socket with room for some bytes, or with an error, answers to a \<^verbatim>\<open>write\<close> of a length\<close>
  "socket_write room len = (case room of Wrote n \<Rightarrow> Wrote (min n len) | Write_Failed e \<Rightarrow> Write_Failed e)"

definition handleEventWithGuard :: "32 word \<Rightarrow> io_env \<Rightarrow> TcpConnection \<Rightarrow> TcpConnection res" where
  \<comment> \<open>the error callback only logs\<close>
  "handleEventWithGuard revents io c =
     rbind (if revents AND POLLHUP \<noteq> 0 \<and> revents AND POLLIN = 0
            then handleClose (io_down io) (on_channel (\<lambda>ch. ch\<lparr>ch_eventHandling := True\<rparr>) c)
            else Inr (on_channel (\<lambda>ch. ch\<lparr>ch_eventHandling := True\<rparr>) c)) (\<lambda>c1.
     rbind (if revents AND (POLLIN OR POLLPRI OR POLLRDHUP) \<noteq> 0
            then handleRead (io_readv io) (io_message io) (io_down io) c1 else Inr c1) (\<lambda>c2.
     rbind (if revents AND POLLOUT \<noteq> 0 then handleWrite (socket_write (io_room io)) c2 else Inr c2) (\<lambda>c3.
       Inr (on_channel (\<lambda>ch. ch\<lparr>ch_eventHandling := False\<rparr>) c3))))"

definition handleEvent :: "bool \<Rightarrow> 32 word \<Rightarrow> io_env \<Rightarrow> TcpConnection \<Rightarrow> TcpConnection res" where
  \<comment> \<open>the first argument: the owner of a tied channel is still alive\<close>
  "handleEvent alive revents io c =
     (if ch_tied (tc_channel c) then if alive then handleEventWithGuard revents io c else Inr c
      else handleEventWithGuard revents io c)"

subsection \<open>The loop\<close>

fun run_pending :: "(pending_call \<Rightarrow> api_call list) \<Rightarrow> pending_call \<Rightarrow> TcpConnection \<Rightarrow> TcpConnection res" where
  "run_pending acts WriteComplete c = run_calls (acts WriteComplete) (log_call OnWriteComplete c)"
| "run_pending acts (HighWaterMark n) c = run_calls (acts (HighWaterMark n)) (log_call (OnHighWaterMark n) c)"
| "run_pending acts ForceCloseInLoop c = forceCloseInLoop (acts ForceCloseInLoop) c"
| "run_pending acts ConnectDestroyed c = connectDestroyed (acts ConnectDestroyed) c"

fun run_functors :: "(pending_call \<Rightarrow> api_call list) \<Rightarrow> pending_call list \<Rightarrow> TcpConnection \<Rightarrow> TcpConnection res" where
  "run_functors acts [] c = Inr c"
| "run_functors acts (f # fs) c = rbind (run_pending acts f c) (run_functors acts fs)"

definition doPendingFunctors :: "(pending_call \<Rightarrow> api_call list) \<Rightarrow> TcpConnection \<Rightarrow> TcpConnection res" where
  \<comment> \<open>the functors of this connection: those queued while they run wait for the next round\<close>
  "doPendingFunctors acts c = run_functors acts (tc_pending c) (c\<lparr>tc_pending := []\<rparr>)"

datatype conn_event =
    Established "api_call list"
  | Ready "32 word" io_env
  | Functors "pending_call \<Rightarrow> api_call list"
  | Call api_call

fun conn_step :: "conn_event \<Rightarrow> TcpConnection \<Rightarrow> TcpConnection res" where
  "conn_step (Established up) c = connectEstablished up c"
| "conn_step (Ready revents io) c = handleEvent True revents io c"
| "conn_step (Functors acts) c = doPendingFunctors acts c"
| "conn_step (Call a) c = run_call a c"

section \<open>The invariant\<close>

definition reports :: "TcpConnection \<Rightarrow> bool list" where
  \<comment> \<open>what the connection callback was told\<close>
  "reports c = List.map_filter (\<lambda>cb. case cb of OnConnection up \<Rightarrow> Some up | _ \<Rightarrow> None) (tc_calls c)"

definition sent :: "TcpConnection \<Rightarrow> byte list" where
  "sent c = concat (List.map_filter (\<lambda>cb. case cb of Sent m \<Rightarrow> Some m | _ \<Rightarrow> None) (tc_calls c))"

definition outgoing :: "TcpConnection \<Rightarrow> byte list" where
  "outgoing c = tc_wire c @ content (tc_outputBuffer c)"

definition conn_inv :: "TcpConnection \<Rightarrow> bool" where
  "conn_inv c \<longleftrightarrow>
     buffer_ok (tc_inputBuffer c) \<and> buffer_ok (tc_outputBuffer c) \<and> outgoing c = sent c
     \<and> (case tc_state c of
          kConnecting \<Rightarrow> reports c = [] \<and> content (tc_outputBuffer c) = [] \<and> \<not> tc_shutWrite c
            \<and> \<not> isWriting (tc_channel c)
        | kConnected \<Rightarrow> reports c = [True] \<and> isWriting (tc_channel c) = (content (tc_outputBuffer c) \<noteq> [])
            \<and> \<not> tc_shutWrite c
        | kDisconnecting \<Rightarrow> reports c = [True] \<and> isWriting (tc_channel c) = (content (tc_outputBuffer c) \<noteq> [])
            \<and> (tc_shutWrite c \<longrightarrow> content (tc_outputBuffer c) = [])
        | kDisconnected \<Rightarrow> reports c = [True, False] \<and> isNoneEvent (tc_channel c)
            \<and> (tc_shutWrite c \<longrightarrow> content (tc_outputBuffer c) = []))
     \<and> (ConnectDestroyed \<in> set (tc_pending c) \<longrightarrow>
          tc_state c = kDisconnected \<and> ConnectDestroyed \<notin> set (butlast (tc_pending c)))"

fun call_ok :: "api_call \<Rightarrow> bool" where
  \<comment> \<open>at any time: the socket takes at most what it is offered, and reading is not started\<close>
  "call_ok (Send m (Wrote n)) \<longleftrightarrow> n \<le> length m"
| "call_ok Start_Read \<longleftrightarrow> False"
| "call_ok _ \<longleftrightarrow> True"

definition open_call_ok :: "api_call \<Rightarrow> bool" where
  \<comment> \<open>while the connection is up, reading may be started too\<close>
  "open_call_ok a \<longleftrightarrow> a = Start_Read \<or> call_ok a"

lemma open_call_ok_simps [simp]:
  "open_call_ok (Send m w) = call_ok (Send m w)" "open_call_ok Shutdown" "open_call_ok Force_Close" "open_call_ok Start_Read"
  "open_call_ok Stop_Read" "open_call_ok Take_All"
  by (simp_all add: open_call_ok_def)

lemma log_simps [simp]:
  "reports (log_call (OnConnection b) c) = reports c @ [b]" "sent (log_call (OnConnection b) c) = sent c"
  "reports (log_call OnMessage c) = reports c" "sent (log_call OnMessage c) = sent c"
  "reports (log_call OnWriteComplete c) = reports c" "sent (log_call OnWriteComplete c) = sent c"
  "reports (log_call (OnHighWaterMark n) c) = reports c" "sent (log_call (OnHighWaterMark n) c) = sent c"
  "reports (log_call OnClosed c) = reports c" "sent (log_call OnClosed c) = sent c"
  "reports (log_call (Sent m) c) = reports c" "sent (log_call (Sent m) c) = sent c @ m"
  "reports (log_call (Dropped m) c) = reports c" "sent (log_call (Dropped m) c) = sent c"
  by (simp_all add: reports_def sent_def log_call_def List.map_filter_def)

lemma log_call_fields [simp]:
  "tc_state (log_call b c) = tc_state c" "tc_channel (log_call b c) = tc_channel c"
  "tc_inputBuffer (log_call b c) = tc_inputBuffer c" "tc_outputBuffer (log_call b c) = tc_outputBuffer c"
  "tc_pending (log_call b c) = tc_pending c" "tc_wire (log_call b c) = tc_wire c"
  "tc_shutWrite (log_call b c) = tc_shutWrite c" "outgoing (log_call b c) = outgoing c"
  by (simp_all add: log_call_def outgoing_def)

lemma queueInLoop_fields [simp]:
  "tc_state (queueInLoop f c) = tc_state c" "tc_channel (queueInLoop f c) = tc_channel c"
  "tc_inputBuffer (queueInLoop f c) = tc_inputBuffer c" "tc_outputBuffer (queueInLoop f c) = tc_outputBuffer c"
  "tc_pending (queueInLoop f c) = tc_pending c @ [f]" "tc_wire (queueInLoop f c) = tc_wire c"
  "tc_shutWrite (queueInLoop f c) = tc_shutWrite c" "outgoing (queueInLoop f c) = outgoing c"
  "reports (queueInLoop f c) = reports c" "sent (queueInLoop f c) = sent c"
  by (simp_all add: queueInLoop_def outgoing_def reports_def sent_def)

lemma on_channel_fields [simp]:
  "tc_state (on_channel f c) = tc_state c" "tc_channel (on_channel f c) = f (tc_channel c)"
  "tc_inputBuffer (on_channel f c) = tc_inputBuffer c" "tc_outputBuffer (on_channel f c) = tc_outputBuffer c"
  "tc_pending (on_channel f c) = tc_pending c" "tc_wire (on_channel f c) = tc_wire c"
  "tc_shutWrite (on_channel f c) = tc_shutWrite c" "outgoing (on_channel f c) = outgoing c"
  "reports (on_channel f c) = reports c" "sent (on_channel f c) = sent c"
  by (simp_all add: on_channel_def outgoing_def reports_def sent_def)

lemma update_simps [simp]:
  "reports (c\<lparr>tc_state := st\<rparr>) = reports c" "sent (c\<lparr>tc_state := st\<rparr>) = sent c"
  "outgoing (c\<lparr>tc_state := st\<rparr>) = outgoing c"
  "reports (c\<lparr>tc_reading := b\<rparr>) = reports c" "sent (c\<lparr>tc_reading := b\<rparr>) = sent c"
  "outgoing (c\<lparr>tc_reading := b\<rparr>) = outgoing c"
  "reports (c\<lparr>tc_wire := w\<rparr>) = reports c" "sent (c\<lparr>tc_wire := w\<rparr>) = sent c"
  "reports (c\<lparr>tc_outputBuffer := o'\<rparr>) = reports c" "sent (c\<lparr>tc_outputBuffer := o'\<rparr>) = sent c"
  "reports (c\<lparr>tc_inputBuffer := i\<rparr>) = reports c" "sent (c\<lparr>tc_inputBuffer := i\<rparr>) = sent c"
  "outgoing (c\<lparr>tc_inputBuffer := i\<rparr>) = outgoing c"
  "reports (c\<lparr>tc_shutWrite := b\<rparr>) = reports c" "sent (c\<lparr>tc_shutWrite := b\<rparr>) = sent c"
  "outgoing (c\<lparr>tc_shutWrite := b\<rparr>) = outgoing c"
  "reports (c\<lparr>tc_pending := p\<rparr>) = reports c" "sent (c\<lparr>tc_pending := p\<rparr>) = sent c"
  "outgoing (c\<lparr>tc_pending := p\<rparr>) = outgoing c"
  "reports (c\<lparr>tc_channel := ch\<rparr>) = reports c" "sent (c\<lparr>tc_channel := ch\<rparr>) = sent c"
  "outgoing (c\<lparr>tc_channel := ch\<rparr>) = outgoing c"
  by (simp_all add: reports_def sent_def outgoing_def)

lemma outgoing_parts: "outgoing c = tc_wire c @ content (tc_outputBuffer c)"
  by (simp add: outgoing_def)

lemma readable_zero: "buffer_ok b \<Longrightarrow> readableBytes b = 0 \<longleftrightarrow> content b = []"
  using length_content [of b] by auto

definition sends :: "byte list \<Rightarrow> TcpConnection \<Rightarrow> TcpConnection \<Rightarrow> bool" where
  \<comment> \<open>\<open>c'\<close> is \<open>c\<close> with \<open>m\<close> behind everything that is on its way\<close>
  "sends m c c' \<longleftrightarrow>
     tc_state c' = tc_state c \<and> tc_inputBuffer c' = tc_inputBuffer c \<and> buffer_ok (tc_outputBuffer c')
     \<and> outgoing c' = outgoing c @ m \<and> isWriting (tc_channel c') = (content (tc_outputBuffer c') \<noteq> [])
     \<and> tc_shutWrite c' = tc_shutWrite c \<and> reports c' = reports c \<and> sent c' = sent c
     \<and> (ConnectDestroyed \<in> set (tc_pending c') \<longrightarrow> ConnectDestroyed \<in> set (tc_pending c))"

lemma sendInLoop_rest:
  assumes "buffer_ok (tc_outputBuffer c)" and "isWriting (tc_channel c) \<longrightarrow> content (tc_outputBuffer c) \<noteq> []"
    and "content (tc_outputBuffer c) \<noteq> [] \<longrightarrow> isWriting (tc_channel c)" and "d \<noteq> []"
  shows "\<exists>c'. rbind (buffer_append d (tc_outputBuffer c)) (\<lambda>buf.
      let c3 = c\<lparr>tc_outputBuffer := buf\<rparr>
      in Inr (if \<not> isWriting (tc_channel c3) then on_channel enableWriting c3 else c3)) = Inr c' \<and> sends d c c'"
proof -
  obtain b where b: "buffer_append d (tc_outputBuffer c) = Inr b" "buffer_ok b"
      "content b = content (tc_outputBuffer c) @ d"
    using buffer_append_ok [OF assms(1), of d] by blast
  with assms(2-4) show ?thesis by (auto simp: sends_def outgoing_parts)
qed

lemma sends_refl: "buffer_ok (tc_outputBuffer c) \<Longrightarrow> isWriting (tc_channel c) = (content (tc_outputBuffer c) \<noteq> [])
    \<Longrightarrow> sends [] c c"
  by (simp add: sends_def)

lemma sendInLoop_after:
  assumes "write_now w m c = Inr (n, fault, c1)" and "tc_state c \<noteq> kDisconnected"
    and "buffer_ok (tc_outputBuffer c1)" and "isWriting (tc_channel c1) = (content (tc_outputBuffer c1) \<noteq> [])"
  shows "\<exists>c'. sendInLoop w m c = Inr c' \<and> sends (if fault then [] else drop n m) c1 c'"
proof (cases "fault \<or> length m \<le> n")
  case True
  then show ?thesis using assms sends_refl [OF assms(3,4)] by (auto simp: sendInLoop_def)
next
  case False
  let ?old = "readableBytes (tc_outputBuffer c1)"
  define c2 where "c2 = (if ?old + (length m - n) \<ge> tc_highWaterMark c1 \<and> ?old < tc_highWaterMark c1
      \<and> tc_highWaterMarkCallback c1 then queueInLoop (HighWaterMark (?old + (length m - n))) c1 else c1)"
  have same: "sends d c2 c' = sends d c1 c'" for d c'
    by (simp add: sends_def c2_def)
  have "buffer_ok (tc_outputBuffer c2)" "isWriting (tc_channel c2) \<longrightarrow> content (tc_outputBuffer c2) \<noteq> []"
    "content (tc_outputBuffer c2) \<noteq> [] \<longrightarrow> isWriting (tc_channel c2)"
    using assms(3,4) by (simp_all add: c2_def)
  from sendInLoop_rest [OF this, of "drop n m"] False obtain c' where
    "rbind (buffer_append (drop n m) (tc_outputBuffer c2)) (\<lambda>buf.
      let c3 = c2\<lparr>tc_outputBuffer := buf\<rparr>
      in Inr (if \<not> isWriting (tc_channel c3) then on_channel enableWriting c3 else c3)) = Inr c'" "sends (drop n m) c2 c'"
    by auto
  moreover have "sendInLoop w m c = rbind (buffer_append (drop n m) (tc_outputBuffer c2)) (\<lambda>buf.
      let c3 = c2\<lparr>tc_outputBuffer := buf\<rparr>
      in Inr (if \<not> isWriting (tc_channel c3) then on_channel enableWriting c3 else c3))"
    unfolding sendInLoop_def c2_def using False assms(1,2) by (simp only: rbind_Inr prod.case Let_def) auto
  ultimately show ?thesis using False same by auto
qed

lemma sendInLoop_sends:
  assumes "buffer_ok (tc_outputBuffer c)" and "isWriting (tc_channel c) = (content (tc_outputBuffer c) \<noteq> [])"
    and "tc_state c = kConnected" and "call_ok (Send m w)"
  shows "\<exists>c'. sendInLoop w m c = Inr c' \<and> sends (if drops w c then [] else m) c c'"
proof (cases "content (tc_outputBuffer c) = [] \<and> (\<exists>n. w = Wrote n)")
  case True
  then obtain n where w: "w = Wrote n" by blast
  from True assms(1,2) have free: "\<not> isWriting (tc_channel c)" "readableBytes (tc_outputBuffer c) = 0"
    by (simp_all add: readable_zero)
  define c1 where "c1 = (if n = length m \<and> tc_writeCompleteCallback c
      then queueInLoop WriteComplete (c\<lparr>tc_wire := tc_wire c @ take n m\<rparr>) else c\<lparr>tc_wire := tc_wire c @ take n m\<rparr>)"
  have now: "write_now w m c = Inr (n, False, c1)"
    using free w assms(4) by (auto simp: write_now_def c1_def Let_def)
  have "sends (drop n m) c1 c' \<Longrightarrow> sends m c c'" for c'
    using True by (auto simp: sends_def c1_def outgoing_parts split: if_splits)
  then show ?thesis
    using sendInLoop_after [OF now] assms(1-3) free w True by (fastforce simp: c1_def drops_def split: if_splits)
next
  case False
  then have "write_now w m c = Inr (0, drops w c, c)"
    using assms(1,2) by (cases w) (auto simp: write_now_def drops_def readable_zero)
  from sendInLoop_after [OF this _ assms(1,2)] assms(3) show ?thesis by (auto simp del: split_paired_Ex)
qed

lemma conn_inv_buffers: "conn_inv c \<Longrightarrow> buffer_ok (tc_inputBuffer c)" "conn_inv c \<Longrightarrow> buffer_ok (tc_outputBuffer c)"
  by (simp_all add: conn_inv_def)

lemma conn_inv_input: "conn_inv c \<Longrightarrow> buffer_ok b \<Longrightarrow> conn_inv (c\<lparr>tc_inputBuffer := b\<rparr>)"
  by (simp add: conn_inv_def split: StateE.splits)

lemma conn_inv_log:
  "conn_inv c \<Longrightarrow> conn_inv (log_call OnMessage c)" "conn_inv c \<Longrightarrow> conn_inv (log_call OnWriteComplete c)"
  "conn_inv c \<Longrightarrow> conn_inv (log_call (OnHighWaterMark n) c)" "conn_inv c \<Longrightarrow> conn_inv (log_call OnClosed c)"
  by (simp_all add: conn_inv_def split: StateE.splits)

lemma run_call_inv:
  assumes "conn_inv c" and "call_ok a"
  shows "\<exists>c'. run_call a c = Inr c' \<and> conn_inv c' \<and> (tc_state c = kDisconnected \<longrightarrow> tc_state c' = kDisconnected)"
proof (cases a)
  case (Send m w)
  show ?thesis
  proof (cases "tc_state c = kConnected")
    case True
    with assms(1) have "isWriting (tc_channel c) = (content (tc_outputBuffer c) \<noteq> [])" by (simp add: conn_inv_def)
    from sendInLoop_sends [OF conn_inv_buffers(2) [OF assms(1)] this True] assms(2) obtain c' where
      "sendInLoop w m c = Inr c'" "sends (if drops w c then [] else m) c c'" by (auto simp: Send)
    with True assms(1) show ?thesis by (auto simp: Send tcp_send_def sends_def conn_inv_def)
  qed (use assms in \<open>simp add: Send tcp_send_def\<close>)
next
  case Shutdown
  then show ?thesis
    using assms by (auto simp: tcp_shutdown_def shutdownInLoop_def conn_inv_def)
next
  case Force_Close
  then show ?thesis using assms by (auto simp: forceClose_def conn_inv_def split: StateE.splits)
next
  case Stop_Read
  have "isNoneEvent ch \<Longrightarrow> isNoneEvent (disableReading ch)" for ch
    by (simp add: isNoneEvent_def disableReading_def channel_update_def kNoneEvent_def)
  with Stop_Read assms show ?thesis by (auto simp: stopReadInLoop_def conn_inv_def split: StateE.splits)
next
  case Take_All
  obtain b where "retrieveAllAsString (tc_inputBuffer c) = Inr (content (tc_inputBuffer c), b)" "buffer_ok b"
    using retrieveAsString_ok(1) [OF conn_inv_buffers(1) [OF assms(1)], of "readableBytes (tc_inputBuffer c)"]
      length_content [OF conn_inv_buffers(1) [OF assms(1)]] by (auto simp: retrieveAllAsString_def)
  with Take_All assms conn_inv_input show ?thesis by simp
qed (use assms in simp)

lemma run_calls_inv:
  "conn_inv c \<Longrightarrow> list_all call_ok as \<Longrightarrow>
   \<exists>c'. run_calls as c = Inr c' \<and> conn_inv c' \<and> (tc_state c = kDisconnected \<longrightarrow> tc_state c' = kDisconnected)"
proof (induction as arbitrary: c)
  case (Cons a as)
  then obtain c1 where "run_call a c = Inr c1" "conn_inv c1" "tc_state c = kDisconnected \<longrightarrow> tc_state c1 = kDisconnected"
    using run_call_inv [of c a] by auto
  with Cons.IH [of c1] Cons.prems show ?case by auto
qed simp

lemma down_calls:
  "tc_state c = kDisconnected \<Longrightarrow> run_calls as c = Inr c' \<Longrightarrow> tc_pending c' = tc_pending c \<and> tc_state c' = kDisconnected"
proof (induction as arbitrary: c)
  case (Cons a as)
  then obtain c1 where c1: "run_call a c = Inr c1" "run_calls as c1 = Inr c'" by (auto simp: rbind_eq_Inr_iff)
  then have "tc_pending c1 = tc_pending c \<and> tc_state c1 = kDisconnected"
    using Cons.prems(1)
    by (cases a) (auto simp: tcp_send_def tcp_shutdown_def forceClose_def startReadInLoop_def stopReadInLoop_def
        rbind_eq_Inr_iff)
  with Cons.IH c1(2) show ?case by auto
qed simp

definition conn_open :: "TcpConnection \<Rightarrow> bool" where
  "conn_open c \<longleftrightarrow> tc_state c = kConnected \<or> tc_state c = kDisconnecting"

lemma write_now_state: "write_now w d c = Inr (n, fault, c1) \<Longrightarrow> tc_state c1 = tc_state c"
  by (auto simp: write_now_def Let_def split: if_splits write_result.splits)

lemma sendInLoop_state:
  assumes "sendInLoop w d c = Inr c'"
  shows "tc_state c' = tc_state c"
proof (cases "tc_state c = kDisconnected")
  case False
  with assms obtain n fault c1 where c1: "write_now w d c = Inr (n, fault, c1)"
    by (auto simp: sendInLoop_def rbind_eq_Inr_iff)
  note k = write_now_state [OF c1]
  show ?thesis
  proof (cases "\<not> fault \<and> length d - n > 0")
    case True
    with False assms c1 k show ?thesis
      by (auto simp: sendInLoop_def rbind_eq_Inr_iff Let_def split: if_splits)
  qed (use False assms c1 k in \<open>auto simp: sendInLoop_def\<close>)
qed (use assms in \<open>simp add: sendInLoop_def\<close>)

lemma run_call_open: "run_call a c = Inr c' \<Longrightarrow> conn_open c \<Longrightarrow> conn_open c'"
  by (cases a) (fastforce simp: conn_open_def tcp_send_def tcp_shutdown_def shutdownInLoop_def forceClose_def startReadInLoop_def
      stopReadInLoop_def rbind_eq_Inr_iff dest: sendInLoop_state split: if_splits)+

lemma open_call_inv:
  assumes "conn_inv c" and "conn_open c" and "open_call_ok a"
  shows "\<exists>c'. run_call a c = Inr c' \<and> conn_inv c' \<and> conn_open c'"
proof (cases "a = Start_Read")
  case True
  then show ?thesis using assms(1,2)
    by (auto simp: startReadInLoop_def conn_inv_def conn_open_def)
next
  case False
  then have "call_ok a" using assms(3) by (simp add: open_call_ok_def)
  with run_call_inv [OF assms(1)] run_call_open [OF _ assms(2)] show ?thesis by blast
qed

lemma open_calls_inv:
  "conn_inv c \<Longrightarrow> conn_open c \<Longrightarrow> list_all open_call_ok as \<Longrightarrow>
   \<exists>c'. run_calls as c = Inr c' \<and> conn_inv c' \<and> conn_open c'"
proof (induction as arbitrary: c)
  case (Cons a as)
  then obtain c1 where "run_call a c = Inr c1" "conn_inv c1" "conn_open c1" using open_call_inv [of c a] by auto
  with Cons.IH [of c1] Cons.prems show ?case by auto
qed simp

definition keeps_down :: "TcpConnection \<Rightarrow> TcpConnection \<Rightarrow> bool" where
  "keeps_down c c' \<longleftrightarrow> (tc_state c = kDisconnected \<longrightarrow> tc_state c' = kDisconnected)"

lemma handleClose_inv:
  assumes "conn_inv c" and "conn_open c" and "list_all call_ok down"
  shows "\<exists>c'. handleClose down c = Inr c' \<and> conn_inv c' \<and> tc_state c' = kDisconnected"
proof -
  let ?c0 = "log_call (OnConnection False) (on_channel disableAll (c\<lparr>tc_state := kDisconnected\<rparr>))"
  have "conn_inv ?c0" using assms(1,2) by (auto simp: conn_inv_def conn_open_def split: StateE.splits)
  from run_calls_inv [OF this assms(3)] obtain c1 where
    c1: "run_calls down ?c0 = Inr c1" "conn_inv c1" "tc_state c1 = kDisconnected" by auto
  moreover have "ConnectDestroyed \<notin> set (tc_pending c1)"
    using down_calls [OF _ c1(1)] assms(1,2) by (auto simp: conn_inv_def conn_open_def)
  ultimately have "conn_inv (queueInLoop ConnectDestroyed (log_call OnClosed c1))" by (simp add: conn_inv_def)
  with c1 assms(2) show ?thesis by (auto simp: handleClose_def conn_open_def)
qed

lemma forceCloseInLoop_inv:
  assumes "conn_inv c" and "list_all call_ok down"
  shows "\<exists>c'. forceCloseInLoop down c = Inr c' \<and> conn_inv c' \<and> keeps_down c c'"
  using handleClose_inv [OF assms(1) _ assms(2)] assms(1)
  by (auto simp: forceCloseInLoop_def conn_open_def keeps_down_def)

lemma handleRead_inv:
  assumes "conn_inv c" and "conn_open c" and "list_all open_call_ok message" and "list_all call_ok down"
  shows "\<exists>c'. handleRead readv message down c = Inr c' \<and> conn_inv c'"
proof (cases "readv (readv_capacity (tc_inputBuffer c))")
  case None
  then show ?thesis using readFd_appends [OF conn_inv_buffers(1) [OF assms(1)], of readv] assms(1)
    by (simp add: handleRead_def)
next
  case (Some data)
  then obtain b where b: "readFd readv (tc_inputBuffer c) = Inr (Some (length data), b)" "buffer_ok b"
    using readFd_appends [OF conn_inv_buffers(1) [OF assms(1)], of readv] by auto
  let ?c1 = "c\<lparr>tc_inputBuffer := b\<rparr>"
  have "conn_inv ?c1" "conn_open ?c1" using assms(1,2) b(2) conn_inv_input by (auto simp: conn_open_def)
  moreover from this have "conn_inv (log_call OnMessage ?c1)" "conn_open (log_call OnMessage ?c1)"
    using conn_inv_log(1) by (simp_all add: conn_open_def)
  ultimately show ?thesis
    using handleClose_inv [of ?c1, OF _ _ assms(4)] open_calls_inv [OF _ _ assms(3), of "log_call OnMessage ?c1"] b(1)
    by (auto simp: handleRead_def Let_def)
qed

lemma handleWrite_inv:
  assumes "conn_inv c" and "\<And>len n. w len = Wrote n \<Longrightarrow> n \<le> len"
  shows "\<exists>c'. handleWrite w c = Inr c' \<and> conn_inv c'"
proof (cases "isWriting (tc_channel c) \<and> (\<exists>n > 0. w (readableBytes (tc_outputBuffer c)) = Wrote n)")
  case True
  then obtain n where n: "isWriting (tc_channel c)" "0 < n" "w (readableBytes (tc_outputBuffer c)) = Wrote n" by blast
  note ok = conn_inv_buffers(2) [OF assms(1)]
  have len: "n \<le> readableBytes (tc_outputBuffer c)" using assms(2) n(3) by blast
  then obtain b where b: "retrieve n (tc_outputBuffer c) = Inr b" "buffer_ok b" "content b = drop n (content (tc_outputBuffer c))"
    using retrieve_ok [OF ok, of n] length_content [OF ok] by auto
  let ?c1 = "c\<lparr>tc_wire := tc_wire c @ peek n (tc_outputBuffer c), tc_outputBuffer := b\<rparr>"
  have out: "outgoing ?c1 = outgoing c" by (simp add: outgoing_parts b(3) peek_content [OF len])
  have st: "conn_open c" using n(1) assms(1)
    by (auto simp: conn_inv_def conn_open_def isNoneEvent_not_writing split: StateE.splits)
  have empty: "readableBytes b = 0 \<longleftrightarrow> content b = []" using readable_zero [OF b(2)] .
  show ?thesis
    using n b(1,2) assms(1) st out
    by (auto simp: handleWrite_def Let_def empty conn_inv_def conn_open_def shutdownInLoop_def out)
next
  case False
  then have "handleWrite w c = Inr c"
    by (cases "w (readableBytes (tc_outputBuffer c))") (auto simp: handleWrite_def)
  with assms(1) show ?thesis by simp
qed

lemma conn_inv_handling [simp]:
  "conn_inv (on_channel (\<lambda>ch. ch\<lparr>ch_eventHandling := b\<rparr>) c) = conn_inv c"
  "conn_open (on_channel (\<lambda>ch. ch\<lparr>ch_eventHandling := b\<rparr>) c) = conn_open c"
  by (simp_all add: conn_inv_def conn_open_def isWriting_def isNoneEvent_def split: StateE.split)

lemma socket_write_le: "socket_write room len = Wrote n \<Longrightarrow> n \<le> len"
  by (auto simp: socket_write_def split: write_result.splits)

lemma handleEventWithGuard_inv:
  assumes "conn_inv c" and "conn_open c"
    and "list_all open_call_ok (io_message io)" and "list_all call_ok (io_down io)"
    and "\<not> (r AND POLLHUP \<noteq> 0 \<and> r AND POLLIN = 0 \<and> r AND (POLLIN OR POLLPRI OR POLLRDHUP) \<noteq> 0)"
  shows "\<exists>c'. handleEventWithGuard r io c = Inr c' \<and> conn_inv c'"
proof -
  let ?c0 = "on_channel (\<lambda>ch. ch\<lparr>ch_eventHandling := True\<rparr>) c"
  let ?hup = "r AND POLLHUP \<noteq> 0 \<and> r AND POLLIN = 0" and ?rd = "r AND (POLLIN OR POLLPRI OR POLLRDHUP) \<noteq> 0"
  have c0: "conn_inv ?c0" "conn_open ?c0" using assms(1,2) by simp_all
  obtain c1 where c1: "(if ?hup then handleClose (io_down io) ?c0 else Inr ?c0) = Inr c1" "conn_inv c1"
      "\<not> ?hup \<longrightarrow> conn_open c1"
    using handleClose_inv [OF c0 assms(4)] c0 by (cases ?hup) auto
  obtain c2 where c2: "(if ?rd then handleRead (io_readv io) (io_message io) (io_down io) c1 else Inr c1) = Inr c2"
      "conn_inv c2"
    using handleRead_inv [OF c1(2) _ assms(3,4), of "io_readv io"] c1 assms(5) by (cases ?rd) auto
  obtain c3 where c3: "(if r AND POLLOUT \<noteq> 0 then handleWrite (socket_write (io_room io)) c2 else Inr c2) = Inr c3" "conn_inv c3"
    using handleWrite_inv [OF c2(2), of "socket_write (io_room io)"] socket_write_le [of "io_room io"] c2(2) by (cases "r AND POLLOUT \<noteq> 0") auto
  show ?thesis
    unfolding handleEventWithGuard_def by (simp only: c1(1) c2(1) c3(1) rbind_Inr) (simp add: c3(2))
qed

lemma connectEstablished_inv:
  assumes "conn_inv c" and "tc_state c = kConnecting" and "list_all open_call_ok up"
  shows "\<exists>c'. connectEstablished up c = Inr c' \<and> conn_inv c'"
proof -
  let ?c0 = "log_call (OnConnection True) (on_channel (enableReading \<circ> channel_tie) (c\<lparr>tc_state := kConnected\<rparr>))"
  have "conn_inv ?c0" "conn_open ?c0" using assms(1,2) by (auto simp: conn_inv_def conn_open_def)
  from open_calls_inv [OF this assms(3)] assms(2) show ?thesis by (auto simp: connectEstablished_def)
qed

lemma connectDestroyed_inv:
  assumes "conn_inv c" and "tc_state c = kDisconnected"
  shows "\<exists>c'. connectDestroyed down c = Inr c' \<and> conn_inv c' \<and> tc_state c' = kDisconnected"
  using assms by (auto simp: connectDestroyed_def conn_inv_def channel_remove_def isNoneEvent_def)

definition functor_ok :: "(pending_call \<Rightarrow> api_call list) \<Rightarrow> pending_call \<Rightarrow> TcpConnection \<Rightarrow> bool" where
  \<comment> \<open>what the callbacks of a functor do while the connection is up, and once it is down or about to be\<close>
  "functor_ok acts f c \<longleftrightarrow>
     (if conn_open c \<and> f \<noteq> ForceCloseInLoop then list_all open_call_ok (acts f) else list_all call_ok (acts f))"

lemma functor_okI: "list_all call_ok (acts f) \<Longrightarrow> functor_ok acts f c"
  by (auto simp: functor_ok_def open_call_ok_def list_all_iff)

lemma callback_inv:
  assumes "conn_inv c" and "if conn_open c then list_all open_call_ok as else list_all call_ok as"
  shows "\<exists>c'. run_calls as c = Inr c' \<and> conn_inv c' \<and> keeps_down c c'"
proof (cases "conn_open c")
  case True
  with open_calls_inv [OF assms(1)] assms(2) show ?thesis by (fastforce simp: keeps_down_def conn_open_def)
next
  case False
  with run_calls_inv [OF assms(1)] assms(2) show ?thesis by (fastforce simp: keeps_down_def)
qed

lemma run_pending_inv:
  assumes "conn_inv c" and "functor_ok acts f c" and "f = ConnectDestroyed \<longrightarrow> tc_state c = kDisconnected"
  shows "\<exists>c'. run_pending acts f c = Inr c' \<and> conn_inv c' \<and> keeps_down c c'"
proof (cases f)
  case WriteComplete
  then show ?thesis using callback_inv [OF conn_inv_log(2) [OF assms(1)], of "acts f"] assms(2)
    by (auto simp: functor_ok_def keeps_down_def conn_open_def)
next
  case (HighWaterMark n)
  then show ?thesis using callback_inv [OF conn_inv_log(3) [OF assms(1)], of n "acts f"] assms(2)
    by (auto simp: functor_ok_def keeps_down_def conn_open_def)
next
  case ForceCloseInLoop
  then show ?thesis using forceCloseInLoop_inv [OF assms(1)] assms(2) by (simp add: functor_ok_def)
next
  case ConnectDestroyed
  then show ?thesis using connectDestroyed_inv [OF assms(1)] assms(3) by (fastforce simp: keeps_down_def)
qed

fun functors_ok :: "(pending_call \<Rightarrow> api_call list) \<Rightarrow> pending_call list \<Rightarrow> TcpConnection \<Rightarrow> bool" where
  "functors_ok acts [] c \<longleftrightarrow> True"
| "functors_ok acts (f # fs) c \<longleftrightarrow> functor_ok acts f c
     \<and> (case run_pending acts f c of Inl _ \<Rightarrow> True | Inr c' \<Rightarrow> functors_ok acts fs c')"

lemma functors_okI: "list_all (\<lambda>f. list_all call_ok (acts f)) fs \<Longrightarrow> functors_ok acts fs c"
  by (induction fs arbitrary: c) (auto simp: functor_okI split: sum.split)

lemma run_functors_inv:
  "conn_inv c \<Longrightarrow> functors_ok acts fs c \<Longrightarrow>
   (ConnectDestroyed \<in> set fs \<longrightarrow> tc_state c = kDisconnected) \<Longrightarrow>
   \<exists>c'. run_functors acts fs c = Inr c' \<and> conn_inv c'"
proof (induction fs arbitrary: c)
  case (Cons f fs)
  then obtain c1 where "run_pending acts f c = Inr c1" "conn_inv c1" "keeps_down c c1"
    using run_pending_inv [of c acts f] by auto
  with Cons show ?case by (auto simp: keeps_down_def)
qed simp

lemma doPendingFunctors_inv:
  assumes "conn_inv c" and "functors_ok acts (tc_pending c) (c\<lparr>tc_pending := []\<rparr>)"
  shows "\<exists>c'. doPendingFunctors acts c = Inr c' \<and> conn_inv c'"
proof -
  have "conn_inv (c\<lparr>tc_pending := []\<rparr>)" "ConnectDestroyed \<in> set (tc_pending c) \<longrightarrow> tc_state c = kDisconnected"
    using assms(1) by (auto simp: conn_inv_def split: StateE.splits)
  with run_functors_inv [OF _ assms(2)] show ?thesis by (simp add: doPendingFunctors_def)
qed

fun event_ok :: "conn_event \<Rightarrow> TcpConnection \<Rightarrow> bool" where
  \<comment> \<open>a connection is established once; the poller reports events of open connections only,
    and no hang-up together with \<^verbatim>\<open>POLLPRI\<close> or \<^verbatim>\<open>POLLRDHUP\<close> but without \<^verbatim>\<open>POLLIN\<close>; nobody starts
    reading on a connection that is down\<close>
  "event_ok (Established up) c \<longleftrightarrow> tc_state c = kConnecting \<and> list_all open_call_ok up"
| "event_ok (Ready r io) c \<longleftrightarrow> conn_open c \<and> list_all open_call_ok (io_message io) \<and> list_all call_ok (io_down io)
     \<and> \<not> (r AND POLLHUP \<noteq> 0 \<and> r AND POLLIN = 0 \<and> r AND (POLLIN OR POLLPRI OR POLLRDHUP) \<noteq> 0)"
| "event_ok (Functors acts) c \<longleftrightarrow> functors_ok acts (tc_pending c) (c\<lparr>tc_pending := []\<rparr>)"
| "event_ok (Call a) c \<longleftrightarrow> call_ok a \<or> a = Start_Read \<and> conn_open c"

interpretation conn: safe_system conn_step event_ok conn_inv
proof
  fix c e assume c: "conn_inv c" "event_ok e c"
  then show "\<exists>c'. conn_step e c = Inr c' \<and> conn_inv c'"
  proof (cases e)
    case (Ready r io)
    with c handleEventWithGuard_inv [of c io r] show ?thesis by (auto simp: handleEvent_def)
  next
    case (Functors acts)
    with c doPendingFunctors_inv [of c acts] show ?thesis by auto
  next
    case (Call a)
    with c run_call_inv [OF c(1), of a] open_call_inv [OF c(1), of a] show ?thesis by (auto simp: open_call_ok_def)
  qed (auto simp: connectEstablished_inv)
qed

section \<open>Runs of a connection\<close>

fun conn_run :: "conn_event list \<Rightarrow> TcpConnection \<Rightarrow> TcpConnection res" where
  "conn_run [] c = Inr c"
| "conn_run (e # es) c = rbind (conn_step e c) (conn_run es)"

fun events_ok :: "conn_event list \<Rightarrow> TcpConnection \<Rightarrow> bool" where
  "events_ok [] c \<longleftrightarrow> True"
| "events_ok (e # es) c \<longleftrightarrow> event_ok e c \<and> (case conn_step e c of Inl _ \<Rightarrow> True | Inr c' \<Rightarrow> events_ok es c')"

lemma conn_run_system: "conn_run es c = conn.run es c"
  by (induction es arbitrary: c) (simp_all cong: rbind_cong)

lemma events_ok_system: "events_ok es c = conn.allowed_run es c"
  by (induction es arbitrary: c) (simp_all split: sum.split)

definition fresh :: "TcpConnection \<Rightarrow> bool" where
  \<comment> \<open>as \<^verbatim>\<open>TcpServer::newConnection\<close> makes it, with any callbacks set\<close>
  "fresh c \<longleftrightarrow> (\<exists>wc hw mark. c = TcpConnection_new
     \<lparr>tc_writeCompleteCallback := wc, tc_highWaterMarkCallback := hw, tc_highWaterMark := mark\<rparr>)"

lemma fresh_inv: "fresh c \<Longrightarrow> conn_inv c"
  by (auto simp: fresh_def TcpConnection_new_def conn_inv_def Buffer_new_ok outgoing_def reports_def sent_def
      List.map_filter_def)

lemma conn_run_inv:
  assumes "fresh c" and "events_ok es c"
  shows "\<exists>c'. conn_run es c = Inr c' \<and> conn_inv c'"
  using conn.run_inv [OF fresh_inv [OF assms(1)]] assms(2) by (simp add: conn_run_system events_ok_system)

text \<open>
  C17. Whatever happens to a connection, in whatever order, every handler returns: no assertion
  fails. What the socket has taken, followed by what waits in the output buffer, is exactly
  what the callbacks sent, in order; nothing is lost but the messages given up on a broken
  connection, nothing is sent twice. The write side is shut down only when nothing waits. Left out are only what
  \<open>event_ok\<close> names: a hang-up reported with \<^verbatim>\<open>POLLPRI\<close> or \<^verbatim>\<open>POLLRDHUP\<close> but without \<^verbatim>\<open>POLLIN\<close>
  (\<open>hangup_closes_twice\<close>), \<^verbatim>\<open>startRead\<close> on a connection that is down (\<open>reading_after_close_asserts\<close>), events
  for a connection that is not open, and a socket that takes more than it was offered.
\<close>

theorem connection_delivers_in_order:
  assumes "fresh c" and "events_ok es c"
  shows "\<exists>c'. conn_run es c = Inr c' \<and> tc_wire c' @ content (tc_outputBuffer c') = sent c'
    \<and> (tc_shutWrite c' \<longrightarrow> tc_wire c' = sent c')"
proof -
  obtain c' where c': "conn_run es c = Inr c'" "conn_inv c'" using conn_run_inv [OF assms] by blast
  moreover have "tc_wire c' = sent c'" if "tc_shutWrite c'"
  proof -
    have "content (tc_outputBuffer c') = []"
      using that c'(2) by (simp add: conn_inv_def split: StateE.splits)
    with c'(2) show ?thesis by (simp add: conn_inv_def outgoing_def)
  qed
  ultimately show ?thesis by (auto simp: conn_inv_def outgoing_def)
qed

definition demo_events :: "conn_event list" where
  "demo_events = [Established [Send [1, 2, 3] (Wrote 3), Shutdown]]"

lemma fresh_new: "fresh TcpConnection_new"
  unfolding fresh_def by (intro exI [of _ False] exI [of _ "64 * 1024 * 1024"]) (simp add: TcpConnection_new_def)

definition demo_result :: TcpConnection where
  "demo_result = (case conn_run demo_events TcpConnection_new of Inl _ \<Rightarrow> TcpConnection_new | Inr c \<Rightarrow> c)"

lemma demo_run:
  "events_ok demo_events TcpConnection_new" "conn_run demo_events TcpConnection_new = Inr demo_result"
  "sent demo_result = [1, 2, 3]" "tc_shutWrite demo_result" "tc_state demo_result = kDisconnecting"
  by (simp_all add: demo_result_def demo_events_def connectEstablished_def TcpConnection_new_def tcp_send_def
      sendInLoop_def write_now_def readableBytes_def Buffer_new_def tcp_shutdown_def shutdownInLoop_def
      on_channel_def log_call_def drops_def sent_def List.map_filter_def)

theorem connection_delivers_in_order_witness:
  "conn_run demo_events TcpConnection_new = Inr demo_result \<and> tc_wire demo_result = [1, 2, 3]"
  using connection_delivers_in_order [OF fresh_new demo_run(1)] demo_run(2-4) by auto

text \<open>
  C18. The connection callback is told exactly once that the connection is up and at most once
  that it is down, in this order; a closed connection asks the poller for nothing; and an
  open connection asks to be told when it can write exactly when bytes wait. The events are those of the property
  before: nobody calls \<^verbatim>\<open>startRead\<close> on a connection that is down, and no hang-up comes with \<^verbatim>\<open>POLLPRI\<close> or
  \<^verbatim>\<open>POLLRDHUP\<close> but without \<^verbatim>\<open>POLLIN\<close>.
\<close>

theorem connection_reports:
  assumes "fresh c" and "events_ok es c" and "conn_run es c = Inr c'"
  shows "reports c' = (case tc_state c' of kConnecting \<Rightarrow> [] | kConnected \<Rightarrow> [True]
        | kDisconnecting \<Rightarrow> [True] | kDisconnected \<Rightarrow> [True, False])
    \<and> (tc_state c' = kDisconnected \<longrightarrow> isNoneEvent (tc_channel c'))
    \<and> (tc_state c' \<in> {kConnected, kDisconnecting} \<longrightarrow>
        isWriting (tc_channel c') = (tc_wire c' \<noteq> sent c'))"
proof -
  have "conn_inv c'" using conn_run_inv [OF assms(1,2)] assms(3) by auto
  moreover from this have "content (tc_outputBuffer c') \<noteq> [] \<longleftrightarrow> tc_wire c' \<noteq> sent c'"
    by (auto simp: conn_inv_def outgoing_def)
  ultimately show ?thesis by (auto simp: conn_inv_def split: StateE.splits)
qed

theorem connection_reports_witness:
  "reports demo_result = [True] \<and> isWriting (tc_channel demo_result) = (tc_wire demo_result \<noteq> [1, 2, 3])"
  using connection_reports [OF fresh_new demo_run(1,2)] demo_run(3,5) by auto

section \<open>Progress\<close>

definition waiting :: "TcpConnection \<Rightarrow> byte list" where
  "waiting c = content (tc_outputBuffer c)"

lemma handleEvent_write:
  "handleEvent True POLLOUT io c = rbind (handleWrite (socket_write (io_room io))
     (on_channel (\<lambda>ch. ch\<lparr>ch_eventHandling := True\<rparr>) c)) (\<lambda>c'.
       Inr (on_channel (\<lambda>ch. ch\<lparr>ch_eventHandling := False\<rparr>) c'))"
  by (simp add: handleEvent_def handleEventWithGuard_def poll_defs)

lemma handleWrite_progress:
  assumes "conn_inv c" and "isWriting (tc_channel c)" and "n > 0"
  shows "\<exists>c'. handleWrite (socket_write (Wrote n)) c = Inr c' \<and> waiting c' = drop n (waiting c)
    \<and> tc_state c' = tc_state c \<and> sent c' = sent c"
proof -
  let ?len = "readableBytes (tc_outputBuffer c)"
  note ok = conn_inv_buffers(2) [OF assms(1)]
  have st: "conn_open c" using assms(1,2)
    by (auto simp: conn_inv_def conn_open_def isNoneEvent_not_writing split: StateE.splits)
  then have ne: "?len \<noteq> 0" using assms(1,2) readable_zero [OF ok] by (auto simp: conn_inv_def conn_open_def)
  have "drop (min n ?len) (waiting c) = drop n (waiting c)"
    using length_content [OF ok] by (simp add: waiting_def min_def)
  moreover have "min n ?len \<le> length (content (tc_outputBuffer c))" using length_content [OF ok] by simp
  ultimately obtain b where b: "retrieve (min n ?len) (tc_outputBuffer c) = Inr b" "content b = drop n (waiting c)"
    using retrieve_ok [OF ok, of "min n ?len"] unfolding waiting_def by auto
  with ne assms(2,3) show ?thesis
    by (auto simp: handleWrite_def socket_write_def Let_def shutdownInLoop_def waiting_def)
qed

lemma ready_write_progress:
  assumes "conn_inv c" and "conn_open c" and "io_room io = Wrote n" and "n > 0"
    and "list_all open_call_ok (io_message io)" and "list_all call_ok (io_down io)"
  shows "\<exists>c'. conn_step (Ready POLLOUT io) c = Inr c' \<and> conn_inv c' \<and> conn_open c'
    \<and> waiting c' = drop n (waiting c) \<and> sent c' = sent c"
proof -
  let ?c0 = "on_channel (\<lambda>ch. ch\<lparr>ch_eventHandling := True\<rparr>) c"
  have "event_ok (Ready POLLOUT io) c" using assms by (simp add: poll_defs)
  from conn.inv_step [OF assms(1) this] obtain c' where c': "conn_step (Ready POLLOUT io) c = Inr c'" "conn_inv c'" by blast
  have c0: "conn_inv ?c0" "waiting ?c0 = waiting c" using assms(1) by (simp_all add: waiting_def)
  have "waiting c' = drop n (waiting c) \<and> tc_state c' = tc_state c \<and> sent c' = sent c"
  proof (cases "isWriting (tc_channel c)")
    case True
    then have "isWriting (tc_channel ?c0)" by (simp add: isWriting_def)
    from handleWrite_progress [OF c0(1) this assms(4)] c'(1) c0(2) assms(3) show ?thesis
      by (auto simp: handleEvent_write waiting_def)
  next
    case False
    then have "waiting c = []" using assms(1,2) by (auto simp: conn_inv_def conn_open_def waiting_def)
    with False c'(1) show ?thesis by (auto simp: handleEvent_write handleWrite_def isWriting_def waiting_def)
  qed
  with c' assms(2) show ?thesis by (auto simp: conn_open_def)
qed

definition room_event :: "nat \<Rightarrow> conn_event" where
  \<comment> \<open>the poller reports that the socket has room for so many bytes\<close>
  "room_event n = Ready POLLOUT \<lparr>io_readv = (\<lambda>_. None), io_room = Wrote n, io_message = [], io_down = []\<rparr>"

lemma rooms_drain:
  "conn_inv c \<Longrightarrow> conn_open c \<Longrightarrow> list_all (\<lambda>n. n > 0) rooms \<Longrightarrow>
   \<exists>c'. conn_run (map room_event rooms) c = Inr c' \<and> conn_inv c'
     \<and> waiting c' = drop (sum_list rooms) (waiting c) \<and> sent c' = sent c"
proof (induction rooms arbitrary: c)
  case (Cons n rooms)
  obtain c1 where c1: "conn_step (room_event n) c = Inr c1" "conn_inv c1" "conn_open c1"
      "waiting c1 = drop n (waiting c)" "sent c1 = sent c"
    using ready_write_progress [OF Cons.prems(1,2),
        of "\<lparr>io_readv = (\<lambda>_. None), io_room = Wrote n, io_message = [], io_down = []\<rparr>" n] Cons.prems(3)
    by (auto simp: room_event_def)
  with Cons.IH [OF c1(2,3)] Cons.prems(3) show ?case by (auto simp: add.commute)
qed simp

text \<open>
  C19. Bytes that wait are sent: after any run that leaves the connection open, as soon as the
  socket reported room for as many bytes as wait, in any portions, everything the callbacks
  sent is on the wire.
\<close>

theorem waiting_bytes_are_sent:
  assumes "fresh c" and "events_ok es c" and "conn_run es c = Inr c1" and "tc_state c1 \<in> {kConnected, kDisconnecting}"
    and "list_all (\<lambda>n. n > 0) rooms" and "length (sent c1) \<le> length (tc_wire c1) + sum_list rooms"
  shows "\<exists>c2. conn_run (map room_event rooms) c1 = Inr c2 \<and> tc_wire c2 = sent c1"
proof -
  have inv: "conn_inv c1" using conn_run_inv [OF assms(1,2)] assms(3) by auto
  have "conn_open c1" using assms(4) by (auto simp: conn_open_def)
  from rooms_drain [OF inv this assms(5)] obtain c2 where c2: "conn_run (map room_event rooms) c1 = Inr c2" "conn_inv c2"
      "waiting c2 = drop (sum_list rooms) (waiting c1)" "sent c2 = sent c1" by blast
  have "tc_wire c1 @ waiting c1 = sent c1" using inv by (simp add: conn_inv_def outgoing_def waiting_def)
  then have "length (waiting c1) \<le> sum_list rooms" using assms(6) by (metis length_append nat_add_left_cancel_le)
  with c2(3) have "waiting c2 = []" by simp
  with c2 show ?thesis by (auto simp: conn_inv_def outgoing_def waiting_def)
qed

theorem waiting_bytes_are_sent_witness:
  "\<exists>c2. conn_run (map room_event [5]) demo_result = Inr c2 \<and> tc_wire c2 = [1, 2, 3]"
  using waiting_bytes_are_sent [OF fresh_new demo_run(1,2), of "[5]"] demo_run(3,5) by simp

text \<open>
  What the assertions rule out is possible where the poller reports a hang-up together with
  the end of the stream but without \<^verbatim>\<open>POLLIN\<close>: the connection is closed twice in one event.
  And a callback that starts reading while it hears that the connection is down makes
  \<^verbatim>\<open>connectDestroyed\<close> fail.
\<close>

lemma hangup_closes_twice:
  assumes "conn_inv c" and "conn_open c" and "list_all call_ok (io_down io)" and "io_readv io = (\<lambda>_. Some [])"
  shows "handleEvent True (POLLHUP OR POLLRDHUP) io c = Inl Assert_Failed"
proof -
  let ?c0 = "on_channel (\<lambda>ch. ch\<lparr>ch_eventHandling := True\<rparr>) c"
  obtain c1 where c1: "handleClose (io_down io) ?c0 = Inr c1" "conn_inv c1" "tc_state c1 = kDisconnected"
    using handleClose_inv [of ?c0] assms by auto
  obtain b where "readFd (io_readv io) (tc_inputBuffer c1) = Inr (Some 0, b)"
    using readFd_appends [OF conn_inv_buffers(1) [OF c1(2)], of "io_readv io"] assms(4) by auto
  then have "handleRead (io_readv io) (io_message io) (io_down io) c1 = Inl Assert_Failed"
    using c1(3) by (simp add: handleRead_def handleClose_def)
  with c1(1) show ?thesis by (simp add: handleEvent_def handleEventWithGuard_def poll_defs)
qed

lemma reading_after_close_asserts:
  assumes "conn_open c"
  shows "\<exists>c1. handleClose [Start_Read] c = Inr c1 \<and> connectDestroyed [] c1 = Inl Assert_Failed"
  using assms
  by (auto simp: handleClose_def conn_open_def connectDestroyed_def channel_remove_def startReadInLoop_def
      isNoneEvent_def isReading_def disableAll_def enableReading_def channel_update_def poll_defs)

end
