(* ===== verification/Net_Server.thy ===== *)
theory Net_Server
  imports Net_Connection
begin

text \<open>
  \<^verbatim>\<open>TcpServer\<close> (net/TcpServer.h, net/TcpServer.cc) with one event loop, as both servers run
  it: the names of connections, the table of connections, and the way a closed connection
  leaves the table at once and is destroyed by the functor that holds its last reference.
  Listening and accepting are the \<^verbatim>\<open>Acceptor\<close>'s.
\<close>

section \<open>The server\<close>

record TcpServer =
  sv_ipPort :: string
  sv_name :: string
  sv_started :: bool
  sv_listening :: bool
  sv_writeCompleteCallback :: bool
    \<comment> \<open>whether it is set\<close>
  sv_nextConnId :: int
  sv_connections :: "(string, TcpConnection) smap"
  sv_closing :: "(string \<times> TcpConnection) list"
    \<comment> \<open>held by a queued \<^verbatim>\<open>connectDestroyed\<close> only\<close>

definition TcpServer_new :: "string \<Rightarrow> string \<Rightarrow> TcpServer" where
  "TcpServer_new ipPort nameArg =
     \<lparr>sv_ipPort = ipPort, sv_name = nameArg, sv_started = False, sv_listening = False,
      sv_writeCompleteCallback = False, sv_nextConnId = 1,
      sv_connections = [], sv_closing = []\<rparr>"

definition setWriteCompleteCallback :: "bool \<Rightarrow> TcpServer \<Rightarrow> TcpServer" where
  "setWriteCompleteCallback cb sv = sv\<lparr>sv_writeCompleteCallback := cb\<rparr>"

definition server_listen :: "TcpServer \<Rightarrow> TcpServer res" where
  \<comment> \<open>\<^verbatim>\<open>TcpServer::start\<close>\<close>
  "server_listen sv =
     (if \<not> sv_started sv then
        if sv_listening sv then Inl Assert_Failed
        else Inr (sv\<lparr>sv_started := True, sv_listening := True\<rparr>)
      else Inr sv)"

definition connName :: "string \<Rightarrow> string \<Rightarrow> int \<Rightarrow> string" where
  \<comment> \<open>\<^verbatim>\<open>snprintf\<close> into 64 bytes\<close>
  "connName nameArg ipPort n = nameArg @ take 63 (''-'' @ ipPort @ ''#'' @ to_string_int n)"

definition TcpConnection_dtor :: "TcpConnection \<Rightarrow> unit res" where
  \<comment> \<open>with the destructor of its channel\<close>
  "TcpConnection_dtor c =
     (if tc_state c \<noteq> kDisconnected then Inl Assert_Failed
      else if ch_eventHandling (tc_channel c) \<or> ch_addedToLoop (tc_channel c) then Inl Assert_Failed
      else Inr ())"

definition drop_entry :: "string \<Rightarrow> TcpServer \<Rightarrow> unit res" where
  \<comment> \<open>assigning over an entry of \<^verbatim>\<open>connections_\<close> destroys the connection it held\<close>
  "drop_entry name sv = (case map_of (sv_connections sv) name of None \<Rightarrow> Inr () | Some c \<Rightarrow> TcpConnection_dtor c)"

definition newConnection :: "api_call list \<Rightarrow> TcpServer \<Rightarrow> TcpServer res" where
  "newConnection up sv =
     (let name = connName (sv_name sv) (sv_ipPort sv) (sv_nextConnId sv)
      in rbind (drop_entry name sv) (\<lambda>_.
         rbind (connectEstablished up (TcpConnection_new\<lparr>tc_writeCompleteCallback := sv_writeCompleteCallback sv\<rparr>)) (\<lambda>c.
           Inr (sv\<lparr>sv_nextConnId := sv_nextConnId sv + 1, sv_connections := smap_put name c (sv_connections sv)\<rparr>))))"

definition removeConnectionInLoop :: "string \<Rightarrow> TcpConnection \<Rightarrow> TcpServer \<Rightarrow> TcpServer res" where
  "removeConnectionInLoop name c sv =
     (if map_of (sv_connections sv) name = None then Inl Assert_Failed
      else Inr (sv\<lparr>sv_connections := smap_erase name (sv_connections sv), sv_closing := sv_closing sv @ [(name, c)]\<rparr>))"

fun destroy_closed :: "(pending_call \<Rightarrow> api_call list) \<Rightarrow> (string \<times> TcpConnection) list \<Rightarrow> unit res" where
  "destroy_closed acts [] = Inr ()"
| "destroy_closed acts ((name, c) # cs) =
     rbind (doPendingFunctors acts c) (\<lambda>c'. rbind (TcpConnection_dtor c') (\<lambda>_. destroy_closed acts cs))"

fun TcpServer_dtor :: "(string \<Rightarrow> api_call list) \<Rightarrow> (string, TcpConnection) smap \<Rightarrow> unit res" where
  \<comment> \<open>over \<^verbatim>\<open>connections_\<close>; the first argument is what the connection callbacks do\<close>
  "TcpServer_dtor down [] = Inr ()"
| "TcpServer_dtor down ((name, c) # cs) =
     rbind (connectDestroyed (down name) c) (\<lambda>c'. rbind (TcpConnection_dtor c') (\<lambda>_. TcpServer_dtor down cs))"

datatype server_event =
    Accepted "api_call list"
  | On_Conn string conn_event
  | Destroy "pending_call \<Rightarrow> api_call list"

definition handling :: "TcpConnection \<Rightarrow> bool" where
  "handling c \<longleftrightarrow> ch_eventHandling (tc_channel c)"

definition closed :: "TcpConnection \<Rightarrow> bool" where
  \<comment> \<open>the close callback has run\<close>
  "closed c \<longleftrightarrow> ConnectDestroyed \<in> set (tc_pending c)"

fun server_step :: "server_event \<Rightarrow> TcpServer \<Rightarrow> TcpServer res" where
  "server_step (Accepted up) sv = newConnection up sv"
| "server_step (On_Conn name e) sv =
     (case map_of (sv_connections sv) name of
        None \<Rightarrow> Inr sv
      | Some c \<Rightarrow> rbind (conn_step e c) (\<lambda>c'.
          if closed c' then removeConnectionInLoop name c' sv
          else Inr (sv\<lparr>sv_connections := smap_put name c' (sv_connections sv)\<rparr>)))"
| "server_step (Destroy acts) sv = rbind (destroy_closed acts (sv_closing sv)) (\<lambda>_. Inr (sv\<lparr>sv_closing := []\<rparr>))"

section \<open>Connections that close\<close>

lemma closed_simps [simp]:
  "closed (log_call b c) = closed c" "closed (on_channel g c) = closed c"
  "closed (queueInLoop f c) = (closed c \<or> f = ConnectDestroyed)"
  "closed (c\<lparr>tc_state := st\<rparr>) = closed c" "closed (c\<lparr>tc_wire := w\<rparr>) = closed c"
  "closed (c\<lparr>tc_outputBuffer := b'\<rparr>) = closed c" "closed (c\<lparr>tc_inputBuffer := b'\<rparr>) = closed c"
  "closed (c\<lparr>tc_shutWrite := b''\<rparr>) = closed c" "closed (c\<lparr>tc_reading := b''\<rparr>) = closed c"
  "closed (c\<lparr>tc_channel := ch\<rparr>) = closed c" "\<not> closed (c\<lparr>tc_pending := []\<rparr>)"
  by (auto simp: closed_def)

lemma handling_simps [simp]:
  "handling (log_call b c) = handling c" "handling (queueInLoop f c) = handling c"
  "handling (c\<lparr>tc_state := st\<rparr>) = handling c" "handling (c\<lparr>tc_wire := w\<rparr>) = handling c"
  "handling (c\<lparr>tc_outputBuffer := b'\<rparr>) = handling c" "handling (c\<lparr>tc_inputBuffer := b'\<rparr>) = handling c"
  "handling (c\<lparr>tc_shutWrite := b''\<rparr>) = handling c" "handling (c\<lparr>tc_reading := b''\<rparr>) = handling c"
  "handling (c\<lparr>tc_pending := p\<rparr>) = handling c"
  "handling (on_channel enableReading c) = handling c" "handling (on_channel disableReading c) = handling c"
  "handling (on_channel enableWriting c) = handling c" "handling (on_channel disableWriting c) = handling c"
  "handling (on_channel disableAll c) = handling c" "handling (on_channel (enableReading \<circ> channel_tie) c) = handling c"
  "\<not> handling (on_channel (\<lambda>ch. ch\<lparr>ch_eventHandling := False\<rparr>) c)"
  by (simp_all add: handling_def enableReading_def disableReading_def enableWriting_def disableWriting_def
      disableAll_def channel_tie_def channel_update_def)

lemma write_now_keeps:
  "write_now w d c = Inr (n, fault, c1) \<Longrightarrow> tc_state c1 = tc_state c \<and> closed c1 = closed c \<and> handling c1 = handling c"
  by (auto simp: write_now_def Let_def split: if_splits write_result.splits)

lemma sendInLoop_keeps:
  assumes "sendInLoop w d c = Inr c'"
  shows "tc_state c' = tc_state c \<and> closed c' = closed c \<and> handling c' = handling c"
proof (cases "tc_state c = kDisconnected")
  case False
  with assms obtain n fault c1 where c1: "write_now w d c = Inr (n, fault, c1)"
    by (auto simp: sendInLoop_def rbind_eq_Inr_iff)
  note k = write_now_keeps [OF c1]
  show ?thesis
  proof (cases "\<not> fault \<and> length d - n > 0")
    case True
    with False assms c1 k show ?thesis
      by (auto simp: sendInLoop_def rbind_eq_Inr_iff Let_def split: if_splits)
  qed (use False assms c1 k in \<open>auto simp: sendInLoop_def\<close>)
qed (use assms in \<open>simp add: sendInLoop_def\<close>)

definition same_life :: "TcpConnection \<Rightarrow> TcpConnection \<Rightarrow> bool" where
  "same_life c c' \<longleftrightarrow> (tc_state c' = kDisconnected) = (tc_state c = kDisconnected) \<and> closed c' = closed c
     \<and> handling c' = handling c
     \<and> (tc_state c' = kConnecting) = (tc_state c = kConnecting)"

lemma run_call_keeps: "run_call a c = Inr c' \<Longrightarrow> same_life c c'"
  using sendInLoop_keeps [of _ _ c]
  by (cases a) (fastforce simp: same_life_def tcp_send_def tcp_shutdown_def shutdownInLoop_def forceClose_def
      startReadInLoop_def stopReadInLoop_def rbind_eq_Inr_iff split: if_splits)+

lemma run_calls_keep: "run_calls as c = Inr c' \<Longrightarrow> same_life c c'"
proof (induction as arbitrary: c)
  case (Cons a as)
  then obtain c1 where "run_call a c = Inr c1" "run_calls as c1 = Inr c'" by (auto simp: rbind_eq_Inr_iff)
  with Cons.IH run_call_keeps show ?case by (fastforce simp: same_life_def)
qed (simp add: same_life_def)

definition alive :: "TcpConnection \<Rightarrow> bool" where
  \<comment> \<open>an established connection, down exactly when its destruction is queued\<close>
  "alive c \<longleftrightarrow> (tc_state c = kDisconnected) = closed c \<and> tc_state c \<noteq> kConnecting"

lemma same_life_alive: "same_life c c' \<Longrightarrow> alive c' = alive c"
  by (auto simp: same_life_def alive_def)

lemma handleClose_closes:
  assumes "handleClose down c = Inr c'"
  shows "tc_state c' = kDisconnected \<and> closed c' \<and> handling c' = handling c"
proof -
  let ?c0 = "log_call (OnConnection False) (on_channel disableAll (c\<lparr>tc_state := kDisconnected\<rparr>))"
  obtain c1 where "run_calls down ?c0 = Inr c1" "c' = queueInLoop ConnectDestroyed (log_call OnClosed c1)"
    using assms by (auto simp: handleClose_def rbind_eq_Inr_iff split: if_splits)
  with run_calls_keep [of down ?c0 c1] show ?thesis by (simp add: same_life_def)
qed

lemma handleRead_alive:
  assumes "handleRead readv message down c = Inr c'" and "alive c"
  shows "alive c'"
proof -
  obtain n b where b: "readFd readv (tc_inputBuffer c) = Inr (n, b)"
    using assms(1) by (auto simp: handleRead_def rbind_eq_Inr_iff)
  let ?c1 = "c\<lparr>tc_inputBuffer := b\<rparr>"
  have a1: "alive ?c1" "alive (log_call OnMessage ?c1)" using assms(2) by (simp_all add: alive_def)
  show ?thesis
  proof (cases "n \<noteq> None \<and> the n = 0")
    case True
    with assms(1) b have "handleClose down ?c1 = Inr c'" by (auto simp: handleRead_def)
    from handleClose_closes [OF this] show ?thesis by (simp add: alive_def)
  next
    case False
    with assms(1) b a1 run_calls_keep [of message "log_call OnMessage ?c1" c'] show ?thesis
      by (cases n) (auto simp: handleRead_def same_life_alive Let_def)
  qed
qed

lemma handleWrite_keeps:
  assumes "handleWrite w c = Inr c'"
  shows "tc_state c' = tc_state c \<and> closed c' = closed c"
  using assms by (auto simp: handleWrite_def shutdownInLoop_def rbind_eq_Inr_iff Let_def
      split: if_splits write_result.splits)

lemma alive_handling [simp]: "alive (on_channel g c) = alive c"
  by (simp add: alive_def)

lemma handleEventWithGuard_alive:
  assumes "handleEventWithGuard r io c = Inr c'" and "alive c"
  shows "alive c'"
proof -
  let ?c0 = "on_channel (\<lambda>ch. ch\<lparr>ch_eventHandling := True\<rparr>) c"
  obtain c1 c2 c3 where
    c: "(if r AND POLLHUP \<noteq> 0 \<and> r AND POLLIN = 0 then handleClose (io_down io) ?c0 else Inr ?c0) = Inr c1"
      "(if r AND (POLLIN OR POLLPRI OR POLLRDHUP) \<noteq> 0
        then handleRead (io_readv io) (io_message io) (io_down io) c1 else Inr c1) = Inr c2"
      "(if r AND POLLOUT \<noteq> 0 then handleWrite (socket_write (io_room io)) c2 else Inr c2) = Inr c3"
      "c' = on_channel (\<lambda>ch. ch\<lparr>ch_eventHandling := False\<rparr>) c3"
    using assms(1) unfolding handleEventWithGuard_def rbind_eq_Inr_iff by blast
  have "alive c1" using c(1) handleClose_closes [of _ ?c0 c1] assms(2) by (auto simp: alive_def split: if_splits)
  then have "alive c2" using c(2) handleRead_alive [of _ _ _ c1 c2] by (auto split: if_splits)
  then have "alive c3" using c(3) handleWrite_keeps [of _ c2 c3] by (auto simp: alive_def split: if_splits)
  with c(4) show ?thesis by simp
qed

lemma connectDestroyed_handling:
  assumes "connectDestroyed down c = Inr c'"
  shows "handling c' = handling c"
proof -
  let ?c0 = "log_call (OnConnection False) (on_channel disableAll (c\<lparr>tc_state := kDisconnected\<rparr>))"
  obtain c1 ch where c1: "(if tc_state c = kConnected then run_calls down ?c0 else Inr c) = Inr c1"
      "channel_remove (tc_channel c1) = Inr ch" "c' = c1\<lparr>tc_channel := ch\<rparr>"
    using assms unfolding connectDestroyed_def rbind_eq_Inr_iff by blast
  then have "handling c1 = handling c"
    using run_calls_keep [of down ?c0 c1] by (auto simp: same_life_def split: if_splits)
  with c1(2,3) show ?thesis by (auto simp: handling_def channel_remove_def split: if_splits)
qed

lemma run_functors_alive:
  "run_functors acts fs c = Inr c' \<Longrightarrow> alive c \<Longrightarrow> ConnectDestroyed \<notin> set fs \<Longrightarrow> alive c'"
proof (induction fs arbitrary: c)
  case (Cons f fs)
  then obtain c1 where c1: "run_pending acts f c = Inr c1" "run_functors acts fs c1 = Inr c'"
    by (auto simp: rbind_eq_Inr_iff)
  have "alive c1"
  proof (cases f)
    case ForceCloseInLoop
    with c1(1) Cons.prems(2) handleClose_closes [of _ c c1] show ?thesis
      by (auto simp: forceCloseInLoop_def alive_def split: if_splits)
  qed (use c1(1) Cons.prems(2,3) run_calls_keep [of _ "log_call _ c" c1] same_life_alive [of "log_call _ c" c1]
      in \<open>auto simp: alive_def\<close>)
  with Cons c1(2) show ?case by simp
qed simp

lemma run_functors_handling: "run_functors acts fs c = Inr c' \<Longrightarrow> handling c' = handling c"
proof (induction fs arbitrary: c)
  case (Cons f fs)
  then obtain c1 where c1: "run_pending acts f c = Inr c1" "run_functors acts fs c1 = Inr c'"
    by (auto simp: rbind_eq_Inr_iff)
  have "handling c1 = handling c"
  proof (cases f)
    case ForceCloseInLoop
    with c1(1) handleClose_closes [of _ c c1] show ?thesis by (auto simp: forceCloseInLoop_def split: if_splits)
  next
    case ConnectDestroyed
    with c1(1) connectDestroyed_handling show ?thesis by simp
  qed (use c1(1) run_calls_keep [of _ "log_call _ c" c1] in \<open>auto simp: same_life_def\<close>)
  with Cons c1(2) show ?case by simp
qed simp

lemma conn_step_idle:
  assumes "conn_step e c = Inr c'" and "\<not> handling c"
  shows "\<not> handling c'"
proof (cases e)
  case (Established up)
  with assms run_calls_keep [of up _ c'] show ?thesis
    by (fastforce simp: connectEstablished_def same_life_def split: if_splits)
next
  case (Ready r io)
  with assms show ?thesis by (auto simp: handleEvent_def handleEventWithGuard_def rbind_eq_Inr_iff split: if_splits)
next
  case (Functors acts)
  with assms run_functors_handling [of acts _ _ c'] show ?thesis by (auto simp: doPendingFunctors_def)
next
  case (Call a)
  with assms run_call_keeps [of a c c'] show ?thesis by (auto simp: same_life_def)
qed

lemma conn_step_alive:
  assumes "conn_step e c = Inr c'" and "alive c" and "\<not> closed c"
  shows "alive c'"
proof (cases e)
  case (Established up)
  with assms run_calls_keep [of up _ c'] show ?thesis
    by (auto simp: connectEstablished_def same_life_def alive_def split: if_splits)
next
  case (Ready r io)
  with assms handleEventWithGuard_alive show ?thesis by (auto simp: handleEvent_def split: if_splits)
next
  case (Functors acts)
  with assms(1) have "run_functors acts (tc_pending c) (c\<lparr>tc_pending := []\<rparr>) = Inr c'"
    by (simp add: doPendingFunctors_def)
  from run_functors_alive [OF this] assms(2,3) show ?thesis by (auto simp: alive_def closed_def)
next
  case (Call a)
  with assms run_call_keeps [of a c c'] same_life_alive [of c c'] show ?thesis by auto
qed

lemma run_functors_append: "run_functors acts (fs @ fs') c = rbind (run_functors acts fs c) (run_functors acts fs')"
  by (induction fs arbitrary: c) (simp_all add: rbind_assoc cong: rbind_cong)

lemma run_functors_down:
  "run_functors acts fs c = Inr c' \<Longrightarrow> tc_state c = kDisconnected \<Longrightarrow> ConnectDestroyed \<notin> set fs \<Longrightarrow> tc_state c' = kDisconnected"
proof (induction fs arbitrary: c)
  case (Cons f fs)
  then obtain c1 where c1: "run_pending acts f c = Inr c1" "run_functors acts fs c1 = Inr c'"
    by (auto simp: rbind_eq_Inr_iff)
  then have "tc_state c1 = kDisconnected"
    using Cons.prems(2,3) down_calls [of "log_call _ c" _ c1] by (cases f) (auto simp: forceCloseInLoop_def)
  with Cons c1(2) show ?case by simp
qed simp

lemma destroyed_ok:
  assumes "conn_inv c" and "closed c" and "list_all (\<lambda>f. list_all call_ok (acts f)) (tc_pending c)"
    and "\<not> handling c"
  shows "\<exists>c'. doPendingFunctors acts c = Inr c' \<and> TcpConnection_dtor c' = Inr ()"
proof -
  have st: "tc_state c = kDisconnected" "ConnectDestroyed \<notin> set (butlast (tc_pending c))" "tc_pending c \<noteq> []"
    using assms(1,2) by (auto simp: conn_inv_def closed_def)
  then have split: "tc_pending c = butlast (tc_pending c) @ [ConnectDestroyed]"
    using assms(2) unfolding closed_def by (metis append_butlast_last_id in_set_butlastD rotate1.simps(2) set_ConsD set_rotate1)
  have inv: "conn_inv (c\<lparr>tc_pending := []\<rparr>)" using assms(1) by (simp add: conn_inv_def split: StateE.splits)
  have acts: "list_all (\<lambda>f. list_all call_ok (acts f)) (butlast (tc_pending c))"
    using assms(3) by (auto simp: list_all_iff dest: in_set_butlastD)
  from run_functors_inv [OF inv functors_okI [OF acts]] st obtain c1 where
    c1: "run_functors acts (butlast (tc_pending c)) (c\<lparr>tc_pending := []\<rparr>) = Inr c1" "conn_inv c1" by auto
  have "tc_state c1 = kDisconnected" using run_functors_down [OF c1(1)] st by simp
  then have "isNoneEvent (tc_channel c1)" "connectDestroyed (acts ConnectDestroyed) c1
      = Inr (c1\<lparr>tc_channel := (tc_channel c1)\<lparr>ch_addedToLoop := False\<rparr>\<rparr>)"
    using c1(2) by (simp_all add: conn_inv_def connectDestroyed_def channel_remove_def)
  moreover have "doPendingFunctors acts c = run_functors acts [ConnectDestroyed] c1"
    unfolding doPendingFunctors_def by (subst split) (simp only: run_functors_append c1(1) rbind_Inr)
  moreover have "\<not> ch_eventHandling (tc_channel c1)" using run_functors_handling [OF c1(1)] assms(4) by (simp add: handling_def)
  ultimately show ?thesis using \<open>tc_state c1 = kDisconnected\<close> by (simp add: TcpConnection_dtor_def)
qed

section \<open>The table of connections\<close>

definition max_connections :: int where
  "max_connections = 2 ^ 31 - 1"

definition entry_ok :: "TcpServer \<Rightarrow> string \<Rightarrow> TcpConnection \<Rightarrow> bool" where
  "entry_ok sv name c \<longleftrightarrow> conn_inv c \<and> alive c \<and> \<not> closed c \<and> \<not> handling c
     \<and> (\<exists>n. 1 \<le> n \<and> n < sv_nextConnId sv \<and> name = connName (sv_name sv) (sv_ipPort sv) n)"

definition server_inv :: "TcpServer \<Rightarrow> bool" where
  "server_inv sv \<longleftrightarrow>
     smap_ok (sv_connections sv) \<and> 1 \<le> sv_nextConnId sv \<and> length (sv_ipPort sv) \<le> 50
     \<and> (\<forall>(name, c)\<in>set (sv_connections sv). entry_ok sv name c)
     \<and> (\<forall>(name, c)\<in>set (sv_closing sv). conn_inv c \<and> closed c \<and> \<not> handling c)"

fun server_event_ok :: "server_event \<Rightarrow> TcpServer \<Rightarrow> bool" where
  "server_event_ok (Accepted up) sv \<longleftrightarrow> list_all open_call_ok up \<and> sv_nextConnId sv < max_connections"
| "server_event_ok (On_Conn name e) sv \<longleftrightarrow>
     (case map_of (sv_connections sv) name of None \<Rightarrow> True | Some c \<Rightarrow> event_ok e c)"
| "server_event_ok (Destroy acts) sv \<longleftrightarrow>
     list_all (\<lambda>(_, c). list_all (\<lambda>f. list_all call_ok (acts f)) (tc_pending c)) (sv_closing sv)"

lemma connName_inj:
  assumes "connName nm ip m = connName nm ip n" and "length ip \<le> 50" and "1 \<le> m" "m \<le> max_connections"
    and "1 \<le> n" "n \<le> max_connections"
  shows "m = n"
proof -
  have len: "length (to_string_int k) \<le> 10" if "1 \<le> k" "k \<le> max_connections" for k
    using that to_base_length [of "nat k" 10 10] by (simp add: to_string_int_def to_string_nat_def max_connections_def nat_less_iff)
  have "take 63 (''-'' @ ip @ ''#'' @ to_string_int k) = ''-'' @ ip @ ''#'' @ to_string_int k"
    if "1 \<le> k" "k \<le> max_connections" for k
    using len [OF that] assms(2) by simp
  with assms have "to_string_int m = to_string_int n" by (simp add: connName_def)
  then have "to_base 10 (nat m) = to_base 10 (nat n)" using assms(3,5) by (simp add: to_string_int_def to_string_nat_def)
  then have "from_base 10 (to_base 10 (nat m)) = from_base 10 (to_base 10 (nat n))" by simp
  then have "nat m = nat n" by (simp add: from_base_to_base)
  with assms(3,5) show ?thesis by simp
qed

lemma set_smap_put: "set (smap_put k v m) \<subseteq> insert (k, v) (set m)"
  by (induction k v m rule: smap_put.induct) auto

lemma set_smap_erase: "set (smap_erase k m) \<subseteq> set m"
  by (induction k m rule: smap_erase.induct) auto

lemma destroy_closed_ok:
  "\<forall>(name, c)\<in>set cs. conn_inv c \<and> closed c \<and> \<not> handling c \<Longrightarrow>
   list_all (\<lambda>(_, c). list_all (\<lambda>f. list_all call_ok (acts f)) (tc_pending c)) cs \<Longrightarrow> destroy_closed acts cs = Inr ()"
proof (induction cs)
  case (Cons x cs)
  obtain name c where x: "x = (name, c)" by (cases x)
  with Cons destroyed_ok [of c acts] show ?case by auto
qed simp

lemma next_name_free:
  assumes "server_inv sv" and "sv_nextConnId sv \<le> max_connections"
  shows "map_of (sv_connections sv) (connName (sv_name sv) (sv_ipPort sv) (sv_nextConnId sv)) = None"
proof (rule ccontr)
  assume "\<not> ?thesis"
  then obtain c where "(connName (sv_name sv) (sv_ipPort sv) (sv_nextConnId sv), c) \<in> set (sv_connections sv)"
    using map_of_SomeD by fastforce
  with assms(1) obtain n where n: "1 \<le> n" "n < sv_nextConnId sv"
      "connName (sv_name sv) (sv_ipPort sv) (sv_nextConnId sv) = connName (sv_name sv) (sv_ipPort sv) n"
    by (auto simp: server_inv_def entry_ok_def)
  with connName_inj [OF n(3)] assms show False by (simp add: server_inv_def)
qed

lemma server_step_inv:
  assumes "server_inv sv" and "server_event_ok e sv"
  shows "\<exists>sv'. server_step e sv = Inr sv' \<and> server_inv sv'"
proof (cases e)
  case (Accepted up)
  let ?new = "TcpConnection_new\<lparr>tc_writeCompleteCallback := sv_writeCompleteCallback sv\<rparr>"
  have "fresh ?new" unfolding fresh_def
    by (intro exI [of _ "sv_writeCompleteCallback sv"] exI [of _ False] exI [of _ "64 * 1024 * 1024"]) (simp add: TcpConnection_new_def)
  then have "conn_inv ?new" by (rule fresh_inv)
  then obtain c where c: "connectEstablished up ?new = Inr c" "conn_inv c"
    using connectEstablished_inv [of ?new up] assms(2) Accepted by (auto simp: TcpConnection_new_def)
  then have "same_life (log_call (OnConnection True) (on_channel (enableReading \<circ> channel_tie)
      (?new\<lparr>tc_state := kConnected\<rparr>))) c"
    using run_calls_keep by (auto simp: connectEstablished_def split: if_splits)
  then have c': "alive c \<and> \<not> closed c \<and> \<not> handling c"
    by (auto simp: same_life_def alive_def closed_def TcpConnection_new_def handling_def Channel_new_def
        enableReading_def channel_tie_def channel_update_def)
  let ?sv = "sv\<lparr>sv_nextConnId := sv_nextConnId sv + 1, sv_connections :=
    smap_put (connName (sv_name sv) (sv_ipPort sv) (sv_nextConnId sv)) c (sv_connections sv)\<rparr>"
  have "entry_ok ?sv (connName (sv_name sv) (sv_ipPort sv) (sv_nextConnId sv)) c"
    using c' c(2) assms(1) by (auto simp: entry_ok_def server_inv_def)
  moreover have "entry_ok ?sv n d" if "entry_ok sv n d" for n d using that by (auto simp: entry_ok_def)
  ultimately have "server_inv ?sv"
    using assms(1) set_smap_put [of _ c "sv_connections sv"] by (fastforce simp: server_inv_def)
  moreover have "drop_entry (connName (sv_name sv) (sv_ipPort sv) (sv_nextConnId sv)) sv = Inr ()"
    using next_name_free [OF assms(1)] assms(2) Accepted by (simp add: drop_entry_def)
  ultimately show ?thesis using c(1) Accepted by (simp add: newConnection_def)
next
  case (On_Conn name ev)
  show ?thesis
  proof (cases "map_of (sv_connections sv) name")
    case None
    with On_Conn assms(1) show ?thesis by simp
  next
    case (Some c)
    then have "(name, c) \<in> set (sv_connections sv)" by (rule map_of_SomeD)
    with assms(1) have c: "entry_ok sv name c" by (auto simp: server_inv_def)
    obtain c' where c': "conn_step ev c = Inr c'" "conn_inv c'"
      using conn.inv_step [of c ev] c assms(2) On_Conn Some by (auto simp: entry_ok_def)
    have "alive c'" "\<not> handling c'"
      using conn_step_alive [OF c'(1)] conn_step_idle [OF c'(1)] c by (simp_all add: entry_ok_def)
    show ?thesis
    proof (cases "closed c'")
      case True
      let ?sv = "sv\<lparr>sv_connections := smap_erase name (sv_connections sv), sv_closing := sv_closing sv @ [(name, c')]\<rparr>"
      have same: "entry_ok ?sv n d = entry_ok sv n d" for n d by (simp add: entry_ok_def)
      have "\<forall>(n, d)\<in>set (smap_erase name (sv_connections sv)). entry_ok sv n d"
        using assms(1) set_smap_erase [of name "sv_connections sv"] unfolding server_inv_def by blast
      then have "server_inv ?sv" using assms(1) True c'(2) \<open>\<not> handling c'\<close> by (auto simp: server_inv_def same)
      with True On_Conn Some c'(1) show ?thesis by (simp add: removeConnectionInLoop_def)
    next
      case False
      let ?sv = "sv\<lparr>sv_connections := smap_put name c' (sv_connections sv)\<rparr>"
      have "entry_ok sv name c'" using c c'(2) \<open>alive c'\<close> \<open>\<not> handling c'\<close> False by (simp add: entry_ok_def)
      then have "\<forall>(n, d)\<in>set (smap_put name c' (sv_connections sv)). entry_ok sv n d"
        using assms(1) set_smap_put [of name c' "sv_connections sv"] unfolding server_inv_def by blast
      moreover have "entry_ok ?sv n d = entry_ok sv n d" for n d by (simp add: entry_ok_def)
      ultimately have "server_inv ?sv" using assms(1) by (simp add: server_inv_def)
      with False On_Conn Some c'(1) show ?thesis by simp
    qed
  qed
next
  case (Destroy acts)
  moreover have "entry_ok (sv\<lparr>sv_closing := []\<rparr>) n d = entry_ok sv n d" for n d by (simp add: entry_ok_def)
  ultimately show ?thesis using assms destroy_closed_ok [of "sv_closing sv" acts] by (auto simp: server_inv_def)
qed

interpretation server: safe_system server_step server_event_ok server_inv
  using server_step_inv by unfold_locales

fun server_run :: "server_event list \<Rightarrow> TcpServer \<Rightarrow> TcpServer res" where
  "server_run [] sv = Inr sv"
| "server_run (e # es) sv = rbind (server_step e sv) (server_run es)"

fun server_events_ok :: "server_event list \<Rightarrow> TcpServer \<Rightarrow> bool" where
  "server_events_ok [] sv \<longleftrightarrow> True"
| "server_events_ok (e # es) sv \<longleftrightarrow> server_event_ok e sv
     \<and> (case server_step e sv of Inl _ \<Rightarrow> True | Inr sv' \<Rightarrow> server_events_ok es sv')"

lemma server_run_system: "server_run es sv = server.run es sv"
  by (induction es arbitrary: sv) (simp_all cong: rbind_cong)

lemma server_events_ok_system: "server_events_ok es sv = server.allowed_run es sv"
  by (induction es arbitrary: sv) (simp_all split: sum.split)

lemma server_inv_new: "length ipPort \<le> 50 \<Longrightarrow> server_inv (setWriteCompleteCallback cb (TcpServer_new ipPort nameArg))"
  by (simp add: server_inv_def TcpServer_new_def setWriteCompleteCallback_def)

lemma entry_ok_up: "entry_ok sv name c \<Longrightarrow> reports c = [True] \<and> tc_state c \<in> {kConnected, kDisconnecting}"
  by (auto simp: entry_ok_def alive_def conn_inv_def split: StateE.splits)



section \<open>The destructor\<close>

lemma destroy_up:
  assumes "conn_inv c" and "tc_state c = kConnected" and "\<not> handling c" and "list_all call_ok down"
  shows "\<exists>c'. connectDestroyed down c = Inr c' \<and> TcpConnection_dtor c' = Inr ()"
proof -
  let ?c0 = "log_call (OnConnection False) (on_channel disableAll (c\<lparr>tc_state := kDisconnected\<rparr>))"
  have "conn_inv ?c0" using assms(1,2) by (auto simp: conn_inv_def)
  from run_calls_inv [OF this assms(4)] obtain c1 where
    c1: "run_calls down ?c0 = Inr c1" "conn_inv c1" "tc_state c1 = kDisconnected" by auto
  then have "isNoneEvent (tc_channel c1)" by (simp add: conn_inv_def)
  moreover have "\<not> handling c1" using run_calls_keep [OF c1(1)] assms(3) by (simp add: same_life_def)
  ultimately show ?thesis
    using assms(2) c1 by (simp add: connectDestroyed_def channel_remove_def TcpConnection_dtor_def handling_def)
qed

lemma destroy_half_closed:
  assumes "tc_state c = kDisconnecting"
  shows "rbind (connectDestroyed down c) (\<lambda>c'. rbind (TcpConnection_dtor c') k) = Inl Assert_Failed"
  using assms by (simp add: connectDestroyed_def channel_remove_def TcpConnection_dtor_def)

lemma TcpServer_dtor_entries:
  "\<forall>(name, c)\<in>set cs. entry_ok sv name c \<Longrightarrow> \<forall>name. list_all call_ok (down name) \<Longrightarrow>
   TcpServer_dtor down cs
     = (if list_ex (\<lambda>(name, c). tc_state c = kDisconnecting) cs then Inl Assert_Failed else Inr ())"
proof (induction cs)
  case (Cons x cs)
  obtain name c where x: "x = (name, c)" by (cases x)
  with Cons.prems(1) have c: "entry_ok sv name c" by simp
  show ?case
  proof (cases "tc_state c = kDisconnecting")
    case True
    with x destroy_half_closed show ?thesis by simp
  next
    case False
    with entry_ok_up [OF c] have "tc_state c = kConnected" by simp
    then obtain c' where "connectDestroyed (down name) c = Inr c'" "TcpConnection_dtor c' = Inr ()"
      using destroy_up [of c "down name"] c Cons.prems(2) by (auto simp: entry_ok_def)
    with Cons False x show ?thesis by simp
  qed
qed simp

text \<open>
  The destructor of the server, after any run: it takes down every connection unless one of
  them is half closed, that is \<^verbatim>\<open>shutdown\<close> or \<^verbatim>\<open>forceClose\<close> was called and the peer has not
  answered yet; then an assertion fails, since \<^verbatim>\<open>connectDestroyed\<close> leaves the state and the
  events of such a connection alone.
\<close>

theorem server_destructor:
  assumes "length ipPort \<le> 50" and "server_events_ok es (setWriteCompleteCallback cb (TcpServer_new ipPort nameArg))"
    and "server_run es (setWriteCompleteCallback cb (TcpServer_new ipPort nameArg)) = Inr sv" and "\<forall>name. list_all call_ok (down name)"
  shows "TcpServer_dtor down (sv_connections sv)
    = (if list_ex (\<lambda>(name, c). tc_state c = kDisconnecting) (sv_connections sv)
       then Inl Assert_Failed else Inr ())"
proof -
  have "server_inv sv"
    using server.run_inv [OF server_inv_new [OF assms(1)], of es cb nameArg] assms(2,3)
    by (auto simp: server_run_system server_events_ok_system)
  then show ?thesis using TcpServer_dtor_entries [of "sv_connections sv" sv down] assms(4) by (auto simp: server_inv_def)
qed

definition demo_server :: "api_call list \<Rightarrow> TcpServer" where
  "demo_server up =
     (case server_run [Accepted up] (setWriteCompleteCallback True (TcpServer_new ''127.0.0.1:9527'' ''S'')) of Inl _ \<Rightarrow> TcpServer_new [] [] | Inr sv \<Rightarrow> sv)"

lemma demo_server_run:
  assumes "up = [] \<or> up = [Shutdown]"
  shows "server_events_ok [Accepted up] (setWriteCompleteCallback True (TcpServer_new ''127.0.0.1:9527'' ''S''))"
    "server_run [Accepted up] (setWriteCompleteCallback True (TcpServer_new ''127.0.0.1:9527'' ''S'')) = Inr (demo_server up)"
    "list_ex (\<lambda>(name, c). tc_state c = kDisconnecting) (sv_connections (demo_server up)) = (up \<noteq> [])"
  using assms
  by (auto simp: demo_server_def setWriteCompleteCallback_def TcpServer_new_def max_connections_def newConnection_def drop_entry_def
      connectEstablished_def TcpConnection_new_def tcp_shutdown_def shutdownInLoop_def split: sum.split)

theorem server_destructor_witness:
  "TcpServer_dtor (\<lambda>_. []) (sv_connections (demo_server [])) = Inr ()
   \<and> TcpServer_dtor (\<lambda>_. []) (sv_connections (demo_server [Shutdown])) = Inl Assert_Failed"
  using server_destructor [OF _ demo_server_run(1,2), of "[]" "\<lambda>_. []"]
    server_destructor [OF _ demo_server_run(1,2), of "[Shutdown]" "\<lambda>_. []"]
    demo_server_run(3) [of "[]"] demo_server_run(3) [of "[Shutdown]"]
  by simp

end
