(* ===== verification/Net_Timer.thy ===== *)
theory Net_Timer
  imports Complex_Main "HOL-Library.Multiset" Server_Prelude
begin

text \<open>
  Timers of an event loop: base/Timestamp.h, net/Timer.h, net/Timer.cc, net/TimerQueue.h and
  net/TimerQueue.cc. Timers are objects on a heap; the addresses an allocation gives are
  arguments, and an address may be given again after \<^verbatim>\<open>delete\<close>. A dereference of an address
  that is not live is a fault. Callbacks are sequences of calls on the queue. The state
  also has the time the timer descriptor is armed for and the sequence numbers of the
  callbacks that ran.
\<close>

section \<open>Timestamps and timers\<close>

type_synonym Timestamp = int
  \<comment> \<open>microseconds since the epoch\<close>

definition kMicroSecondsPerSecond :: int where "kMicroSecondsPerSecond = 1000 * 1000"

definition timestamp_valid :: "Timestamp \<Rightarrow> bool" where "timestamp_valid t \<longleftrightarrow> t > 0"

definition addTime :: "Timestamp \<Rightarrow> rat \<Rightarrow> Timestamp" where
  \<comment> \<open>the conversion of a double to an integer truncates\<close>
  "addTime t seconds =
     (let us = seconds * of_int kMicroSecondsPerSecond in t + (if us < 0 then - \<lfloor>- us\<rfloor> else \<lfloor>us\<rfloor>))"

record Timer =
  tm_expiration :: Timestamp
  tm_interval :: rat
  tm_sequence :: int

definition tm_repeat :: "Timer \<Rightarrow> bool" where "tm_repeat t \<longleftrightarrow> tm_interval t > 0"

definition timer_restart :: "Timestamp \<Rightarrow> Timer \<Rightarrow> Timer" where
  "timer_restart now t = t\<lparr>tm_expiration := (if tm_repeat t then addTime now (tm_interval t) else 0)\<rparr>"

type_synonym addr = nat
type_synonym entry = "Timestamp \<times> addr"

definition UINTPTR_MAX :: addr where "UINTPTR_MAX = 2 ^ 64 - 1"

section \<open>The queue\<close>

record TimerQueue =
  tq_heap :: "addr \<Rightarrow> Timer option"
  tq_numCreated :: int
  tq_timers :: "entry list"
  tq_active :: "(addr \<times> int) list"
  tq_calling :: bool
  tq_canceling :: "(addr \<times> int) list"
  tq_armed :: "Timestamp option"
  tq_ran :: "int list"

definition TimerQueue_new :: TimerQueue where
  "TimerQueue_new = \<lparr>tq_heap = Map.empty, tq_numCreated = 0, tq_timers = [], tq_active = [], tq_calling = False,
     tq_canceling = [], tq_armed = None, tq_ran = []\<rparr>"

definition entry_less :: "entry \<Rightarrow> entry \<Rightarrow> bool" where
  "entry_less a b \<longleftrightarrow> fst a < fst b \<or> fst a = fst b \<and> snd a < snd b"

fun entry_insert :: "entry \<Rightarrow> entry list \<Rightarrow> entry list" where
  \<comment> \<open>\<^verbatim>\<open>std::set\<close>\<close>
  "entry_insert e [] = [e]"
| "entry_insert e (x # xs) =
     (if entry_less e x then e # x # xs else if e = x then x # xs else x # entry_insert e xs)"

definition howMuchTimeFromNow :: "Timestamp \<Rightarrow> Timestamp \<Rightarrow> int \<times> int" where
  \<comment> \<open>the second argument is the clock; seconds and nanoseconds\<close>
  "howMuchTimeFromNow when now =
     (let microseconds = (if when - now < 100 then 100 else when - now)
      in (microseconds div kMicroSecondsPerSecond, microseconds mod kMicroSecondsPerSecond * 1000))"

definition resetTimerfd :: "Timestamp \<Rightarrow> TimerQueue \<Rightarrow> TimerQueue" where
  \<comment> \<open>the time asked for: the descriptor becomes readable \<open>howMuchTimeFromNow\<close> later, at that time but not
    before 100 microseconds after this call\<close>
  "resetTimerfd t q = q\<lparr>tq_armed := Some t\<rparr>"

definition timer_at :: "addr \<Rightarrow> TimerQueue \<Rightarrow> Timer res" where
  "timer_at p q = (case tq_heap q p of None \<Rightarrow> Inl Null_Deref | Some t \<Rightarrow> Inr t)"

definition sizes_agree :: "TimerQueue \<Rightarrow> unit res" where
  "sizes_agree q = (if length (tq_timers q) = length (tq_active q) then Inr () else Inl Assert_Failed)"

definition timer_insert :: "addr \<Rightarrow> TimerQueue \<Rightarrow> (bool \<times> TimerQueue) res" where
  "timer_insert p q =
     rbind (sizes_agree q) (\<lambda>_.
     rbind (timer_at p q) (\<lambda>t.
       let when = tm_expiration t;
           earliestChanged = (tq_timers q = [] \<or> when < fst (hd (tq_timers q)))
       in if (when, p) \<in> set (tq_timers q) then Inl Assert_Failed
          else if (p, tm_sequence t) \<in> set (tq_active q) then Inl Assert_Failed
          else let q' = q\<lparr>tq_timers := entry_insert (when, p) (tq_timers q),
                          tq_active := (p, tm_sequence t) # tq_active q\<rparr>
               in rbind (sizes_agree q') (\<lambda>_. Inr (earliestChanged, q'))))"

definition addTimerInLoop :: "addr \<Rightarrow> TimerQueue \<Rightarrow> TimerQueue res" where
  "addTimerInLoop p q =
     rbind (timer_insert p q) (\<lambda>(earliestChanged, q').
       if earliestChanged then rbind (timer_at p q') (\<lambda>t. Inr (resetTimerfd (tm_expiration t) q')) else Inr q')"

definition addTimer :: "addr \<Rightarrow> Timestamp \<Rightarrow> rat \<Rightarrow> TimerQueue \<Rightarrow> TimerQueue res" where
  "addTimer p when interval q =
     (let n = tq_numCreated q + 1
      in addTimerInLoop p (q\<lparr>tq_numCreated := n, tq_heap := (tq_heap q)(p \<mapsto>
           \<lparr>tm_expiration = when, tm_interval = interval, tm_sequence = n\<rparr>)\<rparr>))"

definition timer_delete :: "addr \<Rightarrow> TimerQueue \<Rightarrow> TimerQueue" where
  "timer_delete p q = q\<lparr>tq_heap := (tq_heap q)(p := None)\<rparr>"

definition cancelInLoop :: "addr \<Rightarrow> int \<Rightarrow> TimerQueue \<Rightarrow> TimerQueue res" where
  "cancelInLoop p n q =
     rbind (sizes_agree q) (\<lambda>_.
     rbind (if (p, n) \<in> set (tq_active q) then
              rbind (timer_at p q) (\<lambda>t.
                if (tm_expiration t, p) \<notin> set (tq_timers q) then Inl Assert_Failed
                else Inr (timer_delete p (q\<lparr>tq_timers := remove1 (tm_expiration t, p) (tq_timers q),
                       tq_active := remove1 (p, n) (tq_active q)\<rparr>)))
            else if tq_calling q then Inr (q\<lparr>tq_canceling := (p, n) # tq_canceling q\<rparr>)
            else Inr q) (\<lambda>q'.
     rbind (sizes_agree q') (\<lambda>_. Inr q')))"

fun erase_active :: "entry list \<Rightarrow> TimerQueue \<Rightarrow> TimerQueue res" where
  "erase_active [] q = Inr q"
| "erase_active ((_, p) # es) q =
     rbind (timer_at p q) (\<lambda>t.
       if (p, tm_sequence t) \<notin> set (tq_active q) then Inl Assert_Failed
       else erase_active es (q\<lparr>tq_active := remove1 (p, tm_sequence t) (tq_active q)\<rparr>))"

definition getExpired :: "Timestamp \<Rightarrow> TimerQueue \<Rightarrow> (entry list \<times> TimerQueue) res" where
  "getExpired now q =
     rbind (sizes_agree q) (\<lambda>_.
       let before = (\<lambda>e. entry_less e (now, UINTPTR_MAX));
           expired = takeWhile before (tq_timers q); rest = dropWhile before (tq_timers q)
       in if rest \<noteq> [] \<and> \<not> now < fst (hd rest) then Inl Assert_Failed
          else rbind (erase_active expired (q\<lparr>tq_timers := rest\<rparr>)) (\<lambda>q'.
            rbind (sizes_agree q') (\<lambda>_. Inr (expired, q'))))"

datatype timer_call = Add_Timer addr Timestamp rat | Cancel_Timer addr int

fun run_timer_call :: "timer_call \<Rightarrow> TimerQueue \<Rightarrow> TimerQueue res" where
  "run_timer_call (Add_Timer p when interval) q = addTimer p when interval q"
| "run_timer_call (Cancel_Timer p n) q = cancelInLoop p n q"

fun run_timer_calls :: "timer_call list \<Rightarrow> TimerQueue \<Rightarrow> TimerQueue res" where
  "run_timer_calls [] q = Inr q"
| "run_timer_calls (a # as) q = rbind (run_timer_call a q) (run_timer_calls as)"

fun run_expired :: "(int \<Rightarrow> timer_call list) \<Rightarrow> entry list \<Rightarrow> TimerQueue \<Rightarrow> TimerQueue res" where
  "run_expired acts [] q = Inr q"
| "run_expired acts ((_, p) # es) q =
     rbind (timer_at p q) (\<lambda>t.
     rbind (run_timer_calls (acts (tm_sequence t)) (q\<lparr>tq_ran := tq_ran q @ [tm_sequence t]\<rparr>)) (run_expired acts es))"

fun reset_expired :: "Timestamp \<Rightarrow> entry list \<Rightarrow> TimerQueue \<Rightarrow> TimerQueue res" where
  "reset_expired now [] q = Inr q"
| "reset_expired now ((_, p) # es) q =
     rbind (timer_at p q) (\<lambda>t.
     rbind (if tm_repeat t \<and> (p, tm_sequence t) \<notin> set (tq_canceling q) then
              rbind (timer_insert p (q\<lparr>tq_heap := (tq_heap q)(p \<mapsto> timer_restart now t)\<rparr>)) (\<lambda>(_, q'). Inr q')
            else Inr (timer_delete p q)) (reset_expired now es))"

definition rearm :: "TimerQueue \<Rightarrow> TimerQueue res" where
  \<comment> \<open>the end of \<^verbatim>\<open>reset\<close>\<close>
  "rearm q =
     (if tq_timers q = [] then Inr q
      else rbind (timer_at (snd (hd (tq_timers q))) q) (\<lambda>t.
        Inr (if timestamp_valid (tm_expiration t) then resetTimerfd (tm_expiration t) q else q)))"

definition readTimerfd :: "TimerQueue \<Rightarrow> TimerQueue" where
  \<comment> \<open>a timer set once that has fired\<close>
  "readTimerfd q = q\<lparr>tq_armed := None\<rparr>"

definition timer_handleRead :: "(int \<Rightarrow> timer_call list) \<Rightarrow> Timestamp \<Rightarrow> TimerQueue \<Rightarrow> TimerQueue res" where
  "timer_handleRead acts now q =
     rbind (getExpired now (readTimerfd q)) (\<lambda>(expired, q1).
     rbind (run_expired acts expired (q1\<lparr>tq_calling := True, tq_canceling := []\<rparr>)) (\<lambda>q2.
     rbind (reset_expired now expired (q2\<lparr>tq_calling := False\<rparr>)) rearm))"

definition TimerQueue_dtor :: "TimerQueue \<Rightarrow> TimerQueue" where
  "TimerQueue_dtor q = fold (\<lambda>(_, p). timer_delete p) (tq_timers q) q"

datatype timer_event = Timer_Call timer_call | Timer_Ready "int \<Rightarrow> timer_call list" Timestamp

fun timer_step :: "timer_event \<Rightarrow> TimerQueue \<Rightarrow> TimerQueue res" where
  "timer_step (Timer_Call a) q = run_timer_call a q"
| "timer_step (Timer_Ready acts now) q = timer_handleRead acts now q"

section \<open>The invariant\<close>

definition seq_of :: "(addr \<Rightarrow> Timer option) \<Rightarrow> addr \<Rightarrow> int" where
  "seq_of h p = tm_sequence (the (h p))"

definition active_of :: "(addr \<Rightarrow> Timer option) \<Rightarrow> entry \<Rightarrow> addr \<times> int" where
  "active_of h e = (snd e, seq_of h (snd e))"

text \<open>
  \<open>pend\<close> are the entries taken out of the queue whose callbacks run. Every live timer is in the
  queue or among them, once.
\<close>

definition timers_ok :: "entry list \<Rightarrow> (addr \<Rightarrow> Timer option) \<Rightarrow> int \<Rightarrow> entry list \<Rightarrow> (addr \<times> int) list \<Rightarrow> bool" where
  "timers_ok pend h n ts act \<longleftrightarrow>
     sorted_wrt entry_less ts \<and> distinct (map snd (pend @ ts)) \<and> dom h = snd ` set (pend @ ts)
     \<and> (\<forall>e\<in>set ts. 0 < fst e \<and> tm_expiration (the (h (snd e))) = fst e)
     \<and> mset act = mset (map (active_of h) ts)
     \<and> (\<forall>p\<in>dom h. p < UINTPTR_MAX \<and> seq_of h p \<le> n) \<and> inj_on (seq_of h) (dom h)"

lemma entry_insert_set: "set (entry_insert e xs) = insert e (set xs)"
  by (induction xs) auto

lemma entry_insert_mset: "e \<notin> set xs \<Longrightarrow> mset (entry_insert e xs) = add_mset e (mset xs)"
  by (induction xs) auto

lemma entry_less_linear: "entry_less a b \<or> a = b \<or> entry_less b a"
  by (auto simp: entry_less_def prod_eq_iff)

lemma entry_less_trans: "entry_less a b \<Longrightarrow> entry_less b c \<Longrightarrow> entry_less a c"
  by (auto simp: entry_less_def)

lemma entry_insert_sorted: "sorted_wrt entry_less xs \<Longrightarrow> sorted_wrt entry_less (entry_insert e xs)"
proof (induction xs)
  case (Cons x xs)
  with entry_less_linear [of e x] show ?case
    by (auto simp: entry_insert_set intro: entry_less_trans)
qed simp

lemma active_of_upd: "p \<notin> snd ` set ts \<Longrightarrow> map (active_of (h(p := t))) ts = map (active_of h) ts"
  by (auto simp: active_of_def seq_of_def)

lemma timers_okD:
  assumes "timers_ok pend h n ts act"
  shows "sorted_wrt entry_less ts" "distinct (map snd (pend @ ts))" "dom h = snd ` set (pend @ ts)"
    "\<And>e. e \<in> set ts \<Longrightarrow> 0 < fst e \<and> tm_expiration (the (h (snd e))) = fst e"
    "mset act = mset (map (active_of h) ts)" "\<And>p. p \<in> dom h \<Longrightarrow> p < UINTPTR_MAX \<and> seq_of h p \<le> n"
    "inj_on (seq_of h) (dom h)"
  using assms unfolding timers_ok_def by blast+

lemma timers_okI:
  assumes "sorted_wrt entry_less ts" and "distinct (map snd (pend @ ts))" and "dom h = snd ` set (pend @ ts)"
    and "\<And>e. e \<in> set ts \<Longrightarrow> 0 < fst e \<and> tm_expiration (the (h (snd e))) = fst e"
    and "mset act = mset (map (active_of h) ts)" and "\<And>p. p \<in> dom h \<Longrightarrow> p < UINTPTR_MAX \<and> seq_of h p \<le> n"
    and "inj_on (seq_of h) (dom h)"
  shows "timers_ok pend h n ts act"
  using assms unfolding timers_ok_def by blast

lemma timers_ok_new:
  assumes "timers_ok pend h n ts act" and "h p = None" and "p < UINTPTR_MAX" and "tm_sequence t = n + 1"
  shows "timers_ok ((w, p) # pend) (h(p \<mapsto> t)) (n + 1) ts act"
proof (rule timers_okI)
  note d = timers_okD [OF assms(1)]
  have p: "p \<notin> dom h" "p \<notin> snd ` set pend" "p \<notin> snd ` set ts" using d(3) assms(2) by auto
  have other: "seq_of (h(p \<mapsto> t)) x = seq_of h x" if "x \<in> dom h" for x
    using that p(1) by (auto simp: seq_of_def)
  have new: "seq_of (h(p \<mapsto> t)) p = n + 1" using assms(4) by (simp add: seq_of_def)
  show "sorted_wrt entry_less ts" by (rule d)
  show "distinct (map snd (((w, p) # pend) @ ts))" using d(2) p by auto
  show "dom (h(p \<mapsto> t)) = snd ` set (((w, p) # pend) @ ts)" using d(3) by auto
  show "0 < fst e \<and> tm_expiration (the ((h(p \<mapsto> t)) (snd e))) = fst e" if "e \<in> set ts" for e
    using d(4) [OF that] p(3) that by auto
  show "mset act = mset (map (active_of (h(p \<mapsto> t))) ts)" by (simp only: active_of_upd [OF p(3)] d(5))
  show "x < UINTPTR_MAX \<and> seq_of (h(p \<mapsto> t)) x \<le> n + 1" if "x \<in> dom (h(p \<mapsto> t))" for x
    using that d(6) [of x] other [of x] new assms(3) by (cases "x = p") auto
  have "inj_on (seq_of (h(p \<mapsto> t))) (dom h)" using d(7) other by (simp add: inj_on_def)
  moreover have "seq_of (h(p \<mapsto> t)) p \<notin> seq_of (h(p \<mapsto> t)) ` dom h" using d(6) other new by fastforce
  ultimately show "inj_on (seq_of (h(p \<mapsto> t))) (dom (h(p \<mapsto> t)))" using p(1) by simp
qed

lemma timers_ok_enter:
  assumes "timers_ok ((w0, p) # pend) h n ts act" and "h p = Some t" and "tm_sequence t' = tm_sequence t"
    and "0 < tm_expiration t'"
  shows "timers_ok pend (h(p \<mapsto> t')) n (entry_insert (tm_expiration t', p) ts) ((p, tm_sequence t') # act)"
proof (rule timers_okI)
  note d = timers_okD [OF assms(1)]
  let ?e = "(tm_expiration t', p)"
  have p: "p \<notin> snd ` set pend" "p \<notin> snd ` set ts" using d(2) by auto
  then have e: "?e \<notin> set ts" by force
  have same: "seq_of (h(p \<mapsto> t')) = seq_of h" using assms(2,3) by (auto simp: seq_of_def)
  have dom: "dom (h(p \<mapsto> t')) = dom h" using assms(2) by auto
  note m = entry_insert_mset [OF e]
  show "sorted_wrt entry_less (entry_insert ?e ts)" by (rule entry_insert_sorted [OF d(1)])
  have "mset (map snd (entry_insert ?e ts)) = mset (p # map snd ts)" by (simp only: mset_map m) simp
  from mset_eq_imp_distinct_iff [OF this] show "distinct (map snd (pend @ entry_insert ?e ts))"
    using d(2) p by (auto simp: entry_insert_set)
  show "dom (h(p \<mapsto> t')) = snd ` set (pend @ entry_insert ?e ts)" unfolding dom using d(3) by (auto simp: entry_insert_set)
  show "0 < fst x \<and> tm_expiration (the ((h(p \<mapsto> t')) (snd x))) = fst x" if "x \<in> set (entry_insert ?e ts)" for x
    using that d(4) [of x] p(2) assms(4) by (auto simp: entry_insert_set)
  have "active_of (h(p \<mapsto> t')) = active_of h" using same by (simp add: active_of_def fun_eq_iff)
  moreover have "active_of h ?e = (p, tm_sequence t')" using assms(2,3) by (simp add: active_of_def seq_of_def)
  ultimately show "mset ((p, tm_sequence t') # act) = mset (map (active_of (h(p \<mapsto> t'))) (entry_insert ?e ts))"
    by (simp only: mset_map m d(5) mset.simps) simp
  show "x < UINTPTR_MAX \<and> seq_of (h(p \<mapsto> t')) x \<le> n" if "x \<in> dom (h(p \<mapsto> t'))" for x
    using d(6) that unfolding dom same .
  show "inj_on (seq_of (h(p \<mapsto> t'))) (dom (h(p \<mapsto> t')))" using d(7) unfolding dom same .
qed

lemma timers_ok_delete:
  assumes "timers_ok ((w, p) # pend) h n ts act"
  shows "timers_ok pend (h(p := None)) n ts act"
proof (rule timers_okI)
  note d = timers_okD [OF assms]
  have p: "p \<notin> snd ` set pend" "p \<notin> snd ` set ts" using d(2) by auto
  have other: "seq_of (h(p := None)) x = seq_of h x" if "x \<noteq> p" for x using that by (simp add: seq_of_def)
  show "sorted_wrt entry_less ts" by (rule d)
  show "distinct (map snd (pend @ ts))" using d(2) by simp
  show "dom (h(p := None)) = snd ` set (pend @ ts)" using d(3) p by auto
  show "0 < fst e \<and> tm_expiration (the ((h(p := None)) (snd e))) = fst e" if "e \<in> set ts" for e
    using d(4) [OF that] p(2) that by auto
  show "mset act = mset (map (active_of (h(p := None))) ts)" by (simp only: active_of_upd [OF p(2)] d(5))
  show "x < UINTPTR_MAX \<and> seq_of (h(p := None)) x \<le> n" if "x \<in> dom (h(p := None))" for x
    using that d(6) [of x] other [of x] by auto
  show "inj_on (seq_of (h(p := None))) (dom (h(p := None)))"
    using d(7) other by (auto simp: inj_on_def)
qed

lemma timers_ok_take:
  assumes "timers_ok pend h n ts act" and "mset ts = mset (es @ rest)" and "sorted_wrt entry_less rest"
    and "mset act' + mset (map (active_of h) es) = mset act"
  shows "timers_ok (es @ pend) h n rest act'"
proof (rule timers_okI)
  note d = timers_okD [OF assms(1)]
  have st: "set ts = set (es @ rest)" by (rule mset_eq_setD [OF assms(2)])
  have "mset (map snd (pend @ ts)) = mset (map snd ((es @ pend) @ rest))" using assms(2) by simp
  from mset_eq_imp_distinct_iff [OF this] show "distinct (map snd ((es @ pend) @ rest))" using d(2) by simp
  have "mset (map (active_of h) ts) = mset (map (active_of h) rest) + mset (map (active_of h) es)"
    using assms(2) by simp
  then show "mset act' = mset (map (active_of h) rest)" using assms(4) d(5) by (metis add_right_cancel)
  show "dom h = snd ` set ((es @ pend) @ rest)" unfolding d(3) set_append st by blast
  show "0 < fst e \<and> tm_expiration (the (h (snd e))) = fst e" if "e \<in> set rest" for e using d(4) that st by simp
qed (use timers_okD [OF assms(1)] assms(3) in blast)+

definition tq_inv :: "entry list \<Rightarrow> TimerQueue \<Rightarrow> bool" where
  "tq_inv pend q \<longleftrightarrow> timers_ok pend (tq_heap q) (tq_numCreated q) (tq_timers q) (tq_active q)"

lemma timers_ok_active:
  assumes "timers_ok pend h n ts act"
  shows "length ts = length act" "set act = active_of h ` set ts" "fst ` set act = snd ` set ts"
proof -
  note m = timers_okD(5) [OF assms]
  show "length ts = length act" using m by (metis length_map size_mset)
  show act: "set act = active_of h ` set ts" using m by (metis list.set_map mset_eq_setD)
  show "fst ` set act = snd ` set ts" unfolding act by (simp add: image_image active_of_def)
qed

lemma sizes_agree_ok [simp]: "tq_inv pend q \<Longrightarrow> sizes_agree q = Inr ()"
  by (simp add: tq_inv_def sizes_agree_def timers_ok_active(1))

lemma pending_live: "tq_inv pend q \<Longrightarrow> (w, p) \<in> set pend \<Longrightarrow> \<exists>t. tq_heap q p = Some t"
  using timers_okD(3) [of pend "tq_heap q"] unfolding tq_inv_def by (metis domD imageI set_append snd_conv UnI1)

definition entered :: "addr \<Rightarrow> Timer \<Rightarrow> TimerQueue \<Rightarrow> TimerQueue" where
  "entered p t q = q\<lparr>tq_timers := entry_insert (tm_expiration t, p) (tq_timers q),
     tq_active := (p, tm_sequence t) # tq_active q\<rparr>"

definition earlier :: "Timer \<Rightarrow> TimerQueue \<Rightarrow> bool" where
  "earlier t q \<longleftrightarrow> tq_timers q = [] \<or> tm_expiration t < fst (hd (tq_timers q))"

lemma timer_insert_entered:
  assumes "length (tq_timers q) = length (tq_active q)" and "tq_heap q p = Some t"
    and "p \<notin> snd ` set (tq_timers q)" and "p \<notin> fst ` set (tq_active q)"
  shows "timer_insert p q = Inr (earlier t q, entered p t q)"
proof -
  have new: "(tm_expiration t, p) \<notin> set (tq_timers q)" "(p, tm_sequence t) \<notin> set (tq_active q)" using assms(3,4) by force+
  then have "length (entry_insert (tm_expiration t, p) (tq_timers q)) = Suc (length (tq_timers q))"
    using entry_insert_mset by (metis size_add_mset size_mset)
  with assms(1,2) new show ?thesis
    by (simp add: timer_insert_def sizes_agree_def timer_at_def entered_def earlier_def Let_def)
qed

lemma enter_pending:
  assumes "tq_inv ((w, p) # pend) q" and "tq_heap q p = Some t" and "tm_sequence t' = tm_sequence t"
    and "0 < tm_expiration t'" and "q1 = q\<lparr>tq_heap := (tq_heap q)(p \<mapsto> t')\<rparr>"
  shows "timer_insert p q1 = Inr (earlier t' q1, entered p t' q1)" and "tq_inv pend (entered p t' q1)"
proof -
  note ok = assms(1) [unfolded tq_inv_def]
  have "p \<notin> snd ` set (tq_timers q)" using timers_okD(2) [OF ok] by auto
  moreover from this have "p \<notin> fst ` set (tq_active q)" using timers_ok_active(3) [OF ok] by simp
  ultimately show "timer_insert p q1 = Inr (earlier t' q1, entered p t' q1)"
    using timer_insert_entered [of q1 p t'] timers_ok_active(1) [OF ok] assms(5) by simp
  show "tq_inv pend (entered p t' q1)"
    using timers_ok_enter [OF ok assms(2-4)] assms(5) by (simp add: tq_inv_def entered_def)
qed

definition created :: "addr \<Rightarrow> Timestamp \<Rightarrow> rat \<Rightarrow> TimerQueue \<Rightarrow> Timer \<times> TimerQueue" where
  "created p when interval q =
     (let t = \<lparr>tm_expiration = when, tm_interval = interval, tm_sequence = tq_numCreated q + 1\<rparr>
      in (t, q\<lparr>tq_numCreated := tq_numCreated q + 1, tq_heap := (tq_heap q)(p \<mapsto> t)\<rparr>))"

lemma addTimer_ok:
  assumes "tq_inv pend q" and "tq_heap q p = None" and "p < UINTPTR_MAX" and "0 < when"
    and "created p when interval q = (t, q1)"
  shows "addTimer p when interval q
      = Inr (if earlier t q then resetTimerfd when (entered p t q1) else entered p t q1)"
    and "tq_inv pend (entered p t q1)"
proof -
  have t: "tm_sequence t = tq_numCreated q + 1" "tm_expiration t = when" "tq_heap q1 = (tq_heap q)(p \<mapsto> t)"
      "tq_numCreated q1 = tq_numCreated q + 1" "tq_timers q1 = tq_timers q" "tq_active q1 = tq_active q"
    using assms(5) by (auto simp: created_def Let_def)
  have inv: "tq_inv ((when, p) # pend) q1"
    using timers_ok_new [OF assms(1) [unfolded tq_inv_def] assms(2,3) t(1)] by (simp add: tq_inv_def t)
  have "q1 = q1\<lparr>tq_heap := (tq_heap q1)(p \<mapsto> t)\<rparr>" by (simp add: t(3))
  note ins = enter_pending [OF inv _ refl _ this]
  from ins(2) t(2,3) assms(4) show "tq_inv pend (entered p t q1)" by simp
  have "addTimer p when interval q = addTimerInLoop p q1" using assms(5) by (auto simp: addTimer_def created_def Let_def)
  moreover have "timer_at p (entered p t q1) = Inr t" by (simp add: timer_at_def entered_def t(3))
  ultimately show "addTimer p when interval q
      = Inr (if earlier t q then resetTimerfd when (entered p t q1) else entered p t q1)"
    using ins(1) t(2,3,5) assms(4) by (simp add: addTimerInLoop_def earlier_def)
qed

lemma cancel_active:
  assumes "tq_inv pend q" and "(p, n) \<in> set (tq_active q)"
  shows "\<exists>t. tq_heap q p = Some t \<and> tm_sequence t = n \<and> (tm_expiration t, p) \<in> set (tq_timers q)"
proof -
  note ok = assms(1) [unfolded tq_inv_def]
  obtain w where w: "(w, p) \<in> set (tq_timers q)" "n = seq_of (tq_heap q) p"
    using assms(2) timers_ok_active(2) [OF ok] by (auto simp: active_of_def)
  then have "p \<in> dom (tq_heap q)" using timers_okD(3) [OF ok] by force
  with w timers_okD(4) [OF ok w(1)] show ?thesis by (auto simp: seq_of_def)
qed

lemma sorted_remove1: "sorted_wrt R xs \<Longrightarrow> sorted_wrt R (remove1 x xs)"
  by (induction xs) (auto dest: notin_set_remove1)

lemma cancelInLoop_active:
  assumes "tq_inv pend q" and "(p, n) \<in> set (tq_active q)"
  shows "\<exists>w q'. cancelInLoop p n q = Inr q' \<and> tq_inv pend q' \<and> (w, p) \<in> set (tq_timers q)
    \<and> q' = timer_delete p (q\<lparr>tq_timers := remove1 (w, p) (tq_timers q), tq_active := remove1 (p, n) (tq_active q)\<rparr>)"
proof -
  note ok = assms(1) [unfolded tq_inv_def]
  obtain t where t: "tq_heap q p = Some t" "tm_sequence t = n" "(tm_expiration t, p) \<in> set (tq_timers q)"
    using cancel_active [OF assms] by blast
  let ?e = "(tm_expiration t, p)" and ?rest = "remove1 (tm_expiration t, p) (tq_timers q)"
  let ?q' = "timer_delete p (q\<lparr>tq_timers := ?rest, tq_active := remove1 (p, n) (tq_active q)\<rparr>)"
  have "mset (tq_timers q) = mset ([?e] @ ?rest)" using t(3) by simp
  moreover have "sorted_wrt entry_less ?rest" using timers_okD(1) [OF ok] by (rule sorted_remove1)
  moreover have "active_of (tq_heap q) ?e = (p, n)" using t by (simp add: active_of_def seq_of_def)
  then have "mset (remove1 (p, n) (tq_active q)) + mset (map (active_of (tq_heap q)) [?e]) = mset (tq_active q)"
    using assms(2) by simp
  ultimately have "timers_ok ([?e] @ pend) (tq_heap q) (tq_numCreated q) ?rest (remove1 (p, n) (tq_active q))"
    by (rule timers_ok_take [OF ok])
  then have "tq_inv pend ?q'" using timers_ok_delete by (simp add: tq_inv_def timer_delete_def)
  moreover from this have "cancelInLoop p n q = Inr ?q'"
    using t(1,3) assms sizes_agree_ok [of pend ?q'] by (simp add: cancelInLoop_def timer_at_def)
  ultimately show ?thesis using t(3) by blast
qed

lemma cancelInLoop_inactive:
  assumes "tq_inv pend q" and "(p, n) \<notin> set (tq_active q)"
  shows "cancelInLoop p n q = Inr (if tq_calling q then q\<lparr>tq_canceling := (p, n) # tq_canceling q\<rparr> else q)"
  using assms sizes_agree_ok [OF assms(1)] by (auto simp: cancelInLoop_def sizes_agree_def split: if_splits)

section \<open>Calls\<close>

fun timer_call_ok :: "timer_call \<Rightarrow> TimerQueue \<Rightarrow> bool" where
  \<comment> \<open>an allocation gives an address that is not live, and times are valid\<close>
  "timer_call_ok (Add_Timer p when interval) q \<longleftrightarrow> tq_heap q p = None \<and> p < UINTPTR_MAX \<and> timestamp_valid when"
| "timer_call_ok (Cancel_Timer p n) q \<longleftrightarrow> True"

definition evolves :: "entry list \<Rightarrow> TimerQueue \<Rightarrow> TimerQueue \<Rightarrow> bool" where
  \<comment> \<open>what the calls of callbacks leave alone: timers that are out of the queue stay, live timers
    keep their numbers, new ones get new numbers\<close>
  "evolves pend q q' \<longleftrightarrow>
     tq_ran q' = tq_ran q \<and> tq_calling q' = tq_calling q \<and> tq_numCreated q \<le> tq_numCreated q'
     \<and> (\<forall>p\<in>snd ` set pend. tq_heap q' p = tq_heap q p)
     \<and> (\<forall>p t'. tq_heap q' p = Some t' \<longrightarrow> tq_heap q p = Some t' \<or> tm_sequence t' > tq_numCreated q)"

lemma evolves_refl: "evolves pend q q"
  by (simp add: evolves_def)

lemma evolves_trans: "evolves pend q q1 \<Longrightarrow> evolves pend q1 q2 \<Longrightarrow> evolves pend q q2"
  unfolding evolves_def by fastforce

lemma pending_not_queued:
  assumes "tq_inv pend q" and "p \<in> snd ` set pend"
  shows "p \<notin> snd ` set (tq_timers q)" and "(p, n) \<notin> set (tq_active q)"
proof -
  note ok = assms(1) [unfolded tq_inv_def]
  show no: "p \<notin> snd ` set (tq_timers q)" using timers_okD(2) [OF ok] assms(2) by auto
  then show "(p, n) \<notin> set (tq_active q)" using timers_ok_active(3) [OF ok] by force
qed

definition cancels :: "timer_call list \<Rightarrow> addr \<Rightarrow> int \<Rightarrow> bool" where
  "cancels as p n \<longleftrightarrow> Cancel_Timer p n \<in> set as"

lemma run_timer_call_ok:
  assumes "tq_inv pend q" and "timer_call_ok a q"
  shows "\<exists>q'. run_timer_call a q = Inr q' \<and> tq_inv pend q' \<and> evolves pend q q'
    \<and> (tq_calling q \<longrightarrow> (\<forall>p\<in>snd ` set pend. \<forall>n.
        (p, n) \<in> set (tq_canceling q') \<longleftrightarrow> (p, n) \<in> set (tq_canceling q) \<or> cancels [a] p n))"
proof (cases a)
  case (Add_Timer p w i)
  obtain t q1 where c: "created p w i q = (t, q1)" by (cases "created p w i q")
  have h: "tq_heap q p = None" "p < UINTPTR_MAX" "0 < w"
    using assms(2) Add_Timer by (auto simp: timestamp_valid_def)
  note ok = addTimer_ok [OF assms(1) h c]
  have "\<forall>e\<in>set pend. snd e \<noteq> p" using pending_live [OF assms(1)] h(1) by fastforce
  with ok c Add_Timer show ?thesis
    by (auto simp: created_def Let_def evolves_def entered_def resetTimerfd_def tq_inv_def cancels_def split: if_splits)
next
  case (Cancel_Timer p n)
  show ?thesis
  proof (cases "(p, n) \<in> set (tq_active q)")
    case True
    with cancelInLoop_active [OF assms(1) True] obtain w q' where
      q': "cancelInLoop p n q = Inr q'" "tq_inv pend q'" "(w, p) \<in> set (tq_timers q)"
        "q' = timer_delete p (q\<lparr>tq_timers := remove1 (w, p) (tq_timers q), tq_active := remove1 (p, n) (tq_active q)\<rparr>)"
      by blast
    have "p \<notin> snd ` set pend" using pending_not_queued(1) [OF assms(1)] q'(3) by force
    with q' Cancel_Timer show ?thesis by (auto simp: evolves_def timer_delete_def cancels_def)
  next
    case False
    with cancelInLoop_inactive [OF assms(1) False] Cancel_Timer assms(1) show ?thesis
      by (auto simp: evolves_def tq_inv_def cancels_def)
  qed
qed

fun timer_calls_ok :: "timer_call list \<Rightarrow> TimerQueue \<Rightarrow> bool" where
  "timer_calls_ok [] q \<longleftrightarrow> True"
| "timer_calls_ok (a # as) q \<longleftrightarrow> timer_call_ok a q
     \<and> (case run_timer_call a q of Inl _ \<Rightarrow> True | Inr q' \<Rightarrow> timer_calls_ok as q')"

lemma run_timer_calls_ok:
  "tq_inv pend q \<Longrightarrow> timer_calls_ok as q \<Longrightarrow>
   \<exists>q'. run_timer_calls as q = Inr q' \<and> tq_inv pend q' \<and> evolves pend q q'
    \<and> (tq_calling q \<longrightarrow> (\<forall>p\<in>snd ` set pend. \<forall>n.
        (p, n) \<in> set (tq_canceling q') \<longleftrightarrow> (p, n) \<in> set (tq_canceling q) \<or> cancels as p n))"
proof (induction as arbitrary: q)
  case (Cons a as)
  obtain q1 where q1: "run_timer_call a q = Inr q1" "tq_inv pend q1" "evolves pend q q1"
      "tq_calling q \<longrightarrow> (\<forall>p\<in>snd ` set pend. \<forall>n.
        (p, n) \<in> set (tq_canceling q1) \<longleftrightarrow> (p, n) \<in> set (tq_canceling q) \<or> cancels [a] p n)"
    using run_timer_call_ok [OF Cons.prems(1), of a] Cons.prems(2) by auto
  then have "timer_calls_ok as q1" using Cons.prems(2) by simp
  from Cons.IH [OF q1(2) this] obtain q2 where
    q2: "run_timer_calls as q1 = Inr q2" "tq_inv pend q2" "evolves pend q1 q2"
      "tq_calling q1 \<longrightarrow> (\<forall>p\<in>snd ` set pend. \<forall>n.
        (p, n) \<in> set (tq_canceling q2) \<longleftrightarrow> (p, n) \<in> set (tq_canceling q1) \<or> cancels as p n)" by blast
  have "tq_calling q1 = tq_calling q" using q1(3) by (simp add: evolves_def)
  then have "tq_calling q \<longrightarrow> (\<forall>p\<in>snd ` set pend. \<forall>n.
      (p, n) \<in> set (tq_canceling q2) \<longleftrightarrow> (p, n) \<in> set (tq_canceling q) \<or> cancels (a # as) p n)"
    using q1(4) q2(4) by (auto simp: cancels_def)
  with q1(1) q2 evolves_trans [OF q1(3) q2(3)] show ?case by simp
qed (simp add: evolves_refl cancels_def)

section \<open>Expiration\<close>

fun expired_ok :: "(int \<Rightarrow> timer_call list) \<Rightarrow> entry list \<Rightarrow> TimerQueue \<Rightarrow> bool" where
  "expired_ok acts [] q \<longleftrightarrow> True"
| "expired_ok acts (e # es) q \<longleftrightarrow>
     (let n = seq_of (tq_heap q) (snd e); q1 = q\<lparr>tq_ran := tq_ran q @ [n]\<rparr>
      in timer_calls_ok (acts n) q1
         \<and> (case run_timer_calls (acts n) q1 of Inl _ \<Rightarrow> True | Inr q2 \<Rightarrow> expired_ok acts es q2))"

definition numbers :: "TimerQueue \<Rightarrow> entry list \<Rightarrow> int list" where
  "numbers q es = map (\<lambda>e. seq_of (tq_heap q) (snd e)) es"

definition ran_with :: "int list \<Rightarrow> TimerQueue \<Rightarrow> TimerQueue" where
  "ran_with ns q = q\<lparr>tq_ran := tq_ran q @ ns\<rparr>"

lemma ran_with_simps [simp]:
  "tq_heap (ran_with ns q) = tq_heap q" "tq_numCreated (ran_with ns q) = tq_numCreated q"
  "tq_timers (ran_with ns q) = tq_timers q" "tq_active (ran_with ns q) = tq_active q"
  "tq_calling (ran_with ns q) = tq_calling q" "tq_canceling (ran_with ns q) = tq_canceling q"
  "tq_ran (ran_with ns q) = tq_ran q @ ns" "tq_inv pend (ran_with ns q) = tq_inv pend q"
  by (simp_all add: ran_with_def tq_inv_def)

lemma run_expired_ok:
  "tq_inv pend q \<Longrightarrow> set es \<subseteq> set pend \<Longrightarrow> expired_ok acts es q \<Longrightarrow> tq_calling q \<Longrightarrow>
   \<exists>q'. run_expired acts es q = Inr q' \<and> tq_inv pend q' \<and> evolves pend (ran_with (numbers q es) q) q'
    \<and> (\<forall>p\<in>snd ` set pend. \<forall>n. (p, n) \<in> set (tq_canceling q')
         \<longleftrightarrow> (p, n) \<in> set (tq_canceling q) \<or> (\<exists>m\<in>set (numbers q es). cancels (acts m) p n))"
proof (induction es arbitrary: q)
  case (Cons e es)
  obtain w p where e: "e = (w, p)" by (cases e)
  obtain t where t: "tq_heap q p = Some t" using pending_live [OF Cons.prems(1)] Cons.prems(2) e by fastforce
  let ?n = "tm_sequence t" and ?q1 = "ran_with [tm_sequence t] q"
  have n: "seq_of (tq_heap q) p = ?n" by (simp add: seq_of_def t)
  have inv: "tq_inv pend ?q1" "tq_calling ?q1" "timer_calls_ok (acts ?n) ?q1"
    using Cons.prems n e by (simp_all add: Let_def ran_with_def [symmetric])
  from run_timer_calls_ok [OF inv(1,3)] inv(2) obtain q2 where
    q2: "run_timer_calls (acts ?n) ?q1 = Inr q2" "tq_inv pend q2" "evolves pend ?q1 q2"
      "\<forall>p\<in>snd ` set pend. \<forall>n. (p, n) \<in> set (tq_canceling q2)
         \<longleftrightarrow> (p, n) \<in> set (tq_canceling q) \<or> cancels (acts ?n) p n" by auto
  have "expired_ok acts es q2" using Cons.prems(3) n e q2(1) by (simp add: Let_def ran_with_def [symmetric])
  moreover have "tq_calling q2" using q2(3) inv(2) by (simp add: evolves_def)
  ultimately obtain q3 where q3: "run_expired acts es q2 = Inr q3" "tq_inv pend q3"
      "evolves pend (ran_with (numbers q2 es) q2) q3"
      "\<forall>p\<in>snd ` set pend. \<forall>n. (p, n) \<in> set (tq_canceling q3)
         \<longleftrightarrow> (p, n) \<in> set (tq_canceling q2) \<or> (\<exists>m\<in>set (numbers q2 es). cancels (acts m) p n)"
    using Cons.IH [OF q2(2)] Cons.prems(2) by auto
  have same: "numbers q2 es = numbers q es"
    using q2(3) Cons.prems(2) by (force simp: numbers_def evolves_def seq_of_def)
  have "numbers q (e # es) = ?n # numbers q es" by (simp add: numbers_def e n)
  moreover have "evolves pend (ran_with (?n # numbers q es) q) q3"
    using q2(3) q3(3) unfolding same by (fastforce simp: evolves_def)
  moreover have "run_expired acts (e # es) q = Inr q3" using e t q2(1) q3(1) by (simp add: timer_at_def ran_with_def)
  ultimately show ?case using q3(2,4) q2(4) unfolding same by auto
qed (simp add: evolves_def numbers_def)

lemma erase_active_ok:
  "\<forall>e\<in>set es. tq_heap q (snd e) \<noteq> None \<Longrightarrow> mset (map (active_of (tq_heap q)) es) \<subseteq># mset (tq_active q) \<Longrightarrow>
   \<exists>act. erase_active es q = Inr (q\<lparr>tq_active := act\<rparr>)
     \<and> mset act + mset (map (active_of (tq_heap q)) es) = mset (tq_active q)"
proof (induction es arbitrary: q)
  case (Cons e es)
  obtain w p where e: "e = (w, p)" by (cases e)
  then obtain t where t: "tq_heap q p = Some t" using Cons.prems(1) by auto
  let ?a = "(p, tm_sequence t)" and ?q1 = "q\<lparr>tq_active := remove1 (p, tm_sequence t) (tq_active q)\<rparr>"
  have a: "active_of (tq_heap q) e = ?a" by (simp add: active_of_def seq_of_def e t)
  with Cons.prems(2) have sub: "add_mset ?a (mset (map (active_of (tq_heap q)) es)) \<subseteq># mset (tq_active q)" by simp
  then have mem: "?a \<in> set (tq_active q)" using mset_subset_eq_insertD set_mset_mset by metis
  have "mset (map (active_of (tq_heap q)) es) \<subseteq># mset (tq_active ?q1)"
    using sub by (simp add: insert_subset_eq_iff)
  with Cons.IH [of ?q1] Cons.prems(1) obtain act where
    "erase_active es ?q1 = Inr (?q1\<lparr>tq_active := act\<rparr>)"
    "mset act + mset (map (active_of (tq_heap q)) es) = mset (tq_active ?q1)" by auto
  with mem t e a show ?case by (auto simp: timer_at_def)
next
  case Nil
  show ?case by (rule exI [of _ "tq_active q"]) simp
qed

lemma due_prefix:
  assumes "sorted_wrt entry_less ts" and "\<forall>e\<in>set ts. snd e < UINTPTR_MAX"
  shows "takeWhile (\<lambda>e. entry_less e (now, UINTPTR_MAX)) ts = filter (\<lambda>e. fst e \<le> now) ts"
    and "dropWhile (\<lambda>e. entry_less e (now, UINTPTR_MAX)) ts = filter (\<lambda>e. now < fst e) ts"
  using assms
proof (induction ts)
  case (Cons x ts)
  case 1
  with Cons show ?case by (auto simp: entry_less_def empty_filter_conv)
next
  case (Cons x ts)
  case 2
  with Cons show ?case by (auto simp: entry_less_def filter_id_conv intro!: filter_True [symmetric])
qed simp_all

definition due :: "Timestamp \<Rightarrow> TimerQueue \<Rightarrow> entry list" where
  "due now q = filter (\<lambda>e. fst e \<le> now) (tq_timers q)"

lemma mset_due: "mset xs = mset (filter (\<lambda>e. fst e \<le> now) xs @ filter (\<lambda>e. now < fst e) xs)"
  for now :: Timestamp
  by (induction xs) auto

lemma getExpired_ok:
  assumes "tq_inv [] q"
  shows "\<exists>act. getExpired now q = Inr (due now q, q\<lparr>tq_timers := filter (\<lambda>e. now < fst e) (tq_timers q), tq_active := act\<rparr>)
    \<and> tq_inv (due now q) (q\<lparr>tq_timers := filter (\<lambda>e. now < fst e) (tq_timers q), tq_active := act\<rparr>)"
proof -
  note ok = assms [unfolded tq_inv_def]
  note d = timers_okD [OF ok]
  let ?rest = "filter (\<lambda>e. now < fst e) (tq_timers q)" and ?q1 = "q\<lparr>tq_timers := filter (\<lambda>e. now < fst e) (tq_timers q)\<rparr>"
  have "\<forall>e\<in>set (tq_timers q). snd e < UINTPTR_MAX" using d(3) d(6) by auto
  note parts = due_prefix [OF d(1) this, of now]
  have ms: "mset (tq_timers q) = mset (due now q @ ?rest)"
    unfolding due_def by (rule mset_due)
  have rest: "sorted_wrt entry_less ?rest" by (rule sorted_wrt_filter [OF d(1)])
  have "\<forall>e\<in>set (tq_timers q). tq_heap q (snd e) \<noteq> None" using d(3) by (metis append_Nil domIff imageI)
  then have "\<forall>e\<in>set (due now q). tq_heap q (snd e) \<noteq> None" by (simp add: due_def)
  moreover have "mset (map (active_of (tq_heap q)) (due now q)) \<subseteq># mset (tq_active q)"
    unfolding d(5) mset_map ms mset_append image_mset_union by (rule mset_subset_eq_add_left)
  ultimately obtain act where act: "erase_active (due now q) ?q1 = Inr (?q1\<lparr>tq_active := act\<rparr>)"
      "mset act + mset (map (active_of (tq_heap q)) (due now q)) = mset (tq_active q)"
    using erase_active_ok [of "due now q" ?q1] by auto
  have "tq_inv (due now q) (?q1\<lparr>tq_active := act\<rparr>)"
    using timers_ok_take [OF ok ms rest act(2)] by (simp add: tq_inv_def)
  moreover have go: "\<not> (?rest \<noteq> [] \<and> \<not> now < fst (hd ?rest))" using hd_in_set [of ?rest] by auto
  ultimately have "getExpired now q = Inr (due now q, ?q1\<lparr>tq_active := act\<rparr>)"
    unfolding getExpired_def Let_def parts due_def [symmetric] sizes_agree_ok [OF assms]
    by (simp only: go if_False rbind_Inr act(1) sizes_agree_ok)
  with \<open>tq_inv (due now q) _\<close> show ?thesis by auto
qed

lemma addTime_positive: "0 < now \<Longrightarrow> 0 < s \<Longrightarrow> 0 < addTime now s"
  by (simp add: addTime_def Let_def kMicroSecondsPerSecond_def add_pos_nonneg)

definition fate :: "Timestamp \<Rightarrow> bool \<Rightarrow> Timer \<Rightarrow> Timer option" where
  \<comment> \<open>of a timer that has run\<close>
  "fate now cancelled t = (if tm_repeat t \<and> \<not> cancelled then Some (timer_restart now t) else None)"

lemma reset_expired_ok:
  "tq_inv es q \<Longrightarrow> 0 < now \<Longrightarrow>
   \<exists>q'. reset_expired now es q = Inr q' \<and> tq_inv [] q' \<and> tq_ran q' = tq_ran q \<and> tq_calling q' = tq_calling q
     \<and> tq_numCreated q' = tq_numCreated q \<and> (\<forall>p. tq_heap q' p = (if p \<in> snd ` set es
         then fate now ((p, seq_of (tq_heap q) p) \<in> set (tq_canceling q)) (the (tq_heap q p)) else tq_heap q p))"
proof (induction es arbitrary: q)
  case (Cons e es)
  obtain w p where e: "e = (w, p)" by (cases e)
  obtain t where t: "tq_heap q p = Some t" using pending_live [OF Cons.prems(1)] e by fastforce
  have inv: "tq_inv ((w, p) # es) q" using Cons.prems(1) e by simp
  have p: "p \<notin> snd ` set es" using timers_okD(2) [OF inv [unfolded tq_inv_def]] by auto
  let ?go = "tm_repeat t \<and> (p, tm_sequence t) \<notin> set (tq_canceling q)"
  let ?qr = "q\<lparr>tq_heap := (tq_heap q)(p \<mapsto> timer_restart now t)\<rparr>"
  let ?q1 = "if ?go then entered p (timer_restart now t) ?qr else timer_delete p q"
  have restart: "tm_sequence (timer_restart now t) = tm_sequence t" "?go \<Longrightarrow> 0 < tm_expiration (timer_restart now t)"
    using addTime_positive [OF Cons.prems(2)] by (auto simp: timer_restart_def tm_repeat_def)
  have "tq_inv es ?q1"
    using enter_pending(2) [OF inv t restart(1) _ refl] restart(2) timers_ok_delete [OF inv [unfolded tq_inv_def]]
    by (auto simp: tq_inv_def timer_delete_def)
  from Cons.IH [OF this Cons.prems(2)] obtain q' where q': "reset_expired now es ?q1 = Inr q'" "tq_inv [] q'"
      "tq_ran q' = tq_ran ?q1" "tq_calling q' = tq_calling ?q1" "tq_numCreated q' = tq_numCreated ?q1"
      "\<forall>x. tq_heap q' x = (if x \<in> snd ` set es
         then fate now ((x, seq_of (tq_heap ?q1) x) \<in> set (tq_canceling ?q1)) (the (tq_heap ?q1 x)) else tq_heap ?q1 x)"
    by blast
  have "reset_expired now (e # es) q = Inr q'"
    using q'(1) t e enter_pending(1) [OF inv t restart(1) _ refl] restart(2)
    by (cases ?go) (auto simp: timer_at_def)
  moreover have "tq_heap ?q1 = (tq_heap q)(p := fate now ((p, tm_sequence t) \<in> set (tq_canceling q)) t)"
    by (auto simp: fate_def entered_def timer_delete_def)
  then have "tq_heap q' x = (if x \<in> snd ` set (e # es)
         then fate now ((x, seq_of (tq_heap q) x) \<in> set (tq_canceling q)) (the (tq_heap q x)) else tq_heap q x)" for x
    using q'(6) p e t by (auto simp: seq_of_def entered_def timer_delete_def)
  moreover have "tq_ran ?q1 = tq_ran q" "tq_calling ?q1 = tq_calling q" "tq_numCreated ?q1 = tq_numCreated q"
    by (simp_all add: entered_def timer_delete_def)
  ultimately show ?case using q'(2-5) by auto
qed simp

section \<open>The queue as a system\<close>

definition armed_ok :: "TimerQueue \<Rightarrow> bool" where
  \<comment> \<open>the descriptor wakes the loop no later than the first timer\<close>
  "armed_ok q \<longleftrightarrow> tq_timers q = [] \<or> (\<exists>a. tq_armed q = Some a \<and> a \<le> fst (hd (tq_timers q)))"

definition tq_ok :: "TimerQueue \<Rightarrow> bool" where
  "tq_ok q \<longleftrightarrow> tq_inv [] q \<and> \<not> tq_calling q \<and> armed_ok q"

definition ready_ok :: "(int \<Rightarrow> timer_call list) \<Rightarrow> Timestamp \<Rightarrow> TimerQueue \<Rightarrow> bool" where
  "ready_ok acts now q \<longleftrightarrow> timestamp_valid now \<and>
     (case getExpired now (readTimerfd q) of Inl _ \<Rightarrow> True
      | Inr (expired, q1) \<Rightarrow> expired_ok acts expired (q1\<lparr>tq_calling := True, tq_canceling := []\<rparr>))"

fun timer_event_ok :: "timer_event \<Rightarrow> TimerQueue \<Rightarrow> bool" where
  "timer_event_ok (Timer_Call a) q \<longleftrightarrow> timer_call_ok a q"
| "timer_event_ok (Timer_Ready acts now) q \<longleftrightarrow> ready_ok acts now q"

definition inherits :: "TimerQueue \<Rightarrow> TimerQueue \<Rightarrow> bool" where
  \<comment> \<open>numbers are never used again\<close>
  "inherits q q' \<longleftrightarrow> tq_numCreated q \<le> tq_numCreated q'
     \<and> (\<forall>p t'. tq_heap q' p = Some t' \<longrightarrow>
          (\<exists>t. tq_heap q p = Some t \<and> tm_sequence t = tm_sequence t') \<or> tm_sequence t' > tq_numCreated q)"

lemma rearm_ok:
  assumes "tq_inv [] q"
  shows "\<exists>a. rearm q = Inr (q\<lparr>tq_armed := a\<rparr>) \<and> (tq_timers q \<noteq> [] \<longrightarrow> a = Some (fst (hd (tq_timers q))))"
proof (cases "tq_timers q")
  case Nil
  then have "rearm q = Inr (q\<lparr>tq_armed := tq_armed q\<rparr>)" by (simp add: rearm_def)
  with Nil show ?thesis by blast
next
  case (Cons e es)
  note d = timers_okD [OF assms [unfolded tq_inv_def]]
  have "snd e \<in> dom (tq_heap q)" using d(3) Cons by simp
  then obtain t where "tq_heap q (snd e) = Some t" by blast
  with d(4) [of e] Cons show ?thesis
    by (auto simp: rearm_def timer_at_def timestamp_valid_def resetTimerfd_def)
qed

definition cancelled_by :: "(int \<Rightarrow> timer_call list) \<Rightarrow> TimerQueue \<Rightarrow> entry list \<Rightarrow> addr \<Rightarrow> bool" where
  \<comment> \<open>a callback of the batch cancels the timer at the address\<close>
  "cancelled_by acts q es p \<longleftrightarrow> (\<exists>m\<in>set (numbers q es). cancels (acts m) p (seq_of (tq_heap q) p))"

lemma timer_handleRead_ok:
  assumes "tq_inv [] q" and "ready_ok acts now q" and "\<not> tq_calling q"
  shows "\<exists>q'. timer_handleRead acts now q = Inr q' \<and> tq_ok q' \<and> inherits q q'
    \<and> tq_ran q' = tq_ran q @ numbers q (due now q)
    \<and> (\<forall>e\<in>set (due now q). tq_heap q' (snd e)
          = fate now (cancelled_by acts q (due now q) (snd e)) (the (tq_heap q (snd e))))
    \<and> (tq_timers q' \<noteq> [] \<longrightarrow> tq_armed q' = Some (fst (hd (tq_timers q'))))"
proof -
  let ?due = "due now q"
  have read: "tq_inv [] (readTimerfd q)" "due now (readTimerfd q) = ?due"
    using assms(1) by (simp_all add: tq_inv_def readTimerfd_def due_def)
  obtain q1 where q1: "getExpired now (readTimerfd q) = Inr (?due, q1)" "tq_inv ?due q1" "tq_heap q1 = tq_heap q"
      "tq_numCreated q1 = tq_numCreated q" "tq_ran q1 = tq_ran q"
    using getExpired_ok [OF read(1), of now] read(2) by (auto simp: readTimerfd_def)
  let ?q1 = "q1\<lparr>tq_calling := True, tq_canceling := []\<rparr>"
  have nums: "numbers ?q1 ?due = numbers q ?due" by (simp add: numbers_def q1(3))
  have "tq_inv ?due ?q1" "expired_ok acts ?due ?q1" "now > 0"
    using q1 assms(2) by (simp_all add: tq_inv_def ready_ok_def timestamp_valid_def)
  from run_expired_ok [OF this(1) subset_refl this(2)] obtain q2 where
    q2: "run_expired acts ?due ?q1 = Inr q2" "tq_inv ?due q2" "evolves ?due (ran_with (numbers q ?due) ?q1) q2"
      "\<forall>p\<in>snd ` set ?due. \<forall>n. (p, n) \<in> set (tq_canceling q2) \<longleftrightarrow> (\<exists>m\<in>set (numbers q ?due). cancels (acts m) p n)"
    unfolding nums by auto
  have heap2: "tq_heap q2 (snd e) = tq_heap q (snd e)" if "e \<in> set ?due" for e
    using q2(3) that by (simp add: evolves_def q1(3))
  have "tq_inv ?due (q2\<lparr>tq_calling := False\<rparr>)" using q2(2) by (simp add: tq_inv_def)
  from reset_expired_ok [OF this \<open>now > 0\<close>] obtain q3 where
    q3: "reset_expired now ?due (q2\<lparr>tq_calling := False\<rparr>) = Inr q3" "tq_inv [] q3" "tq_ran q3 = tq_ran q2"
      "\<not> tq_calling q3" "tq_numCreated q3 = tq_numCreated q2"
      "\<forall>p. tq_heap q3 p = (if p \<in> snd ` set ?due
         then fate now ((p, seq_of (tq_heap q2) p) \<in> set (tq_canceling q2)) (the (tq_heap q2 p)) else tq_heap q2 p)"
    by auto
  from rearm_ok [OF q3(2)] obtain a where a: "rearm q3 = Inr (q3\<lparr>tq_armed := a\<rparr>)"
    "tq_timers q3 \<noteq> [] \<longrightarrow> a = Some (fst (hd (tq_timers q3)))" by blast
  let ?q' = "q3\<lparr>tq_armed := a\<rparr>"
  have "timer_handleRead acts now q = Inr ?q'" by (simp add: timer_handleRead_def q1(1) q2(1) q3(1) a(1))
  moreover have "tq_ok ?q'" using q3(2,4) a(2) by (auto simp: tq_ok_def tq_inv_def armed_ok_def)
  moreover have "tq_ran ?q' = tq_ran q @ numbers q ?due" using q3(3) q2(3) q1(5) by (simp add: evolves_def)
  moreover have "tq_heap ?q' (snd e) = fate now (cancelled_by acts q ?due (snd e)) (the (tq_heap q (snd e)))"
    if "e \<in> set ?due" for e
    using that q3(6) q2(4) heap2 [OF that] by (simp add: cancelled_by_def seq_of_def)
  moreover have "inherits q ?q'" unfolding inherits_def
  proof (intro conjI allI impI)
    show "tq_numCreated q \<le> tq_numCreated ?q'" using q3(5) q2(3) q1(4) by (simp add: evolves_def)
    fix p t' assume t': "tq_heap ?q' p = Some t'"
    then obtain t where "tq_heap q2 p = Some t" "tm_sequence t = tm_sequence t'"
      using q3(6) pending_live [OF q2(2)]
      by (cases "p \<in> snd ` set ?due") (fastforce simp: fate_def timer_restart_def split: if_splits)+
    with q2(3) q1(3,4) show "(\<exists>t. tq_heap q p = Some t \<and> tm_sequence t = tm_sequence t') \<or> tm_sequence t' > tq_numCreated q"
      by (fastforce simp: evolves_def)
  qed
  ultimately show ?thesis using a(2) by auto
qed

lemma inherits_evolves: "evolves pend q q' \<Longrightarrow> inherits q q'"
  unfolding evolves_def inherits_def by blast

lemma addTimer_armed:
  assumes "tq_ok q" and "timer_call_ok (Add_Timer p w i) q" and "addTimer p w i q = Inr q'"
  shows "armed_ok q'"
proof -
  obtain t q1 where c: "created p w i q = (t, q1)" by (cases "created p w i q")
  have h: "tq_inv [] q" "tq_heap q p = None" "p < UINTPTR_MAX" "0 < w"
    using assms(1,2) by (auto simp: timestamp_valid_def tq_ok_def)
  have t: "tm_expiration t = w" "tq_timers q1 = tq_timers q" "tq_armed q1 = tq_armed q"
    using c by (auto simp: created_def Let_def)
  have q': "q' = (if earlier t q then resetTimerfd w (entered p t q1) else entered p t q1)"
    using addTimer_ok(1) [OF h c] assms(3) by simp
  show ?thesis
  proof (cases "tq_timers q")
    case Nil
    with q' t show ?thesis by (simp add: armed_ok_def entered_def earlier_def resetTimerfd_def)
  next
    case (Cons x xs)
    with assms(1) q' t show ?thesis
      by (auto simp: armed_ok_def entered_def earlier_def resetTimerfd_def tq_ok_def entry_less_def)
  qed
qed

lemma hd_remove1_le:
  assumes "sorted_wrt entry_less ts" and "remove1 e ts \<noteq> []"
  shows "fst (hd ts) \<le> fst (hd (remove1 e ts))"
  using assms by (cases ts) (force simp: entry_less_def dest: hd_in_set)+

lemma cancelInLoop_armed:
  assumes "tq_ok q" and "cancelInLoop p n q = Inr q'"
  shows "armed_ok q'"
proof (cases "(p, n) \<in> set (tq_active q)")
  case True
  have inv: "tq_inv [] q" using assms(1) by (simp add: tq_ok_def)
  from cancelInLoop_active [OF inv True] assms(2) obtain w where
    "q' = timer_delete p (q\<lparr>tq_timers := remove1 (w, p) (tq_timers q), tq_active := remove1 (p, n) (tq_active q)\<rparr>)" by auto
  with hd_remove1_le [OF timers_okD(1) [OF inv [unfolded tq_inv_def]], of "(w, p)"] assms(1) show ?thesis
    by (fastforce simp: armed_ok_def timer_delete_def tq_ok_def)
next
  case False
  with assms cancelInLoop_inactive [of "[]" q p n] show ?thesis by (auto simp: tq_ok_def armed_ok_def)
qed

lemma timer_call_step:
  assumes "tq_ok q" and "timer_call_ok a q"
  shows "\<exists>q'. run_timer_call a q = Inr q' \<and> tq_ok q' \<and> inherits q q' \<and> tq_ran q' = tq_ran q"
proof -
  obtain q' where q': "run_timer_call a q = Inr q'" "tq_inv [] q'" "evolves [] q q'"
    using run_timer_call_ok [of "[]" q a] assms by (auto simp: tq_ok_def)
  have "armed_ok q'" using q'(1) assms addTimer_armed cancelInLoop_armed by (cases a) auto
  with q' assms(1) inherits_evolves [OF q'(3)] show ?thesis by (auto simp: tq_ok_def evolves_def)
qed

lemma timer_step_ok:
  assumes "tq_ok q" and "timer_event_ok e q"
  shows "\<exists>q'. timer_step e q = Inr q' \<and> tq_ok q' \<and> inherits q q'
    \<and> tq_ran q' = tq_ran q @ (case e of Timer_Call a \<Rightarrow> [] | Timer_Ready acts now \<Rightarrow> numbers q (due now q))"
proof (cases e)
  case (Timer_Call a)
  with timer_call_step [OF assms(1)] assms(2) show ?thesis by simp
next
  case (Timer_Ready acts now)
  with timer_handleRead_ok [of q acts now] assms show ?thesis by (auto simp: tq_ok_def)
qed

interpretation timers: safe_system timer_step timer_event_ok tq_ok
  using timer_step_ok by unfold_locales blast

definition dead :: "int \<Rightarrow> TimerQueue \<Rightarrow> bool" where
  \<comment> \<open>a number that was given and whose timer is gone\<close>
  "dead n q \<longleftrightarrow> n \<le> tq_numCreated q \<and> (\<forall>p t. tq_heap q p = Some t \<longrightarrow> tm_sequence t \<noteq> n)"

lemma dead_inherits: "dead n q \<Longrightarrow> inherits q q' \<Longrightarrow> dead n q'"
  unfolding dead_def inherits_def by fastforce

lemma queue_dom: "tq_ok q \<Longrightarrow> dom (tq_heap q) = snd ` set (tq_timers q)"
  using timers_okD(3) [of "[]" "tq_heap q" "tq_numCreated q" "tq_timers q" "tq_active q"]
  by (simp add: tq_ok_def tq_inv_def)

lemma dead_not_due:
  assumes "tq_ok q" and "dead n q"
  shows "n \<notin> set (numbers q (due now q))"
proof
  assume "n \<in> set (numbers q (due now q))"
  then obtain e where e: "e \<in> set (tq_timers q)" "n = seq_of (tq_heap q) (snd e)" by (auto simp: numbers_def due_def)
  have "snd e \<in> dom (tq_heap q)" using e(1) queue_dom [OF assms(1)] by blast
  with e(2) assms(2) show False by (fastforce simp: dead_def seq_of_def)
qed

interpretation dead_timer: safe_system timer_step timer_event_ok
  "\<lambda>q. tq_ok q \<and> dead n q \<and> n \<notin> set (drop k (tq_ran q)) \<and> k \<le> length (tq_ran q)" for n k
proof (unfold_locales, goal_cases)
  case (1 q e)
  then obtain q' where "timer_step e q = Inr q'" "tq_ok q'" "inherits q q'"
    "tq_ran q' = tq_ran q @ (case e of Timer_Call a \<Rightarrow> [] | Timer_Ready acts now \<Rightarrow> numbers q (due now q))"
    using timer_step_ok [of q e] by blast
  with 1 dead_inherits [of n q q'] dead_not_due [of q n] show ?case by (auto split: timer_event.split)
qed

fun timer_run :: "timer_event list \<Rightarrow> TimerQueue \<Rightarrow> TimerQueue res" where
  "timer_run [] q = Inr q"
| "timer_run (e # es) q = rbind (timer_step e q) (timer_run es)"

fun timer_events_ok :: "timer_event list \<Rightarrow> TimerQueue \<Rightarrow> bool" where
  "timer_events_ok [] q \<longleftrightarrow> True"
| "timer_events_ok (e # es) q \<longleftrightarrow> timer_event_ok e q
     \<and> (case timer_step e q of Inl _ \<Rightarrow> True | Inr q' \<Rightarrow> timer_events_ok es q')"

lemma timer_run_system: "timer_run es q = timers.run es q"
  by (induction es arbitrary: q) (simp_all cong: rbind_cong)

lemma timer_events_ok_system: "timer_events_ok es q = timers.allowed_run es q"
  by (induction es arbitrary: q) (simp_all split: sum.split)

lemma tq_ok_new: "tq_ok TimerQueue_new"
  by (simp add: tq_ok_def tq_inv_def timers_ok_def TimerQueue_new_def armed_ok_def)

lemma timer_run_ok:
  assumes "timer_events_ok es TimerQueue_new"
  shows "\<exists>q. timer_run es TimerQueue_new = Inr q \<and> tq_ok q"
  using timers.run_inv [OF tq_ok_new] assms by (simp add: timer_run_system timer_events_ok_system)

lemma dtor_frees_list: "tq_heap (fold (\<lambda>(_, p). timer_delete p) es q) x = (if x \<in> snd ` set es then None else tq_heap q x)"
  by (induction es arbitrary: q) (auto simp: timer_delete_def)

lemma dtor_frees: "dom (tq_heap q) = snd ` set (tq_timers q) \<Longrightarrow> tq_heap (TimerQueue_dtor q) = Map.empty"
  by (rule ext) (auto simp: TimerQueue_dtor_def dtor_frees_list domIff [symmetric])

lemma cancel_kills:
  assumes "tq_ok q" and "tq_heap q p = Some t" and "cancelInLoop p (tm_sequence t) q = Inr q1"
  shows "dead (tm_sequence t) q1"
proof -
  let ?n = "tm_sequence t"
  have inv: "tq_inv [] q" using assms(1) by (simp add: tq_ok_def)
  note ok = inv [unfolded tq_inv_def]
  have p: "p \<in> dom (tq_heap q)" using assms(2) by blast
  then have "p \<in> snd ` set (tq_timers q)" using timers_okD(3) [OF ok] by simp
  moreover have "seq_of (tq_heap q) p = ?n" by (simp add: seq_of_def assms(2))
  ultimately have act: "(p, ?n) \<in> set (tq_active q)" using timers_ok_active(2) [OF ok] by (force simp: active_of_def)
  from cancelInLoop_active [OF inv act] assms(3)
  have q1: "tq_heap q1 = (tq_heap q)(p := None)" "tq_numCreated q1 = tq_numCreated q" by (auto simp: timer_delete_def)
  have "tm_sequence t' \<noteq> ?n" if "tq_heap q1 x = Some t'" for x t'
  proof
    assume "tm_sequence t' = ?n"
    moreover have x: "x \<noteq> p" "tq_heap q x = Some t'" using that q1(1) by (auto split: if_splits)
    ultimately have "seq_of (tq_heap q) x = seq_of (tq_heap q) p" by (simp add: seq_of_def assms(2))
    with inj_onD [OF timers_okD(7) [OF ok]] x p show False by blast
  qed
  moreover have "?n \<le> tq_numCreated q" using timers_okD(6) [OF ok p] by (simp add: seq_of_def assms(2))
  ultimately show ?thesis using q1(2) by (auto simp: dead_def)
qed

lemma timer_run_extends:
  "timer_run es q = Inr q' \<Longrightarrow> tq_ok q \<Longrightarrow> timer_events_ok es q \<Longrightarrow> \<exists>later. tq_ran q' = tq_ran q @ later"
proof (induction es arbitrary: q)
  case (Cons e es)
  then obtain q1 where q1: "timer_step e q = Inr q1" "tq_ok q1" "\<exists>l. tq_ran q1 = tq_ran q @ l"
    using timer_step_ok [of q e] by auto
  with Cons.IH [of q1] Cons.prems show ?case by auto
qed simp

text \<open>
  C29. However timers are added, cancelled and run, with any callbacks that add and cancel timers
  themselves: no assertion fails and no deleted timer is touched. The live timers are exactly
  those in the queue, which is ordered by time, so none is leaked and none dangles; the
  descriptor is armed for no later than the time of the first; and the destructor frees all. An \<^verbatim>\<open>addTimer\<close> or \<^verbatim>\<open>cancel\<close>
  of another thread happens when the loop runs it; the system clock adds up to the 100 microseconds
  that \<^verbatim>\<open>howMuchTimeFromNow\<close> waits at least.
\<close>

theorem timer_queue_sound:
  assumes "timer_events_ok es TimerQueue_new"
  shows "\<exists>q. timer_run es TimerQueue_new = Inr q \<and> sorted_wrt entry_less (tq_timers q)
    \<and> dom (tq_heap q) = snd ` set (tq_timers q)
    \<and> (\<forall>(w, p)\<in>set (tq_timers q). \<exists>t. tq_heap q p = Some t \<and> tm_expiration t = w)
    \<and> (tq_timers q = [] \<or> (\<exists>a. tq_armed q = Some a \<and> a \<le> fst (hd (tq_timers q))))
    \<and> tq_heap (TimerQueue_dtor q) = Map.empty"
proof -
  obtain q where q: "timer_run es TimerQueue_new = Inr q" "tq_ok q" using timer_run_ok [OF assms] by blast
  then have "timers_ok [] (tq_heap q) (tq_numCreated q) (tq_timers q) (tq_active q)" by (simp add: tq_ok_def tq_inv_def)
  note d = timers_okD [OF this]
  note heap = queue_dom [OF q(2)]
  have "\<exists>t. tq_heap q p = Some t \<and> tm_expiration t = w" if "(w, p) \<in> set (tq_timers q)" for w p
    using d(4) [OF that] heap that by force
  moreover have "tq_heap (TimerQueue_dtor q) = Map.empty" using dtor_frees heap by simp
  ultimately show ?thesis using q d(1) heap by (auto simp: tq_ok_def armed_ok_def)
qed

definition demo_timers :: "timer_event list" where
  "demo_timers = [Timer_Call (Add_Timer 8 1000 0), Timer_Call (Add_Timer 16 500 1), Timer_Ready (\<lambda>_. []) 700]"

definition demo_queue :: TimerQueue where
  "demo_queue = (case timer_run demo_timers TimerQueue_new of Inl _ \<Rightarrow> TimerQueue_new | Inr q \<Rightarrow> q)"

lemma addTime_second: "addTime 700 1 = 1000700"
  by (simp add: addTime_def Let_def kMicroSecondsPerSecond_def)

lemma demo_timers_run:
  "timer_events_ok demo_timers TimerQueue_new" "timer_run demo_timers TimerQueue_new = Inr demo_queue"
  "tq_timers demo_queue = [(1000, 8), (1000700, 16)]" "tq_ran demo_queue = [2]"
  by (simp_all add: demo_queue_def demo_timers_def TimerQueue_new_def addTimer_def addTimerInLoop_def timer_insert_def
      sizes_agree_def timer_at_def entry_less_def resetTimerfd_def UINTPTR_MAX_def timestamp_valid_def
      timer_handleRead_def readTimerfd_def getExpired_def rearm_def tm_repeat_def timer_restart_def addTime_second
      ready_ok_def seq_of_def Let_def)

theorem timer_queue_sound_witness:
  "\<exists>q. timer_run demo_timers TimerQueue_new = Inr q \<and> dom (tq_heap q) = {8, 16}
    \<and> (\<exists>a. tq_armed q = Some a \<and> a \<le> 1000)"
  using timer_queue_sound [OF demo_timers_run(1)] demo_timers_run(2,3) by auto

text \<open>
  C30. When the descriptor is readable, exactly the timers whose time has come run, in the order
  of their times, whatever their callbacks do; a timer that repeats is set again for its
  interval later unless a callback of the batch cancelled it, every other one is gone; and
  the descriptor is armed for the first timer left.
\<close>

theorem expired_timers_run:
  assumes "timer_events_ok es TimerQueue_new" and "timer_run es TimerQueue_new = Inr q" and "ready_ok acts now q"
  shows "\<exists>q'. timer_handleRead acts now q = Inr q'
    \<and> tq_ran q' = tq_ran q @ map (\<lambda>e. seq_of (tq_heap q) (snd e)) (filter (\<lambda>e. fst e \<le> now) (tq_timers q))
    \<and> (\<forall>e\<in>set (tq_timers q). fst e \<le> now \<longrightarrow>
          tq_heap q' (snd e) = (let t = the (tq_heap q (snd e))
            in if tm_repeat t \<and> \<not> cancelled_by acts q (due now q) (snd e)
               then Some (t\<lparr>tm_expiration := addTime now (tm_interval t)\<rparr>) else None))
    \<and> (tq_timers q' \<noteq> [] \<longrightarrow> tq_armed q' = Some (fst (hd (tq_timers q'))))"
proof -
  have "tq_ok q" using timer_run_ok [OF assms(1)] assms(2) by auto
  then have "tq_inv [] q" "\<not> tq_calling q" by (simp_all add: tq_ok_def)
  from timer_handleRead_ok [OF this(1) assms(3) this(2)] obtain q' where
    q': "timer_handleRead acts now q = Inr q'" "tq_ran q' = tq_ran q @ numbers q (due now q)"
      "\<And>e. e \<in> set (due now q) \<Longrightarrow> tq_heap q' (snd e)
          = fate now (cancelled_by acts q (due now q) (snd e)) (the (tq_heap q (snd e)))"
      "tq_timers q' \<noteq> [] \<longrightarrow> tq_armed q' = Some (fst (hd (tq_timers q')))" by blast
  have "tq_heap q' (snd e) = (let t = the (tq_heap q (snd e))
            in if tm_repeat t \<and> \<not> cancelled_by acts q (due now q) (snd e)
               then Some (t\<lparr>tm_expiration := addTime now (tm_interval t)\<rparr>) else None)"
    if "e \<in> set (tq_timers q)" "fst e \<le> now" for e
    using q'(3) [of e] that by (simp add: due_def fate_def timer_restart_def Let_def)
  with q'(1,2,4) show ?thesis by (auto simp: numbers_def due_def)
qed

theorem expired_timers_run_witness:
  "\<exists>q'. timer_handleRead (\<lambda>_. []) 1000 demo_queue = Inr q' \<and> length (tq_ran q') = 2"
proof -
  have "ready_ok (\<lambda>_. []) 1000 demo_queue"
  proof -
    have "expired_ok (\<lambda>_. []) es q" for es q by (induction es arbitrary: q) (simp_all add: Let_def)
    then show ?thesis by (auto simp: ready_ok_def timestamp_valid_def split: sum.split)
  qed
  from expired_timers_run [OF demo_timers_run(1,2) this] demo_timers_run(3,4) show ?thesis by auto
qed

text \<open>
  A callback that cancels a timer: one that is in the queue is deleted at once; one of the same batch may
  run still, and is deleted when the batch is over.
\<close>

definition lives_at :: "int \<Rightarrow> addr \<Rightarrow> TimerQueue \<Rightarrow> bool" where
  \<comment> \<open>a number that was given and that no timer elsewhere has\<close>
  "lives_at n p q \<longleftrightarrow> n \<le> tq_numCreated q \<and> (\<forall>x t. tq_heap q x = Some t \<and> tm_sequence t = n \<longrightarrow> x = p)"

lemma lives_at_inherits: "lives_at n p q \<Longrightarrow> inherits q q' \<Longrightarrow> lives_at n p q'"
  unfolding lives_at_def inherits_def by fastforce

lemma live_timer:
  assumes "tq_inv pend q" and "tq_heap q p = Some t"
  shows "lives_at (tm_sequence t) p q"
proof -
  note ok = assms(1) [unfolded tq_inv_def]
  have "x = p" if "tq_heap q x = Some t'" "tm_sequence t' = tm_sequence t" for x t'
    using inj_onD [OF timers_okD(7) [OF ok], of x p] that assms(2) by (auto simp: seq_of_def)
  moreover have "tm_sequence t \<le> tq_numCreated q"
    using timers_okD(6) [OF ok, of p] assms(2) by (auto simp: seq_of_def)
  ultimately show ?thesis by (auto simp: lives_at_def)
qed

lemma cancel_call_kills:
  assumes "tq_inv pend q" and "lives_at n p q" and "p \<notin> snd ` set pend" and "cancelInLoop p n q = Inr q'"
  shows "dead n q'"
proof (cases "(p, n) \<in> set (tq_active q)")
  case True
  with cancelInLoop_active [OF assms(1) True] assms(4)
  have q': "tq_heap q' = (tq_heap q)(p := None)" "tq_numCreated q' = tq_numCreated q" by (auto simp: timer_delete_def)
  note at = assms(2) [unfolded lives_at_def]
  have "tm_sequence t \<noteq> n" if "tq_heap q' x = Some t" for x t
  proof -
    have "x \<noteq> p" "tq_heap q x = Some t" using that q'(1) by (simp_all split: if_splits)
    then show ?thesis using at by blast
  qed
  then show ?thesis using at q'(2) by (simp add: dead_def)
next
  case False
  note ok = assms(1) [unfolded tq_inv_def]
  have "tm_sequence t \<noteq> n" if "tq_heap q x = Some t" for x t
  proof
    assume n: "tm_sequence t = n"
    then have "x = p" using assms(2) that by (auto simp: lives_at_def)
    then have "p \<in> snd ` set (tq_timers q)" using timers_okD(3) [OF ok] that assms(3) by auto
    then obtain e where e: "e \<in> set (tq_timers q)" "snd e = p" by auto
    then have "active_of (tq_heap q) e = (p, n)" using that n \<open>x = p\<close> by (simp add: active_of_def seq_of_def)
    then have "(p, n) \<in> set (tq_active q)" using timers_ok_active(2) [OF ok] e(1) by (metis image_eqI)
    with False show False ..
  qed
  then have "dead n q" using assms(2) by (auto simp: dead_def lives_at_def)
  with cancelInLoop_inactive [OF assms(1) False] assms(4) show ?thesis by (auto simp: dead_def)
qed

lemma calls_cancel:
  "tq_inv pend q \<Longrightarrow> timer_calls_ok as q \<Longrightarrow> run_timer_calls as q = Inr q' \<Longrightarrow> lives_at n p q \<Longrightarrow> p \<notin> snd ` set pend \<Longrightarrow>
   cancels as p n \<or> dead n q \<Longrightarrow> dead n q'"
proof (induction as arbitrary: q)
  case (Cons a as)
  obtain q1 where q1: "run_timer_call a q = Inr q1" "tq_inv pend q1" "evolves pend q q1"
    using run_timer_call_ok [OF Cons.prems(1), of a] Cons.prems(2) by auto
  note inh = inherits_evolves [OF q1(3)]
  have "cancels as p n \<or> dead n q1"
  proof (cases "a = Cancel_Timer p n")
    case True
    then show ?thesis using cancel_call_kills [OF Cons.prems(1,4,5)] q1(1) by simp
  next
    case False
    then show ?thesis using Cons.prems(6) dead_inherits [OF _ inh] by (auto simp: cancels_def)
  qed
  then show ?case
    using Cons.IH [OF q1(2)] Cons.prems(2,3,5) q1(1) lives_at_inherits [OF Cons.prems(4) inh] by simp
qed (simp add: cancels_def)

lemma ran_with_lives [simp]: "lives_at n p (ran_with ns q) = lives_at n p q" "dead n (ran_with ns q) = dead n q"
  by (simp_all add: lives_at_def dead_def)

lemma batch_cancel:
  "tq_inv pend q \<Longrightarrow> set es \<subseteq> set pend \<Longrightarrow> expired_ok acts es q \<Longrightarrow> run_expired acts es q = Inr q' \<Longrightarrow> lives_at n p q \<Longrightarrow>
   p \<notin> snd ` set pend \<Longrightarrow> (\<exists>m\<in>set (numbers q es). cancels (acts m) p n) \<or> dead n q \<Longrightarrow> dead n q'"
proof (induction es arbitrary: q)
  case (Cons e es)
  obtain w r where e: "e = (w, r)" by (cases e)
  obtain t where t: "tq_heap q r = Some t" using pending_live [OF Cons.prems(1)] Cons.prems(2) e by fastforce
  let ?m = "tm_sequence t" and ?q1 = "ran_with [tm_sequence t] q"
  have m: "seq_of (tq_heap q) r = ?m" by (simp add: seq_of_def t)
  have ok: "timer_calls_ok (acts ?m) ?q1" using Cons.prems(3) m e by (simp add: Let_def ran_with_def [symmetric])
  have inv: "tq_inv pend ?q1" using Cons.prems(1) by simp
  obtain q2 where q2: "run_timer_calls (acts ?m) ?q1 = Inr q2" "tq_inv pend q2" "evolves pend ?q1 q2"
    using run_timer_calls_ok [OF inv ok] by blast
  have rest: "expired_ok acts es q2" "run_expired acts es q2 = Inr q'"
    using Cons.prems(3,4) m e t q2(1) by (simp_all add: Let_def ran_with_def [symmetric] timer_at_def)
  have same: "numbers q2 es = numbers q es"
    using q2(3) Cons.prems(2) by (force simp: numbers_def evolves_def seq_of_def)
  note inh = inherits_evolves [OF q2(3)]
  have "(\<exists>k\<in>set (numbers q2 es). cancels (acts k) p n) \<or> dead n q2"
  proof (cases "cancels (acts ?m) p n \<or> dead n q")
    case True
    then have "dead n q2" using calls_cancel [OF inv ok q2(1)] Cons.prems(5,6) by simp
    then show ?thesis ..
  next
    case False
    then show ?thesis using Cons.prems(7) unfolding same by (auto simp: numbers_def e m)
  qed
  moreover have "lives_at n p q2" using lives_at_inherits [OF _ inh] Cons.prems(5) by simp
  ultimately show ?case using Cons.IH [OF q2(2) _ rest] Cons.prems(2,6) by simp
qed (simp add: numbers_def)

lemma ready_cancel_kills:
  assumes "tq_ok q" and "ready_ok acts now q" and "timer_handleRead acts now q = Inr q'"
    and "tq_heap q p = Some t" and "m \<in> set (numbers q (due now q))" and "cancels (acts m) p (tm_sequence t)"
  shows "dead (tm_sequence t) q'"
proof (cases "p \<in> snd ` set (due now q)")
  case True
  have inv: "tq_inv [] q" "\<not> tq_calling q" using assms(1) by (simp_all add: tq_ok_def)
  from timer_handleRead_ok [OF inv(1) assms(2) inv(2)] assms(3) have
    q': "inherits q q'" "\<And>e. e \<in> set (due now q) \<Longrightarrow> tq_heap q' (snd e)
      = fate now (cancelled_by acts q (due now q) (snd e)) (the (tq_heap q (snd e)))" by auto
  have "cancelled_by acts q (due now q) p" using assms(4-6) by (auto simp: cancelled_by_def seq_of_def)
  with True q'(2) have gone: "tq_heap q' p = None" by (auto simp: fate_def)
  have "lives_at (tm_sequence t) p q'" by (rule lives_at_inherits [OF live_timer [OF inv(1) assms(4)] q'(1)])
  with gone show ?thesis by (auto simp: lives_at_def dead_def)
next
  case False
  let ?due = "due now q"
  have inv: "tq_inv [] q" using assms(1) by (simp add: tq_ok_def)
  have read: "tq_inv [] (readTimerfd q)" "due now (readTimerfd q) = ?due"
    using inv by (simp_all add: tq_inv_def readTimerfd_def due_def)
  obtain q1 where q1: "getExpired now (readTimerfd q) = Inr (?due, q1)" "tq_inv ?due q1" "tq_heap q1 = tq_heap q"
      "tq_numCreated q1 = tq_numCreated q"
    using getExpired_ok [OF read(1), of now] read(2) by (auto simp: readTimerfd_def)
  let ?q1 = "q1\<lparr>tq_calling := True, tq_canceling := []\<rparr>"
  have ok: "tq_inv ?due ?q1" "expired_ok acts ?due ?q1" "now > 0"
    using q1(1,2) assms(2) by (simp_all add: tq_inv_def ready_ok_def timestamp_valid_def)
  obtain q2 where q2: "run_expired acts ?due ?q1 = Inr q2" "tq_inv ?due q2"
    using run_expired_ok [OF ok(1) subset_refl ok(2)] by auto
  have "lives_at (tm_sequence t) p ?q1" using live_timer [OF inv assms(4)] q1(3,4) by (simp add: lives_at_def)
  moreover have "numbers ?q1 ?due = numbers q ?due" by (simp add: numbers_def q1(3))
  ultimately have d2: "dead (tm_sequence t) q2"
    using batch_cancel [OF ok(1) subset_refl ok(2) q2(1) _ False] assms(5,6) by auto
  have "tq_inv ?due (q2\<lparr>tq_calling := False\<rparr>)" using q2(2) by (simp add: tq_inv_def)
  from reset_expired_ok [OF this ok(3)] obtain q3 where
    q3: "reset_expired now ?due (q2\<lparr>tq_calling := False\<rparr>) = Inr q3" "tq_inv [] q3" "tq_numCreated q3 = tq_numCreated q2"
      "\<forall>x. tq_heap q3 x = (if x \<in> snd ` set ?due
         then fate now ((x, seq_of (tq_heap q2) x) \<in> set (tq_canceling q2)) (the (tq_heap q2 x)) else tq_heap q2 x)"
    by auto
  have "\<exists>u. tq_heap q2 x = Some u \<and> tm_sequence u = tm_sequence t'" if "tq_heap q3 x = Some t'" for x t'
    using that q3(4) pending_live [OF q2(2)]
    by (cases "x \<in> snd ` set ?due") (fastforce simp: fate_def timer_restart_def split: if_splits)+
  then have "dead (tm_sequence t) q3" using d2 q3(3) by (fastforce simp: dead_def)
  moreover obtain a where "rearm q3 = Inr (q3\<lparr>tq_armed := a\<rparr>)" using rearm_ok [OF q3(2)] by blast
  then have "q' = q3\<lparr>tq_armed := a\<rparr>" using assms(3) by (simp add: timer_handleRead_def q1(1) q2(1) q3(1))
  ultimately show ?thesis by (simp add: dead_def)
qed

fun cancelling :: "timer_event \<Rightarrow> TimerQueue \<Rightarrow> addr \<Rightarrow> int \<Rightarrow> bool" where
  \<comment> \<open>a call from outside, or a callback of a timer that is due, cancels the timer\<close>
  "cancelling (Timer_Call a) q p n \<longleftrightarrow> a = Cancel_Timer p n"
| "cancelling (Timer_Ready acts now) q p n \<longleftrightarrow> (\<exists>m\<in>set (numbers q (due now q)). cancels (acts m) p n)"

lemma due_numbers_distinct: "tq_ok q \<Longrightarrow> distinct (numbers q (due now q))"
proof -
  assume q: "tq_ok q"
  note d = timers_okD [OF q [unfolded tq_ok_def tq_inv_def, THEN conjunct1]]
  have "distinct (map snd (due now q))" using d(2) by (simp add: due_def distinct_map_filter)
  moreover have "snd ` set (due now q) \<subseteq> dom (tq_heap q)" using d(3) by (auto simp: due_def)
  then have "inj_on (seq_of (tq_heap q)) (set (map snd (due now q)))" using inj_on_subset [OF d(7)] by simp
  ultimately have "distinct (map (seq_of (tq_heap q)) (map snd (due now q)))" by (subst distinct_map) simp
  then show ?thesis by (simp add: numbers_def comp_def)
qed

text \<open>
  C31. A timer that is cancelled never runs again, whatever happens later and even when a new timer is
  allocated at its address: cancelled between two events, it does not run any more; cancelled by a
  callback, it does not run after the batch of that callback, and in that batch it runs at most once, and only if it was due
  with it. A cancel counts from when the loop runs it, for a timer that the loop has taken up.
\<close>

theorem cancelled_timer_never_runs:
  assumes "timer_events_ok es TimerQueue_new" and "timer_run es TimerQueue_new = Inr q"
    and "tq_heap q p = Some t" and "timer_event_ok e q" and "cancelling e q p (tm_sequence t)"
    and "timer_step e q = Inr q1" and "timer_events_ok es' q1"
  shows "\<exists>q2 batch later. timer_run es' q1 = Inr q2 \<and> tq_ran q1 = tq_ran q @ batch \<and> tq_ran q2 = tq_ran q1 @ later
    \<and> tm_sequence t \<notin> set later \<and> distinct batch
    \<and> batch = (case e of Timer_Call a \<Rightarrow> [] | Timer_Ready acts now \<Rightarrow> numbers q (due now q))"
proof -
  let ?n = "tm_sequence t"
  have ok: "tq_ok q" using timer_run_ok [OF assms(1)] assms(2) by auto
  from timer_step_ok [OF ok assms(4)] assms(6) have q1: "tq_ok q1"
    "tq_ran q1 = tq_ran q @ (case e of Timer_Call a \<Rightarrow> [] | Timer_Ready acts now \<Rightarrow> numbers q (due now q))" by auto
  have "dead ?n q1"
  proof (cases e)
    case (Timer_Call a)
    then show ?thesis using cancel_kills [OF ok assms(3)] assms(5,6) by simp
  next
    case (Timer_Ready acts now)
    then show ?thesis using ready_cancel_kills [OF ok _ _ assms(3)] assms(4-6) by auto
  qed
  with dead_timer.run_inv [of q1 ?n "length (tq_ran q1)" es'] q1(1) assms(7) obtain q2 where
    q2: "timer_run es' q1 = Inr q2" "?n \<notin> set (drop (length (tq_ran q1)) (tq_ran q2))"
    by (auto simp: timer_run_system timer_events_ok_system)
  moreover obtain later where "tq_ran q2 = tq_ran q1 @ later"
    using timer_run_extends [OF q2(1) q1(1) assms(7)] by blast
  moreover have "distinct (case e of Timer_Call a \<Rightarrow> [] | Timer_Ready acts now \<Rightarrow> numbers q (due now q))"
    using due_numbers_distinct [OF ok] by (cases e) simp_all
  ultimately show ?thesis using q1(2) by auto
qed

definition demo_three :: "timer_event list" where
  "demo_three = [Timer_Call (Add_Timer 8 100 0), Timer_Call (Add_Timer 16 200 1), Timer_Call (Add_Timer 24 9000 0)]"

definition demo_three_queue :: TimerQueue where
  "demo_three_queue = (case timer_run demo_three TimerQueue_new of Inl _ \<Rightarrow> TimerQueue_new | Inr q \<Rightarrow> q)"

lemmas demo_timer_defs = TimerQueue_new_def addTimer_def addTimerInLoop_def timer_insert_def sizes_agree_def
  timer_at_def entry_less_def resetTimerfd_def UINTPTR_MAX_def timestamp_valid_def cancelInLoop_def timer_delete_def

text \<open>
  The first callback cancels the second timer, which is due with it and runs once more, and the third,
  which does not run any more although its address is used again.
\<close>

definition demo_acts :: "int \<Rightarrow> timer_call list" where
  "demo_acts n = (if n = 1 then [Cancel_Timer 16 2, Cancel_Timer 24 3] else [])"

lemma demo_three_run:
  "timer_events_ok demo_three TimerQueue_new" "timer_run demo_three TimerQueue_new = Inr demo_three_queue"
  "tq_heap demo_three_queue 24 = Some \<lparr>tm_expiration = 9000, tm_interval = 0, tm_sequence = 3\<rparr>"
  "numbers demo_three_queue (due 700 demo_three_queue) = [1, 2]" "tq_ran demo_three_queue = []"
  by (simp_all add: demo_three_queue_def demo_three_def demo_timer_defs numbers_def due_def seq_of_def)

lemma demo_three_ready:
  "timer_event_ok (Timer_Ready demo_acts 700) demo_three_queue"
  "\<exists>q1. timer_step (Timer_Ready demo_acts 700) demo_three_queue = Inr q1 \<and> tq_heap q1 24 = None"
  by (simp_all add: demo_three_queue_def demo_three_def demo_timer_defs ready_ok_def readTimerfd_def getExpired_def seq_of_def Let_def
      demo_acts_def timer_handleRead_def rearm_def tm_repeat_def timer_restart_def addTime_second)

theorem cancelled_timer_never_runs_witness:
  "\<exists>q1 q2 later. timer_step (Timer_Ready demo_acts 700) demo_three_queue = Inr q1
    \<and> timer_run [Timer_Call (Add_Timer 24 900 0), Timer_Ready (\<lambda>_. []) 9000] q1 = Inr q2
    \<and> tq_ran q2 = [1, 2] @ later \<and> 3 \<notin> set later"
proof -
  let ?es' = "[Timer_Call (Add_Timer 24 900 0), Timer_Ready (\<lambda>_. []) 9000]"
  obtain q1 where q1: "timer_step (Timer_Ready demo_acts 700) demo_three_queue = Inr q1" "tq_heap q1 24 = None"
    using demo_three_ready(2) by blast
  have none: "expired_ok (\<lambda>_. []) es q" for es q by (induction es arbitrary: q) (simp_all add: Let_def)
  have "timer_events_ok ?es' q1"
    using q1(2) none by (auto simp: ready_ok_def timestamp_valid_def UINTPTR_MAX_def split: sum.split)
  from cancelled_timer_never_runs [OF demo_three_run(1-3) demo_three_ready(1) _ q1(1) this] q1(1) show ?thesis
    by (auto simp: demo_three_run(4,5) demo_acts_def cancels_def)
qed

end
