(* ===== verification/Net_Loop.thy ===== *)
theory Net_Loop
  imports "HOL-Library.Sublist" Server_Prelude
begin

text \<open>
  \<^verbatim>\<open>EventLoop\<close> (net/EventLoop.h, net/EventLoop.cc) with the threads around it: a step relation in
  which the loop thread polls, handles the active channels and runs the pending functors one
  call at a time, while other threads queue functors and ask the loop to quit. A thread pushes
  a functor under the lock and writes to the event descriptor in a step of its own, so every
  interleaving of the two with the loop is a run. Functors and channels are numbers; what
  their callbacks call is an argument. The loop's own thread may queue functors and ask to quit outside
  \<^verbatim>\<open>loop\<close> too. The fields \<open>el_queued\<close> and \<open>el_ran\<close> record the order in which functors were queued and were
  run, and \<open>el_early\<close> the pending functors that the loop's own thread queued outside \<^verbatim>\<open>loop\<close>.
\<close>

section \<open>The loop\<close>

type_synonym functor_id = nat
type_synonym channel_id = nat

datatype loop_call = Queue_In_Loop functor_id | Quit_Loop

datatype loop_pc =
    Outside
  | Check_Quit
  | Polling
  | Handling "loop_call list" "channel_id list"
  | Swapping
  | Calling "loop_call list" "functor_id list"

record EventLoop =
  el_pc :: loop_pc
  el_looping :: bool
  el_quit :: bool
  el_eventHandling :: bool
  el_callingPendingFunctors :: bool
  el_iteration :: int
  el_pendingFunctors :: "functor_id list"
  el_wakeupFd :: nat
  el_posts :: nat
  el_queued :: "functor_id list"
  el_ran :: "functor_id list"
  el_early :: "functor_id list"

definition EventLoop_new :: EventLoop where
  "EventLoop_new =
     \<lparr>el_pc = Outside, el_looping = False, el_quit = False, el_eventHandling = False,
      el_callingPendingFunctors = False, el_iteration = 0, el_pendingFunctors = [], el_wakeupFd = 0,
      el_posts = 0, el_queued = [], el_ran = [], el_early = []\<rparr>"

definition wakeupChannel :: channel_id where "wakeupChannel = 0"

definition wakeup :: "EventLoop \<Rightarrow> EventLoop" where
  "wakeup s = s\<lparr>el_wakeupFd := el_wakeupFd s + 1\<rparr>"

definition loop_handleRead :: "EventLoop \<Rightarrow> EventLoop" where
  \<comment> \<open>reading an event descriptor takes its whole count\<close>
  "loop_handleRead s = s\<lparr>el_wakeupFd := 0\<rparr>"

definition push_functor :: "functor_id \<Rightarrow> EventLoop \<Rightarrow> EventLoop" where
  \<comment> \<open>under the lock\<close>
  "push_functor f s = s\<lparr>el_pendingFunctors := el_pendingFunctors s @ [f], el_queued := el_queued s @ [f]\<rparr>"

definition loop_queueInLoop :: "functor_id \<Rightarrow> EventLoop \<Rightarrow> EventLoop" where
  \<comment> \<open>in the loop thread\<close>
  "loop_queueInLoop f s =
     (let s' = push_functor f s in if el_callingPendingFunctors s' then wakeup s' else s')"

definition post_functor :: "functor_id \<Rightarrow> EventLoop \<Rightarrow> EventLoop" where
  \<comment> \<open>in another thread, up to the call of \<^verbatim>\<open>wakeup\<close>\<close>
  "post_functor f s = (push_functor f s)\<lparr>el_posts := el_posts s + 1\<rparr>"

definition loop_quit :: "EventLoop \<Rightarrow> EventLoop" where
  "loop_quit s = s\<lparr>el_quit := True\<rparr>"

definition post_quit :: "EventLoop \<Rightarrow> EventLoop" where
  "post_quit s = (loop_quit s)\<lparr>el_posts := el_posts s + 1\<rparr>"

definition post_wakeup :: "EventLoop \<Rightarrow> EventLoop" where
  "post_wakeup s = (wakeup s)\<lparr>el_posts := el_posts s - 1\<rparr>"

fun run_loop_call :: "loop_call \<Rightarrow> EventLoop \<Rightarrow> EventLoop" where
  "run_loop_call (Queue_In_Loop f) s = loop_queueInLoop f s"
| "run_loop_call Quit_Loop s = loop_quit s"

definition own_call :: "loop_call \<Rightarrow> EventLoop \<Rightarrow> EventLoop" where
  \<comment> \<open>by the loop's own thread outside \<^verbatim>\<open>loop\<close>\<close>
  "own_call a s =
     (let s' = run_loop_call a s
      in s'\<lparr>el_early := el_early s' @ (case a of Queue_In_Loop f \<Rightarrow> [f] | Quit_Loop \<Rightarrow> [])\<rparr>)"

text \<open>
  The steps of \<^verbatim>\<open>loop\<close> and of the threads around it. \<^verbatim>\<open>poll\<close> returns with any active channels,
  the event descriptor among them only if it was written to, or with none at its timeout.
\<close>

inductive loop_step :: "(channel_id \<Rightarrow> loop_call list) \<Rightarrow> (functor_id \<Rightarrow> loop_call list) \<Rightarrow> EventLoop \<Rightarrow> EventLoop \<Rightarrow> bool"
  for handler body where
  own: "el_pc s = Outside \<Longrightarrow> loop_step handler body s (own_call a s)"
| enter: "el_pc s = Outside \<Longrightarrow> \<not> el_looping s \<Longrightarrow>
    loop_step handler body s (s\<lparr>el_looping := True, el_quit := False, el_pc := Check_Quit\<rparr>)"
| leave: "el_pc s = Check_Quit \<Longrightarrow> el_quit s \<Longrightarrow>
    loop_step handler body s (s\<lparr>el_looping := False, el_pc := Outside\<rparr>)"
| again: "el_pc s = Check_Quit \<Longrightarrow> \<not> el_quit s \<Longrightarrow> loop_step handler body s (s\<lparr>el_pc := Polling\<rparr>)"
| polled: "el_pc s = Polling \<Longrightarrow> (wakeupChannel \<in> set active \<longrightarrow> 0 < el_wakeupFd s) \<Longrightarrow>
    loop_step handler body s
      (s\<lparr>el_iteration := el_iteration s + 1, el_eventHandling := True, el_pc := Handling [] active\<rparr>)"
| dispatch: "el_pc s = Handling [] (c # cs) \<Longrightarrow>
    loop_step handler body s
      (if c = wakeupChannel then (loop_handleRead s)\<lparr>el_pc := Handling [] cs\<rparr>
       else s\<lparr>el_pc := Handling (handler c) cs\<rparr>)"
| handler_call: "el_pc s = Handling (a # as) cs \<Longrightarrow>
    loop_step handler body s ((run_loop_call a s)\<lparr>el_pc := Handling as cs\<rparr>)"
| handled: "el_pc s = Handling [] [] \<Longrightarrow>
    loop_step handler body s
      (s\<lparr>el_eventHandling := False, el_callingPendingFunctors := True, el_pc := Swapping\<rparr>)"
| swapped: "el_pc s = Swapping \<Longrightarrow>
    loop_step handler body s (s\<lparr>el_pendingFunctors := [], el_early := [], el_pc := Calling [] (el_pendingFunctors s)\<rparr>)"
| call_functor: "el_pc s = Calling [] (f # fs) \<Longrightarrow>
    loop_step handler body s (s\<lparr>el_ran := el_ran s @ [f], el_pc := Calling (body f) fs\<rparr>)"
| functor_call: "el_pc s = Calling (a # as) fs \<Longrightarrow>
    loop_step handler body s ((run_loop_call a s)\<lparr>el_pc := Calling as fs\<rparr>)"
| called: "el_pc s = Calling [] [] \<Longrightarrow>
    loop_step handler body s (s\<lparr>el_callingPendingFunctors := False, el_pc := Check_Quit\<rparr>)"
| posted: "loop_step handler body s (post_functor f s)"
| quit_posted: "loop_step handler body s (post_quit s)"
| woken: "0 < el_posts s \<Longrightarrow> loop_step handler body s (post_wakeup s)"

section \<open>The invariant\<close>

definition signalled :: "EventLoop \<Rightarrow> bool" where
  \<comment> \<open>the event descriptor is readable or is about to be\<close>
  "signalled s \<longleftrightarrow> 0 < el_wakeupFd s \<or> 0 < el_posts s"

definition taken :: "loop_pc \<Rightarrow> functor_id list" where
  \<comment> \<open>the functors out of the queue that did not run yet\<close>
  "taken pc = (case pc of Calling _ fs \<Rightarrow> fs | _ \<Rightarrow> [])"

definition loop_inv :: "EventLoop \<Rightarrow> bool" where
  "loop_inv s \<longleftrightarrow>
     el_queued s = el_ran s @ taken (el_pc s) @ el_pendingFunctors s
     \<and> el_looping s = (el_pc s \<noteq> Outside)
     \<and> el_callingPendingFunctors s = (case el_pc s of Swapping \<Rightarrow> True | Calling _ _ \<Rightarrow> True | _ \<Rightarrow> False)
     \<and> el_eventHandling s = (case el_pc s of Handling _ _ \<Rightarrow> True | _ \<Rightarrow> False)
     \<and> (case el_pc s of
          Polling \<Rightarrow> el_pendingFunctors s \<noteq> el_early s \<or> el_quit s \<longrightarrow> signalled s
        | Check_Quit \<Rightarrow> el_pendingFunctors s \<noteq> el_early s \<longrightarrow> signalled s
        | Outside \<Rightarrow> el_pendingFunctors s \<noteq> el_early s \<longrightarrow> signalled s
        | Calling _ _ \<Rightarrow> el_early s = [] \<and> (el_pendingFunctors s \<noteq> [] \<longrightarrow> signalled s)
        | _ \<Rightarrow> True)"

lemmas loop_defs = wakeup_def loop_handleRead_def push_functor_def loop_queueInLoop_def post_functor_def loop_quit_def
  post_quit_def post_wakeup_def signalled_def taken_def

lemma loop_inv_new: "loop_inv EventLoop_new"
  by (simp add: loop_inv_def EventLoop_new_def taken_def)

lemma run_loop_call_inv:
  assumes "loop_inv s" and "el_pc s = Handling (a # as) cs \<and> pc = Handling as cs \<or> el_pc s = Calling (a # as) fs \<and> pc = Calling as fs"
  shows "loop_inv ((run_loop_call a s)\<lparr>el_pc := pc\<rparr>)"
  using assms by (cases a) (auto simp: loop_inv_def loop_defs Let_def)

lemma loop_step_inv: "loop_step handler body s s' \<Longrightarrow> loop_inv s \<Longrightarrow> loop_inv s'"
proof (induction rule: loop_step.induct)
  case (own s a)
  then show ?case by (cases a) (auto simp: loop_inv_def loop_defs own_call_def Let_def)
next
  case (handler_call s a as cs)
  then show ?case using run_loop_call_inv by blast
next
  case (functor_call s a as fs)
  then show ?case using run_loop_call_inv by blast
next
  case (posted s f)
  then show ?case by (auto simp: loop_inv_def loop_defs split: loop_pc.splits)
next
  case (quit_posted s)
  then show ?case by (auto simp: loop_inv_def loop_defs split: loop_pc.splits)
next
  case (woken s)
  then show ?case by (auto simp: loop_inv_def loop_defs split: loop_pc.splits)
qed (auto simp: loop_inv_def loop_defs)

lemma loop_reach_inv: "(loop_step handler body)\<^sup>*\<^sup>* s s' \<Longrightarrow> loop_inv s \<Longrightarrow> loop_inv s'"
  by (induction rule: rtranclp_induct) (auto intro: loop_step_inv)

definition done_by :: "functor_id list \<Rightarrow> int \<Rightarrow> EventLoop \<Rightarrow> bool" where
  \<comment> \<open>the functors \<open>q\<close>, queued when the loop polled for the \<open>n\<close>-th time, have run when it is
    through with that round\<close>
  "done_by q n s \<longleftrightarrow> loop_inv s \<and> prefix q (el_queued s) \<and>
     (el_iteration s = n \<and> el_pc s = Polling
      \<or> el_iteration s = n + 1 \<and> (case el_pc s of Handling _ _ \<Rightarrow> True | Swapping \<Rightarrow> True
           | Calling _ fs \<Rightarrow> prefix q (el_ran s @ fs) | _ \<Rightarrow> prefix q (el_ran s))
      \<or> el_iteration s > n + 1 \<and> prefix q (el_ran s))"

lemma run_loop_call_fields [simp]:
  "el_iteration (run_loop_call a s) = el_iteration s" "el_ran (run_loop_call a s) = el_ran s"
  by (cases a; simp add: loop_defs Let_def)+

lemma run_loop_call_pc: "el_pc (run_loop_call a s) = el_pc s"
  by (cases a) (simp_all add: loop_defs Let_def)

lemma run_loop_call_queued: "prefix q (el_queued s) \<Longrightarrow> prefix q (el_queued (run_loop_call a s))"
  by (cases a) (auto simp: loop_defs Let_def)

lemma done_by_step:
  assumes "loop_step handler body s s'" and "done_by q n s"
  shows "done_by q n s'"
proof -
  have "loop_inv s'" using loop_step_inv assms by (auto simp: done_by_def)
  with assms show ?thesis
  proof (induction rule: loop_step.induct)
    case (handler_call s a as cs)
    then show ?case using run_loop_call_queued [of q s a] by (auto simp: done_by_def)
  next
    case (functor_call s a as fs)
    then show ?case using run_loop_call_queued [of q s a] by (auto simp: done_by_def)
  next
    case (own s a)
    then show ?case using run_loop_call_queued [of q s a] by (auto simp: done_by_def own_call_def Let_def run_loop_call_pc)
  next
    case (swapped s)
    then show ?case by (auto simp: done_by_def loop_inv_def taken_def)
  qed (auto simp: done_by_def loop_defs prefix_def split: loop_pc.splits)
qed

lemma done_by_run: "(loop_step handler body)\<^sup>*\<^sup>* s s' \<Longrightarrow> done_by q n s \<Longrightarrow> done_by q n s'"
  by (induction rule: rtranclp_induct) (auto intro: done_by_step)

text \<open>
  C25. In every run in which other threads queue functors and ask to quit at any moment, and the loop's own
  thread queues functors in callbacks or outside \<^verbatim>\<open>loop\<close>, no wake-up is lost: a loop that is about to wait in
  \<^verbatim>\<open>poll\<close> while it was asked to quit, or while a functor is pending that is not one of those its own
  thread queued outside \<^verbatim>\<open>loop\<close>, finds the event descriptor readable, or a thread is on its way to make it
  readable. For those no wake-up is sent: they wait for the next event or for the timeout of
  \<^verbatim>\<open>poll\<close>.
\<close>

theorem no_lost_wakeup:
  assumes "(loop_step handler body)\<^sup>*\<^sup>* EventLoop_new s" and "el_pc s = Polling"
    and "el_pendingFunctors s \<noteq> el_early s \<or> el_quit s"
  shows "0 < el_wakeupFd s \<or> 0 < el_posts s"
  using loop_reach_inv [OF assms(1) loop_inv_new] assms(2,3) by (auto simp: loop_inv_def signalled_def)

text \<open>The exception: a functor that the thread of the loop queues before it enters the loop.\<close>

lemma early_functor_waits:
  "\<exists>s. (loop_step handler body)\<^sup>*\<^sup>* EventLoop_new s \<and> el_pc s = Polling \<and> el_pendingFunctors s = [7]
    \<and> el_wakeupFd s = 0 \<and> el_posts s = 0"
proof -
  let ?s0 = "own_call (Queue_In_Loop 7) EventLoop_new"
  let ?s1 = "?s0\<lparr>el_looping := True, el_quit := False, el_pc := Check_Quit\<rparr>"
  have "loop_step handler body EventLoop_new ?s0" by (rule own) (simp add: EventLoop_new_def)
  moreover have "loop_step handler body ?s0 ?s1" by (rule enter) (simp_all add: own_call_def loop_defs Let_def EventLoop_new_def)
  moreover have "loop_step handler body ?s1 (?s1\<lparr>el_pc := Polling\<rparr>)" by (rule again) simp_all
  ultimately have "(loop_step handler body)\<^sup>*\<^sup>* EventLoop_new (?s1\<lparr>el_pc := Polling\<rparr>)"
    by (meson r_into_rtranclp rtranclp_trans)
  then show ?thesis
    by (intro exI [of _ "?s1\<lparr>el_pc := Polling\<rparr>"]) (simp add: own_call_def loop_defs Let_def EventLoop_new_def)
qed

definition demo_loop :: EventLoop where
  "demo_loop = post_functor 7 (EventLoop_new\<lparr>el_looping := True, el_pc := Polling\<rparr>)"

lemma demo_loop_run: "(loop_step handler body)\<^sup>*\<^sup>* EventLoop_new demo_loop"
proof -
  let ?s1 = "EventLoop_new\<lparr>el_looping := True, el_quit := False, el_pc := Check_Quit\<rparr>"
  have "loop_step handler body EventLoop_new ?s1" by (rule enter) (simp_all add: EventLoop_new_def)
  moreover have "loop_step handler body ?s1 (?s1\<lparr>el_pc := Polling\<rparr>)" by (rule again) simp_all
  moreover have "?s1\<lparr>el_pc := Polling\<rparr> = EventLoop_new\<lparr>el_looping := True, el_pc := Polling\<rparr>"
    by (simp add: EventLoop_new_def)
  moreover have "loop_step handler body (EventLoop_new\<lparr>el_looping := True, el_pc := Polling\<rparr>) demo_loop"
    unfolding demo_loop_def by (rule posted)
  ultimately show ?thesis by (metis (no_types, lifting) r_into_rtranclp rtranclp_trans)
qed

theorem no_lost_wakeup_witness:
  "el_pc demo_loop = Polling \<and> el_pendingFunctors demo_loop = [7] \<and> (0 < el_wakeupFd demo_loop \<or> 0 < el_posts demo_loop)"
proof -
  have "el_pc demo_loop = Polling" "el_pendingFunctors demo_loop = [7]" "el_early demo_loop = []"
    by (simp_all add: demo_loop_def post_functor_def push_functor_def EventLoop_new_def)
  with no_lost_wakeup [OF demo_loop_run [of "\<lambda>_. []" "\<lambda>_. []"]] show ?thesis by simp
qed

text \<open>
  C26. Every functor runs once and in the order of queueing, whichever thread queued it: what ran,
  what the loop took out of the queue and what is still in it make up what was queued. A
  functor queued before the loop polls has run when the round after that poll is over.
\<close>

theorem functors_run_in_order:
  assumes "(loop_step handler body)\<^sup>*\<^sup>* EventLoop_new s" and "(loop_step handler body)\<^sup>*\<^sup>* s s'"
  shows "\<exists>rest. el_queued s' = el_ran s' @ rest \<and>
    (el_pc s = Polling \<longrightarrow> el_iteration s' > el_iteration s \<longrightarrow> el_pc s' \<in> {Outside, Check_Quit, Polling} \<longrightarrow>
      prefix (el_queued s) (el_ran s'))"
proof -
  have inv: "loop_inv s" by (rule loop_reach_inv [OF assms(1) loop_inv_new])
  then have "loop_inv s'" by (rule loop_reach_inv [OF assms(2)])
  then have "el_queued s' = el_ran s' @ taken (el_pc s') @ el_pendingFunctors s'" by (simp add: loop_inv_def)
  moreover have "prefix (el_queued s) (el_ran s')"
    if "el_pc s = Polling" "el_iteration s' > el_iteration s" "el_pc s' \<in> {Outside, Check_Quit, Polling}"
  proof -
    have "done_by (el_queued s) (el_iteration s) s" using inv that(1) by (simp add: done_by_def)
    from done_by_run [OF assms(2) this] that(2,3) show ?thesis by (auto simp: done_by_def)
  qed
  ultimately show ?thesis by blast
qed

definition demo_loop_after :: EventLoop where
  "demo_loop_after = demo_loop\<lparr>el_iteration := 1, el_pendingFunctors := [], el_ran := [7], el_pc := Check_Quit\<rparr>"

lemma demo_loop_round: "(loop_step handler (\<lambda>_. []))\<^sup>*\<^sup>* demo_loop demo_loop_after"
proof -
  let ?step = "loop_step handler (\<lambda>_. [])"
  let ?s1 = "demo_loop\<lparr>el_iteration := 1, el_eventHandling := True, el_pc := Handling [] []\<rparr>"
  let ?s2 = "?s1\<lparr>el_eventHandling := False, el_callingPendingFunctors := True, el_pc := Swapping\<rparr>"
  let ?s3 = "?s2\<lparr>el_pendingFunctors := [], el_early := [], el_pc := Calling [] [7]\<rparr>"
  let ?s4 = "?s3\<lparr>el_ran := [7], el_pc := Calling [] []\<rparr>"
  have "?step demo_loop ?s1"
    using polled [of demo_loop "[]" handler "\<lambda>_. []"] by (simp add: demo_loop_def loop_defs EventLoop_new_def)
  moreover have "?step ?s1 ?s2" by (rule handled) simp
  moreover have "?step ?s2 ?s3"
    using swapped [of ?s2 handler "\<lambda>_. []"] by (simp add: demo_loop_def loop_defs EventLoop_new_def)
  moreover have "?step ?s3 ?s4"
    using call_functor [of ?s3 7 "[]" handler "\<lambda>_. []"] by (simp add: demo_loop_def loop_defs EventLoop_new_def)
  moreover have "?step ?s4 demo_loop_after"
    using called [of ?s4 handler "\<lambda>_. []"] by (simp add: demo_loop_after_def demo_loop_def loop_defs EventLoop_new_def)
  ultimately show ?thesis by (meson rtranclp.rtrancl_refl rtranclp.rtrancl_into_rtrancl)
qed

theorem functors_run_in_order_witness: "prefix (el_queued demo_loop) (el_ran demo_loop_after) \<and> el_queued demo_loop = [7]"
proof -
  have "el_pc demo_loop = Polling" "el_iteration demo_loop_after > el_iteration demo_loop" "el_pc demo_loop_after = Check_Quit"
    by (simp_all add: demo_loop_after_def demo_loop_def loop_defs EventLoop_new_def)
  moreover have "el_queued demo_loop = [7]" by (simp add: demo_loop_def loop_defs EventLoop_new_def)
  ultimately show ?thesis
    using functors_run_in_order [OF demo_loop_run [of "\<lambda>_. []" "\<lambda>_. []"] demo_loop_round [of "\<lambda>_. []"]] by auto
qed

text \<open>A request to quit that comes before \<^verbatim>\<open>loop\<close> is forgotten: entering the loop clears it.\<close>

lemma quit_before_loop_forgotten:
  "\<exists>s. (loop_step handler body)\<^sup>*\<^sup>* (post_quit EventLoop_new) s \<and> el_pc s = Polling \<and> \<not> el_quit s"
proof -
  let ?s0 = "post_quit EventLoop_new"
  let ?s1 = "?s0\<lparr>el_looping := True, el_quit := False, el_pc := Check_Quit\<rparr>"
  have "loop_step handler body ?s0 ?s1" by (rule enter) (simp_all add: post_quit_def loop_quit_def EventLoop_new_def)
  moreover have "loop_step handler body ?s1 (?s1\<lparr>el_pc := Polling\<rparr>)" by (rule again) simp_all
  ultimately have "(loop_step handler body)\<^sup>*\<^sup>* ?s0 (?s1\<lparr>el_pc := Polling\<rparr>)" by simp
  then show ?thesis by (intro exI [of _ "?s1\<lparr>el_pc := Polling\<rparr>"]) simp
qed

section \<open>The pool of loops\<close>

record EventLoopThreadPool =
  tp_baseLoop :: nat
  tp_started :: bool
  tp_numThreads :: nat
  tp_next :: nat
  tp_loops :: "nat list"

definition EventLoopThreadPool_new :: "nat \<Rightarrow> EventLoopThreadPool" where
  "EventLoopThreadPool_new base = \<lparr>tp_baseLoop = base, tp_started = False, tp_numThreads = 0, tp_next = 0, tp_loops = []\<rparr>"

definition setThreadNum :: "nat \<Rightarrow> EventLoopThreadPool \<Rightarrow> EventLoopThreadPool" where
  "setThreadNum n pool = pool\<lparr>tp_numThreads := n\<rparr>"

definition pool_start :: "(nat \<Rightarrow> nat) \<Rightarrow> EventLoopThreadPool \<Rightarrow> EventLoopThreadPool res" where
  \<comment> \<open>the first argument gives the loop the \<open>i\<close>-th thread starts\<close>
  "pool_start startLoop pool =
     (if tp_started pool then Inl Assert_Failed
      else Inr (pool\<lparr>tp_started := True, tp_loops := tp_loops pool @ map startLoop [0 ..< tp_numThreads pool]\<rparr>))"

definition getNextLoop :: "EventLoopThreadPool \<Rightarrow> (nat \<times> EventLoopThreadPool) res" where
  "getNextLoop pool =
     (if \<not> tp_started pool then Inl Assert_Failed
      else if tp_loops pool \<noteq> [] then
        if tp_next pool \<ge> length (tp_loops pool) then Inl Out_Of_Range
        else let n = tp_next pool + 1
             in Inr (tp_loops pool ! tp_next pool, pool\<lparr>tp_next := (if n \<ge> length (tp_loops pool) then 0 else n)\<rparr>)
      else Inr (tp_baseLoop pool, pool))"

definition getLoopForHash :: "nat \<Rightarrow> EventLoopThreadPool \<Rightarrow> nat" where
  "getLoopForHash hashCode pool =
     (if tp_loops pool \<noteq> [] then tp_loops pool ! (hashCode mod length (tp_loops pool)) else tp_baseLoop pool)"

definition getAllLoops :: "EventLoopThreadPool \<Rightarrow> nat list res" where
  "getAllLoops pool =
     (if \<not> tp_started pool then Inl Assert_Failed
      else if tp_loops pool = [] then Inr [tp_baseLoop pool] else Inr (tp_loops pool))"

fun next_loops :: "nat \<Rightarrow> EventLoopThreadPool \<Rightarrow> (nat list \<times> EventLoopThreadPool) res" where
  \<comment> \<open>the loops of so many connections in a row\<close>
  "next_loops 0 pool = Inr ([], pool)"
| "next_loops (Suc k) pool =
     rbind (getNextLoop pool) (\<lambda>(l, pool1). rbind (next_loops k pool1) (\<lambda>(ls, pool2). Inr (l # ls, pool2)))"

lemma getNextLoop_turn:
  assumes "tp_started pool" and "tp_loops pool \<noteq> []" and "tp_next pool < length (tp_loops pool)"
  shows "getNextLoop pool = Inr (tp_loops pool ! tp_next pool,
     pool\<lparr>tp_next := Suc (tp_next pool) mod length (tp_loops pool)\<rparr>)"
proof (cases "Suc (tp_next pool) = length (tp_loops pool)")
  case True
  with assms show ?thesis by (simp add: getNextLoop_def Let_def)
next
  case False
  with assms(3) have "Suc (tp_next pool) < length (tp_loops pool)" by simp
  with assms show ?thesis by (simp add: getNextLoop_def Let_def)
qed

lemma next_loops_turn:
  "tp_started pool \<Longrightarrow> tp_loops pool \<noteq> [] \<Longrightarrow> tp_next pool < length (tp_loops pool) \<Longrightarrow>
   \<exists>pool'. next_loops k pool
     = Inr (map (\<lambda>i. tp_loops pool ! ((tp_next pool + i) mod length (tp_loops pool))) [0 ..< k], pool')"
proof (induction k arbitrary: pool)
  case (Suc k)
  let ?len = "length (tp_loops pool)" and ?pool1 = "pool\<lparr>tp_next := Suc (tp_next pool) mod length (tp_loops pool)\<rparr>"
  have len: "0 < ?len" using Suc.prems(2) by simp
  from Suc.IH [of ?pool1] Suc.prems(1,2) len obtain pool' where
    "next_loops k ?pool1 = Inr (map (\<lambda>i. tp_loops pool ! ((Suc (tp_next pool) mod ?len + i) mod ?len)) [0 ..< k], pool')" by auto
  moreover have "(Suc (tp_next pool) mod ?len + i) mod ?len = (tp_next pool + Suc i) mod ?len" for i
    by (simp add: mod_add_left_eq)
  moreover have "map (\<lambda>i. tp_loops pool ! ((tp_next pool + i) mod ?len)) [0 ..< Suc k]
      = tp_loops pool ! tp_next pool # map (\<lambda>i. tp_loops pool ! ((tp_next pool + Suc i) mod ?len)) [0 ..< k]"
    using Suc.prems(3) by (simp add: upt_conv_Cons map_Suc_upt [symmetric] del: upt_Suc)
  ultimately show ?case by (simp add: getNextLoop_turn [OF Suc.prems])
qed simp

text \<open>
  A started pool hands out its loops in turn: the \<open>i\<close>-th connection gets the loop of thread
  \<open>i\<close> modulo the number of threads, and without threads every connection gets the base loop.
\<close>

theorem pool_round_robin:
  assumes "pool_start startLoop (setThreadNum n (EventLoopThreadPool_new base)) = Inr pool"
  shows "\<exists>pool'. next_loops k pool = Inr (map (\<lambda>i. if n = 0 then base else startLoop (i mod n)) [0 ..< k], pool')"
proof -
  have pool: "tp_started pool" "tp_next pool = 0" "tp_loops pool = map startLoop [0 ..< n]" "tp_baseLoop pool = base"
    using assms by (auto simp: pool_start_def setThreadNum_def EventLoopThreadPool_new_def)
  show ?thesis
  proof (cases "n = 0")
    case True
    with pool have "getNextLoop pool = Inr (base, pool)" by (simp add: getNextLoop_def)
    then have "next_loops k pool = Inr (replicate k base, pool)" by (induction k) simp_all
    with True show ?thesis by (simp add: map_replicate_const)
  next
    case False
    then show ?thesis using next_loops_turn [of pool k] pool by simp
  qed
qed

theorem pool_round_robin_witness:
  "\<exists>pool pool'. pool_start (\<lambda>i. 10 + i) (setThreadNum 2 (EventLoopThreadPool_new 1)) = Inr pool
    \<and> next_loops 3 pool = Inr ([10, 11, 10], pool')"
proof -
  obtain pool where pool: "pool_start (\<lambda>i. 10 + i) (setThreadNum 2 (EventLoopThreadPool_new 1)) = Inr pool"
    by (simp add: pool_start_def setThreadNum_def EventLoopThreadPool_new_def)
  from pool_round_robin [OF this, of 3] pool show ?thesis by (auto simp: upt_rec numeral_3_eq_3)
qed

end
