(* ===== verification/Net_Poller.thy ===== *)
theory Net_Poller
  imports Net_Connection
begin

text \<open>
  The pollers (net/Poller.cc, net/poller/EPollPoller.cc, net/poller/PollPoller.cc). Channels
  are objects with an address; here they carry the descriptor, the events they ask for, the
  events received and the index the poller keeps in them. The epoll instance is the list of
  \<^verbatim>\<open>epoll_ctl\<close> calls it was given; \<open>interest\<close> says what it watches after them and that no
  call was refused, as the manual of \<^verbatim>\<open>epoll_ctl\<close> has it. What \<^verbatim>\<open>epoll_wait\<close> and \<^verbatim>\<open>poll\<close> report is
  an argument. Logging is left out.
\<close>

section \<open>Channels of a poller\<close>

type_synonym chan = nat
  \<comment> \<open>the address of a channel\<close>

record PollChannel =
  pc_fd :: int
  pc_events :: "32 word"
  pc_revents :: "32 word"
  pc_index :: int

definition kNew :: int where "kNew = -1"
definition kAdded :: int where "kAdded = 1"
definition kDeleted :: int where "kDeleted = 2"

lemmas index_defs [simp] = kNew_def kAdded_def kDeleted_def

definition hasChannel :: "(int \<Rightarrow> chan option) \<Rightarrow> (chan \<Rightarrow> PollChannel) \<Rightarrow> chan \<Rightarrow> bool" where
  "hasChannel channels heap c \<longleftrightarrow> channels (pc_fd (heap c)) = Some c"

section \<open>The poller over epoll\<close>

datatype epoll_op = EPOLL_CTL_ADD | EPOLL_CTL_MOD | EPOLL_CTL_DEL

type_synonym ctl_call = "epoll_op \<times> int \<times> 32 word \<times> chan"

fun operationToString :: "epoll_op \<Rightarrow> string" where
  "operationToString EPOLL_CTL_ADD = ''ADD''"
| "operationToString EPOLL_CTL_DEL = ''DEL''"
| "operationToString EPOLL_CTL_MOD = ''MOD''"

record EPollPoller =
  ep_heap :: "chan \<Rightarrow> PollChannel"
  ep_channels :: "int \<Rightarrow> chan option"
  ep_ctl :: "ctl_call list"
  ep_size :: nat

definition kInitEventListSize :: nat where "kInitEventListSize = 16"

definition EPollPoller_new :: "(chan \<Rightarrow> PollChannel) \<Rightarrow> EPollPoller" where
  "EPollPoller_new heap = \<lparr>ep_heap = heap, ep_channels = Map.empty, ep_ctl = [], ep_size = kInitEventListSize\<rparr>"

definition ep_update :: "epoll_op \<Rightarrow> chan \<Rightarrow> EPollPoller \<Rightarrow> EPollPoller" where
  "ep_update operation c q =
     q\<lparr>ep_ctl := ep_ctl q @ [(operation, pc_fd (ep_heap q c), pc_events (ep_heap q c), c)]\<rparr>"

definition ep_set_index :: "chan \<Rightarrow> int \<Rightarrow> EPollPoller \<Rightarrow> EPollPoller" where
  "ep_set_index c i q = q\<lparr>ep_heap := (ep_heap q)(c := (ep_heap q c)\<lparr>pc_index := i\<rparr>)\<rparr>"

definition ep_updateChannel :: "chan \<Rightarrow> EPollPoller \<Rightarrow> EPollPoller res" where
  "ep_updateChannel c q =
     (let index = pc_index (ep_heap q c); fd = pc_fd (ep_heap q c)
      in if index = kNew \<or> index = kDeleted then
           rbind (if index = kNew then
                    if ep_channels q fd \<noteq> None then Inl Assert_Failed
                    else Inr (q\<lparr>ep_channels := (ep_channels q)(fd \<mapsto> c)\<rparr>)
                  else if ep_channels q fd \<noteq> Some c then Inl Assert_Failed
                  else Inr q) (\<lambda>q1.
             Inr (ep_update EPOLL_CTL_ADD c (ep_set_index c kAdded q1)))
         else if ep_channels q fd \<noteq> Some c then Inl Assert_Failed
         else if index \<noteq> kAdded then Inl Assert_Failed
         else if pc_events (ep_heap q c) = kNoneEvent then
           Inr (ep_set_index c kDeleted (ep_update EPOLL_CTL_DEL c q))
         else Inr (ep_update EPOLL_CTL_MOD c q))"

definition ep_removeChannel :: "chan \<Rightarrow> EPollPoller \<Rightarrow> EPollPoller res" where
  "ep_removeChannel c q =
     (let index = pc_index (ep_heap q c); fd = pc_fd (ep_heap q c)
      in if ep_channels q fd \<noteq> Some c then Inl Assert_Failed
         else if pc_events (ep_heap q c) \<noteq> kNoneEvent then Inl Assert_Failed
         else if \<not> (index = kAdded \<or> index = kDeleted) then Inl Assert_Failed
         else let q1 = q\<lparr>ep_channels := (ep_channels q)(fd := None)\<rparr>;
                  q2 = (if index = kAdded then ep_update EPOLL_CTL_DEL c q1 else q1)
              in Inr (ep_set_index c kNew q2))"

fun ep_fillActiveChannels :: "(chan \<times> 32 word) list \<Rightarrow> EPollPoller \<Rightarrow> (chan list \<times> EPollPoller) res" where
  \<comment> \<open>over the reported events\<close>
  "ep_fillActiveChannels [] q = Inr ([], q)"
| "ep_fillActiveChannels ((c, revents) # evs) q =
     (if ep_channels q (pc_fd (ep_heap q c)) \<noteq> Some c then Inl Assert_Failed
      else rbind (ep_fillActiveChannels evs (q\<lparr>ep_heap := (ep_heap q)(c := (ep_heap q c)\<lparr>pc_revents := revents\<rparr>)\<rparr>))
             (\<lambda>(active, q'). Inr (c # active, q')))"

definition ep_poll :: "(chan \<times> 32 word) list option \<Rightarrow> EPollPoller \<Rightarrow> (chan list \<times> EPollPoller) res" where
  \<comment> \<open>the events \<^verbatim>\<open>epoll_wait\<close> reports, or its failure\<close>
  "ep_poll waited q =
     (case waited of
        Some (e # evs) \<Rightarrow>
          if length (e # evs) > ep_size q then Inl Assert_Failed
          else rbind (ep_fillActiveChannels (e # evs) q) (\<lambda>(active, q').
            Inr (active, if length (e # evs) = ep_size q' then q'\<lparr>ep_size := ep_size q' * 2\<rparr> else q'))
      | _ \<Rightarrow> Inr ([], q))"

section \<open>The poller over poll\<close>

record pollfd =
  pfd_fd :: int
  pfd_events :: "16 word"
  pfd_revents :: "16 word"

record PollPoller =
  pp_heap :: "chan \<Rightarrow> PollChannel"
  pp_channels :: "int \<Rightarrow> chan option"
  pp_pollfds :: "pollfd list"

definition PollPoller_new :: "(chan \<Rightarrow> PollChannel) \<Rightarrow> PollPoller" where
  "PollPoller_new heap = \<lparr>pp_heap = heap, pp_channels = Map.empty, pp_pollfds = []\<rparr>"

definition pp_set_index :: "chan \<Rightarrow> int \<Rightarrow> PollPoller \<Rightarrow> PollPoller" where
  "pp_set_index c i q = q\<lparr>pp_heap := (pp_heap q)(c := (pp_heap q c)\<lparr>pc_index := i\<rparr>)\<rparr>"

definition pp_updateChannel :: "chan \<Rightarrow> PollPoller \<Rightarrow> PollPoller res" where
  "pp_updateChannel c q =
     (let ch = pp_heap q c; fd = pc_fd ch; idx = pc_index ch
      in if idx < 0 then
           if pp_channels q fd \<noteq> None then Inl Assert_Failed
           else let fds = pp_pollfds q @ [\<lparr>pfd_fd = fd, pfd_events = ucast (pc_events ch), pfd_revents = 0\<rparr>];
                    q1 = q\<lparr>pp_pollfds := fds\<rparr>;
                    q2 = pp_set_index c (int (length fds) - 1) q1
                in Inr (q2\<lparr>pp_channels := (pp_channels q2)(fd \<mapsto> c)\<rparr>)
         else if pp_channels q fd \<noteq> Some c then Inl Assert_Failed
         else if \<not> idx < int (length (pp_pollfds q)) then Inl Assert_Failed
         else let pfd = pp_pollfds q ! nat idx
              in if \<not> (pfd_fd pfd = fd \<or> pfd_fd pfd = - fd - 1) then Inl Assert_Failed
                 else Inr (q\<lparr>pp_pollfds := (pp_pollfds q)[nat idx :=
                    \<lparr>pfd_fd = (if pc_events ch = kNoneEvent then - fd - 1 else fd),
                     pfd_events = ucast (pc_events ch), pfd_revents = 0\<rparr>]\<rparr>))"

definition pp_removeChannel :: "chan \<Rightarrow> PollPoller \<Rightarrow> PollPoller res" where
  "pp_removeChannel c q =
     (let ch = pp_heap q c; fd = pc_fd ch; idx = pc_index ch; fds = pp_pollfds q
      in if pp_channels q fd \<noteq> Some c then Inl Assert_Failed
         else if pc_events ch \<noteq> kNoneEvent then Inl Assert_Failed
         else if \<not> (0 \<le> idx \<and> idx < int (length fds)) then Inl Assert_Failed
         else let pfd = fds ! nat idx
              in if \<not> (pfd_fd pfd = - fd - 1 \<and> scast (pfd_events pfd) = pc_events ch) then Inl Assert_Failed
                 else let q1 = q\<lparr>pp_channels := (pp_channels q)(fd := None)\<rparr>
                      in if nat idx = length fds - 1 then Inr (q1\<lparr>pp_pollfds := butlast fds\<rparr>)
                         else let atEnd = pfd_fd (last fds);
                                  channelAtEnd = (if atEnd < 0 then - atEnd - 1 else atEnd);
                                  q2 = q1\<lparr>pp_pollfds := butlast (fds[nat idx := last fds])\<rparr>
                              in case pp_channels q1 channelAtEnd of
                                   None \<Rightarrow> Inl Null_Deref
                                 | Some e \<Rightarrow> Inr (pp_set_index e idx q2))"

fun pp_fillActiveChannels :: "nat \<Rightarrow> pollfd list \<Rightarrow> PollPoller \<Rightarrow> (chan list \<times> PollPoller) res" where
  "pp_fillActiveChannels numEvents [] q = Inr ([], q)"
| "pp_fillActiveChannels numEvents (pfd # pfds) q =
     (if numEvents = 0 then Inr ([], q)
      else if sint (pfd_revents pfd) > 0 then
        case pp_channels q (pfd_fd pfd) of
          None \<Rightarrow> Inl Assert_Failed
        | Some c \<Rightarrow>
            if pc_fd (pp_heap q c) \<noteq> pfd_fd pfd then Inl Assert_Failed
            else rbind (pp_fillActiveChannels (numEvents - 1) pfds
                   (q\<lparr>pp_heap := (pp_heap q)(c := (pp_heap q c)\<lparr>pc_revents := scast (pfd_revents pfd)\<rparr>)\<rparr>))
                 (\<lambda>(active, q'). Inr (c # active, q'))
      else pp_fillActiveChannels numEvents pfds q)"

definition pp_poll :: "(pollfd list \<times> nat) option \<Rightarrow> PollPoller \<Rightarrow> (chan list \<times> PollPoller) res" where
  \<comment> \<open>the array as \<^verbatim>\<open>poll\<close> leaves it and the number it returns, or its failure\<close>
  "pp_poll polled q =
     (case polled of
        None \<Rightarrow> Inr ([], q)
      | Some (fds, n) \<Rightarrow>
          if n > 0 then pp_fillActiveChannels n fds (q\<lparr>pp_pollfds := fds\<rparr>)
          else Inr ([], q\<lparr>pp_pollfds := fds\<rparr>))"

section \<open>What a poller promises\<close>

datatype poller_op = Set_Events chan "32 word" | Remove_Channel chan
  \<comment> \<open>a channel changes its events and calls \<^verbatim>\<open>update\<close>, or is removed\<close>

definition ep_set_events :: "chan \<Rightarrow> 32 word \<Rightarrow> EPollPoller \<Rightarrow> EPollPoller" where
  "ep_set_events c ev q = q\<lparr>ep_heap := (ep_heap q)(c := (ep_heap q c)\<lparr>pc_events := ev\<rparr>)\<rparr>"

definition pp_set_events :: "chan \<Rightarrow> 32 word \<Rightarrow> PollPoller \<Rightarrow> PollPoller" where
  "pp_set_events c ev q = q\<lparr>pp_heap := (pp_heap q)(c := (pp_heap q c)\<lparr>pc_events := ev\<rparr>)\<rparr>"

fun ep_op :: "poller_op \<Rightarrow> EPollPoller \<Rightarrow> EPollPoller res" where
  "ep_op (Set_Events c ev) q = ep_updateChannel c (ep_set_events c ev q)"
| "ep_op (Remove_Channel c) q = ep_removeChannel c q"

fun pp_op :: "poller_op \<Rightarrow> PollPoller \<Rightarrow> PollPoller res" where
  "pp_op (Set_Events c ev) q = pp_updateChannel c (pp_set_events c ev q)"
| "pp_op (Remove_Channel c) q = pp_removeChannel c q"

record watch_spec =
  ws_reg :: "chan \<Rightarrow> 32 word option"
  ws_used :: "chan list"

definition watch_new :: watch_spec where
  "watch_new = \<lparr>ws_reg = Map.empty, ws_used = []\<rparr>"

fun watch_op :: "poller_op \<Rightarrow> watch_spec \<Rightarrow> watch_spec" where
  "watch_op (Set_Events c ev) s = s\<lparr>ws_reg := (ws_reg s)(c \<mapsto> ev), ws_used := c # ws_used s\<rparr>"
| "watch_op (Remove_Channel c) s = s\<lparr>ws_reg := (ws_reg s)(c := None)\<rparr>"

fun watch_ok :: "(chan \<Rightarrow> int) \<Rightarrow> poller_op \<Rightarrow> watch_spec \<Rightarrow> bool" where
  \<comment> \<open>a channel enters once, with events to watch and a descriptor of its own, and leaves when
    it asks for nothing\<close>
  "watch_ok fd (Set_Events c ev) s \<longleftrightarrow> ws_reg s c \<noteq> None
     \<or> c \<notin> set (ws_used s) \<and> ev \<noteq> kNoneEvent \<and> 0 \<le> fd c \<and> (\<forall>d\<in>set (ws_used s). ws_reg s d \<noteq> None \<longrightarrow> fd d \<noteq> fd c)"
| "watch_ok fd (Remove_Channel c) s \<longleftrightarrow> ws_reg s c = Some kNoneEvent"

definition watch_inv :: "(chan \<Rightarrow> int) \<Rightarrow> watch_spec \<Rightarrow> bool" where
  "watch_inv fd s \<longleftrightarrow> dom (ws_reg s) \<subseteq> set (ws_used s) \<and> inj_on fd (dom (ws_reg s)) \<and> (\<forall>c\<in>dom (ws_reg s). 0 \<le> fd c)"

lemma watch_inv_step: "watch_inv fd s \<Longrightarrow> watch_ok fd x s \<Longrightarrow> watch_inv fd (watch_op x s)"
  by (cases x) (fastforce simp: watch_inv_def inj_on_def dom_def)+

subsection \<open>The poller over epoll keeps it\<close>

fun ctl_apply :: "ctl_call \<Rightarrow> (int \<Rightarrow> (32 word \<times> chan) option) \<Rightarrow> (int \<Rightarrow> (32 word \<times> chan) option) option" where
  \<comment> \<open>an epoll instance refuses to add what it has and to change or delete what it does not have\<close>
  "ctl_apply (EPOLL_CTL_ADD, fd, ev, c) m = (if m fd = None then Some (m(fd \<mapsto> (ev, c))) else None)"
| "ctl_apply (EPOLL_CTL_MOD, fd, ev, c) m = (if m fd = None then None else Some (m(fd \<mapsto> (ev, c))))"
| "ctl_apply (EPOLL_CTL_DEL, fd, ev, c) m = (if m fd = None then None else Some (m(fd := None)))"

fun interest_after :: "(int \<Rightarrow> (32 word \<times> chan) option) \<Rightarrow> ctl_call list \<Rightarrow> (int \<Rightarrow> (32 word \<times> chan) option) option" where
  "interest_after m [] = Some m"
| "interest_after m (x # xs) = (case ctl_apply x m of None \<Rightarrow> None | Some m' \<Rightarrow> interest_after m' xs)"

definition interest :: "EPollPoller \<Rightarrow> (int \<Rightarrow> (32 word \<times> chan) option) option" where
  "interest q = interest_after Map.empty (ep_ctl q)"

lemma interest_after_append:
  "interest_after m (xs @ ys) = (case interest_after m xs of None \<Rightarrow> None | Some m' \<Rightarrow> interest_after m' ys)"
  by (induction xs arbitrary: m) (simp_all split: option.split)

definition ep_watching :: "EPollPoller \<Rightarrow> int \<Rightarrow> (32 word \<times> chan) option" where
  "ep_watching q f = (case ep_channels q f of None \<Rightarrow> None
     | Some c \<Rightarrow> if pc_index (ep_heap q c) = kAdded then Some (pc_events (ep_heap q c), c) else None)"

definition ep_rel :: "(chan \<Rightarrow> int) \<Rightarrow> watch_spec \<Rightarrow> EPollPoller \<Rightarrow> bool" where
  "ep_rel fd s q \<longleftrightarrow>
     (\<forall>c. pc_fd (ep_heap q c) = fd c)
     \<and> (\<forall>c ev. ws_reg s c = Some ev \<longrightarrow> pc_events (ep_heap q c) = ev \<and> ep_channels q (fd c) = Some c
          \<and> (pc_index (ep_heap q c) = kAdded \<or> pc_index (ep_heap q c) = kDeleted \<and> ev = kNoneEvent))
     \<and> (\<forall>c. ws_reg s c = None \<longrightarrow> pc_index (ep_heap q c) = kNew)
     \<and> (\<forall>f c. ep_channels q f = Some c \<longrightarrow> ws_reg s c \<noteq> None \<and> fd c = f)
     \<and> interest q = Some (ep_watching q)"

lemma ep_relD:
  assumes "ep_rel fd s q"
  shows "pc_fd (ep_heap q c) = fd c"
    and "ws_reg s c = Some ev \<Longrightarrow> pc_events (ep_heap q c) = ev \<and> ep_channels q (fd c) = Some c
          \<and> (pc_index (ep_heap q c) = kAdded \<or> pc_index (ep_heap q c) = kDeleted \<and> ev = kNoneEvent)"
    and "ws_reg s c = None \<Longrightarrow> pc_index (ep_heap q c) = kNew"
    and "ep_channels q f = Some c \<Longrightarrow> ws_reg s c \<noteq> None \<and> fd c = f"
    and "interest_after Map.empty (ep_ctl q) = Some (ep_watching q)"
  using assms by (auto simp: ep_rel_def interest_def)

lemma ep_rel_set:
  assumes "ep_rel fd s q" and own: "\<And>f. f \<noteq> fd c \<Longrightarrow> ep_channels q f \<noteq> Some c"
    and free: "ep_channels q (fd c) = None \<or> ep_channels q (fd c) = Some c"
    and heap: "ep_heap q' = (ep_heap q)(c := ch)" and ch: "pc_fd ch = fd c" "pc_events ch = ev"
      "pc_index ch = kAdded \<or> pc_index ch = kDeleted \<and> ev = kNoneEvent"
    and channels: "ep_channels q' = (ep_channels q)(fd c \<mapsto> c)"
    and int: "interest q' = Some ((ep_watching q)(fd c := if pc_index ch = kAdded then Some (ev, c) else None))"
  shows "ep_rel fd (watch_op (Set_Events c ev) s) q'"
  unfolding ep_rel_def
proof (intro conjI allI impI)
  note d = ep_relD [OF assms(1)]
  fix x f ev'
  show "pc_fd (ep_heap q' x) = fd x" using d(1) heap ch(1) by simp
  {
    assume reg: "ws_reg (watch_op (Set_Events c ev) s) x = Some ev'"
    show "pc_events (ep_heap q' x) = ev'" using reg d(2) [of x ev'] heap ch(2) by (cases "x = c") auto
    show "ep_channels q' (fd x) = Some x"
      using reg d(2) [of x ev'] channels free by (cases "x = c") (auto split: if_splits)
    show "pc_index (ep_heap q' x) = kAdded \<or> pc_index (ep_heap q' x) = kDeleted \<and> ev' = kNoneEvent"
      using reg d(2) [of x ev'] heap ch(3) by (cases "x = c") auto
  }
  show "pc_index (ep_heap q' x) = kNew" if "ws_reg (watch_op (Set_Events c ev) s) x = None"
    using that d(3) [of x] heap by (auto split: if_splits)
  show "ws_reg (watch_op (Set_Events c ev) s) x \<noteq> None" "fd x = f" if "ep_channels q' f = Some x"
    using that d(4) [of f x] channels by (auto split: if_splits)
  show "interest q' = Some (ep_watching q')"
    unfolding int using own heap ch(2) channels by (auto simp: ep_watching_def fun_eq_iff split: option.split)
qed

lemmas ep_simps = ep_updateChannel_def ep_removeChannel_def ep_set_events_def ep_update_def ep_set_index_def
  interest_def interest_after_append

lemma ep_add_new:
  assumes "ep_rel fd s q" and "ws_reg s c = None" and "ep_channels q (fd c) = None"
  shows "\<exists>q'. ep_op (Set_Events c ev) q = Inr q' \<and> ep_rel fd (watch_op (Set_Events c ev) s) q'"
proof -
  note d = ep_relD [OF assms(1)]
  have idx: "pc_index (ep_heap q c) = -1" using d(3) [OF assms(2)] by simp
  have own: "ep_channels q f \<noteq> Some c" for f using d(4) [of f c] assms(2) by auto
  let ?q' = "ep_update EPOLL_CTL_ADD c (ep_set_index c kAdded ((ep_set_events c ev q)\<lparr>ep_channels := (ep_channels q)(fd c \<mapsto> c)\<rparr>))"
  let ?ch = "(ep_heap q c)\<lparr>pc_events := ev, pc_index := 1\<rparr>"
  have "ep_watching q (fd c) = None" using assms(3) by (simp add: ep_watching_def)
  then have int: "interest ?q' = Some ((ep_watching q)(fd c := if pc_index ?ch = kAdded then Some (ev, c) else None))"
    using d(1,5) by (simp add: ep_simps)
  have "ep_rel fd (watch_op (Set_Events c ev) s) ?q'"
    by (rule ep_rel_set [OF assms(1) own _ _ _ _ _ _ int]) (use assms(3) d(1) in \<open>simp_all add: ep_simps\<close>)
  moreover have "ep_op (Set_Events c ev) q = Inr ?q'" using assms(3) idx d(1) by (simp add: ep_simps Let_def)
  ultimately show ?thesis by blast
qed

lemma ep_change:
  assumes "ep_rel fd s q" and "ws_reg s c = Some ev0"
  shows "\<exists>q'. ep_op (Set_Events c ev) q = Inr q' \<and> ep_rel fd (watch_op (Set_Events c ev) s) q'"
proof -
  note d = ep_relD [OF assms(1)]
  have c: "ep_channels q (fd c) = Some c" using d(2) [OF assms(2)] by simp
  have own: "ep_channels q f \<noteq> Some c" if "f \<noteq> fd c" for f using d(4) [of f c] that by auto
  have same: "(ep_channels q)(fd c \<mapsto> c) = ep_channels q" using c by auto
  have idx: "pc_index (ep_heap q c) = 1 \<or> pc_index (ep_heap q c) = 2" using d(2) [OF assms(2)] by auto
  have w: "ep_watching q (fd c) = None \<longleftrightarrow> pc_index (ep_heap q c) = 2" using c idx by (auto simp: ep_watching_def)
  let ?q0 = "ep_set_events c ev q"
  let ?q' = "if pc_index (ep_heap q c) = 2 then ep_update EPOLL_CTL_ADD c (ep_set_index c kAdded ?q0)
    else if ev = kNoneEvent then ep_set_index c kDeleted (ep_update EPOLL_CTL_DEL c ?q0)
    else ep_update EPOLL_CTL_MOD c ?q0"
  let ?ch = "(ep_heap q c)\<lparr>pc_events := ev, pc_index := (if pc_index (ep_heap q c) = 1 \<and> ev = kNoneEvent then 2 else 1)\<rparr>"
  have int: "interest ?q' = Some ((ep_watching q)(fd c := if pc_index ?ch = kAdded then Some (ev, c) else None))"
    using d(1,5) w idx by (auto simp: ep_simps)
  have "ep_rel fd (watch_op (Set_Events c ev) s) ?q'"
    by (rule ep_rel_set [OF assms(1) own _ _ _ _ _ _ int]) (use c d(1) idx same in \<open>auto simp: ep_simps\<close>)
  moreover have "ep_op (Set_Events c ev) q = Inr ?q'" using c d(1) idx by (auto simp: ep_simps)
  ultimately show ?thesis by blast
qed

lemma ep_remove:
  assumes "ep_rel fd s q" and "ws_reg s c = Some kNoneEvent"
  shows "\<exists>q'. ep_op (Remove_Channel c) q = Inr q' \<and> ep_rel fd (watch_op (Remove_Channel c) s) q'"
proof -
  note d = ep_relD [OF assms(1)]
  have c: "ep_channels q (fd c) = Some c" "pc_events (ep_heap q c) = kNoneEvent" using d(2) [OF assms(2)] by simp_all
  have own: "ep_channels q f \<noteq> Some c" if "f \<noteq> fd c" for f using d(4) [of f c] that by auto
  have idx: "pc_index (ep_heap q c) = 1 \<or> pc_index (ep_heap q c) = 2" using d(2) [OF assms(2)] by auto
  have w: "ep_watching q (fd c) = None \<longleftrightarrow> pc_index (ep_heap q c) = 2" using c idx by (auto simp: ep_watching_def)
  let ?q1 = "q\<lparr>ep_channels := (ep_channels q)(fd c := None)\<rparr>"
  let ?q' = "ep_set_index c kNew (if pc_index (ep_heap q c) = 1 then ep_update EPOLL_CTL_DEL c ?q1 else ?q1)"
  have "ep_op (Remove_Channel c) q = Inr ?q'" using c d(1) idx by (auto simp: ep_removeChannel_def Let_def)
  moreover have "ep_rel fd (watch_op (Remove_Channel c) s) ?q'"
    unfolding ep_rel_def
  proof (intro conjI allI impI)
    fix x f ev'
    have heap: "ep_heap ?q' = (ep_heap q)(c := (ep_heap q c)\<lparr>pc_index := -1\<rparr>)"
      and channels: "ep_channels ?q' = (ep_channels q)(fd c := None)" by (simp_all add: ep_set_index_def ep_update_def)
    show "pc_fd (ep_heap ?q' x) = fd x" using d(1) unfolding heap by simp
    {
      assume reg: "ws_reg (watch_op (Remove_Channel c) s) x = Some ev'"
      then have x: "x \<noteq> c" "ws_reg s x = Some ev'" by (auto split: if_splits)
      then have "ep_channels q (fd x) = Some x" using d(2) by blast
      with x c own show "ep_channels ?q' (fd x) = Some x" unfolding channels by auto
      show "pc_events (ep_heap ?q' x) = ev'"
        "pc_index (ep_heap ?q' x) = kAdded \<or> pc_index (ep_heap ?q' x) = kDeleted \<and> ev' = kNoneEvent"
        using x d(2) [of x ev'] unfolding heap by auto
    }
    show "pc_index (ep_heap ?q' x) = kNew" if "ws_reg (watch_op (Remove_Channel c) s) x = None"
      using that d(3) [of x] unfolding heap by (auto split: if_splits)
    show "ws_reg (watch_op (Remove_Channel c) s) x \<noteq> None" "fd x = f" if "ep_channels ?q' f = Some x"
      using that d(4) [of f x] unfolding channels by (auto split: if_splits)
    have "interest ?q' = Some ((ep_watching q)(fd c := None))"
      using d(1,5) w idx by (auto simp: ep_update_def ep_set_index_def interest_def interest_after_append fun_upd_idem)
    moreover have "(ep_watching q)(fd c := None) = ep_watching ?q'"
      using own unfolding ep_watching_def heap channels by (auto simp: fun_eq_iff split: option.split)
    ultimately show "interest ?q' = Some (ep_watching ?q')" by simp
  qed
  ultimately show ?thesis by blast
qed

lemma ep_step:
  assumes "ep_rel fd s q" and "watch_inv fd s" and "watch_ok fd x s"
  shows "\<exists>q'. ep_op x q = Inr q' \<and> ep_rel fd (watch_op x s) q'"
proof (cases x)
  case (Set_Events c ev)
  show ?thesis
  proof (cases "ws_reg s c")
    case None
    have "ep_channels q (fd c) = None"
    proof (rule ccontr)
      assume "ep_channels q (fd c) \<noteq> None"
      then obtain d where "ws_reg s d \<noteq> None" "fd d = fd c" using ep_relD(4) [OF assms(1)] by blast
      with assms(2,3) None Set_Events show False by (auto simp: watch_inv_def dom_def)
    qed
    with ep_add_new [OF assms(1) None] Set_Events show ?thesis by simp
  next
    case (Some ev0)
    from ep_change [OF assms(1) this] Set_Events show ?thesis by simp
  qed
next
  case (Remove_Channel c)
  with ep_remove [OF assms(1)] assms(3) show ?thesis by simp
qed

subsection \<open>The poller over poll keeps it\<close>

definition pfd_for :: "int \<Rightarrow> 32 word \<Rightarrow> int" where
  "pfd_for f ev = (if ev = kNoneEvent then - f - 1 else f)"

definition pfd_holds :: "int \<Rightarrow> 32 word \<Rightarrow> pollfd \<Rightarrow> bool" where
  "pfd_holds f ev p \<longleftrightarrow> pfd_fd p = pfd_for f ev \<and> pfd_events p = ucast ev"

definition pp_slot :: "(chan \<Rightarrow> int) \<Rightarrow> PollPoller \<Rightarrow> chan \<Rightarrow> 32 word \<Rightarrow> nat \<Rightarrow> bool" where
  \<comment> \<open>the entry of a channel\<close>
  "pp_slot fd q c ev i \<longleftrightarrow> pc_index (pp_heap q c) = int i \<and> i < length (pp_pollfds q)
     \<and> pfd_holds (fd c) ev (pp_pollfds q ! i)"

definition pp_rel :: "(chan \<Rightarrow> int) \<Rightarrow> watch_spec \<Rightarrow> PollPoller \<Rightarrow> bool" where
  "pp_rel fd s q \<longleftrightarrow>
     (\<forall>c. pc_fd (pp_heap q c) = fd c)
     \<and> (\<forall>c ev. ws_reg s c = Some ev \<longrightarrow> pc_events (pp_heap q c) = ev \<and> pp_channels q (fd c) = Some c
          \<and> (\<exists>i. pp_slot fd q c ev i))
     \<and> (\<forall>c. c \<notin> set (ws_used s) \<longrightarrow> pc_index (pp_heap q c) < 0)
     \<and> (\<forall>f c. pp_channels q f = Some c \<longrightarrow> ws_reg s c \<noteq> None \<and> fd c = f)
     \<and> (\<forall>i < length (pp_pollfds q). \<exists>c ev. ws_reg s c = Some ev \<and> pp_slot fd q c ev i)"

lemma pp_relD:
  assumes "pp_rel fd s q"
  shows "pc_fd (pp_heap q c) = fd c"
    and "ws_reg s c = Some ev \<Longrightarrow> pc_events (pp_heap q c) = ev \<and> pp_channels q (fd c) = Some c \<and> (\<exists>i. pp_slot fd q c ev i)"
    and "c \<notin> set (ws_used s) \<Longrightarrow> pc_index (pp_heap q c) < 0"
    and "pp_channels q f = Some c \<Longrightarrow> ws_reg s c \<noteq> None \<and> fd c = f"
    and "i < length (pp_pollfds q) \<Longrightarrow> \<exists>c ev. ws_reg s c = Some ev \<and> pp_slot fd q c ev i"
  using assms unfolding pp_rel_def by blast+

lemma pp_relI:
  assumes "\<And>c. pc_fd (pp_heap q c) = fd c"
    and "\<And>c ev. ws_reg s c = Some ev \<Longrightarrow> pc_events (pp_heap q c) = ev \<and> pp_channels q (fd c) = Some c
          \<and> (\<exists>i. pp_slot fd q c ev i)"
    and "\<And>c. c \<notin> set (ws_used s) \<Longrightarrow> pc_index (pp_heap q c) < 0"
    and "\<And>f c. pp_channels q f = Some c \<Longrightarrow> ws_reg s c \<noteq> None \<and> fd c = f"
    and "\<And>i. i < length (pp_pollfds q) \<Longrightarrow> \<exists>c ev. ws_reg s c = Some ev \<and> pp_slot fd q c ev i"
  shows "pp_rel fd s q"
  using assms unfolding pp_rel_def by blast

lemma pfd_for_inj: "0 \<le> f \<Longrightarrow> 0 \<le> g \<Longrightarrow> pfd_for f ev = pfd_for g ev' \<Longrightarrow> f = g"
  by (auto simp: pfd_for_def split: if_splits)

lemma pp_slot_inj:
  assumes "watch_inv fd s" and "ws_reg s c = Some ev" and "ws_reg s d = Some ev'"
    and "pp_slot fd q c ev i" and "pp_slot fd q d ev' i"
  shows "c = d"
proof -
  have "0 \<le> fd c" "0 \<le> fd d" "inj_on fd (dom (ws_reg s))" using assms(1-3) by (auto simp: watch_inv_def)
  moreover have "pfd_for (fd c) ev = pfd_for (fd d) ev'" using assms(4,5) by (simp add: pp_slot_def pfd_holds_def)
  ultimately show ?thesis using pfd_for_inj assms(2,3) by (meson domI inj_onD)
qed

lemma pp_add_new:
  assumes "pp_rel fd s q" and "watch_inv fd s" and "ws_reg s c = None" and "c \<notin> set (ws_used s)"
    and "pp_channels q (fd c) = None" and "ev \<noteq> kNoneEvent"
  shows "\<exists>q'. pp_op (Set_Events c ev) q = Inr q' \<and> pp_rel fd (watch_op (Set_Events c ev) s) q'"
proof -
  note d = pp_relD [OF assms(1)]
  let ?n = "length (pp_pollfds q)" and ?pfd = "\<lparr>pfd_fd = fd c, pfd_events = ucast ev, pfd_revents = 0\<rparr>"
  let ?q' = "q\<lparr>pp_heap := (pp_heap q)(c := (pp_heap q c)\<lparr>pc_events := ev, pc_index := int (length (pp_pollfds q))\<rparr>),
    pp_pollfds := pp_pollfds q @ [?pfd], pp_channels := (pp_channels q)(fd c \<mapsto> c)\<rparr>"
  have "pp_op (Set_Events c ev) q = Inr ?q'"
    using d(1) d(3) [OF assms(4)] assms(5) by (simp add: pp_updateChannel_def pp_set_events_def pp_set_index_def Let_def)
  moreover have "pp_rel fd (watch_op (Set_Events c ev) s) ?q'"
  proof (rule pp_relI)
    have slot: "pp_slot fd ?q' x ev' i = pp_slot fd q x ev' i" if "x \<noteq> c" "i < ?n" for x ev' i
      using that by (auto simp: pp_slot_def nth_append)
    have new: "pp_slot fd ?q' c ev ?n" using assms(6) by (simp add: pp_slot_def pfd_holds_def pfd_for_def)
    have lt: "i < ?n" if "pp_slot fd q x ev' i" for x ev' i using that by (simp add: pp_slot_def)
    fix x ev' f i
    show "pc_fd (pp_heap ?q' x) = fd x" using d(1) by simp
    show "pc_events (pp_heap ?q' x) = ev' \<and> pp_channels ?q' (fd x) = Some x \<and> (\<exists>i. pp_slot fd ?q' x ev' i)"
      if "ws_reg (watch_op (Set_Events c ev) s) x = Some ev'"
    proof (cases "x = c")
      case True
      with that new show ?thesis by auto
    next
      case False
      with that have x: "ws_reg s x = Some ev'" by simp
      from d(2) [OF x] obtain i where i: "pp_slot fd q x ev' i" "pc_events (pp_heap q x) = ev'" "pp_channels q (fd x) = Some x"
        by blast
      with slot [OF False lt [OF i(1)]] False assms(5) show ?thesis by (auto simp: fun_upd_def)
    qed
    show "pc_index (pp_heap ?q' x) < 0" if "x \<notin> set (ws_used (watch_op (Set_Events c ev) s))"
      using that d(3) [of x] by simp
    show "ws_reg (watch_op (Set_Events c ev) s) x \<noteq> None \<and> fd x = f" if "pp_channels ?q' f = Some x"
      using that d(4) [of f x] by (auto split: if_splits)
    show "\<exists>x ev'. ws_reg (watch_op (Set_Events c ev) s) x = Some ev' \<and> pp_slot fd ?q' x ev' i"
      if "i < length (pp_pollfds ?q')"
    proof (cases "i = ?n")
      case True
      with new show ?thesis by auto
    next
      case False
      with that d(5) [of i] obtain x ev' where "ws_reg s x = Some ev'" "pp_slot fd q x ev' i" by auto
      moreover from this assms(3) have "x \<noteq> c" by auto
      ultimately have "ws_reg (watch_op (Set_Events c ev) s) x = Some ev' \<and> pp_slot fd ?q' x ev' i"
        using slot [of x i ev'] lt [of x ev' i] by simp
      then show ?thesis by blast
    qed
  qed
  ultimately show ?thesis by blast
qed

lemma pp_change:
  assumes "pp_rel fd s q" and "watch_inv fd s" and "ws_reg s c = Some ev0"
  shows "\<exists>q'. pp_op (Set_Events c ev) q = Inr q' \<and> pp_rel fd (watch_op (Set_Events c ev) s) q'"
proof -
  note d = pp_relD [OF assms(1)]
  from d(2) [OF assms(3)] obtain k where k: "pp_slot fd q c ev0 k" and chan: "pp_channels q (fd c) = Some c" by blast
  let ?pfd = "\<lparr>pfd_fd = pfd_for (fd c) ev, pfd_events = ucast ev, pfd_revents = 0\<rparr>"
  let ?q' = "q\<lparr>pp_heap := (pp_heap q)(c := (pp_heap q c)\<lparr>pc_events := ev\<rparr>), pp_pollfds := (pp_pollfds q)[k := ?pfd]\<rparr>"
  have "pp_op (Set_Events c ev) q = Inr ?q'"
    using d(1) k chan
    by (auto simp: pp_updateChannel_def pp_set_events_def Let_def pp_slot_def pfd_holds_def pfd_for_def)
  moreover have "pp_rel fd (watch_op (Set_Events c ev) s) ?q'"
  proof (rule pp_relI)
    have slot: "pp_slot fd ?q' x ev' i" if "x \<noteq> c" "ws_reg s x = Some ev'" "pp_slot fd q x ev' i" for x ev' i
    proof -
      have "i \<noteq> k" using pp_slot_inj [OF assms(2) that(2) assms(3) that(3)] k that(1) by blast
      with that(1,3) show ?thesis by (simp add: pp_slot_def)
    qed
    have new: "pp_slot fd ?q' c ev k" using k by (simp add: pp_slot_def pfd_holds_def)
    fix x ev' f i
    show "pc_fd (pp_heap ?q' x) = fd x" using d(1) by simp
    show "pc_events (pp_heap ?q' x) = ev' \<and> pp_channels ?q' (fd x) = Some x \<and> (\<exists>i. pp_slot fd ?q' x ev' i)"
      if "ws_reg (watch_op (Set_Events c ev) s) x = Some ev'"
    proof (cases "x = c")
      case True
      with that new chan show ?thesis by auto
    next
      case False
      with that have x: "ws_reg s x = Some ev'" by simp
      from d(2) [OF x] obtain i where i: "pp_slot fd q x ev' i" "pc_events (pp_heap q x) = ev'" "pp_channels q (fd x) = Some x"
        by blast
      with slot [OF False x i(1)] False show ?thesis by auto
    qed
    show "pc_index (pp_heap ?q' x) < 0" if "x \<notin> set (ws_used (watch_op (Set_Events c ev) s))"
      using that d(3) [of x] by simp
    show "ws_reg (watch_op (Set_Events c ev) s) x \<noteq> None \<and> fd x = f" if "pp_channels ?q' f = Some x"
      using that d(4) [of f x] by auto
    show "\<exists>x ev'. ws_reg (watch_op (Set_Events c ev) s) x = Some ev' \<and> pp_slot fd ?q' x ev' i"
      if "i < length (pp_pollfds ?q')"
    proof (cases "i = k")
      case True
      with new show ?thesis by auto
    next
      case False
      with that d(5) [of i] obtain x ev' where x: "ws_reg s x = Some ev'" "pp_slot fd q x ev' i" by auto
      moreover from this False k have "x \<noteq> c" by (auto simp: pp_slot_def)
      ultimately have "ws_reg (watch_op (Set_Events c ev) s) x = Some ev' \<and> pp_slot fd ?q' x ev' i"
        using slot [of x ev' i] by simp
      then show ?thesis by blast
    qed
  qed
  ultimately show ?thesis by blast
qed

lemma nth_swap_pop:
  assumes "k < length fds" and "i < length fds - 1"
  shows "butlast (fds[k := last fds]) ! i = (if i = k then last fds else fds ! i)"
  using assms by (simp add: nth_butlast)

lemma pp_remove_slots:
  assumes "pp_rel fd s q" and "watch_inv fd s" and "ws_reg s c = Some kNoneEvent" and k: "pp_slot fd q c kNoneEvent k"
    and e: "ws_reg s e = Some ev_e" "pp_slot fd q e ev_e (length (pp_pollfds q) - 1)"
    and q': "pp_heap q' = (if e = c then pp_heap q else (pp_heap q)(e := (pp_heap q e)\<lparr>pc_index := int k\<rparr>))"
      "pp_channels q' = (pp_channels q)(fd c := None)"
      "pp_pollfds q' = butlast ((pp_pollfds q)[k := last (pp_pollfds q)])"
  shows "pp_rel fd (watch_op (Remove_Channel c) s) q'"
proof (rule pp_relI)
  note d = pp_relD [OF assms(1)]
  let ?n = "length (pp_pollfds q) - 1"
  have kn: "k < length (pp_pollfds q)" using k by (simp add: pp_slot_def)
  have ne: "pp_pollfds q \<noteq> []" using kn by auto
  have last: "last (pp_pollfds q) = pp_pollfds q ! ?n" by (rule last_conv_nth [OF ne])
  have end_k: "e = c \<longleftrightarrow> k = ?n"
    using pp_slot_inj [OF assms(2) e(1) assms(3) e(2)] k e(2) by (auto simp: pp_slot_def)
  have slot: "pp_slot fd q' x ev (if i = ?n then k else i)"
    if "x \<noteq> c" "ws_reg s x = Some ev" "pp_slot fd q x ev i" for x ev i
  proof (cases "i = ?n")
    case True
    with that pp_slot_inj [OF assms(2) that(2) e(1) that(3)] e(2) have x: "x = e" "ev = ev_e" using e(1) by auto
    with that(1) end_k kn have k': "k < ?n" by auto
    with x that True last q' nth_swap_pop [OF kn k'] kn show ?thesis by (auto simp: pp_slot_def)
  next
    case False
    then have i: "i < ?n" "i \<noteq> k" "x \<noteq> e"
      using that k e pp_slot_inj [OF assms(2) that(2) assms(3) that(3)] by (auto simp: pp_slot_def)
    with that(3) q' nth_swap_pop [OF kn i(1)] show ?thesis by (auto simp: pp_slot_def)
  qed
  fix x ev f i
  show "pc_fd (pp_heap q' x) = fd x" using d(1) q'(1) by simp
  show "pc_events (pp_heap q' x) = ev \<and> pp_channels q' (fd x) = Some x \<and> (\<exists>i. pp_slot fd q' x ev i)"
    if "ws_reg (watch_op (Remove_Channel c) s) x = Some ev"
  proof -
    have x: "x \<noteq> c" "ws_reg s x = Some ev" using that by (auto split: if_splits)
    then have "fd x \<noteq> fd c" using assms(2,3) by (auto simp: watch_inv_def inj_on_def dom_def)
    moreover obtain j where j: "pp_slot fd q x ev j" "pc_events (pp_heap q x) = ev" "pp_channels q (fd x) = Some x"
      using d(2) [OF x(2)] by blast
    moreover note slot [OF x j(1)]
    ultimately show ?thesis using q'(1,2) by auto
  qed
  show "pc_index (pp_heap q' x) < 0" if "x \<notin> set (ws_used (watch_op (Remove_Channel c) s))"
  proof -
    have "x \<noteq> e" using that e(1) assms(2) by (auto simp: watch_inv_def)
    with that d(3) [of x] q'(1) show ?thesis by simp
  qed
  show "ws_reg (watch_op (Remove_Channel c) s) x \<noteq> None \<and> fd x = f" if "pp_channels q' f = Some x"
    using that d(4) [of f x] q'(2) by (auto split: if_splits)
  show "\<exists>x ev. ws_reg (watch_op (Remove_Channel c) s) x = Some ev \<and> pp_slot fd q' x ev i" if "i < length (pp_pollfds q')"
  proof -
    have i: "i < ?n" using that q'(3) by simp
    let ?j = "if i = k then ?n else i"
    have "?j < length (pp_pollfds q)" using i ne by auto
    from d(5) [OF this] obtain x ev where x: "ws_reg s x = Some ev" "pp_slot fd q x ev ?j" by blast
    have "x \<noteq> c"
    proof
      assume "x = c"
      with x(2) k have "?j = k" by (auto simp: pp_slot_def)
      with i show False by (auto split: if_splits)
    qed
    from slot [OF this x] i have "pp_slot fd q' x ev i" by (auto split: if_splits)
    with \<open>x \<noteq> c\<close> x(1) show ?thesis by auto
  qed
qed

lemma pp_remove:
  assumes "pp_rel fd s q" and "watch_inv fd s" and "ws_reg s c = Some kNoneEvent"
  shows "\<exists>q'. pp_op (Remove_Channel c) q = Inr q' \<and> pp_rel fd (watch_op (Remove_Channel c) s) q'"
proof -
  note d = pp_relD [OF assms(1)]
  let ?fds = "pp_pollfds q" and ?n = "length (pp_pollfds q) - 1"
  obtain k where k: "pp_slot fd q c kNoneEvent k" and c: "pp_channels q (fd c) = Some c" "pc_events (pp_heap q c) = kNoneEvent"
    using d(2) [OF assms(3)] by blast
  have idx: "pc_index (pp_heap q c) = int k" "k < length ?fds" "pfd_fd (?fds ! k) = - fd c - 1" "pfd_events (?fds ! k) = 0"
    using k by (auto simp: pp_slot_def pfd_holds_def pfd_for_def kNoneEvent_def)
  then have "?n < length ?fds" "?fds \<noteq> []" by auto
  with d(5) [OF this(1)] obtain e ev_e where e: "ws_reg s e = Some ev_e" "pp_slot fd q e ev_e ?n" by blast
  have end_k: "e = c \<longleftrightarrow> k = ?n"
    using pp_slot_inj [OF assms(2) e(1) assms(3) e(2)] k e(2) by (auto simp: pp_slot_def)
  let ?heap = "if e = c then pp_heap q else (pp_heap q)(e := (pp_heap q e)\<lparr>pc_index := int k\<rparr>)"
  let ?q' = "q\<lparr>pp_heap := ?heap, pp_channels := (pp_channels q)(fd c := None), pp_pollfds := butlast (?fds[k := last ?fds])\<rparr>"
  have last: "last ?fds = ?fds ! ?n" using \<open>?fds \<noteq> []\<close> by (rule last_conv_nth)
  have at_end: "(let f = pfd_fd (last ?fds) in if f < 0 then - f - 1 else f) = fd e"
    using e(2) assms(2) e(1) unfolding last by (auto simp: pp_slot_def pfd_holds_def pfd_for_def watch_inv_def dom_def)
  have "pp_op (Remove_Channel c) q = Inr ?q'"
  proof (cases "k = ?n")
    case True
    then have "?fds[k := last ?fds] = ?fds" unfolding last by simp
    moreover have "e = c" using True end_k by simp
    ultimately show ?thesis
      using True [symmetric] idx c d(1) by (simp add: pp_removeChannel_def Let_def kNoneEvent_def)
  next
    case False
    then have "e \<noteq> c" using end_k by simp
    then have "fd e \<noteq> fd c" using assms(2,3) e(1) by (auto simp: watch_inv_def inj_on_def dom_def)
    moreover have "pp_channels q (fd e) = Some e" using d(2) [OF e(1)] by blast
    ultimately show ?thesis
      using False \<open>e \<noteq> c\<close> idx c d(1) at_end
      by (simp add: pp_removeChannel_def Let_def kNoneEvent_def pp_set_index_def)
  qed
  moreover have "pp_rel fd (watch_op (Remove_Channel c) s) ?q'"
    by (rule pp_remove_slots [OF assms k e]) simp_all
  ultimately show ?thesis by blast
qed

lemma pp_step:
  assumes "pp_rel fd s q" and "watch_inv fd s" and "watch_ok fd x s"
  shows "\<exists>q'. pp_op x q = Inr q' \<and> pp_rel fd (watch_op x s) q'"
proof (cases x)
  case (Set_Events c ev)
  show ?thesis
  proof (cases "ws_reg s c")
    case None
    have "pp_channels q (fd c) = None"
    proof (rule ccontr)
      assume "pp_channels q (fd c) \<noteq> None"
      then obtain d where "ws_reg s d \<noteq> None" "fd d = fd c" using pp_relD(4) [OF assms(1)] by blast
      with assms(2,3) None Set_Events show False by (auto simp: watch_inv_def dom_def)
    qed
    with pp_add_new [OF assms(1,2) None] assms(3) None Set_Events show ?thesis by simp
  next
    case (Some ev0)
    from pp_change [OF assms(1,2) this] Set_Events show ?thesis by simp
  qed
next
  case (Remove_Channel c)
  with pp_remove [OF assms(1,2)] assms(3) show ?thesis by simp
qed

section \<open>The contract of a poller\<close>

fun watch_run :: "poller_op list \<Rightarrow> watch_spec \<Rightarrow> watch_spec" where
  "watch_run [] s = s"
| "watch_run (x # xs) s = watch_run xs (watch_op x s)"

fun watch_run_ok :: "(chan \<Rightarrow> int) \<Rightarrow> poller_op list \<Rightarrow> watch_spec \<Rightarrow> bool" where
  "watch_run_ok fd [] s \<longleftrightarrow> True"
| "watch_run_ok fd (x # xs) s \<longleftrightarrow> watch_ok fd x s \<and> watch_run_ok fd xs (watch_op x s)"

fun op_run :: "(poller_op \<Rightarrow> 'q \<Rightarrow> 'q res) \<Rightarrow> poller_op list \<Rightarrow> 'q \<Rightarrow> 'q res" where
  "op_run step [] q = Inr q"
| "op_run step (x # xs) q = rbind (step x q) (op_run step xs)"

locale poller =
  fixes step :: "poller_op \<Rightarrow> 'q \<Rightarrow> 'q res" and rel :: "(chan \<Rightarrow> int) \<Rightarrow> watch_spec \<Rightarrow> 'q \<Rightarrow> bool"
  assumes step_rel: "rel fd s q \<Longrightarrow> watch_inv fd s \<Longrightarrow> watch_ok fd x s \<Longrightarrow> \<exists>q'. step x q = Inr q' \<and> rel fd (watch_op x s) q'"
begin

lemma run_rel:
  "rel fd s q \<Longrightarrow> watch_inv fd s \<Longrightarrow> watch_run_ok fd xs s \<Longrightarrow>
   \<exists>q'. op_run step xs q = Inr q' \<and> rel fd (watch_run xs s) q' \<and> watch_inv fd (watch_run xs s)"
proof (induction xs arbitrary: s q)
  case (Cons x xs)
  then obtain q1 where "step x q = Inr q1" "rel fd (watch_op x s) q1" using step_rel [of fd s q x] by auto
  with Cons watch_inv_step show ?case by auto
qed simp

end

interpretation epoll: poller ep_op ep_rel
  using ep_step by unfold_locales

interpretation ppoll: poller pp_op pp_rel
  using pp_step by unfold_locales

definition fresh_heap :: "(chan \<Rightarrow> int) \<Rightarrow> (chan \<Rightarrow> PollChannel) \<Rightarrow> bool" where
  \<comment> \<open>channels as they are constructed\<close>
  "fresh_heap fd heap \<longleftrightarrow> (\<forall>c. pc_fd (heap c) = fd c \<and> pc_index (heap c) = kNew)"

lemma rel_new:
  assumes "fresh_heap fd heap"
  shows "ep_rel fd watch_new (EPollPoller_new heap)" and "pp_rel fd watch_new (PollPoller_new heap)"
  using assms
  by (auto simp: ep_rel_def pp_rel_def watch_new_def EPollPoller_new_def PollPoller_new_def fresh_heap_def interest_def
      ep_watching_def fun_eq_iff)

lemma watch_inv_new: "watch_inv fd watch_new"
  by (simp add: watch_inv_def watch_new_def)

definition watched :: "(chan \<Rightarrow> int) \<Rightarrow> watch_spec \<Rightarrow> int \<Rightarrow> 32 word \<Rightarrow> bool" where
  "watched fd s f ev \<longleftrightarrow> ev \<noteq> kNoneEvent \<and> (\<exists>c. ws_reg s c = Some ev \<and> fd c = f)"

lemma ep_watched:
  assumes "ep_rel fd s q"
  shows "\<exists>m. interest q = Some m \<and> (\<forall>f ev. ev \<noteq> kNoneEvent \<and> (\<exists>c. m f = Some (ev, c)) \<longleftrightarrow> watched fd s f ev)"
proof (intro exI [of _ "ep_watching q"] conjI allI)
  note d = ep_relD [OF assms]
  show "interest q = Some (ep_watching q)" using d(5) by (simp add: interest_def)
  fix f ev
  show "ev \<noteq> kNoneEvent \<and> (\<exists>c. ep_watching q f = Some (ev, c)) \<longleftrightarrow> watched fd s f ev"
  proof
    assume l: "ev \<noteq> kNoneEvent \<and> (\<exists>c. ep_watching q f = Some (ev, c))"
    then obtain c where "ep_channels q f = Some c" "ev = pc_events (ep_heap q c)"
      by (auto simp: ep_watching_def split: option.splits if_splits)
    with d(4) [of f c] d(2) [of c] l show "watched fd s f ev" by (auto simp: watched_def)
  next
    assume "watched fd s f ev"
    then obtain c where "ev \<noteq> kNoneEvent" "ws_reg s c = Some ev" "fd c = f" by (auto simp: watched_def)
    with d(2) [of c ev] show "ev \<noteq> kNoneEvent \<and> (\<exists>c. ep_watching q f = Some (ev, c))"
      by (auto simp: ep_watching_def)
  qed
qed

lemma pp_watched:
  assumes "pp_rel fd s q" and "watch_inv fd s"
  shows "(\<exists>p\<in>set (pp_pollfds q). 0 \<le> pfd_fd p \<and> pfd_fd p = f \<and> pfd_events p = w)
    \<longleftrightarrow> (\<exists>ev. watched fd s f ev \<and> w = ucast ev)"
proof
  note d = pp_relD [OF assms(1)]
  assume "\<exists>p\<in>set (pp_pollfds q). 0 \<le> pfd_fd p \<and> pfd_fd p = f \<and> pfd_events p = w"
  then obtain i where i: "i < length (pp_pollfds q)" "0 \<le> pfd_fd (pp_pollfds q ! i)" "pfd_fd (pp_pollfds q ! i) = f"
      "pfd_events (pp_pollfds q ! i) = w" by (auto simp: in_set_conv_nth)
  from d(5) [OF i(1)] obtain c ev where c: "ws_reg s c = Some ev" "pp_slot fd q c ev i" by blast
  moreover from this assms(2) have "0 \<le> fd c" by (auto simp: watch_inv_def)
  ultimately show "\<exists>ev. watched fd s f ev \<and> w = ucast ev"
    using i by (auto simp: pp_slot_def pfd_holds_def pfd_for_def watched_def split: if_splits)
next
  assume "\<exists>ev. watched fd s f ev \<and> w = ucast ev"
  then obtain c ev where c: "ev \<noteq> kNoneEvent" "ws_reg s c = Some ev" "fd c = f" "w = ucast ev" by (auto simp: watched_def)
  from pp_relD(2) [OF assms(1) c(2)] obtain i where "pp_slot fd q c ev i" by blast
  moreover have "0 \<le> fd c" using assms(2) c(2) by (auto simp: watch_inv_def)
  ultimately show "\<exists>p\<in>set (pp_pollfds q). 0 \<le> pfd_fd p \<and> pfd_fd p = f \<and> pfd_events p = w"
    using c by (intro bexI [of _ "pp_pollfds q ! i"]) (auto simp: pp_slot_def pfd_holds_def pfd_for_def)
qed

text \<open>
  C27. Both pollers implement the same contract: for every sequence of updates and removals in
  which a channel enters once, with events it asks for and a descriptor of its own, and leaves when it asks for
  nothing, no assertion of either fails, the epoll instance refuses no call, and both watch the descriptors of the
  registered channels for exactly the events these ask for. (Without these conditions they differ: see
  \<open>pollers_differ\<close>; a channel that is disabled twice stays in the epoll instance without events, see
  \<open>disabled_twice_is_watched\<close>.)
\<close>

theorem pollers_agree:
  assumes "fresh_heap fd heap" and "watch_run_ok fd xs watch_new"
  shows "\<exists>q m q'. op_run ep_op xs (EPollPoller_new heap) = Inr q \<and> interest q = Some m
    \<and> op_run pp_op xs (PollPoller_new heap) = Inr q'
    \<and> (\<forall>f ev. ev \<noteq> kNoneEvent \<and> (\<exists>c. m f = Some (ev, c)) \<longleftrightarrow> watched fd (watch_run xs watch_new) f ev)
    \<and> (\<forall>f w. (\<exists>p\<in>set (pp_pollfds q'). 0 \<le> pfd_fd p \<and> pfd_fd p = f \<and> pfd_events p = w)
        \<longleftrightarrow> (\<exists>ev. watched fd (watch_run xs watch_new) f ev \<and> w = ucast ev))"
proof -
  obtain q where q: "op_run ep_op xs (EPollPoller_new heap) = Inr q" "ep_rel fd (watch_run xs watch_new) q"
    using epoll.run_rel [OF rel_new(1) [OF assms(1)] watch_inv_new assms(2)] by blast
  obtain q' where q': "op_run pp_op xs (PollPoller_new heap) = Inr q'" "pp_rel fd (watch_run xs watch_new) q'"
      "watch_inv fd (watch_run xs watch_new)"
    using ppoll.run_rel [OF rel_new(2) [OF assms(1)] watch_inv_new assms(2)] by blast
  from ep_watched [OF q(2)] pp_watched [OF q'(2,3)] q(1) q'(1) show ?thesis by blast
qed

definition demo_chans :: "chan \<Rightarrow> PollChannel" where
  "demo_chans c = \<lparr>pc_fd = int c + 3, pc_events = 0, pc_revents = 0, pc_index = -1\<rparr>"

definition demo_ops :: "poller_op list" where
  "demo_ops = [Set_Events 0 1, Set_Events 1 4, Set_Events 2 5, Set_Events 0 0, Remove_Channel 0, Set_Events 2 1]"

lemma demo_ops_ok: "fresh_heap (\<lambda>c. int c + 3) demo_chans" "watch_run_ok (\<lambda>c. int c + 3) demo_ops watch_new"
  by (auto simp: fresh_heap_def demo_chans_def demo_ops_def watch_new_def kNoneEvent_def)

theorem pollers_agree_witness:
  "\<exists>q q'. op_run ep_op demo_ops (EPollPoller_new demo_chans) = Inr q
    \<and> op_run pp_op demo_ops (PollPoller_new demo_chans) = Inr q'
    \<and> (\<exists>p\<in>set (pp_pollfds q'). pfd_fd p = 4 \<and> pfd_events p = 4)"
proof -
  have "watched (\<lambda>c. int c + 3) (watch_run demo_ops watch_new) 4 4"
    by (auto simp: watched_def demo_ops_def watch_new_def kNoneEvent_def)
  moreover have "ucast (4 :: 32 word) = (4 :: 16 word)" by simp
  ultimately show ?thesis using pollers_agree [OF demo_ops_ok] by metis
qed

section \<open>What is reported\<close>

definition kernel_poll :: "(int \<Rightarrow> 16 word) \<Rightarrow> pollfd list \<Rightarrow> pollfd list" where
  \<comment> \<open>\<^verbatim>\<open>poll\<close> ignores negative descriptors\<close>
  "kernel_poll ready fds = map (\<lambda>p. p\<lparr>pfd_revents := (if 0 \<le> pfd_fd p then ready (pfd_fd p) else 0)\<rparr>) fds"

definition reported :: "pollfd list \<Rightarrow> pollfd list" where
  "reported fds = filter (\<lambda>p. 0 < sint (pfd_revents p)) fds"

lemma pp_fill:
  "\<forall>p\<in>set (reported fds). \<exists>c. pp_channels q (pfd_fd p) = Some c \<and> pc_fd (pp_heap q c) = pfd_fd p \<Longrightarrow>
   length (reported fds) \<le> n \<Longrightarrow>
   \<exists>q'. pp_fillActiveChannels n fds q = Inr (map (\<lambda>p. the (pp_channels q (pfd_fd p))) (reported fds), q')
     \<and> pp_channels q' = pp_channels q \<and> pp_pollfds q' = pp_pollfds q"
proof (induction fds arbitrary: n q)
  case (Cons p fds)
  show ?case
  proof (cases "0 < sint (pfd_revents p)")
    case True
    then have p: "reported (p # fds) = p # reported fds" by (simp add: reported_def)
    with Cons.prems obtain c where c: "pp_channels q (pfd_fd p) = Some c" "pc_fd (pp_heap q c) = pfd_fd p" by auto
    let ?q1 = "q\<lparr>pp_heap := (pp_heap q)(c := (pp_heap q c)\<lparr>pc_revents := scast (pfd_revents p)\<rparr>)\<rparr>"
    have "\<forall>p\<in>set (reported fds). \<exists>c. pp_channels ?q1 (pfd_fd p) = Some c \<and> pc_fd (pp_heap ?q1 c) = pfd_fd p"
      using Cons.prems(1) unfolding p by auto
    moreover have "length (reported fds) \<le> n - 1" "n \<noteq> 0" using Cons.prems(2) p by auto
    ultimately obtain q' where
      "pp_fillActiveChannels (n - 1) fds ?q1 = Inr (map (\<lambda>p. the (pp_channels q (pfd_fd p))) (reported fds), q')"
      "pp_channels q' = pp_channels q" "pp_pollfds q' = pp_pollfds q" using Cons.IH [of ?q1 "n - 1"] by auto
    with True c \<open>n \<noteq> 0\<close> p show ?thesis by simp
  next
    case False
    then have "reported (p # fds) = reported fds" by (simp add: reported_def)
    with False Cons show ?thesis by (cases "n = 0") (auto simp: reported_def)
  qed
qed (simp add: reported_def)

lemma ep_fill:
  "\<forall>(c, r)\<in>set evs. ep_channels q (pc_fd (ep_heap q c)) = Some c \<Longrightarrow>
   \<exists>q'. ep_fillActiveChannels evs q = Inr (map fst evs, q') \<and> ep_size q' = ep_size q"
proof (induction evs arbitrary: q)
  case (Cons e evs)
  obtain c r where e: "e = (c, r)" by (cases e)
  let ?q1 = "q\<lparr>ep_heap := (ep_heap q)(c := (ep_heap q c)\<lparr>pc_revents := r\<rparr>)\<rparr>"
  have "\<forall>(d, r)\<in>set evs. ep_channels ?q1 (pc_fd (ep_heap ?q1 d)) = Some d" using Cons.prems by auto
  from Cons.IH [OF this] Cons.prems e show ?case by auto
qed simp

lemma reported_channels:
  assumes "pp_rel fd s q" and "watch_inv fd s" and "\<And>f. 0 \<le> sint (ready f)"
    and "p \<in> set (reported (kernel_poll ready (pp_pollfds q)))"
  shows "\<exists>c ev. ws_reg s c = Some ev \<and> ev \<noteq> kNoneEvent \<and> ready (fd c) \<noteq> 0 \<and> pfd_fd p = fd c
    \<and> pp_channels q (fd c) = Some c"
proof -
  obtain p0 where p0: "p0 \<in> set (pp_pollfds q)" "0 \<le> pfd_fd p0" "pfd_fd p = pfd_fd p0" "0 < sint (ready (pfd_fd p0))"
    using assms(4) by (auto simp: reported_def kernel_poll_def split: if_splits)
  with pp_watched [OF assms(1,2), of "pfd_fd p0" "pfd_events p0"] obtain ev where "watched fd s (pfd_fd p0) ev" by blast
  then obtain c where c: "ev \<noteq> kNoneEvent" "ws_reg s c = Some ev" "fd c = pfd_fd p0" by (auto simp: watched_def)
  with p0 pp_relD(2) [OF assms(1) c(2)] show ?thesis by force
qed

text \<open>
  After such a sequence, \<^verbatim>\<open>PollPoller::poll\<close> makes exactly the channels active that ask for events
  and whose descriptor the kernel reports, and \<^verbatim>\<open>EPollPoller::poll\<close> the channels of whatever
  events of its interest the kernel reports, at most as many as fit its list; neither fails an
  assertion.
\<close>

theorem pollers_report:
  assumes "fresh_heap fd heap" and "watch_run_ok fd xs watch_new"
    and "op_run pp_op xs (PollPoller_new heap) = Inr q" and "\<And>f. 0 \<le> sint (ready f)"
    and "op_run ep_op xs (EPollPoller_new heap) = Inr e"
    and "\<forall>(c, r)\<in>set evs. \<exists>m ev. interest e = Some m \<and> m (fd c) = Some (ev, c)" and "length evs \<le> ep_size e"
  shows "(let fds = kernel_poll ready (pp_pollfds q)
      in \<exists>active q'. pp_poll (Some (fds, length (reported fds))) q = Inr (active, q')
        \<and> (\<forall>c. c \<in> set active \<longleftrightarrow> (\<exists>ev. ws_reg (watch_run xs watch_new) c = Some ev \<and> ev \<noteq> kNoneEvent \<and> ready (fd c) \<noteq> 0)))
    \<and> (\<exists>e'. ep_poll (Some evs) e = Inr (map fst evs, e'))"
proof (intro conjI)
  let ?s = "watch_run xs watch_new" and ?fds = "kernel_poll ready (pp_pollfds q)"
  let ?q = "q\<lparr>pp_pollfds := ?fds\<rparr>"
  have rel: "pp_rel fd ?s q" "watch_inv fd ?s"
    using ppoll.run_rel [OF rel_new(2) [OF assms(1)] watch_inv_new assms(2)] assms(3) by auto
  note d = pp_relD [OF rel(1)]
  note rep = reported_channels [OF rel assms(4)]
  have "\<forall>p\<in>set (reported ?fds). \<exists>c. pp_channels ?q (pfd_fd p) = Some c \<and> pc_fd (pp_heap ?q c) = pfd_fd p"
    using rep d(1) by fastforce
  from pp_fill [OF this order_refl] obtain q' where
    fill: "pp_fillActiveChannels (length (reported ?fds)) ?fds ?q = Inr (map (\<lambda>p. the (pp_channels q (pfd_fd p))) (reported ?fds), q')"
    by auto
  let ?active = "map (\<lambda>p. the (pp_channels q (pfd_fd p))) (reported ?fds)"
  have "\<exists>q''. pp_poll (Some (?fds, length (reported ?fds))) q = Inr (?active, q'')"
    using fill by (cases "reported ?fds") (auto simp: pp_poll_def)
  moreover have "c \<in> set ?active \<longleftrightarrow> (\<exists>ev. ws_reg ?s c = Some ev \<and> ev \<noteq> kNoneEvent \<and> ready (fd c) \<noteq> 0)" for c
  proof
    assume "c \<in> set ?active"
    then show "\<exists>ev. ws_reg ?s c = Some ev \<and> ev \<noteq> kNoneEvent \<and> ready (fd c) \<noteq> 0" using rep by fastforce
  next
    assume "\<exists>ev. ws_reg ?s c = Some ev \<and> ev \<noteq> kNoneEvent \<and> ready (fd c) \<noteq> 0"
    then obtain ev where ev: "ws_reg ?s c = Some ev" "ev \<noteq> kNoneEvent" "ready (fd c) \<noteq> 0" by blast
    then have "watched fd ?s (fd c) ev" by (auto simp: watched_def)
    then obtain p where p: "p \<in> set (pp_pollfds q)" "0 \<le> pfd_fd p" "pfd_fd p = fd c"
      using pp_watched [OF rel, of "fd c" "ucast ev"] by blast
    have "0 < sint (ready (fd c))" using assms(4) [of "fd c"] ev(3) by (metis order_le_less signed_eq_0_iff)
    with p have "p\<lparr>pfd_revents := ready (fd c)\<rparr> \<in> set (reported ?fds)" by (force simp: reported_def kernel_poll_def)
    moreover have "pp_channels q (fd c) = Some c" using d(2) [OF ev(1)] by blast
    ultimately show "c \<in> set ?active" using p(3) by force
  qed
  ultimately show "let fds = ?fds in \<exists>active q'. pp_poll (Some (fds, length (reported fds))) q = Inr (active, q')
        \<and> (\<forall>c. c \<in> set active \<longleftrightarrow> (\<exists>ev. ws_reg ?s c = Some ev \<and> ev \<noteq> kNoneEvent \<and> ready (fd c) \<noteq> 0))"
    unfolding Let_def by blast
  have erel: "ep_rel fd ?s e"
    using epoll.run_rel [OF rel_new(1) [OF assms(1)] watch_inv_new assms(2)] assms(5) by auto
  have "\<forall>(c, r)\<in>set evs. ep_channels e (pc_fd (ep_heap e c)) = Some c"
    using assms(6) ep_relD(1,5) [OF erel] by (fastforce simp: interest_def ep_watching_def split: option.splits if_splits)
  from ep_fill [OF this] assms(7) show "\<exists>e'. ep_poll (Some evs) e = Inr (map fst evs, e')"
    by (cases evs) (auto simp: ep_poll_def)
qed

definition demo_one :: "poller_op list" where
  "demo_one = [Set_Events 0 1]"

lemma demo_one_ok:
  "watch_run_ok (\<lambda>c. int c + 3) demo_one watch_new"
  "\<exists>q. op_run pp_op demo_one (PollPoller_new demo_chans) = Inr q \<and> map pfd_fd (pp_pollfds q) = [3]"
  "\<exists>e. op_run ep_op demo_one (EPollPoller_new demo_chans) = Inr e \<and> ep_size e = 16 \<and> interest e = Some [3 \<mapsto> (1, 0)]"
  by (auto simp: demo_one_def demo_chans_def watch_new_def kNoneEvent_def pp_updateChannel_def pp_set_events_def
      PollPoller_new_def Let_def pp_set_index_def EPollPoller_new_def ep_simps kInitEventListSize_def)

theorem pollers_report_witness:
  "\<exists>q active q'. op_run pp_op demo_one (PollPoller_new demo_chans) = Inr q
    \<and> pp_poll (Some (kernel_poll (\<lambda>_. 1) (pp_pollfds q), length (reported (kernel_poll (\<lambda>_. 1) (pp_pollfds q))))) q = Inr (active, q')
    \<and> 0 \<in> set active \<and> 1 \<notin> set active"
proof -
  obtain q where q: "op_run pp_op demo_one (PollPoller_new demo_chans) = Inr q" using demo_one_ok(2) by blast
  obtain e where e: "op_run ep_op demo_one (EPollPoller_new demo_chans) = Inr e" "ep_size e = 16" "interest e = Some [3 \<mapsto> (1, 0)]"
    using demo_one_ok(3) by blast
  from pollers_report [OF demo_ops_ok(1) demo_one_ok(1) q _ e(1), of "\<lambda>_. 1" "[(0, 1)]"] e(2,3)
  have "\<exists>active q'. pp_poll (Some (kernel_poll (\<lambda>_. 1) (pp_pollfds q), length (reported (kernel_poll (\<lambda>_. 1) (pp_pollfds q))))) q
      = Inr (active, q') \<and> (\<forall>c. c \<in> set active \<longleftrightarrow> (\<exists>ev. ws_reg (watch_run demo_one watch_new) c = Some ev \<and> ev \<noteq> kNoneEvent))"
    by (simp add: Let_def)
  with q show ?thesis by (auto simp: demo_one_def watch_new_def kNoneEvent_def)
qed

text \<open>
  Outside the contract the two differ. A channel that was removed can enter the poller over
  epoll again but fails an assertion of the other, which keeps its old index; so does a channel
  that never asked for events and is removed. And a channel that is disabled twice is added to
  the epoll instance again, with no events, so that a hang-up would be reported.
\<close>

lemma pollers_differ:
  "op_run pp_op [Set_Events 0 1, Set_Events 0 0, Remove_Channel 0, Set_Events 0 1] (PollPoller_new demo_chans) = Inl Assert_Failed"
  "\<exists>e. op_run ep_op [Set_Events 0 1, Set_Events 0 0, Remove_Channel 0, Set_Events 0 1] (EPollPoller_new demo_chans) = Inr e"
  "op_run pp_op [Set_Events 0 0, Remove_Channel 0] (PollPoller_new demo_chans) = Inl Assert_Failed"
  "\<exists>e. op_run ep_op [Set_Events 0 0, Remove_Channel 0] (EPollPoller_new demo_chans) = Inr e"
  by (simp_all add: demo_chans_def kNoneEvent_def pp_updateChannel_def pp_removeChannel_def pp_set_events_def
      PollPoller_new_def Let_def pp_set_index_def EPollPoller_new_def ep_simps kInitEventListSize_def)

lemma disabled_twice_is_watched:
  "\<exists>e. op_run ep_op [Set_Events 0 1, Set_Events 0 0, Set_Events 0 0] (EPollPoller_new demo_chans) = Inr e
    \<and> interest e = Some [3 \<mapsto> (0, 0)]"
  by (simp add: demo_chans_def kNoneEvent_def EPollPoller_new_def Let_def ep_simps)

end
