(* ===== verification/Net_Http.thy ===== *)
theory Net_Http
  imports Net_Connection
begin

text \<open>
  The HTTP server of the network library (net/http/): \<^verbatim>\<open>HttpRequest\<close>, \<^verbatim>\<open>HttpResponse\<close>, the
  incremental parser \<^verbatim>\<open>HttpContext\<close> over the input buffer of a connection, and the
  callbacks \<^verbatim>\<open>HttpServer\<close> installs on a connection. The callback of the user is a function from the
  request and the prepared response to the response; the functional specification of the parser
  is on text, and the parser on buffers is shown to refine it.
\<close>

section \<open>Requests\<close>

datatype http_method = M_Invalid | M_Get | M_Post | M_Head | M_Put | M_Delete
datatype http_version = V_Unknown | V_Http10 | V_Http11

record HttpRequest =
  rq_method :: http_method
  rq_version :: http_version
  rq_path :: string
  rq_query :: string
  rq_receiveTime :: int
  rq_headers :: "(string, string) smap"

definition HttpRequest_new :: HttpRequest where
  "HttpRequest_new = \<lparr>rq_method = M_Invalid, rq_version = V_Unknown, rq_path = [], rq_query = [],
     rq_receiveTime = 0, rq_headers = []\<rparr>"

definition setMethod :: "string \<Rightarrow> HttpRequest \<Rightarrow> (bool \<times> HttpRequest) res" where
  "setMethod m r =
     (if rq_method r \<noteq> M_Invalid then Inl Assert_Failed
      else let k = (if m = ''GET'' then M_Get else if m = ''POST'' then M_Post
                    else if m = ''HEAD'' then M_Head else if m = ''PUT'' then M_Put
                    else if m = ''DELETE'' then M_Delete else M_Invalid)
           in Inr (k \<noteq> M_Invalid, r\<lparr>rq_method := k\<rparr>))"

fun methodString :: "http_method \<Rightarrow> string" where
  "methodString M_Get = ''GET''"
| "methodString M_Post = ''POST''"
| "methodString M_Head = ''HEAD''"
| "methodString M_Put = ''PUT''"
| "methodString M_Delete = ''DELETE''"
| "methodString M_Invalid = ''UNKNOWN''"

definition c_isspace :: "char \<Rightarrow> bool" where
  \<comment> \<open>\<^verbatim>\<open>isspace\<close> in the C locale\<close>
  "c_isspace c \<longleftrightarrow> c = CHR '' '' \<or> (of_char c :: nat) \<in> {9, 10, 11, 12, 13}"

definition http_trim :: "string \<Rightarrow> string" where
  \<comment> \<open>both loops of \<^verbatim>\<open>addHeader\<close>\<close>
  "http_trim v = rev (dropWhile c_isspace (rev (dropWhile c_isspace v)))"

definition rq_addHeader :: "nat \<Rightarrow> string \<Rightarrow> HttpRequest \<Rightarrow> HttpRequest" where
  \<comment> \<open>the line and the offset of its colon\<close>
  "rq_addHeader colon line r =
     r\<lparr>rq_headers := smap_put (take colon line) (http_trim (drop (colon + 1) line)) (rq_headers r)\<rparr>"

definition getHeader :: "string \<Rightarrow> HttpRequest \<Rightarrow> string" where
  "getHeader field r = (case map_of (rq_headers r) field of None \<Rightarrow> [] | Some v \<Rightarrow> v)"

section \<open>Parsing\<close>

datatype parse_state = kExpectRequestLine | kExpectHeaders | kExpectBody | kGotAll

record HttpContext =
  hc_state :: parse_state
  hc_request :: HttpRequest

definition HttpContext_new :: HttpContext where
  "HttpContext_new = \<lparr>hc_state = kExpectRequestLine, hc_request = HttpRequest_new\<rparr>"

definition hc_reset :: "HttpContext \<Rightarrow> HttpContext" where
  "hc_reset c = c\<lparr>hc_state := kExpectRequestLine, hc_request := HttpRequest_new\<rparr>"

definition gotAll :: "HttpContext \<Rightarrow> bool" where "gotAll c \<longleftrightarrow> hc_state c = kGotAll"

definition set_target :: "string \<Rightarrow> HttpRequest \<Rightarrow> HttpRequest" where
  \<comment> \<open>\<^verbatim>\<open>setPath\<close> and \<^verbatim>\<open>setQuery\<close>: the query keeps its question mark\<close>
  "set_target target r =
     (case index_where (\<lambda>c. c = CHR ''?'') target of
        Some question \<Rightarrow> r\<lparr>rq_path := take question target, rq_query := drop question target\<rparr>
      | None \<Rightarrow> r\<lparr>rq_path := target\<rparr>)"

definition processRequestLine :: "string \<Rightarrow> HttpRequest \<Rightarrow> (bool \<times> HttpRequest) res" where
  "processRequestLine line r =
     (case index_where (\<lambda>c. c = CHR '' '') line of
        None \<Rightarrow> Inr (False, r)
      | Some i \<Rightarrow>
        rbind (setMethod (take i line) r) (\<lambda>(known, r1).
          if \<not> known then Inr (False, r1)
          else let start = drop (i + 1) line
               in case index_where (\<lambda>c. c = CHR '' '') start of
                    None \<Rightarrow> Inr (False, r1)
                  | Some j \<Rightarrow>
                    let r2 = set_target (take j start) r1; version = drop (j + 1) start
                    in if length version = 8 \<and> take 7 version = ''HTTP/1.'' then
                         if version ! 7 = CHR ''1'' then Inr (True, r2\<lparr>rq_version := V_Http11\<rparr>)
                         else if version ! 7 = CHR ''0'' then Inr (True, r2\<lparr>rq_version := V_Http10\<rparr>)
                         else Inr (False, r2)
                       else Inr (False, r2)))"

lemma retrieveUntil_less:
  assumes "findCRLF buf = Some crlf" and "retrieveUntil (crlf + 2) buf = Inr buf'"
  shows "readableBytes buf' < readableBytes buf"
  using assms(2) by (auto simp: retrieveUntil_def retrieve_def retrieveAll_def readableBytes_def split: if_splits)

function parseRequest :: "int \<Rightarrow> HttpContext \<Rightarrow> Buffer \<Rightarrow> (bool \<times> HttpContext \<times> Buffer) res" where
  "parseRequest receiveTime c buf =
     (case hc_state c of
        kExpectRequestLine \<Rightarrow>
          (case findCRLF buf of
             None \<Rightarrow> Inr (True, c, buf)
           | Some crlf \<Rightarrow>
             rbind (processRequestLine (bytes_string (peek crlf buf)) (hc_request c)) (\<lambda>(ok, r).
               if ok then
                 rbind (retrieveUntil (crlf + 2) buf) (\<lambda>buf'.
                   parseRequest receiveTime
                     (c\<lparr>hc_state := kExpectHeaders, hc_request := r\<lparr>rq_receiveTime := receiveTime\<rparr>\<rparr>) buf')
               else Inr (False, c\<lparr>hc_request := r\<rparr>, buf)))
      | kExpectHeaders \<Rightarrow>
          (case findCRLF buf of
             None \<Rightarrow> Inr (True, c, buf)
           | Some crlf \<Rightarrow>
             (case index_where (\<lambda>x. x = CHR '':'') (bytes_string (peek crlf buf)) of
                Some colon \<Rightarrow>
                  rbind (retrieveUntil (crlf + 2) buf) (\<lambda>buf'.
                    parseRequest receiveTime
                      (c\<lparr>hc_request := rq_addHeader colon (bytes_string (peek crlf buf)) (hc_request c)\<rparr>) buf')
              | None \<Rightarrow> rbind (retrieveUntil (crlf + 2) buf) (\<lambda>buf'. Inr (True, c\<lparr>hc_state := kGotAll\<rparr>, buf'))))
      | _ \<Rightarrow> Inl Diverges)"
  by pat_completeness auto
termination
proof (relation "measure (\<lambda>(t, c, buf). readableBytes buf)")
qed (simp_all add: retrieveUntil_less)

section \<open>The parser on text\<close>

definition CRLF :: string where "CRLF = [CHR 0x0D, CHR 0x0A]"

function parse_text :: "int \<Rightarrow> HttpContext \<Rightarrow> string \<Rightarrow> (bool \<times> HttpContext \<times> string) res" where
  "parse_text t c s =
     (case hc_state c of
        kExpectRequestLine \<Rightarrow>
          (case str_find CRLF s of
             None \<Rightarrow> Inr (True, c, s)
           | Some i \<Rightarrow>
             rbind (processRequestLine (take i s) (hc_request c)) (\<lambda>(ok, r).
               if ok then parse_text t (c\<lparr>hc_state := kExpectHeaders, hc_request := r\<lparr>rq_receiveTime := t\<rparr>\<rparr>) (drop (i + 2) s)
               else Inr (False, c\<lparr>hc_request := r\<rparr>, s)))
      | kExpectHeaders \<Rightarrow>
          (case str_find CRLF s of
             None \<Rightarrow> Inr (True, c, s)
           | Some i \<Rightarrow>
             (case index_where (\<lambda>x. x = CHR '':'') (take i s) of
                Some colon \<Rightarrow> parse_text t (c\<lparr>hc_request := rq_addHeader colon (take i s) (hc_request c)\<rparr>) (drop (i + 2) s)
              | None \<Rightarrow> Inr (True, c\<lparr>hc_state := kGotAll\<rparr>, drop (i + 2) s)))
      | _ \<Rightarrow> Inl Diverges)"
  by pat_completeness auto
termination
proof (relation "measure (\<lambda>(t, c, s). length s)")
qed (auto dest!: str_find_Some simp: CRLF_def)

declare parseRequest.simps [simp del] parse_text.simps [simp del]

definition buffer_text :: "Buffer \<Rightarrow> string" where
  "buffer_text b = bytes_string (content b)"

lemma findCRLF_text: "findCRLF b = str_find CRLF (buffer_text b)"
proof -
  have "bytes_string kCRLF = CRLF" by code_simp
  with str_find_map [OF char_of_byte_inj, of kCRLF "content b"] show ?thesis
    by (simp add: findCRLF_def peek_all buffer_text_def bytes_string_def)
qed

lemma line_of_buffer:
  assumes "buffer_ok b" and "findCRLF b = Some i"
  shows "bytes_string (peek i b) = take i (buffer_text b)"
    and "\<exists>b'. retrieveUntil (i + 2) b = Inr b' \<and> buffer_ok b' \<and> buffer_text b' = drop (i + 2) (buffer_text b)"
proof -
  obtain u v where s: "buffer_text b = u @ CRLF @ v" "length u = i"
    using assms(2) str_find_Some [of CRLF "buffer_text b" i] by (auto simp: findCRLF_text)
  have "length (buffer_text b) = readableBytes b"
    by (simp add: buffer_text_def length_content assms(1))
  with s have fit: "i + 2 \<le> readableBytes b" by (simp add: CRLF_def)
  then show "bytes_string (peek i b) = take i (buffer_text b)" by (simp add: peek_content buffer_text_def)
  have "i + 2 \<le> length (content b)" using fit length_content [OF assms(1)] by simp
  from retrieve_ok [OF assms(1) this] fit
  show "\<exists>b'. retrieveUntil (i + 2) b = Inr b' \<and> buffer_ok b' \<and> buffer_text b' = drop (i + 2) (buffer_text b)"
    by (auto simp: retrieveUntil_def buffer_text_def)
qed

lemma parseRequest_text:
  assumes "buffer_ok buf"
  shows "case parseRequest t c buf of
      Inl e \<Rightarrow> parse_text t c (buffer_text buf) = Inl e
    | Inr (ok, c', buf') \<Rightarrow> buffer_ok buf' \<and> parse_text t c (buffer_text buf) = Inr (ok, c', buffer_text buf')"
  using assms
proof (induction t c buf rule: parseRequest.induct)
  case (1 t c buf)
  note IH = "1.IH" and ok = "1.prems"
  show ?case
  proof (cases "findCRLF buf")
    case None
    then show ?thesis using ok
      by (cases "hc_state c") (simp_all add: parseRequest.simps [of t c buf] parse_text.simps [of t c] findCRLF_text)
  next
    case (Some i)
    obtain b' where b': "retrieveUntil (i + 2) buf = Inr b'" "buffer_ok b'" "buffer_text b' = drop (i + 2) (buffer_text buf)"
      using line_of_buffer(2) [OF ok Some] by blast
    note line = line_of_buffer(1) [OF ok Some]
    have f: "str_find CRLF (buffer_text buf) = Some i" using Some by (simp add: findCRLF_text)
    show ?thesis
    proof (cases "hc_state c")
      case kExpectRequestLine
      show ?thesis
      proof (cases "processRequestLine (take i (buffer_text buf)) (hc_request c)")
        case (Inr p)
        obtain good r where p: "p = (good, r)" by (cases p)
        let ?c = "c\<lparr>hc_state := kExpectHeaders, hc_request := r\<lparr>rq_receiveTime := t\<rparr>\<rparr>"
        have "parseRequest t c buf = (if good then parseRequest t ?c b' else Inr (False, c\<lparr>hc_request := r\<rparr>, buf))"
          using Inr p b' line kExpectRequestLine Some by (simp add: parseRequest.simps [of t c buf])
        moreover have "parse_text t c (buffer_text buf)
            = (if good then parse_text t ?c (buffer_text b') else Inr (False, c\<lparr>hc_request := r\<rparr>, buffer_text buf))"
          using Inr p b' f kExpectRequestLine by (simp add: parse_text.simps [of t c "buffer_text buf"])
        ultimately show ?thesis
          using IH(1) [OF kExpectRequestLine Some, of p good r b'] Inr p b' line ok
          by (cases good; cases "parseRequest t ?c b'") auto
      qed (simp add: parseRequest.simps [of t c buf] parse_text.simps [of t c "buffer_text buf"] kExpectRequestLine Some f line)
    next
      case kExpectHeaders
      show ?thesis
      proof (cases "index_where (\<lambda>x. x = CHR '':'') (take i (buffer_text buf))")
        case (Some colon)
        let ?c = "c\<lparr>hc_request := rq_addHeader colon (take i (buffer_text buf)) (hc_request c)\<rparr>"
        have "parseRequest t c buf = parseRequest t ?c b'"
          using Some b' line kExpectHeaders \<open>findCRLF buf = Some i\<close> by (simp add: parseRequest.simps [of t c buf])
        moreover have "parse_text t c (buffer_text buf) = parse_text t ?c (buffer_text b')"
          using Some b' f kExpectHeaders by (simp add: parse_text.simps [of t c "buffer_text buf"])
        ultimately show ?thesis
          using IH(2) [OF kExpectHeaders \<open>findCRLF buf = Some i\<close>, of colon b'] Some b' line
          by (cases "parseRequest t ?c b'") auto
      next
        case None
        then show ?thesis using b' line f kExpectHeaders \<open>findCRLF buf = Some i\<close>
          by (simp add: parseRequest.simps [of t c buf] parse_text.simps [of t c "buffer_text buf"])
      qed
    qed (simp_all add: parseRequest.simps [of t c buf] parse_text.simps [of t c "buffer_text buf"])
  qed
qed

section \<open>Text that comes in pieces\<close>

text \<open>
  What the parser does with a text is decided by the text it has: if it finished or failed on a
  part, the rest changes nothing and stays; if not, it continues from where it stopped.
\<close>

lemma parse_text_extend:
  "case parse_text t c s of
     Inl e \<Rightarrow> parse_text t c (s @ ys) = Inl e
   | Inr (b, c', rest) \<Rightarrow> parse_text t c (s @ ys) = (if b \<and> \<not> gotAll c' then parse_text t c' (rest @ ys) else Inr (b, c', rest @ ys))"
proof (induction t c s rule: parse_text.induct)
  case (1 t c s)
  note unfold = parse_text.simps [of t c s] parse_text.simps [of t c "s @ ys"]
  show ?case
  proof (cases "str_find CRLF s")
    case None
    then show ?thesis
      by (cases "hc_state c") (simp_all add: parse_text.simps [of t c s] gotAll_def, simp_all add: parse_text.simps [of t c])
  next
    case (Some i)
    have line: "take i (s @ ys) = take i s" "drop (Suc (Suc i)) (s @ ys) = drop (Suc (Suc i)) s @ ys" "str_find CRLF (s @ ys) = Some i"
      using str_find_Some [OF Some] str_find_extend [OF Some, of ys] by (auto simp: CRLF_def)
    show ?thesis
    proof (cases "hc_state c")
      case kExpectRequestLine
      show ?thesis
      proof (cases "processRequestLine (take i s) (hc_request c)")
        case (Inr p)
        obtain good r where p: "p = (good, r)" by (cases p)
        let ?c = "c\<lparr>hc_state := kExpectHeaders, hc_request := r\<lparr>rq_receiveTime := t\<rparr>\<rparr>"
        have "parse_text t c s = (if good then parse_text t ?c (drop (i + 2) s) else Inr (False, c\<lparr>hc_request := r\<rparr>, s))"
          "parse_text t c (s @ ys)
            = (if good then parse_text t ?c (drop (i + 2) s @ ys) else Inr (False, c\<lparr>hc_request := r\<rparr>, s @ ys))"
          using Inr p kExpectRequestLine Some by (simp_all add: unfold line del: take_append drop_append)
        then show ?thesis
          using "1.IH"(1) [OF kExpectRequestLine Some, of p good r] Inr p
          by (cases good; cases "parse_text t ?c (drop (i + 2) s)") auto
      qed (simp add: unfold kExpectRequestLine Some line del: take_append drop_append)
    next
      case kExpectHeaders
      show ?thesis
      proof (cases "index_where (\<lambda>x. x = CHR '':'') (take i s)")
        case colon: (Some k)
        let ?c = "c\<lparr>hc_request := rq_addHeader k (take i s) (hc_request c)\<rparr>"
        have "parse_text t c s = parse_text t ?c (drop (i + 2) s)"
          "parse_text t c (s @ ys) = parse_text t ?c (drop (i + 2) s @ ys)"
          using colon kExpectHeaders Some by (simp_all add: unfold line del: take_append drop_append)
        then show ?thesis
          using "1.IH"(2) [OF kExpectHeaders Some colon]
          by (cases "parse_text t ?c (drop (i + 2) s)") auto
      next
        case None
        then show ?thesis using kExpectHeaders Some by (simp add: unfold line gotAll_def del: take_append drop_append)
      qed
    qed (simp_all add: unfold)
  qed
qed

definition untimed :: "HttpContext \<Rightarrow> HttpContext" where
  "untimed c = c\<lparr>hc_request := (hc_request c)\<lparr>rq_receiveTime := 0\<rparr>\<rparr>"

fun untimed_result :: "(bool \<times> HttpContext \<times> string) res \<Rightarrow> (bool \<times> HttpContext \<times> string) res" where
  "untimed_result (Inl e) = Inl e"
| "untimed_result (Inr (b, c, rest)) = Inr (b, untimed c, rest)"

lemma request_untimed_iff:
  "r\<lparr>rq_receiveTime := n\<rparr> = r'\<lparr>rq_receiveTime := n\<rparr> \<longleftrightarrow>
     rq_method r = rq_method r' \<and> rq_version r = rq_version r' \<and> rq_path r = rq_path r'
     \<and> rq_query r = rq_query r' \<and> rq_headers r = rq_headers r'" for r r' :: HttpRequest
  by (cases r; cases r') auto

lemma untimed_iff:
  "untimed c = untimed d \<longleftrightarrow> hc_state c = hc_state d
     \<and> (hc_request c)\<lparr>rq_receiveTime := 0\<rparr> = (hc_request d)\<lparr>rq_receiveTime := 0\<rparr>"
  by (cases c; cases d) (auto simp: untimed_def)

lemma setMethod_untimed:
  "setMethod m (r\<lparr>rq_receiveTime := 0\<rparr>) = map_sum id (\<lambda>(b, r). (b, r\<lparr>rq_receiveTime := 0\<rparr>)) (setMethod m r)"
  by (simp add: setMethod_def Let_def)

lemma processRequestLine_untimed:
  "processRequestLine line (r\<lparr>rq_receiveTime := 0\<rparr>)
   = map_sum id (\<lambda>(b, r). (b, r\<lparr>rq_receiveTime := 0\<rparr>)) (processRequestLine line r)"
proof (cases "index_where (\<lambda>c. c = CHR '' '') line")
  case (Some i)
  then show ?thesis
    by (cases "setMethod (take i line) r")
      (auto simp: processRequestLine_def setMethod_untimed set_target_def Let_def split: option.splits prod.splits)
qed (simp add: processRequestLine_def)

lemma parse_text_untimed: "untimed c = untimed d \<Longrightarrow> untimed_result (parse_text u d s) = untimed_result (parse_text t c s)"
proof (induction t c s arbitrary: d rule: parse_text.induct)
  case (1 t c s)
  have st: "hc_state d = hc_state c" and rq: "(hc_request d)\<lparr>rq_receiveTime := 0\<rparr> = (hc_request c)\<lparr>rq_receiveTime := 0\<rparr>"
    using "1.prems" by (simp_all add: untimed_iff)
  show ?case
  proof (cases "str_find CRLF s")
    case None
    then show ?thesis using "1.prems" st
      by (cases "hc_state c") (simp_all add: parse_text.simps [of t c s] parse_text.simps [of u d s])
  next
    case (Some i)
    show ?thesis
    proof (cases "hc_state c")
      case kExpectRequestLine
      have same: "map_sum id (\<lambda>(b, r). (b, r\<lparr>rq_receiveTime := 0\<rparr>)) (processRequestLine (take i s) (hc_request d))
          = map_sum id (\<lambda>(b, r). (b, r\<lparr>rq_receiveTime := 0\<rparr>)) (processRequestLine (take i s) (hc_request c))"
        using rq by (metis processRequestLine_untimed)
      show ?thesis
      proof (cases "processRequestLine (take i s) (hc_request c)")
        case (Inl e)
        with same have "processRequestLine (take i s) (hc_request d) = Inl e"
          by (cases "processRequestLine (take i s) (hc_request d)") auto
        with Inl show ?thesis using kExpectRequestLine st Some
          by (simp add: parse_text.simps [of t c s] parse_text.simps [of u d s])
      next
        case (Inr p)
        obtain good r where p: "p = (good, r)" by (cases p)
        obtain r' where r': "processRequestLine (take i s) (hc_request d) = Inr (good, r')"
            "r'\<lparr>rq_receiveTime := 0\<rparr> = r\<lparr>rq_receiveTime := 0\<rparr>"
          using same Inr p by (cases "processRequestLine (take i s) (hc_request d)") auto
        have "untimed (c\<lparr>hc_state := kExpectHeaders, hc_request := r\<lparr>rq_receiveTime := t\<rparr>\<rparr>)
            = untimed (d\<lparr>hc_state := kExpectHeaders, hc_request := r'\<lparr>rq_receiveTime := u\<rparr>\<rparr>)"
            "untimed (c\<lparr>hc_request := r\<rparr>) = untimed (d\<lparr>hc_request := r'\<rparr>)"
          using r'(2) st by (simp_all add: untimed_iff request_untimed_iff)
        with "1.IH"(1) [OF kExpectRequestLine Some, of p good r
            "d\<lparr>hc_state := kExpectHeaders, hc_request := r'\<lparr>rq_receiveTime := u\<rparr>\<rparr>"] Inr p r'(1) show ?thesis
          using kExpectRequestLine st Some
          by (cases good) (simp_all add: parse_text.simps [of t c s] parse_text.simps [of u d s])
      qed
    next
      case kExpectHeaders
      show ?thesis
      proof (cases "index_where (\<lambda>x. x = CHR '':'') (take i s)")
        case colon: (Some k)
        have "untimed (c\<lparr>hc_request := rq_addHeader k (take i s) (hc_request c)\<rparr>)
            = untimed (d\<lparr>hc_request := rq_addHeader k (take i s) (hc_request d)\<rparr>)"
          using rq st by (simp add: untimed_iff rq_addHeader_def request_untimed_iff)
        from "1.IH"(2) [OF kExpectHeaders Some colon this] show ?thesis
          using kExpectHeaders st Some colon
          by (simp add: parse_text.simps [of t c s] parse_text.simps [of u d s])
      next
        case None
        have "untimed (c\<lparr>hc_state := kGotAll\<rparr>) = untimed (d\<lparr>hc_state := kGotAll\<rparr>)"
          using rq by (simp add: untimed_iff)
        then show ?thesis using kExpectHeaders st Some None
          by (simp add: parse_text.simps [of t c s] parse_text.simps [of u d s])
      qed
    qed (use st in \<open>simp_all add: parse_text.simps [of t c s] parse_text.simps [of u d s]\<close>)
  qed
qed

section \<open>Request texts\<close>

definition version_text :: "http_version \<Rightarrow> string" where
  "version_text v = (if v = V_Http11 then ''HTTP/1.1'' else ''HTTP/1.0'')"

definition line_text :: "http_method \<Rightarrow> string \<Rightarrow> string \<Rightarrow> string" where
  "line_text m target version = methodString m @ '' '' @ target @ '' '' @ version"

definition header_text :: "string \<times> string \<Rightarrow> string" where
  "header_text h = fst h @ '': '' @ snd h @ CRLF"

definition request_text :: "http_method \<Rightarrow> http_version \<Rightarrow> string \<Rightarrow> string \<Rightarrow> (string \<times> string) list \<Rightarrow> string" where
  "request_text m v path query hs =
     line_text m (path @ query) (version_text v) @ CRLF @ concat (map header_text hs) @ CRLF"

definition target_ok :: "string \<Rightarrow> string \<Rightarrow> bool" where
  "target_ok path query \<longleftrightarrow> (\<forall>c\<in>set path. c \<notin> {CHR '' '', CHR ''?'', CHR 0x0D})
     \<and> (\<forall>c\<in>set query. c \<notin> {CHR '' '', CHR 0x0D}) \<and> (query = [] \<or> hd query = CHR ''?'')"

definition header_ok :: "string \<times> string \<Rightarrow> bool" where
  "header_ok h \<longleftrightarrow> (\<forall>c\<in>set (fst h). c \<notin> {CHR '':'', CHR 0x0D}) \<and> CHR 0x0D \<notin> set (snd h) \<and> http_trim (snd h) = snd h"

definition request_of ::
    "http_method \<Rightarrow> http_version \<Rightarrow> string \<Rightarrow> string \<Rightarrow> int \<Rightarrow> (string \<times> string) list \<Rightarrow> HttpRequest" where
  \<comment> \<open>the headers as a map in which the last field of a name counts\<close>
  "request_of m v path query t hs = \<lparr>rq_method = m, rq_version = v, rq_path = path, rq_query = query,
     rq_receiveTime = t, rq_headers = foldl (\<lambda>hm (k, x). smap_put k x hm) [] hs\<rparr>"

lemma index_where_skip: "\<forall>c\<in>set u. \<not> P c \<Longrightarrow> index_where P (u @ v) = map_option (\<lambda>i. length u + i) (index_where P v)"
  by (induction u) (cases "index_where P v"; simp)+

lemma find_CRLF: "CHR 0x0D \<notin> set line \<Longrightarrow> str_find CRLF (line @ CRLF @ rest) = Some (length line)"
  by (induction line) (auto simp: CRLF_def)

lemma cut_line: "take (length line) (line @ CRLF @ rest) = line" "drop (length line + 2) (line @ CRLF @ rest) = rest"
  by (simp_all add: CRLF_def)

lemma methodString_ok:
  "m \<noteq> M_Invalid \<Longrightarrow> rq_method r = M_Invalid \<Longrightarrow> setMethod (methodString m) r = Inr (True, r\<lparr>rq_method := m\<rparr>)"
  by (cases m) (simp_all add: setMethod_def)

lemma methodString_chars: "\<forall>c\<in>set (methodString m). c \<notin> {CHR '' '', CHR 0x0D}"
  by (cases m) simp_all

lemma processRequestLine_text:
  assumes m: "m \<noteq> M_Invalid" and r: "rq_method r = M_Invalid" and t: "\<forall>c\<in>set target. c \<noteq> CHR '' ''"
  shows "processRequestLine (line_text m target version) r =
    (let r2 = set_target target (r\<lparr>rq_method := m\<rparr>)
     in if version = ''HTTP/1.1'' then Inr (True, r2\<lparr>rq_version := V_Http11\<rparr>)
        else if version = ''HTTP/1.0'' then Inr (True, r2\<lparr>rq_version := V_Http10\<rparr>) else Inr (False, r2))"
proof -
  let ?line = "line_text m target version"
  have i: "index_where (\<lambda>c. c = CHR '' '') ?line = Some (length (methodString m))"
    unfolding line_text_def using methodString_chars [of m] by simp
  have j: "index_where (\<lambda>c. c = CHR '' '') (target @ '' '' @ version) = Some (length target)"
    using t by simp
  have d: "drop (length (methodString m) + 1) ?line = target @ '' '' @ version" "take (length (methodString m)) ?line = methodString m"
    by (simp_all add: line_text_def)
  have v: "length version = 8 \<and> take 7 version = ''HTTP/1.'' \<longleftrightarrow> (\<exists>c. version = ''HTTP/1.'' @ [c])"
  proof
    assume a: "length version = 8 \<and> take 7 version = ''HTTP/1.''"
    then have "take (Suc 7) version = take 7 version @ [version ! 7]" by (intro take_Suc_conv_app_nth) simp
    moreover have "take (Suc 7) version = version" using a by simp
    ultimately have "version = take 7 version @ [version ! 7]" by simp
    with a show "\<exists>c. version = ''HTTP/1.'' @ [c]" by metis
  qed auto
  have line: "processRequestLine ?line r = (let r2 = set_target target (r\<lparr>rq_method := m\<rparr>)
      in if length version = 8 \<and> take 7 version = ''HTTP/1.'' then
           if version ! 7 = CHR ''1'' then Inr (True, r2\<lparr>rq_version := V_Http11\<rparr>)
           else if version ! 7 = CHR ''0'' then Inr (True, r2\<lparr>rq_version := V_Http10\<rparr>) else Inr (False, r2)
         else Inr (False, r2))"
    unfolding processRequestLine_def i option.case d methodString_ok [OF m r] rbind_Inr prod.case Let_def j
    by simp
  show ?thesis
  proof (cases "\<exists>c. version = ''HTTP/1.'' @ [c]")
    case True
    then obtain c where c: "version = ''HTTP/1.'' @ [c]" by blast
    have "version ! 7 = c" unfolding c by simp
    moreover have "version = ''HTTP/1.1'' \<longleftrightarrow> c = CHR ''1''" "version = ''HTTP/1.0'' \<longleftrightarrow> c = CHR ''0''"
      unfolding c by simp_all
    ultimately show ?thesis using line v True by (simp add: Let_def)
  next
    case False
    moreover from this have "version \<noteq> ''HTTP/1.1''" "version \<noteq> ''HTTP/1.0''" by auto
    ultimately show ?thesis unfolding line Let_def using v by (simp only: if_False simp_thms)
  qed
qed

lemma set_target_text:
  assumes "target_ok path query"
  shows "set_target (path @ query) r
     = (if query = [] then r\<lparr>rq_path := path\<rparr> else r\<lparr>rq_path := path, rq_query := query\<rparr>)"
proof (cases query)
  case Nil
  then have "index_where (\<lambda>c. c = CHR ''?'') (path @ query) = None"
    using assms by (auto simp: target_ok_def index_where_None)
  with Nil show ?thesis by (simp add: set_target_def)
next
  case (Cons c q)
  with assms have "index_where (\<lambda>c. c = CHR ''?'') (path @ query) = Some (length path)"
    by (auto simp: target_ok_def intro!: index_where_append)
  with Cons show ?thesis by (simp add: set_target_def)
qed

lemma trim_space: "http_trim (CHR '' '' # v) = http_trim v"
  by (simp add: http_trim_def c_isspace_def)

lemma parse_headers:
  assumes "\<forall>h\<in>set hs. header_ok h" and "hc_state c = kExpectHeaders"
  shows "parse_text t c (concat (map header_text hs) @ CRLF @ rest) = Inr (True,
    c\<lparr>hc_state := kGotAll, hc_request := (hc_request c)\<lparr>rq_headers :=
      foldl (\<lambda>hm (k, x). smap_put k x hm) (rq_headers (hc_request c)) hs\<rparr>\<rparr>, rest)"
  using assms
proof (induction hs arbitrary: c)
  case Nil
  have "str_find CRLF (CRLF @ rest) = Some 0" using find_CRLF [of "[]" rest] by simp
  with Nil show ?case by (simp add: parse_text.simps [of t c] CRLF_def)
next
  case (Cons h hs)
  let ?line = "fst h @ '': '' @ snd h" and ?rest = "concat (map header_text hs) @ CRLF @ rest"
  let ?c = "c\<lparr>hc_request := rq_addHeader (length (fst h)) ?line (hc_request c)\<rparr>"
  have h: "header_ok h" using Cons.prems(1) by simp
  have "CHR 0x0D \<notin> set ?line" using h by (auto simp: header_ok_def)
  from find_CRLF [OF this] have f: "str_find CRLF (?line @ CRLF @ ?rest) = Some (length ?line)" by blast
  have k: "index_where (\<lambda>x. x = CHR '':'') ?line = Some (length (fst h))"
    using h index_where_append [of "fst h" "\<lambda>x. x = CHR '':''" "CHR '':''" "'' '' @ snd h"] by (auto simp: header_ok_def)
  have "parse_text t c (?line @ CRLF @ ?rest) = parse_text t ?c ?rest"
    unfolding parse_text.simps [of t c] Cons.prems(2) parse_state.case f option.case cut_line k ..
  also have "rq_addHeader (length (fst h)) ?line (hc_request c)
      = (hc_request c)\<lparr>rq_headers := smap_put (fst h) (snd h) (rq_headers (hc_request c))\<rparr>"
    using h by (simp add: rq_addHeader_def header_ok_def trim_space)
  finally have step: "parse_text t c (?line @ CRLF @ ?rest) = parse_text t (c\<lparr>hc_request := (hc_request c)\<lparr>rq_headers :=
      smap_put (fst h) (snd h) (rq_headers (hc_request c))\<rparr>\<rparr>) ?rest" .
  have "concat (map header_text (h # hs)) @ CRLF @ rest = ?line @ CRLF @ ?rest" by (simp add: header_text_def)
  with step Cons.IH [of "c\<lparr>hc_request := (hc_request c)\<lparr>rq_headers := smap_put (fst h) (snd h) (rq_headers (hc_request c))\<rparr>\<rparr>"]
    Cons.prems show ?case by (cases h) simp
qed

lemma parse_request_text:
  assumes "m \<noteq> M_Invalid" "v \<noteq> V_Unknown" "target_ok path query" "\<forall>h\<in>set hs. header_ok h"
  shows "parse_text t HttpContext_new (request_text m v path query hs @ rest)
    = Inr (True, \<lparr>hc_state = kGotAll, hc_request = request_of m v path query t hs\<rparr>, rest)"
proof -
  let ?line = "line_text m (path @ query) (version_text v)" and ?rest = "concat (map header_text hs) @ CRLF @ rest"
  have t: "\<forall>c\<in>set (path @ query). c \<noteq> CHR '' ''" and cr: "CHR 0x0D \<notin> set (path @ query)"
    using assms(3) by (auto simp: target_ok_def)
  have "CHR 0x0D \<notin> set ?line"
    using cr methodString_chars [of m] by (auto simp: line_text_def version_text_def)
  from find_CRLF [OF this] have f: "str_find CRLF (?line @ CRLF @ ?rest) = Some (length ?line)" by blast
  let ?r = "\<lparr>rq_method = m, rq_version = v, rq_path = path, rq_query = query, rq_receiveTime = 0, rq_headers = []\<rparr>"
  have p: "processRequestLine ?line HttpRequest_new = Inr (True, ?r)"
    using assms(2) processRequestLine_text [OF assms(1) _ t, of HttpRequest_new "version_text v"]
    by (cases v) (auto simp: version_text_def HttpRequest_new_def set_target_text [OF assms(3)])
  have new: "hc_state HttpContext_new = kExpectRequestLine" "hc_request HttpContext_new = HttpRequest_new"
    by (simp_all add: HttpContext_new_def)
  have "parse_text t HttpContext_new (?line @ CRLF @ ?rest)
      = parse_text t \<lparr>hc_state = kExpectHeaders, hc_request = ?r\<lparr>rq_receiveTime := t\<rparr>\<rparr> ?rest"
    unfolding parse_text.simps [of t HttpContext_new] new parse_state.case f option.case cut_line p rbind_Inr prod.case
    by (simp add: HttpContext_new_def)
  also have "\<dots> = Inr (True, \<lparr>hc_state = kGotAll, hc_request = request_of m v path query t hs\<rparr>, rest)"
    using parse_headers [OF assms(4), of "\<lparr>hc_state = kExpectHeaders, hc_request = ?r\<lparr>rq_receiveTime := t\<rparr>\<rparr>" t rest]
    by (simp add: request_of_def)
  finally show ?thesis by (simp add: request_text_def)
qed

section \<open>Responses\<close>

record HttpResponse =
  rp_headers :: "(string, string) smap"
  rp_statusCode :: int
  rp_statusMessage :: string
  rp_closeConnection :: bool
  rp_body :: string

definition HttpResponse_new :: "bool \<Rightarrow> HttpResponse" where
  "HttpResponse_new close = \<lparr>rp_headers = [], rp_statusCode = 0, rp_statusMessage = [],
     rp_closeConnection = close, rp_body = []\<rparr>"

definition setContentType :: "string \<Rightarrow> HttpResponse \<Rightarrow> HttpResponse" where
  "setContentType contentType r = r\<lparr>rp_headers := smap_put ''Content-Type'' contentType (rp_headers r)\<rparr>"

definition response_pieces :: "HttpResponse \<Rightarrow> string list" where
  \<comment> \<open>what \<^verbatim>\<open>appendToBuffer\<close> appends, call by call; \<^verbatim>\<open>snprintf\<close> writes at most 31 characters\<close>
  "response_pieces r =
     [take 31 (''HTTP/1.1 '' @ to_string_int (rp_statusCode r) @ '' ''), rp_statusMessage r, CRLF]
     @ (if rp_closeConnection r then [''Connection: close'' @ CRLF]
        else [take 31 (''Content-Length: '' @ to_string_nat (length (rp_body r)) @ CRLF), ''Connection: Keep-Alive'' @ CRLF])
     @ concat (map (\<lambda>(k, v). [k, '': '', v, CRLF]) (rp_headers r))
     @ [CRLF, rp_body r]"

definition appendToBuffer :: "HttpResponse \<Rightarrow> Buffer \<Rightarrow> Buffer res" where
  "appendToBuffer r output = append_list (map string_bytes (response_pieces r)) output"

definition response_text :: "HttpResponse \<Rightarrow> string" where
  "response_text r = concat (response_pieces r)"

section \<open>The server on a connection\<close>

definition defaultHttpCallback :: "HttpRequest \<Rightarrow> HttpResponse \<Rightarrow> HttpResponse" where
  "defaultHttpCallback req resp =
     resp\<lparr>rp_statusCode := 404, rp_statusMessage := ''Not Found'', rp_closeConnection := True\<rparr>"

definition http_onConnection :: "HttpContext option \<times> TcpConnection \<Rightarrow> HttpContext option \<times> TcpConnection" where
  "http_onConnection s = (if tc_state (snd s) = kConnected then (Some HttpContext_new, snd s) else s)"

definition wants_close :: "HttpRequest \<Rightarrow> bool" where
  \<comment> \<open>\<^verbatim>\<open>close\<close> of \<^verbatim>\<open>onRequest\<close>\<close>
  "wants_close req \<longleftrightarrow> getHeader ''Connection'' req = ''close''
     \<or> (rq_version req = V_Http10 \<and> getHeader ''Connection'' req \<noteq> ''Keep-Alive'')"

definition http_onRequest ::
    "(HttpRequest \<Rightarrow> HttpResponse \<Rightarrow> HttpResponse) \<Rightarrow> write_result \<Rightarrow> HttpRequest \<Rightarrow> TcpConnection \<Rightarrow> TcpConnection res" where
  "http_onRequest cb w req c =
     (let response = cb req (HttpResponse_new (wants_close req))
      in rbind (appendToBuffer response (Buffer_new kInitialSize)) (\<lambda>buf.
         rbind (retrieveAllAsString buf) (\<lambda>(message, _).
           run_calls (Send message w # (if rp_closeConnection response then [Shutdown] else [])) c)))"

definition bad_request :: string where
  "bad_request = ''HTTP/1.1 400 Bad Request'' @ CRLF @ CRLF"

definition http_onMessage ::
    "(HttpRequest \<Rightarrow> HttpResponse \<Rightarrow> HttpResponse) \<Rightarrow> write_result \<Rightarrow> int
     \<Rightarrow> HttpContext option \<times> TcpConnection \<Rightarrow> (HttpContext option \<times> TcpConnection) res" where
  \<comment> \<open>at most one of the two messages is sent, so one result of \<^verbatim>\<open>write\<close> is enough\<close>
  "http_onMessage cb w receiveTime = (\<lambda>(context, c).
     case context of
       None \<Rightarrow> Inl Null_Deref
     | Some ctx \<Rightarrow>
       rbind (parseRequest receiveTime ctx (tc_inputBuffer c)) (\<lambda>(ok, ctx', buf).
       rbind (if ok then Inr (c\<lparr>tc_inputBuffer := buf\<rparr>)
              else run_calls [Send (string_bytes bad_request) w, Shutdown] (c\<lparr>tc_inputBuffer := buf\<rparr>)) (\<lambda>c'.
         if gotAll ctx' then rbind (http_onRequest cb w (hc_request ctx') c') (\<lambda>c''. Inr (Some (hc_reset ctx'), c''))
         else Inr (Some ctx', c'))))"

fun http_receive ::
    "(HttpRequest \<Rightarrow> HttpResponse \<Rightarrow> HttpResponse) \<Rightarrow> (byte list \<times> int \<times> write_result) list
     \<Rightarrow> HttpContext option \<times> TcpConnection \<Rightarrow> (HttpContext option \<times> TcpConnection) res" where
  \<comment> \<open>data that arrives, the time it arrives at, and what the socket says when it is answered\<close>
  "http_receive cb [] s = Inr s"
| "http_receive cb ((data, t, w) # es) (ctx, c) =
     rbind (buffer_append data (tc_inputBuffer c)) (\<lambda>buf.
     rbind (http_onMessage cb w t (ctx, c\<lparr>tc_inputBuffer := buf\<rparr>)) (http_receive cb es))"

lemma append_pieces:
  assumes "buffer_ok b"
  shows "\<exists>b'. append_list (map string_bytes ps) b = Inr b' \<and> buffer_ok b' \<and> buffer_text b' = buffer_text b @ concat ps"
proof -
  have "bytes_string (concat (map string_bytes ps)) = concat ps" by (induction ps) simp_all
  then show ?thesis using nb.put_list_ok [OF assms, of "map string_bytes ps"]
    by (auto simp: append_list_nb buffer_text_def)
qed

lemma http_onRequest_text:
  "http_onRequest cb w req c =
     (let response = cb req (HttpResponse_new (wants_close req))
      in run_calls (Send (string_bytes (response_text response)) w # (if rp_closeConnection response then [Shutdown] else [])) c)"
proof -
  let ?r = "cb req (HttpResponse_new (wants_close req))"
  have map_back: "concat (map string_bytes ps) = string_bytes (concat ps)" for ps
    by (induction ps) (simp_all add: string_bytes_def)
  obtain b where b: "append_list (map string_bytes (response_pieces ?r)) (Buffer_new kInitialSize) = Inr b"
      "buffer_ok b" "content b = string_bytes (response_text ?r)"
    using nb.put_list_ok [OF nb.fresh_ok(1), of "map string_bytes (response_pieces ?r)"] nb.fresh_ok(2)
    by (auto simp: append_list_nb response_text_def map_back)
  obtain b' where "retrieveAllAsString b = Inr (content b, b')"
    using retrieveAsString_ok(1) [OF b(2), of "readableBytes b"] length_content [OF b(2)]
    by (auto simp: retrieveAllAsString_def)
  with b show ?thesis by (simp add: http_onRequest_def appendToBuffer_def Let_def)
qed

lemma http_onMessage_text:
  assumes "buffer_ok (tc_inputBuffer c)"
  shows "case parse_text t ctx (buffer_text (tc_inputBuffer c)) of
      Inl e \<Rightarrow> http_onMessage cb w t (Some ctx, c) = Inl e
    | Inr (good, ctx', rest) \<Rightarrow> \<exists>b. buffer_ok b \<and> buffer_text b = rest \<and> http_onMessage cb w t (Some ctx, c) =
        rbind (if good then Inr (c\<lparr>tc_inputBuffer := b\<rparr>)
               else run_calls [Send (string_bytes bad_request) w, Shutdown] (c\<lparr>tc_inputBuffer := b\<rparr>)) (\<lambda>c'.
          if gotAll ctx' then rbind (http_onRequest cb w (hc_request ctx') c') (\<lambda>c''. Inr (Some (hc_reset ctx'), c''))
          else Inr (Some ctx', c'))"
  using parseRequest_text [OF assms, of t ctx]
  by (cases "parseRequest t ctx (tc_inputBuffer c)") (auto simp: http_onMessage_def)

lemma http_receive_text:
  assumes "buffer_ok (tc_inputBuffer c)" and "parse_text t ctx (buffer_text (tc_inputBuffer c) @ bytes_string data) = Inr (good, ctx', rest)"
  shows "\<exists>b. buffer_ok b \<and> buffer_text b = rest \<and> (\<forall>es. http_receive cb ((data, t, w) # es) (Some ctx, c) =
    rbind (if good then Inr (c\<lparr>tc_inputBuffer := b\<rparr>)
           else run_calls [Send (string_bytes bad_request) w, Shutdown] (c\<lparr>tc_inputBuffer := b\<rparr>)) (\<lambda>c'.
      if gotAll ctx' then rbind (http_onRequest cb w (hc_request ctx') c') (\<lambda>c''. http_receive cb es (Some (hc_reset ctx'), c''))
      else http_receive cb es (Some ctx', c')))"
proof -
  obtain b where b: "buffer_append data (tc_inputBuffer c) = Inr b" "buffer_ok b"
      "buffer_text b = buffer_text (tc_inputBuffer c) @ bytes_string data"
    using buffer_append_ok [OF assms(1), of data] by (auto simp: buffer_text_def)
  obtain b' where b': "buffer_ok b'" "buffer_text b' = rest" "http_onMessage cb w t (Some ctx, c\<lparr>tc_inputBuffer := b\<rparr>) =
        rbind (if good then Inr (c\<lparr>tc_inputBuffer := b'\<rparr>)
               else run_calls [Send (string_bytes bad_request) w, Shutdown] (c\<lparr>tc_inputBuffer := b'\<rparr>)) (\<lambda>c'.
          if gotAll ctx' then rbind (http_onRequest cb w (hc_request ctx') c') (\<lambda>c''. Inr (Some (hc_reset ctx'), c''))
          else Inr (Some ctx', c'))"
    using http_onMessage_text [of "c\<lparr>tc_inputBuffer := b\<rparr>" cb w t ctx] b(2,3) assms(2) by auto
  have "http_receive cb ((data, t, w) # es) (Some ctx, c) =
    rbind (if good then Inr (c\<lparr>tc_inputBuffer := b'\<rparr>)
           else run_calls [Send (string_bytes bad_request) w, Shutdown] (c\<lparr>tc_inputBuffer := b'\<rparr>)) (\<lambda>c'.
      if gotAll ctx' then rbind (http_onRequest cb w (hc_request ctx') c') (\<lambda>c''. http_receive cb es (Some (hc_reset ctx'), c''))
      else http_receive cb es (Some ctx', c'))" for es
    unfolding http_receive.simps b(1) rbind_Inr b'(3) rbind_assoc
    by (intro rbind_cong refl) (simp add: rbind_assoc)
  with b' show ?thesis by blast
qed

lemma http_receive_fault:
  assumes "buffer_ok (tc_inputBuffer c)" and "parse_text t ctx (buffer_text (tc_inputBuffer c) @ bytes_string data) = Inl e"
  shows "http_receive cb ((data, t, w) # es) (Some ctx, c) = Inl e"
proof -
  obtain b where b: "buffer_append data (tc_inputBuffer c) = Inr b" "buffer_ok b"
      "buffer_text b = buffer_text (tc_inputBuffer c) @ bytes_string data"
    using buffer_append_ok [OF assms(1), of data] by (auto simp: buffer_text_def)
  with http_onMessage_text [of "c\<lparr>tc_inputBuffer := b\<rparr>" cb w t ctx] assms(2) show ?thesis by simp
qed

lemma sendInLoop_input: "sendInLoop w message c = Inr c' \<Longrightarrow> tc_inputBuffer c' = tc_inputBuffer c"
proof (cases "write_now w message c")
  case (Inr p)
  obtain n e c1 where p: "p = (n, e, c1)" by (cases p)
  have "tc_inputBuffer c1 = tc_inputBuffer c"
    using Inr p by (auto simp: write_now_def Let_def split: if_splits write_result.splits)
  moreover assume "sendInLoop w message c = Inr c'"
  ultimately show ?thesis
    using Inr p by (cases "tc_state c = kDisconnected") (auto simp: sendInLoop_def Let_def rbind_eq_Inr_iff split: if_splits)
qed (simp add: sendInLoop_def split: if_splits)

lemma send_keeps_input: "run_calls [Send message w, Shutdown] c = Inr c' \<Longrightarrow> tc_inputBuffer c' = tc_inputBuffer c"
  by (cases "tc_state c = kConnected")
    (auto simp: tcp_send_def tcp_shutdown_def shutdownInLoop_def rbind_eq_Inr_iff dest!: sendInLoop_input)

lemma parse_text_time:
  "parse_text t c s = Inr (good, c', rest) \<Longrightarrow>
   hc_state c' = kExpectRequestLine \<or> rq_receiveTime (hc_request c') = (if hc_state c = kExpectRequestLine then t else rq_receiveTime (hc_request c))"
proof (induction t c s rule: parse_text.induct)
  case (1 t c s)
  show ?case
  proof (cases "str_find CRLF s")
    case None
    with 1(3) show ?thesis by (cases "hc_state c") (auto simp: parse_text.simps [of t c s])
  next
    case (Some i)
    show ?thesis
    proof (cases "hc_state c")
      case kExpectRequestLine
      with 1(3) Some obtain p where p: "processRequestLine (take i s) (hc_request c) = Inr p"
        by (cases "processRequestLine (take i s) (hc_request c)") (auto simp: parse_text.simps [of t c s])
      obtain good r where r: "p = (good, r)" by (cases p)
      from 1(1) [OF kExpectRequestLine Some, of p good r] p r 1(3) show ?thesis
        by (cases good) (auto simp: parse_text.simps [of t c s] kExpectRequestLine Some)
    next
      case kExpectHeaders
      from 1(2) [OF kExpectHeaders Some] 1(3) show ?thesis
        by (auto simp: parse_text.simps [of t c s] kExpectHeaders Some rq_addHeader_def split: option.splits)
    qed (use 1(3) in \<open>simp_all add: parse_text.simps [of t c s]\<close>)
  qed
qed

lemma http_receive_request:
  assumes "buffer_ok (tc_inputBuffer c)" and "es \<noteq> []" and "\<forall>e\<in>set es. fst e \<noteq> []"
    and "untimed_result (parse_text u ctx (buffer_text (tc_inputBuffer c) @ bytes_string (concat (map fst es)))) = Inr (True, fin, [])"
    and "gotAll fin" and "hc_state ctx = kExpectRequestLine \<or> rq_receiveTime (hc_request ctx) \<in> T"
    and "(fst \<circ> snd) ` set es \<subseteq> T"
  shows "\<exists>b d. buffer_ok b \<and> buffer_text b = [] \<and> untimed d = fin \<and> rq_receiveTime (hc_request d) \<in> T \<and> http_receive cb es (Some ctx, c) =
    rbind (http_onRequest cb (snd (snd (last es))) (hc_request d) (c\<lparr>tc_inputBuffer := b\<rparr>)) (\<lambda>c''. Inr (Some (hc_reset d), c''))"
  using assms
proof (induction es arbitrary: c ctx u)
  case (Cons e es)
  obtain data t w where e: "e = (data, t, w)" by (cases e)
  let ?s = "buffer_text (tc_inputBuffer c) @ bytes_string data" and ?ys = "bytes_string (concat (map fst es))"
  have full: "untimed_result (parse_text t ctx (?s @ ?ys)) = Inr (True, fin, [])"
    using parse_text_untimed [OF refl, of t ctx "?s @ ?ys" u] Cons.prems(4) by (simp add: e del: untimed_result.simps)
  note ext = parse_text_extend [of t ctx ?s ?ys] and ext0 = parse_text_extend [of t ctx ?s "[]"]
  obtain good ctx' rest where p: "parse_text t ctx ?s = Inr (good, ctx', rest)"
    using ext full by (cases "parse_text t ctx ?s") auto
  have good using ext full p by (cases good) auto
  have fin_got: "gotAll d" if "untimed d = fin" for d using that Cons.prems(5) by (auto simp: gotAll_def untimed_def)
  obtain b where b: "buffer_ok b" "buffer_text b = rest" and rec: "http_receive cb (e # es) (Some ctx, c) =
      (if gotAll ctx' then rbind (http_onRequest cb w (hc_request ctx') (c\<lparr>tc_inputBuffer := b\<rparr>)) (\<lambda>c''. http_receive cb es (Some (hc_reset ctx'), c''))
       else http_receive cb es (Some ctx', c\<lparr>tc_inputBuffer := b\<rparr>))"
    using http_receive_text [OF Cons.prems(1) p, of cb w] \<open>good\<close> by (auto simp: e)
  have time: "hc_state ctx' = kExpectRequestLine \<or> rq_receiveTime (hc_request ctx') \<in> T"
    using parse_text_time [OF p] Cons.prems(6,7) by (auto simp: e split: if_splits)
  show ?case
  proof (cases "gotAll ctx'")
    case True
    with ext full p \<open>good\<close> have rest: "untimed ctx' = fin" "rest = []" "concat (map fst es) = []" by auto
    then have "es = []" using Cons.prems(3) by (cases es) auto
    with True rec rest b time show ?thesis by (auto simp: e gotAll_def intro!: exI [of _ b] exI [of _ ctx'])
  next
    case False
    with ext full p \<open>good\<close> have go_on: "untimed_result (parse_text t ctx' (rest @ ?ys)) = Inr (True, fin, [])" by simp
    have "es \<noteq> []"
    proof
      assume "es = []"
      with ext0 p False \<open>good\<close> have "parse_text t ctx' rest = Inr (True, ctx', rest)" by simp
      with go_on \<open>es = []\<close> have "untimed ctx' = fin" by simp
      from fin_got [OF this] False show False by simp
    qed
    with Cons.IH [of "c\<lparr>tc_inputBuffer := b\<rparr>" t ctx'] b go_on time Cons.prems(3,5,7) rec False
    show ?thesis by simp
  qed
qed simp

text \<open>
  C24. A well-formed request without a body, of one of the five methods that \<^verbatim>\<open>HttpRequest\<close> knows, that arrives in any
  non-empty pieces is answered once, when the last
  piece is there: with the text of what the callback made of exactly that request, and the write side is shut down
  when the response says so. The parser is then as it was before, and the input buffer is
  empty. (A body is not read, see \<open>pipelined_request_waits\<close>; other methods are answered by 400.)
\<close>

theorem http_request_answered:
  assumes "m \<noteq> M_Invalid" "v \<noteq> V_Unknown" "target_ok path query" "\<forall>h\<in>set hs. header_ok h"
    and "buffer_ok (tc_inputBuffer c)" "content (tc_inputBuffer c) = []"
    and "\<forall>e\<in>set es. fst e \<noteq> []" "bytes_string (concat (map fst es)) = request_text m v path query hs"
  shows "\<exists>b t. buffer_ok b \<and> content b = [] \<and> t \<in> (fst \<circ> snd) ` set es
    \<and> http_receive cb es (Some HttpContext_new, c) =
        (let request = request_of m v path query t hs; response = cb request (HttpResponse_new (wants_close request))
         in rbind (run_calls (Send (string_bytes (response_text response)) (snd (snd (last es)))
              # (if rp_closeConnection response then [Shutdown] else [])) (c\<lparr>tc_inputBuffer := b\<rparr>))
            (\<lambda>c'. Inr (Some HttpContext_new, c')))"
proof -
  let ?fin = "\<lparr>hc_state = kGotAll, hc_request = request_of m v path query 0 hs\<rparr>"
  have "request_text m v path query hs \<noteq> []" by (simp add: request_text_def CRLF_def)
  then have "es \<noteq> []" using assms(8) by auto
  moreover have "untimed_result (parse_text 0 HttpContext_new
      (buffer_text (tc_inputBuffer c) @ bytes_string (concat (map fst es)))) = Inr (True, ?fin, [])"
    using parse_request_text [OF assms(1-4), of 0 "[]"] assms(6,8) by (simp add: buffer_text_def untimed_def request_of_def)
  moreover have "gotAll ?fin" "hc_state HttpContext_new = kExpectRequestLine" by (simp_all add: gotAll_def HttpContext_new_def)
  ultimately obtain b d where b: "buffer_ok b" "buffer_text b = []" and d: "untimed d = ?fin"
      "rq_receiveTime (hc_request d) \<in> (fst \<circ> snd) ` set es"
    and rec: "http_receive cb es (Some HttpContext_new, c) =
      rbind (http_onRequest cb (snd (snd (last es))) (hc_request d) (c\<lparr>tc_inputBuffer := b\<rparr>)) (\<lambda>c''. Inr (Some (hc_reset d), c''))"
    using http_receive_request [OF assms(5) _ assms(7), of 0 HttpContext_new ?fin "(fst \<circ> snd) ` set es" cb] by blast
  have req: "hc_request d = request_of m v path query (rq_receiveTime (hc_request d)) hs"
    using d(1) by (cases d; cases "hc_request d") (auto simp: untimed_def request_of_def)
  have "hc_reset d = HttpContext_new" by (cases d) (simp add: hc_reset_def HttpContext_new_def)
  with rec req have "http_receive cb es (Some HttpContext_new, c) =
      rbind (http_onRequest cb (snd (snd (last es))) (request_of m v path query (rq_receiveTime (hc_request d)) hs)
        (c\<lparr>tc_inputBuffer := b\<rparr>)) (\<lambda>c''. Inr (Some HttpContext_new, c''))" by metis
  moreover have "content b = []" using b(2) by (simp add: buffer_text_def)
  ultimately show ?thesis
    using b(1) d(2) unfolding http_onRequest_text Let_def by blast
qed

definition demo_request :: "byte list" where
  "demo_request = string_bytes (request_text M_Get V_Http11 ''/'' ''?q'' [(''Host'', ''h'')])"

theorem http_request_answered_witness:
  "\<exists>c'. http_receive defaultHttpCallback [(take 9 demo_request, 1, Wrote 0), (drop 9 demo_request, 2, Wrote 0)]
     (Some HttpContext_new, TcpConnection_new) = Inr (Some HttpContext_new, c')"
proof -
  have "bytes_string (take 9 demo_request @ drop 9 demo_request) = request_text M_Get V_Http11 ''/'' ''?q'' [(''Host'', ''h'')]"
    by (simp add: demo_request_def)
  moreover have "length demo_request > 9" by code_simp
  then have "take 9 demo_request \<noteq> []" "drop 9 demo_request \<noteq> []" by auto
  moreover have "target_ok ''/'' ''?q''" by code_simp
  moreover have "header_ok (''Host'', ''h'')" by code_simp
  moreover have new: "tc_inputBuffer TcpConnection_new = Buffer_new kInitialSize" "tc_state TcpConnection_new = kConnecting"
    by (simp_all add: TcpConnection_new_def)
  ultimately show ?thesis
    using http_request_answered [of M_Get V_Http11 "''/''" "''?q''" "[(''Host'', ''h'')]" TcpConnection_new
        "[(take 9 demo_request, 1, Wrote 0), (drop 9 demo_request, 2, Wrote 0)]" defaultHttpCallback]
    by (auto simp: Let_def Buffer_new_ok tcp_send_def tcp_shutdown_def defaultHttpCallback_def)
qed

text \<open>
  A request line with a known method and any other version than 1.0 and 1.1 is answered with
  400 and the connection is shut down, but the line and the method stay; if the client then sends
  anything more, the assertion of \<^verbatim>\<open>setMethod\<close> fails and ends the process.
\<close>

theorem http_bad_version_asserts:
  assumes "m \<noteq> M_Invalid" "CHR 0x0D \<notin> set target" "CHR '' '' \<notin> set target" "CHR 0x0D \<notin> set version"
    and "version \<noteq> ''HTTP/1.1''" "version \<noteq> ''HTTP/1.0''"
    and "buffer_ok (tc_inputBuffer c)" "content (tc_inputBuffer c) = []"
    and "bytes_string data = line_text m target version @ CRLF @ rest"
  shows "\<exists>b ctx. http_receive cb [(data, t, w)] (Some HttpContext_new, c)
      = rbind (run_calls [Send (string_bytes bad_request) w, Shutdown] (c\<lparr>tc_inputBuffer := b\<rparr>)) (\<lambda>c'. Inr (Some ctx, c'))
    \<and> http_receive cb [(data, t, w), (data2, t', w')] (Some HttpContext_new, c)
      = rbind (run_calls [Send (string_bytes bad_request) w, Shutdown] (c\<lparr>tc_inputBuffer := b\<rparr>)) (\<lambda>_. Inl Assert_Failed)"
proof -
  let ?line = "line_text m target version"
  have "CHR 0x0D \<notin> set ?line" using assms(2,4) methodString_chars [of m] by (auto simp: line_text_def)
  from find_CRLF [OF this] have f: "str_find CRLF (?line @ CRLF @ r) = Some (length ?line)" for r .
  have new: "hc_state HttpContext_new = kExpectRequestLine" "hc_request HttpContext_new = HttpRequest_new"
    "rq_method HttpRequest_new = M_Invalid" by (simp_all add: HttpContext_new_def HttpRequest_new_def)
  have t: "\<forall>c\<in>set target. c \<noteq> CHR '' ''" using assms(3) by auto
  let ?r = "set_target target (HttpRequest_new\<lparr>rq_method := m\<rparr>)"
  have line: "processRequestLine ?line HttpRequest_new = Inr (False, ?r)"
    using processRequestLine_text [OF assms(1) new(3) t] assms(5,6) by (simp add: Let_def)
  let ?ctx = "HttpContext_new\<lparr>hc_request := ?r\<rparr>"
  have p: "parse_text t HttpContext_new (?line @ CRLF @ rest) = Inr (False, ?ctx, ?line @ CRLF @ rest)"
    unfolding parse_text.simps [of t HttpContext_new] new parse_state.case f option.case cut_line line rbind_Inr prod.case by simp
  have again: "processRequestLine ?line ?r = Inl Assert_Failed"
  proof -
    have "rq_method ?r = m" by (simp add: set_target_def split: option.split)
    moreover have "index_where (\<lambda>c. c = CHR '' '') ?line = Some (length (methodString m))"
      unfolding line_text_def using methodString_chars [of m] by simp
    ultimately show ?thesis using assms(1) by (simp add: processRequestLine_def setMethod_def)
  qed
  have kept: "hc_state ?ctx = kExpectRequestLine" "hc_request ?ctx = ?r" by (simp_all add: new)
  have p2: "parse_text t' ?ctx ((?line @ CRLF @ rest) @ r) = Inl Assert_Failed" for r
    unfolding append_assoc parse_text.simps [of t' ?ctx] kept parse_state.case f option.case cut_line again rbind_Inl ..
  have empty: "buffer_text (tc_inputBuffer c) @ bytes_string data = ?line @ CRLF @ rest"
    using assms(8,9) by (simp add: buffer_text_def)
  obtain b where b: "buffer_ok b" "buffer_text b = ?line @ CRLF @ rest"
    and rec: "\<And>es. http_receive cb ((data, t, w) # es) (Some HttpContext_new, c)
      = rbind (run_calls [Send (string_bytes bad_request) w, Shutdown] (c\<lparr>tc_inputBuffer := b\<rparr>)) (\<lambda>c'. http_receive cb es (Some ?ctx, c'))"
    using http_receive_text [OF assms(7), of t HttpContext_new data False ?ctx "?line @ CRLF @ rest" cb w] p empty
    by (auto simp: gotAll_def HttpContext_new_def)
  have "http_receive cb [(data2, t', w')] (Some ?ctx, c') = Inl Assert_Failed"
    if "run_calls [Send (string_bytes bad_request) w, Shutdown] (c\<lparr>tc_inputBuffer := b\<rparr>) = Inr c'" for c'
    using send_keeps_input [OF that] b p2 [of "bytes_string data2"] by (intro http_receive_fault) simp_all
  then have "http_receive cb [(data, t, w), (data2, t', w')] (Some HttpContext_new, c)
      = rbind (run_calls [Send (string_bytes bad_request) w, Shutdown] (c\<lparr>tc_inputBuffer := b\<rparr>)) (\<lambda>_. Inl Assert_Failed)"
    unfolding rec by (intro rbind_cong refl)
  moreover have "http_receive cb [(data, t, w)] (Some HttpContext_new, c)
      = rbind (run_calls [Send (string_bytes bad_request) w, Shutdown] (c\<lparr>tc_inputBuffer := b\<rparr>)) (\<lambda>c'. Inr (Some ?ctx, c'))"
    unfolding rec by simp
  ultimately show ?thesis by blast
qed

theorem http_bad_version_asserts_witness:
  "http_receive defaultHttpCallback [(string_bytes (line_text M_Get ''/'' ''HTTP/2.0'' @ CRLF), 1, Wrote 0), ([], 2, Wrote 0)]
     (Some HttpContext_new, TcpConnection_new) = Inl Assert_Failed"
proof -
  have new: "tc_inputBuffer TcpConnection_new = Buffer_new kInitialSize" "tc_state TcpConnection_new = kConnecting"
    by (simp_all add: TcpConnection_new_def)
  obtain b where "http_receive defaultHttpCallback [(string_bytes (line_text M_Get ''/'' ''HTTP/2.0'' @ CRLF), 1, Wrote 0), ([], 2, Wrote 0)]
      (Some HttpContext_new, TcpConnection_new)
      = rbind (run_calls [Send (string_bytes bad_request) (Wrote 0), Shutdown] (TcpConnection_new\<lparr>tc_inputBuffer := b\<rparr>)) (\<lambda>_. Inl Assert_Failed)"
    using http_bad_version_asserts [of M_Get "''/''" "''HTTP/2.0''" TcpConnection_new
        "string_bytes (line_text M_Get ''/'' ''HTTP/2.0'' @ CRLF)" "[]" defaultHttpCallback 1 "Wrote 0" "[]" 2 "Wrote 0"]
    by (auto simp: new Buffer_new_ok)
  then show ?thesis by (simp add: tcp_send_def tcp_shutdown_def new)
qed

text \<open>Bytes behind a request are not looked at until more data arrives.\<close>

lemma pipelined_request_waits:
  assumes "m \<noteq> M_Invalid" "v \<noteq> V_Unknown" "target_ok path query" "\<forall>h\<in>set hs. header_ok h"
    and "buffer_ok (tc_inputBuffer c)" "content (tc_inputBuffer c) = []"
    and "bytes_string data = request_text m v path query hs @ rest"
  shows "\<exists>b. buffer_text b = rest \<and> http_receive cb [(data, t, w)] (Some HttpContext_new, c)
    = rbind (http_onRequest cb w (request_of m v path query t hs) (c\<lparr>tc_inputBuffer := b\<rparr>)) (\<lambda>c'. Inr (Some HttpContext_new, c'))"
proof -
  have "parse_text t HttpContext_new (buffer_text (tc_inputBuffer c) @ bytes_string data)
      = Inr (True, \<lparr>hc_state = kGotAll, hc_request = request_of m v path query t hs\<rparr>, rest)"
    using parse_request_text [OF assms(1-4)] assms(6,7) by (simp add: buffer_text_def)
  from http_receive_text [OF assms(5) this, of cb w] show ?thesis
    by (auto simp: gotAll_def hc_reset_def HttpContext_new_def)
qed

end
