(* ===== verification/Net_Client.thy ===== *)
theory Net_Client
  imports Net_Connection
begin

text \<open>
  The client side of the network library: \<^verbatim>\<open>Connector\<close> (net/Connector.h, net/Connector.cc) and
  \<^verbatim>\<open>TcpClient\<close> (net/TcpClient.h, net/TcpClient.cc) in the thread of their event loop, with the functors and timers they leave in it.
  The sockets are numbered in the order in which they are created; what \<^verbatim>\<open>connect\<close>, \<^verbatim>\<open>SO_ERROR\<close> and
  the comparison of both ends return are arguments of the events. A connection is its socket; what
  happens on it until it closes is in \<open>Net_Connection\<close>.
\<close>

section \<open>Connectors\<close>

datatype errno =
    E_OK | EINPROGRESS | EINTR | EISCONN
  | EAGAIN | EADDRINUSE | EADDRNOTAVAIL | ECONNREFUSED | ENETUNREACH
  | EACCES | EPERM | EAFNOSUPPORT | EALREADY | EBADF | EFAULT | ENOTSOCK
  | Other_Errno int

datatype Connector_States = cn_kDisconnected | cn_kConnecting | cn_kConnected

datatype loop_task = StartInLoop | StopInLoop | ResetChannel | ConnectionDestroyed nat
  \<comment> \<open>the functors a client puts into its loop\<close>

record Connector =
  cn_connect :: bool
  cn_state :: Connector_States
  cn_channel :: "(nat \<times> Channel) option"
  cn_retryDelayMs :: int
  cn_tasks :: "loop_task list"
  cn_timers :: "int list"
  cn_ready :: "int list"
  cn_sockets :: nat
  cn_closed :: "nat list"
  cn_given :: "nat list"
  cn_errors :: "errno list"
  \<comment> \<open>from \<open>cn_tasks\<close> on the traces in the world: functors queued, timers set in this iteration and
    before, sockets created, closed and handed to the callback, errors logged\<close>

definition kMaxRetryDelayMs :: int where "kMaxRetryDelayMs = 30 * 1000"
definition kInitRetryDelayMs :: int where "kInitRetryDelayMs = 500"

definition Connector_new :: Connector where
  "Connector_new =
     \<lparr>cn_connect = False, cn_state = cn_kDisconnected, cn_channel = None, cn_retryDelayMs = kInitRetryDelayMs, cn_tasks = [],
      cn_timers = [], cn_ready = [], cn_sockets = 0, cn_closed = [], cn_given = [], cn_errors = []\<rparr>"

definition queue_task :: "loop_task \<Rightarrow> Connector \<Rightarrow> Connector" where
  "queue_task t c = c\<lparr>cn_tasks := cn_tasks c @ [t]\<rparr>"

definition close_socket :: "nat \<Rightarrow> Connector \<Rightarrow> Connector" where
  "close_socket sockfd c = c\<lparr>cn_closed := cn_closed c @ [sockfd]\<rparr>"

definition cn_retry :: "nat \<Rightarrow> Connector \<Rightarrow> Connector" where
  "cn_retry sockfd c =
     (let c1 = (close_socket sockfd c)\<lparr>cn_state := cn_kDisconnected\<rparr>
      in if cn_connect c1
         then c1\<lparr>cn_timers := cn_timers c1 @ [cn_retryDelayMs c1], cn_retryDelayMs := min (cn_retryDelayMs c1 * 2) kMaxRetryDelayMs\<rparr>
         else c1)"

definition cn_connecting :: "nat \<Rightarrow> Connector \<Rightarrow> Connector res" where
  "cn_connecting sockfd c =
     (let c1 = c\<lparr>cn_state := cn_kConnecting\<rparr>
      in if cn_channel c1 \<noteq> None then Inl Assert_Failed
         else Inr (c1\<lparr>cn_channel := Some (sockfd, enableWriting Channel_new)\<rparr>))"

definition do_connect :: "errno \<Rightarrow> Connector \<Rightarrow> Connector res" where
  "do_connect savedErrno c =
     (let sockfd = cn_sockets c; c1 = c\<lparr>cn_sockets := sockfd + 1\<rparr>
      in if savedErrno \<in> {E_OK, EINPROGRESS, EINTR, EISCONN} then cn_connecting sockfd c1
         else if savedErrno \<in> {EAGAIN, EADDRINUSE, EADDRNOTAVAIL, ECONNREFUSED, ENETUNREACH} then Inr (cn_retry sockfd c1)
         else Inr (close_socket sockfd (c1\<lparr>cn_errors := cn_errors c1 @ [savedErrno]\<rparr>)))"

definition startInLoop :: "errno \<Rightarrow> Connector \<Rightarrow> Connector res" where
  "startInLoop e c =
     (if cn_state c \<noteq> cn_kDisconnected then Inl Assert_Failed
      else if cn_connect c then do_connect e c else Inr c)"

definition cn_start :: "errno \<Rightarrow> Connector \<Rightarrow> Connector res" where
  \<comment> \<open>in the loop thread\<close>
  "cn_start e c = startInLoop e (c\<lparr>cn_connect := True\<rparr>)"

definition cn_start_other :: "Connector \<Rightarrow> Connector" where
  \<comment> \<open>in another thread\<close>
  "cn_start_other c = queue_task StartInLoop (c\<lparr>cn_connect := True\<rparr>)"

definition cn_stop :: "Connector \<Rightarrow> Connector" where
  "cn_stop c = queue_task StopInLoop (c\<lparr>cn_connect := False\<rparr>)"

definition removeAndResetChannel :: "Connector \<Rightarrow> (nat \<times> Connector) res" where
  "removeAndResetChannel c =
     (case cn_channel c of
        None \<Rightarrow> Inl Null_Deref
      | Some (sockfd, ch) \<Rightarrow>
          rbind (channel_remove (disableAll ch)) (\<lambda>ch'. Inr (sockfd, queue_task ResetChannel (c\<lparr>cn_channel := Some (sockfd, ch')\<rparr>))))"

definition resetChannel :: "Connector \<Rightarrow> Connector res" where
  \<comment> \<open>with the destructor of the channel\<close>
  "resetChannel c =
     (case cn_channel c of
        Some (_, ch) \<Rightarrow> if ch_addedToLoop ch then Inl Assert_Failed else Inr (c\<lparr>cn_channel := None\<rparr>)
      | None \<Rightarrow> Inr c)"

definition stopInLoop :: "Connector \<Rightarrow> Connector res" where
  "stopInLoop c =
     (if cn_state c = cn_kConnecting
      then rbind (removeAndResetChannel (c\<lparr>cn_state := cn_kDisconnected\<rparr>)) (\<lambda>(sockfd, c1). Inr (cn_retry sockfd c1))
      else Inr c)"

definition cn_restart :: "errno \<Rightarrow> Connector \<Rightarrow> Connector res" where
  "cn_restart e c =
     startInLoop e (c\<lparr>cn_state := cn_kDisconnected, cn_retryDelayMs := kInitRetryDelayMs, cn_connect := True\<rparr>)"

definition cn_handleWrite :: "int \<Rightarrow> bool \<Rightarrow> Connector \<Rightarrow> (nat option \<times> Connector) res" where
  \<comment> \<open>the pending error of the socket, whether it is connected to itself; the socket for the callback\<close>
  "cn_handleWrite err isSelfConnect c =
     (if cn_state c = cn_kConnecting then
        rbind (removeAndResetChannel c) (\<lambda>(sockfd, c1).
          if err \<noteq> 0 then Inr (None, cn_retry sockfd c1)
          else if isSelfConnect then Inr (None, cn_retry sockfd c1)
          else let c2 = c1\<lparr>cn_state := cn_kConnected\<rparr>
               in if cn_connect c2 then Inr (Some sockfd, c2\<lparr>cn_given := cn_given c2 @ [sockfd]\<rparr>)
                  else Inr (None, close_socket sockfd c2))
      else if cn_state c \<noteq> cn_kDisconnected then Inl Assert_Failed
      else Inr (None, c))"

definition cn_handleError :: "Connector \<Rightarrow> Connector res" where
  "cn_handleError c =
     (if cn_state c = cn_kConnecting
      then rbind (removeAndResetChannel c) (\<lambda>(sockfd, c1). Inr (cn_retry sockfd c1))
      else Inr c)"

definition cn_handleEvent :: "bool \<Rightarrow> bool \<Rightarrow> int \<Rightarrow> bool \<Rightarrow> Connector \<Rightarrow> (nat option \<times> Connector) res" where
  \<comment> \<open>\<^verbatim>\<open>Channel::handleEvent\<close>: an error first, then room to write\<close>
  "cn_handleEvent is_error can_write err isSelfConnect c =
     rbind (if is_error then cn_handleError c else Inr c) (\<lambda>c1.
     if can_write then cn_handleWrite err isSelfConnect c1 else Inr (None, c1))"

section \<open>Clients\<close>

record TcpClient =
  tcl_connector :: Connector
  tcl_name :: string
  tcl_retry :: bool
  tcl_connect :: bool
  tcl_nextConnId :: int
  tcl_connection :: "nat option"
  tcl_connects :: nat
  tcl_up :: "(nat \<times> string) list"
  tcl_shut :: "nat list"
  tcl_down :: "nat list"
  \<comment> \<open>from \<open>tcl_connects\<close> on what happened: calls of \<^verbatim>\<open>connect\<close>, connections established with their names,
    shut down, destroyed\<close>

definition TcpClient_new :: "string \<Rightarrow> TcpClient" where
  "TcpClient_new nameArg =
     \<lparr>tcl_connector = Connector_new, tcl_name = nameArg, tcl_retry = False, tcl_connect = True, tcl_nextConnId = 1,
      tcl_connection = None, tcl_connects = 0, tcl_up = [], tcl_shut = [], tcl_down = []\<rparr>"

definition client_connect :: "errno \<Rightarrow> TcpClient \<Rightarrow> TcpClient res" where
  "client_connect e s =
     rbind (cn_start e (tcl_connector s)) (\<lambda>c. Inr (s\<lparr>tcl_connect := True, tcl_connector := c, tcl_connects := tcl_connects s + 1\<rparr>))"

definition client_connect_other :: "TcpClient \<Rightarrow> TcpClient" where
  "client_connect_other s =
     s\<lparr>tcl_connect := True, tcl_connector := cn_start_other (tcl_connector s), tcl_connects := tcl_connects s + 1\<rparr>"

definition client_disconnect :: "TcpClient \<Rightarrow> TcpClient" where
  "client_disconnect s =
     (let s1 = s\<lparr>tcl_connect := False\<rparr>
      in case tcl_connection s1 of Some conn \<Rightarrow> s1\<lparr>tcl_shut := tcl_shut s1 @ [conn]\<rparr> | None \<Rightarrow> s1)"

definition client_stop :: "TcpClient \<Rightarrow> TcpClient" where
  "client_stop s = s\<lparr>tcl_connect := False, tcl_connector := cn_stop (tcl_connector s)\<rparr>"

definition client_connName :: "string \<Rightarrow> string \<Rightarrow> int \<Rightarrow> string" where
  \<comment> \<open>\<^verbatim>\<open>snprintf\<close> into 32 bytes\<close>
  "client_connName name ipPort n = name @ take 31 ('':'' @ ipPort @ ''#'' @ to_string_int n)"

definition client_newConnection :: "string \<Rightarrow> nat \<Rightarrow> TcpClient \<Rightarrow> TcpClient" where
  "client_newConnection peer sockfd s =
     s\<lparr>tcl_nextConnId := tcl_nextConnId s + 1, tcl_connection := Some sockfd,
       tcl_up := tcl_up s @ [(sockfd, client_connName (tcl_name s) peer (tcl_nextConnId s))]\<rparr>"

definition client_removeConnection :: "errno \<Rightarrow> nat \<Rightarrow> TcpClient \<Rightarrow> TcpClient res" where
  "client_removeConnection e conn s =
     (if tcl_connection s \<noteq> Some conn then Inl Assert_Failed
      else let s1 = s\<lparr>tcl_connection := None, tcl_connector := queue_task (ConnectionDestroyed conn) (tcl_connector s)\<rparr>
           in if tcl_retry s1 \<and> tcl_connect s1
              then rbind (cn_restart e (tcl_connector s1)) (\<lambda>c. Inr (s1\<lparr>tcl_connector := c\<rparr>))
              else Inr s1)"

definition client_handleEvent :: "string \<Rightarrow> bool \<Rightarrow> bool \<Rightarrow> int \<Rightarrow> bool \<Rightarrow> TcpClient \<Rightarrow> TcpClient res" where
  \<comment> \<open>an event of the connector's channel, with the callback \<^verbatim>\<open>TcpClient::newConnection\<close>\<close>
  "client_handleEvent peer is_error can_write err isSelfConnect s =
     rbind (cn_handleEvent is_error can_write err isSelfConnect (tcl_connector s)) (\<lambda>(sock, c).
       let s1 = s\<lparr>tcl_connector := c\<rparr>
       in Inr (case sock of Some sockfd \<Rightarrow> client_newConnection peer sockfd s1 | None \<Rightarrow> s1))"

definition client_timer :: "errno \<Rightarrow> TcpClient \<Rightarrow> TcpClient res" where
  \<comment> \<open>the first timer is due\<close>
  "client_timer e s =
     (let c = tcl_connector s
      in rbind (startInLoop e (c\<lparr>cn_ready := tl (cn_ready c)\<rparr>)) (\<lambda>c'. Inr (s\<lparr>tcl_connector := c'\<rparr>)))"

subsection \<open>The loop\<close>

fun run_task :: "errno \<Rightarrow> loop_task \<Rightarrow> TcpClient \<Rightarrow> TcpClient res" where
  "run_task e StartInLoop s = rbind (startInLoop e (tcl_connector s)) (\<lambda>c. Inr (s\<lparr>tcl_connector := c\<rparr>))"
| "run_task e StopInLoop s = rbind (stopInLoop (tcl_connector s)) (\<lambda>c. Inr (s\<lparr>tcl_connector := c\<rparr>))"
| "run_task e ResetChannel s = rbind (resetChannel (tcl_connector s)) (\<lambda>c. Inr (s\<lparr>tcl_connector := c\<rparr>))"
| "run_task e (ConnectionDestroyed conn) s = Inr (s\<lparr>tcl_down := tcl_down s @ [conn]\<rparr>)"

fun run_tasks :: "errno \<Rightarrow> loop_task list \<Rightarrow> TcpClient \<Rightarrow> TcpClient res" where
  "run_tasks e [] s = Inr s"
| "run_tasks e (t # ts) s = rbind (run_task e t s) (run_tasks e ts)"

definition loop_functors :: "errno \<Rightarrow> TcpClient \<Rightarrow> TcpClient res" where
  \<comment> \<open>the end of an iteration; the timers it set can be due from the next one on\<close>
  "loop_functors e s =
     (let c = tcl_connector s
      in rbind (run_tasks e (cn_tasks c) (s\<lparr>tcl_connector := c\<lparr>cn_tasks := []\<rparr>\<rparr>)) (\<lambda>s1.
         let c1 = tcl_connector s1 in Inr (s1\<lparr>tcl_connector := c1\<lparr>cn_ready := cn_ready c1 @ cn_timers c1, cn_timers := []\<rparr>\<rparr>)))"

datatype client_event =
    Connect_Call errno | Connect_Other | Disconnect_Call | Stop_Call | Enable_Retry
  | Channel_Event string bool bool int bool
  | Timer_Due errno
  | Connection_Closed errno
  | End_Iteration errno

fun client_step :: "client_event \<Rightarrow> TcpClient \<Rightarrow> TcpClient res" where
  "client_step (Connect_Call e) s = client_connect e s"
| "client_step Connect_Other s = Inr (client_connect_other s)"
| "client_step Disconnect_Call s = Inr (client_disconnect s)"
| "client_step Stop_Call s = Inr (client_stop s)"
| "client_step Enable_Retry s = Inr (s\<lparr>tcl_retry := True\<rparr>)"
| "client_step (Channel_Event peer r w err self) s = client_handleEvent peer r w err self s"
| "client_step (Timer_Due e) s = client_timer e s"
| "client_step (Connection_Closed e) s =
     (case tcl_connection s of Some conn \<Rightarrow> client_removeConnection e conn s | None \<Rightarrow> Inr s)"
| "client_step (End_Iteration e) s = loop_functors e s"

text \<open>
  What happens to a client that is used as its interface wants it: \<^verbatim>\<open>connect\<close> is called once, before \<^verbatim>\<open>stop\<close>; the poller
  reports events of registered channels only, so a new connection closes after the iteration it came up in.
\<close>

fun client_event_ok :: "client_event \<Rightarrow> TcpClient \<Rightarrow> bool" where
  "client_event_ok (Connect_Call e) s \<longleftrightarrow> tcl_connects s = 0"
| "client_event_ok Connect_Other s \<longleftrightarrow> tcl_connects s = 0"
| "client_event_ok Stop_Call s \<longleftrightarrow> tcl_connects s = 1"
| "client_event_ok (Channel_Event peer r w err self) s \<longleftrightarrow>
     (case cn_channel (tcl_connector s) of Some (_, ch) \<Rightarrow> ch_addedToLoop ch | None \<Rightarrow> False)"
| "client_event_ok (Timer_Due e) s \<longleftrightarrow> cn_ready (tcl_connector s) \<noteq> []"
| "client_event_ok (Connection_Closed e) s \<longleftrightarrow>
     tcl_connection s \<noteq> None \<and> ResetChannel \<notin> set (cn_tasks (tcl_connector s))"
| "client_event_ok _ s \<longleftrightarrow> True"

section \<open>The invariant\<close>

definition open_socket :: "Connector \<Rightarrow> nat list" where
  \<comment> \<open>the socket that is connecting\<close>
  "open_socket c = (if cn_state c = cn_kConnecting then case cn_channel c of Some (fd, _) \<Rightarrow> [fd] | None \<Rightarrow> [] else [])"

abbreviation tasks_left :: "loop_task list \<Rightarrow> Connector \<Rightarrow> loop_task list" where
  "tasks_left b c \<equiv> b @ cn_tasks c"

definition channel_inv :: "loop_task list \<Rightarrow> Connector \<Rightarrow> bool" where
  \<comment> \<open>of a loop that still has some functors to run in this iteration\<close>
  "channel_inv b c \<longleftrightarrow>
     (if cn_state c = cn_kConnecting
      then (case cn_channel c of Some (_, ch) \<Rightarrow> ch_addedToLoop ch | None \<Rightarrow> False) \<and> ResetChannel \<notin> set (tasks_left b c)
      else case cn_channel c of
          None \<Rightarrow> ResetChannel \<notin> set (tasks_left b c)
        | Some (_, ch) \<Rightarrow> \<not> ch_addedToLoop ch \<and> ResetChannel \<in> set (tasks_left b c) \<and> count_list (tasks_left b c) ResetChannel = 1)"

definition timer_inv :: "Connector \<Rightarrow> bool" where
  "timer_inv c \<longleftrightarrow>
     kInitRetryDelayMs \<le> cn_retryDelayMs c \<and> cn_retryDelayMs c \<le> kMaxRetryDelayMs
     \<and> (\<forall>d\<in>set (cn_ready c @ cn_timers c). kInitRetryDelayMs \<le> d \<and> d \<le> kMaxRetryDelayMs)
     \<and> length (cn_ready c @ cn_timers c) \<le> 1 \<and> (cn_ready c @ cn_timers c \<noteq> [] \<longrightarrow> cn_state c = cn_kDisconnected)"

definition socket_inv :: "Connector \<Rightarrow> bool" where
  \<comment> \<open>every socket is closed, handed over or connecting, and only one of these\<close>
  "socket_inv c \<longleftrightarrow>
     distinct (cn_closed c @ cn_given c @ open_socket c) \<and> set (cn_closed c @ cn_given c @ open_socket c) = {..<cn_sockets c}"

definition start_inv :: "loop_task list \<Rightarrow> Connector \<Rightarrow> bool" where
  "start_inv b c \<longleftrightarrow>
     (StartInLoop \<in> set (tasks_left b c) \<longrightarrow> cn_state c = cn_kDisconnected \<and> cn_channel c = None \<and> cn_ready c @ cn_timers c = []
        \<and> count_list (tasks_left b c) StartInLoop = 1)
     \<and> (StopInLoop \<in> set (tasks_left b c) \<longrightarrow> \<not> cn_connect c)"

definition cn_inv :: "loop_task list \<Rightarrow> Connector \<Rightarrow> bool" where
  "cn_inv b c \<longleftrightarrow> channel_inv b c \<and> timer_inv c \<and> socket_inv c \<and> start_inv b c"

definition cn_live :: "loop_task list \<Rightarrow> Connector \<Rightarrow> bool" where
  \<comment> \<open>a connector that shall connect and met no error it gives up on has something to wait for\<close>
  "cn_live b c \<longleftrightarrow>
     (cn_connect c \<and> cn_state c = cn_kDisconnected \<and> cn_errors c = [] \<longrightarrow>
        cn_ready c @ cn_timers c \<noteq> [] \<or> StartInLoop \<in> set (tasks_left b c))"

lemmas cn_inv_defs = cn_inv_def channel_inv_def timer_inv_def socket_inv_def start_inv_def open_socket_def

lemma enabled_channel [simp]: "ch_addedToLoop (enableWriting ch)"
  by (simp add: enableWriting_def channel_update_def)

lemma removed_channel: "channel_remove (disableAll ch) = Inr (disableAll ch\<lparr>ch_addedToLoop := False\<rparr>)"
  by (simp add: channel_remove_def)

lemma startInLoop_inv:
  assumes "cn_inv b c" "cn_state c = cn_kDisconnected" "cn_channel c = None" "cn_ready c @ cn_timers c = []"
    and "StartInLoop \<notin> set (tasks_left b c)"
  shows "\<exists>c'. startInLoop e c = Inr c' \<and> cn_inv b c' \<and> cn_live b c' \<and> cn_tasks c' = cn_tasks c \<and> cn_given c' = cn_given c
    \<and> cn_connect c' = cn_connect c \<and> cn_ready c' = []"
proof (cases "cn_connect c")
  case False
  with assms show ?thesis by (simp add: startInLoop_def cn_live_def)
next
  case True
  have fresh: "cn_sockets c \<notin> set (cn_closed c @ cn_given c @ open_socket c)" using assms(1) by (simp add: cn_inv_def socket_inv_def)
  have inv: "channel_inv b c" "timer_inv c" "socket_inv c" "start_inv b c" using assms(1) by (simp_all add: cn_inv_def)
  have upto: "{..<Suc n} = insert n {..<n}" for n :: nat by auto
  consider "e \<in> {E_OK, EINPROGRESS, EINTR, EISCONN}" | "e \<in> {EAGAIN, EADDRINUSE, EADDRNOTAVAIL, ECONNREFUSED, ENETUNREACH}"
    | "e \<notin> {E_OK, EINPROGRESS, EINTR, EISCONN}" "e \<notin> {EAGAIN, EADDRINUSE, EADDRNOTAVAIL, ECONNREFUSED, ENETUNREACH}" by blast
  then show ?thesis
  proof cases
    case 1
    then have "startInLoop e c = cn_connecting (cn_sockets c) (c\<lparr>cn_sockets := cn_sockets c + 1\<rparr>)"
      using True assms(2) by (simp add: startInLoop_def do_connect_def Let_def)
    then have "startInLoop e c = Inr (c\<lparr>cn_sockets := cn_sockets c + 1, cn_state := cn_kConnecting,
        cn_channel := Some (cn_sockets c, enableWriting Channel_new)\<rparr>)"
      using assms(3) unfolding cn_connecting_def Let_def by simp
    moreover have "channel_inv b (c\<lparr>cn_sockets := cn_sockets c + 1, cn_state := cn_kConnecting,
        cn_channel := Some (cn_sockets c, enableWriting Channel_new)\<rparr>)"
      using inv assms(2,3) by (simp add: channel_inv_def)
    moreover have "socket_inv (c\<lparr>cn_sockets := cn_sockets c + 1, cn_state := cn_kConnecting,
        cn_channel := Some (cn_sockets c, enableWriting Channel_new)\<rparr>)"
      using inv assms(2,3) fresh by (auto simp: socket_inv_def open_socket_def upto)
    ultimately show ?thesis using inv assms(2-) by (simp add: cn_inv_def cn_live_def timer_inv_def start_inv_def)
  next
    case 2
    then have "startInLoop e c = Inr (cn_retry (cn_sockets c) (c\<lparr>cn_sockets := cn_sockets c + 1\<rparr>))"
      using True assms(2,3) by (auto simp: startInLoop_def do_connect_def Let_def)
    moreover have "cn_retry (cn_sockets c) (c\<lparr>cn_sockets := cn_sockets c + 1\<rparr>) =
        c\<lparr>cn_sockets := cn_sockets c + 1, cn_closed := cn_closed c @ [cn_sockets c], cn_timers := [cn_retryDelayMs c],
          cn_retryDelayMs := min (cn_retryDelayMs c * 2) kMaxRetryDelayMs\<rparr>" (is "_ = ?c")
      using True assms(2,4) by (simp add: cn_retry_def close_socket_def Let_def)
    moreover have "timer_inv ?c" using inv(2) assms(2,4) by (simp add: timer_inv_def kInitRetryDelayMs_def kMaxRetryDelayMs_def)
    moreover have "socket_inv ?c" using inv(3) assms(2) fresh by (auto simp: socket_inv_def open_socket_def upto)
    moreover have "channel_inv b ?c" "start_inv b ?c" using inv(1,4) assms(2,3,5) by (simp_all add: channel_inv_def start_inv_def)
    ultimately show ?thesis using assms(4) by (simp add: cn_inv_def cn_live_def)
  next
    case 3
    then have "startInLoop e c = Inr (close_socket (cn_sockets c) (c\<lparr>cn_sockets := cn_sockets c + 1, cn_errors := cn_errors c @ [e]\<rparr>))"
      using True assms(2,3) by (simp add: startInLoop_def do_connect_def Let_def)
    moreover have "socket_inv (close_socket (cn_sockets c) (c\<lparr>cn_sockets := cn_sockets c + 1, cn_errors := cn_errors c @ [e]\<rparr>))"
      using inv(3) assms(2) fresh by (auto simp: socket_inv_def open_socket_def upto close_socket_def)
    ultimately show ?thesis
      using inv assms(2-4) by (simp add: cn_inv_def cn_live_def close_socket_def channel_inv_def timer_inv_def start_inv_def)
  qed
qed

lemma remove_inv:
  assumes "cn_inv b c" "cn_state c = cn_kConnecting"
  obtains fd ch where "cn_channel c = Some (fd, ch)" "fd \<notin> set (cn_closed c @ cn_given c)" "cn_ready c = []" "cn_timers c = []"
    and "\<And>st. removeAndResetChannel (c\<lparr>cn_state := st\<rparr>) = Inr (fd, c\<lparr>cn_state := st,
      cn_channel := Some (fd, disableAll ch\<lparr>ch_addedToLoop := False\<rparr>), cn_tasks := cn_tasks c @ [ResetChannel]\<rparr>)"
proof -
  obtain fd ch where "cn_channel c = Some (fd, ch)" using assms by (auto simp: cn_inv_def channel_inv_def split: option.splits)
  with assms show thesis
    by (intro that [of fd ch]) (auto simp: cn_inv_defs removeAndResetChannel_def removed_channel queue_task_def)
qed

text \<open>An attempt to connect that ends: the socket is closed, and the next attempt is set for later.\<close>

lemma attempt_fails:
  assumes "cn_inv b c" "cn_state c = cn_kConnecting"
  obtains fd c1 where "removeAndResetChannel c = Inr (fd, c1)"
    and "removeAndResetChannel (c\<lparr>cn_state := cn_kDisconnected\<rparr>) = Inr (fd, c1\<lparr>cn_state := cn_kDisconnected\<rparr>)"
    and "cn_retry fd (c1\<lparr>cn_state := cn_kDisconnected\<rparr>) = cn_retry fd c1"
    and "cn_inv b (cn_retry fd c1)" "cn_live b (cn_retry fd c1)" "cn_state (cn_retry fd c1) = cn_kDisconnected"
    and "cn_tasks (cn_retry fd c1) = cn_tasks c @ [ResetChannel]" "cn_given (cn_retry fd c1) = cn_given c"
    and "cn_connect (cn_retry fd c1) = cn_connect c" "cn_ready (cn_retry fd c1) = []"
    and "cn_timers (cn_retry fd c1) = (if cn_connect c then [cn_retryDelayMs c] else [])"
proof -
  obtain fd ch where ch: "cn_channel c = Some (fd, ch)" "fd \<notin> set (cn_closed c @ cn_given c)" "cn_ready c = []" "cn_timers c = []"
    and remove: "\<And>st. removeAndResetChannel (c\<lparr>cn_state := st\<rparr>) = Inr (fd, c\<lparr>cn_state := st,
      cn_channel := Some (fd, disableAll ch\<lparr>ch_addedToLoop := False\<rparr>), cn_tasks := cn_tasks c @ [ResetChannel]\<rparr>)"
    using remove_inv [OF assms] by metis
  have inv: "channel_inv b c" "timer_inv c" "socket_inv c" "start_inv b c" using assms(1) by (simp_all add: cn_inv_def)
  define c1 where "c1 = c\<lparr>cn_channel := Some (fd, disableAll ch\<lparr>ch_addedToLoop := False\<rparr>), cn_tasks := cn_tasks c @ [ResetChannel]\<rparr>"
  have no_reset: "ResetChannel \<notin> set (tasks_left b c)" and no_start: "StartInLoop \<notin> set (tasks_left b c)"
    using inv(1,4) assms(2) by (auto simp: channel_inv_def start_inv_def)
  have c': "cn_retry fd c1 = c1\<lparr>cn_closed := cn_closed c @ [fd], cn_state := cn_kDisconnected,
      cn_timers := (if cn_connect c then [cn_retryDelayMs c] else []),
      cn_retryDelayMs := (if cn_connect c then min (cn_retryDelayMs c * 2) kMaxRetryDelayMs else cn_retryDelayMs c)\<rparr>" (is "_ = ?c")
    using ch(4) by (simp add: cn_retry_def close_socket_def Let_def c1_def)
  have "count_list (tasks_left b c @ [ResetChannel]) ResetChannel = 1" using no_reset by (simp add: count_notin)
  then have "channel_inv b ?c" by (simp add: channel_inv_def c1_def)
  moreover have "timer_inv ?c"
    using inv(2) ch(3) by (simp add: timer_inv_def kInitRetryDelayMs_def kMaxRetryDelayMs_def c1_def)
  moreover have "socket_inv ?c"
    using inv(3) assms(2) ch(1) by (auto simp: socket_inv_def open_socket_def c1_def)
  moreover have "start_inv b ?c" using inv(4) no_start by (simp add: start_inv_def c1_def)
  ultimately have "cn_inv b ?c" by (simp add: cn_inv_def)
  moreover have "cn_live b ?c" by (simp add: cn_live_def c1_def)
  moreover have "removeAndResetChannel c = Inr (fd, c1)" using remove [of "cn_state c"] by (simp add: c1_def)
  moreover have "removeAndResetChannel (c\<lparr>cn_state := cn_kDisconnected\<rparr>) = Inr (fd, c1\<lparr>cn_state := cn_kDisconnected\<rparr>)"
    using remove by (simp add: c1_def)
  moreover have "cn_retry fd (c1\<lparr>cn_state := cn_kDisconnected\<rparr>) = cn_retry fd c1"
    by (simp add: cn_retry_def close_socket_def Let_def)
  moreover have "cn_tasks c1 = cn_tasks c @ [ResetChannel]" "cn_given c1 = cn_given c" "cn_connect c1 = cn_connect c" "cn_ready c1 = []"
    using ch(3) by (simp_all add: c1_def)
  ultimately show thesis by (intro that [of fd c1]) (simp_all add: c')
qed

text \<open>An attempt that succeeds: the socket is handed over, or closed when the connector was stopped.\<close>

lemma attempt_succeeds:
  assumes "cn_inv b c" "cn_state c = cn_kConnecting" "removeAndResetChannel c = Inr (fd, c1)"
  shows "cn_connect c \<Longrightarrow> cn_inv b (c1\<lparr>cn_state := cn_kConnected, cn_given := cn_given c1 @ [fd]\<rparr>)"
    and "cn_inv b (close_socket fd (c1\<lparr>cn_state := cn_kConnected\<rparr>))"
    and "cn_tasks c1 = cn_tasks c @ [ResetChannel]" "cn_given c1 = cn_given c" "cn_connect c1 = cn_connect c" "cn_ready c1 = []" "cn_timers c1 = []"
proof -
  obtain fd' ch where ch: "cn_channel c = Some (fd', ch)" "fd' \<notin> set (cn_closed c @ cn_given c)" "cn_ready c = []" "cn_timers c = []"
    and remove: "\<And>st. removeAndResetChannel (c\<lparr>cn_state := st\<rparr>) = Inr (fd', c\<lparr>cn_state := st,
      cn_channel := Some (fd', disableAll ch\<lparr>ch_addedToLoop := False\<rparr>), cn_tasks := cn_tasks c @ [ResetChannel]\<rparr>)"
    using remove_inv [OF assms(1,2)] by metis
  have c1: "c1 = c\<lparr>cn_channel := Some (fd, disableAll ch\<lparr>ch_addedToLoop := False\<rparr>), cn_tasks := cn_tasks c @ [ResetChannel]\<rparr>"
    and fd: "fd' = fd" using remove [of "cn_state c"] assms(3) by simp_all
  have inv: "channel_inv b c" "timer_inv c" "socket_inv c" "start_inv b c" using assms(1) by (simp_all add: cn_inv_def)
  have no_reset: "ResetChannel \<notin> set (tasks_left b c)" and no_start: "StartInLoop \<notin> set (tasks_left b c)"
    using inv(1,4) assms(2) by (auto simp: channel_inv_def start_inv_def)
  then have count: "count_list (tasks_left b c @ [ResetChannel]) ResetChannel = 1" by (simp add: count_notin)
  show "cn_inv b (c1\<lparr>cn_state := cn_kConnected, cn_given := cn_given c1 @ [fd]\<rparr>)" if "cn_connect c"
    unfolding cn_inv_def
  proof (intro conjI)
    show "socket_inv (c1\<lparr>cn_state := cn_kConnected, cn_given := cn_given c1 @ [fd]\<rparr>)"
      using inv(3) assms(2) ch(1) fd by (auto simp: socket_inv_def open_socket_def c1)
  qed (use count inv(2,4) no_start ch(3,4) in \<open>simp_all add: channel_inv_def timer_inv_def start_inv_def c1\<close>)
  show "cn_inv b (close_socket fd (c1\<lparr>cn_state := cn_kConnected\<rparr>))"
    unfolding cn_inv_def
  proof (intro conjI)
    show "socket_inv (close_socket fd (c1\<lparr>cn_state := cn_kConnected\<rparr>))"
      using inv(3) assms(2) ch(1) fd by (auto simp: socket_inv_def open_socket_def c1 close_socket_def)
  qed (use count inv(2,4) no_start ch(3,4) in \<open>simp_all add: channel_inv_def timer_inv_def start_inv_def c1 close_socket_def\<close>)
  show "cn_tasks c1 = cn_tasks c @ [ResetChannel]" "cn_given c1 = cn_given c" "cn_connect c1 = cn_connect c" "cn_ready c1 = []" "cn_timers c1 = []"
    using ch(3,4) by (simp_all add: c1)
qed

definition destroying :: "loop_task list \<Rightarrow> nat list" where
  "destroying q = concat (map (\<lambda>t. case t of ConnectionDestroyed fd \<Rightarrow> [fd] | _ \<Rightarrow> []) q)"

lemma destroying_simps [simp]:
  "destroying [] = []" "destroying (q @ r) = destroying q @ destroying r"
  "destroying (t # q) = (case t of ConnectionDestroyed fd \<Rightarrow> [fd] | _ \<Rightarrow> []) @ destroying q"
  by (simp_all add: destroying_def)

abbreviation left :: "loop_task list \<Rightarrow> TcpClient \<Rightarrow> loop_task list" where
  "left b s \<equiv> tasks_left b (tcl_connector s)"

definition conns_inv :: "loop_task list \<Rightarrow> TcpClient \<Rightarrow> bool" where
  \<comment> \<open>the sockets handed over are the connections made, each open, about to be destroyed or destroyed\<close>
  "conns_inv b s \<longleftrightarrow>
     map fst (tcl_up s) = cn_given (tcl_connector s) \<and> tcl_nextConnId s = int (length (tcl_up s)) + 1
     \<and> (\<forall>i < length (tcl_up s). \<exists>peer. snd (tcl_up s ! i) = client_connName (tcl_name s) peer (int i + 1))
     \<and> (tcl_connection s \<noteq> None \<longrightarrow> cn_state (tcl_connector s) = cn_kConnected)
     \<and> distinct (tcl_down s @ destroying (left b s) @ (case tcl_connection s of Some fd \<Rightarrow> [fd] | None \<Rightarrow> []))
     \<and> set (tcl_down s @ destroying (left b s) @ (case tcl_connection s of Some fd \<Rightarrow> [fd] | None \<Rightarrow> [])) = set (cn_given (tcl_connector s))"

definition usage_inv :: "loop_task list \<Rightarrow> TcpClient \<Rightarrow> bool" where
  "usage_inv b s \<longleftrightarrow>
     tcl_connects s \<le> 1
     \<and> (tcl_connects s = 0 \<longrightarrow> \<not> cn_connect (tcl_connector s) \<and> cn_state (tcl_connector s) = cn_kDisconnected \<and> left b s = []
          \<and> cn_channel (tcl_connector s) = None \<and> cn_ready (tcl_connector s) @ cn_timers (tcl_connector s) = [])
     \<and> (StopInLoop \<in> set (left b s) \<longrightarrow> \<not> tcl_connect s)"

definition client_inv :: "loop_task list \<Rightarrow> TcpClient \<Rightarrow> bool" where
  "client_inv b s \<longleftrightarrow> cn_inv b (tcl_connector s) \<and> cn_live b (tcl_connector s) \<and> conns_inv b s \<and> usage_inv b s"

definition functor_phase :: "TcpClient \<Rightarrow> bool" where
  \<comment> \<open>while the functors of an iteration run\<close>
  "functor_phase s \<longleftrightarrow>
     (cn_ready (tcl_connector s) @ cn_timers (tcl_connector s) \<noteq> [] \<longrightarrow> ResetChannel \<notin> set (cn_tasks (tcl_connector s)))"

definition event_phase :: "TcpClient \<Rightarrow> bool" where
  "event_phase s \<longleftrightarrow> (cn_ready (tcl_connector s) \<noteq> [] \<longrightarrow> ResetChannel \<notin> set (cn_tasks (tcl_connector s)))"

lemma cn_inv_drop: "cn_inv (t # b) c \<Longrightarrow> t \<noteq> ResetChannel \<Longrightarrow> cn_inv b c"
  by (cases t) (auto simp: cn_inv_def channel_inv_def start_inv_def count_list_0_iff split: option.splits if_splits)

lemma run_task_inv:
  assumes "client_inv (t # b) s" "functor_phase s"
  shows "\<exists>s'. run_task e t s = Inr s' \<and> client_inv b s' \<and> functor_phase s'"
proof (cases t)
  case StartInLoop
  let ?c = "tcl_connector s"
  have c: "cn_inv (t # b) ?c" and conns: "conns_inv (t # b) s" and usage: "usage_inv (t # b) s"
    using assms(1) by (simp_all add: client_inv_def)
  have st: "cn_state ?c = cn_kDisconnected" "cn_channel ?c = None" "cn_ready ?c @ cn_timers ?c = []" "StartInLoop \<notin> set (left b s)"
    using c StartInLoop by (auto simp: cn_inv_def start_inv_def count_list_0_iff)
  have reset: "ResetChannel \<notin> set (left b s)" using c st(1,2) by (auto simp: cn_inv_def channel_inv_def)
  obtain c' where c': "startInLoop e ?c = Inr c'" "cn_inv b c'" "cn_live b c'" "cn_tasks c' = cn_tasks ?c"
      "cn_given c' = cn_given ?c" "cn_connect c' = cn_connect ?c"
    using startInLoop_inv [OF cn_inv_drop [OF c] st, of e] StartInLoop by auto
  have none: "tcl_connection s = None" using conns st(1) by (cases "tcl_connection s") (auto simp: conns_inv_def)
  have "conns_inv b (s\<lparr>tcl_connector := c'\<rparr>)" using conns none c'(4,5) StartInLoop by (simp add: conns_inv_def)
  moreover have "usage_inv b (s\<lparr>tcl_connector := c'\<rparr>)" using usage c'(4) by (auto simp: usage_inv_def)
  ultimately show ?thesis using StartInLoop c' reset by (auto simp: client_inv_def functor_phase_def)
next
  case StopInLoop
  let ?c = "tcl_connector s"
  have c: "cn_inv b ?c" and conns: "conns_inv (t # b) s" and usage: "usage_inv (t # b) s" and live: "cn_live (t # b) ?c"
    using assms(1) cn_inv_drop [of t b] StopInLoop by (auto simp: client_inv_def)
  have off: "\<not> cn_connect ?c" using assms(1) StopInLoop by (auto simp: client_inv_def cn_inv_def start_inv_def)
  show ?thesis
  proof (cases "cn_state ?c = cn_kConnecting")
    case True
    obtain fd c1 where c1: "removeAndResetChannel (?c\<lparr>cn_state := cn_kDisconnected\<rparr>) = Inr (fd, c1\<lparr>cn_state := cn_kDisconnected\<rparr>)"
      "cn_retry fd (c1\<lparr>cn_state := cn_kDisconnected\<rparr>) = cn_retry fd c1"
      "cn_inv b (cn_retry fd c1)" "cn_live b (cn_retry fd c1)" "cn_state (cn_retry fd c1) = cn_kDisconnected"
      "cn_tasks (cn_retry fd c1) = cn_tasks ?c @ [ResetChannel]" "cn_given (cn_retry fd c1) = cn_given ?c"
      "cn_ready (cn_retry fd c1) = []" "cn_timers (cn_retry fd c1) = []"
      using attempt_fails [OF c True] off by (metis (full_types))
    have none: "tcl_connection s = None" using conns True by (cases "tcl_connection s") (auto simp: conns_inv_def)
    have "conns_inv b (s\<lparr>tcl_connector := cn_retry fd c1\<rparr>)" using conns none c1(6,7) StopInLoop by (simp add: conns_inv_def)
    moreover have "usage_inv b (s\<lparr>tcl_connector := cn_retry fd c1\<rparr>)"
      using usage c1(6) StopInLoop by (auto simp: usage_inv_def)
    ultimately show ?thesis using StopInLoop True c1 by (simp add: stopInLoop_def client_inv_def functor_phase_def)
  next
    case False
    have "conns_inv b s" "usage_inv b s" "cn_live b ?c"
      using conns usage off StopInLoop by (auto simp: conns_inv_def usage_inv_def cn_live_def)
    with False StopInLoop c assms(2) show ?thesis by (simp add: stopInLoop_def client_inv_def)
  qed
next
  case ResetChannel
  let ?c = "tcl_connector s"
  have c: "channel_inv (t # b) ?c" "timer_inv ?c" "socket_inv ?c" "start_inv (t # b) ?c" and conns: "conns_inv (t # b) s"
    and usage: "usage_inv (t # b) s" and live: "cn_live (t # b) ?c"
    using assms(1) by (simp_all add: client_inv_def cn_inv_def)
  obtain fd ch where ch: "cn_channel ?c = Some (fd, ch)" "\<not> ch_addedToLoop ch" "cn_state ?c \<noteq> cn_kConnecting" "ResetChannel \<notin> set (left b s)"
    using c(1) ResetChannel by (auto simp: channel_inv_def count_list_0_iff split: if_splits option.splits)
  have "cn_inv b (?c\<lparr>cn_channel := None\<rparr>)"
    unfolding cn_inv_def
  proof (intro conjI)
    show "channel_inv b (?c\<lparr>cn_channel := None\<rparr>)" using ch by (simp add: channel_inv_def)
    show "start_inv b (?c\<lparr>cn_channel := None\<rparr>)" using c(4) ch(1) by (auto simp: start_inv_def)
  qed (use c ch in \<open>simp_all add: timer_inv_def socket_inv_def open_socket_def\<close>)
  moreover have "cn_live b (?c\<lparr>cn_channel := None\<rparr>)" using live ResetChannel by (auto simp: cn_live_def)
  moreover have "conns_inv b (s\<lparr>tcl_connector := ?c\<lparr>cn_channel := None\<rparr>\<rparr>)" using conns ResetChannel by (simp add: conns_inv_def)
  moreover have "usage_inv b (s\<lparr>tcl_connector := ?c\<lparr>cn_channel := None\<rparr>\<rparr>)" using usage by (auto simp: usage_inv_def)
  ultimately show ?thesis using ResetChannel ch assms(2) by (simp add: resetChannel_def client_inv_def functor_phase_def)
next
  case (ConnectionDestroyed conn)
  have "cn_inv b (tcl_connector s)" using assms(1) cn_inv_drop [of t b] ConnectionDestroyed by (auto simp: client_inv_def)
  moreover have "conns_inv b (s\<lparr>tcl_down := tcl_down s @ [conn]\<rparr>)"
    using assms(1) ConnectionDestroyed by (auto simp: client_inv_def conns_inv_def)
  ultimately show ?thesis
    using assms ConnectionDestroyed by (auto simp: client_inv_def usage_inv_def functor_phase_def cn_live_def)
qed

lemma run_tasks_inv:
  "client_inv ts s \<Longrightarrow> functor_phase s \<Longrightarrow> \<exists>s'. run_tasks e ts s = Inr s' \<and> client_inv [] s' \<and> functor_phase s'"
proof (induction ts arbitrary: s)
  case (Cons t ts)
  then obtain s1 where "run_task e t s = Inr s1" "client_inv ts s1" "functor_phase s1" using run_task_inv [of t ts s e] by blast
  with Cons.IH [of s1] show ?case by auto
qed simp

definition client_ok :: "TcpClient \<Rightarrow> bool" where
  "client_ok s \<longleftrightarrow> client_inv [] s \<and> event_phase s"

text \<open>Moving functors and timers between their queues does not matter to the invariant.\<close>

lemma client_inv_frame:
  assumes "client_inv b s" "cn_state c = cn_state (tcl_connector s)" "cn_channel c = cn_channel (tcl_connector s)"
    and "tasks_left b' c = left b s" "cn_ready c @ cn_timers c = cn_ready (tcl_connector s) @ cn_timers (tcl_connector s)"
    and "cn_retryDelayMs c = cn_retryDelayMs (tcl_connector s)" "cn_connect c = cn_connect (tcl_connector s)"
    and "cn_closed c = cn_closed (tcl_connector s)" "cn_given c = cn_given (tcl_connector s)" "cn_sockets c = cn_sockets (tcl_connector s)"
    and "cn_errors c = cn_errors (tcl_connector s)"
  shows "client_inv b' (s\<lparr>tcl_connector := c\<rparr>)"
proof -
  have sock: "open_socket c = open_socket (tcl_connector s)" unfolding open_socket_def assms(2,3) ..
  have "cn_inv b' c" using assms(1) unfolding client_inv_def cn_inv_def channel_inv_def timer_inv_def socket_inv_def start_inv_def
      sock assms(2-11) by (elim conjE) (intro conjI)
  moreover have "cn_live b' c" using assms(1) unfolding client_inv_def cn_live_def assms(2-11) by (elim conjE)
  moreover have sel: "tcl_connector (s\<lparr>tcl_connector := c\<rparr>) = c" "tcl_up (s\<lparr>tcl_connector := c\<rparr>) = tcl_up s"
    "tcl_nextConnId (s\<lparr>tcl_connector := c\<rparr>) = tcl_nextConnId s" "tcl_name (s\<lparr>tcl_connector := c\<rparr>) = tcl_name s"
    "tcl_connection (s\<lparr>tcl_connector := c\<rparr>) = tcl_connection s" "tcl_down (s\<lparr>tcl_connector := c\<rparr>) = tcl_down s"
    "tcl_connects (s\<lparr>tcl_connector := c\<rparr>) = tcl_connects s" "tcl_connect (s\<lparr>tcl_connector := c\<rparr>) = tcl_connect s"
    by simp_all
  moreover have "conns_inv b' (s\<lparr>tcl_connector := c\<rparr>)"
    using assms(1) unfolding client_inv_def conns_inv_def sel assms(2-11) by (elim conjE) (intro conjI)
  moreover have "usage_inv b' (s\<lparr>tcl_connector := c\<rparr>)"
    using assms(1) unfolding client_inv_def usage_inv_def sel assms(2-11) by (elim conjE) (intro conjI)
  ultimately show ?thesis by (simp add: client_inv_def)
qed

lemma end_iteration_ok: "client_ok s \<Longrightarrow> \<exists>s'. loop_functors e s = Inr s' \<and> client_ok s'"
proof -
  assume s: "client_ok s"
  let ?c = "tcl_connector s" and ?s = "s\<lparr>tcl_connector := (tcl_connector s)\<lparr>cn_tasks := []\<rparr>\<rparr>"
  have "client_inv (cn_tasks ?c) ?s"
    using s client_inv_frame [where b = "[]" and s = s and b' = "cn_tasks ?c" and c = "?c\<lparr>cn_tasks := []\<rparr>"] by (simp add: client_ok_def)
  then obtain s1 where s1: "run_tasks e (cn_tasks ?c) ?s = Inr s1" "client_inv [] s1" "functor_phase s1"
    using run_tasks_inv [of "cn_tasks ?c" ?s e] by (auto simp: functor_phase_def)
  let ?s1 = "s1\<lparr>tcl_connector := (tcl_connector s1)\<lparr>cn_ready := cn_ready (tcl_connector s1) @ cn_timers (tcl_connector s1), cn_timers := []\<rparr>\<rparr>"
  have "client_inv [] ?s1" using s1(2) client_inv_frame [where b = "[]" and s = s1 and b' = "[]" and c = "tcl_connector ?s1"] by simp
  moreover have "event_phase ?s1" using s1(3) by (simp add: functor_phase_def event_phase_def)
  moreover have "loop_functors e s = Inr ?s1" unfolding loop_functors_def Let_def s1(1) by simp
  ultimately show ?thesis unfolding client_ok_def by blast
qed

lemma timer_ok:
  assumes "client_ok s" "cn_ready (tcl_connector s) \<noteq> []"
  shows "\<exists>s'. client_timer e s = Inr s' \<and> client_ok s'"
proof -
  let ?c = "tcl_connector s"
  have c: "channel_inv [] ?c" "timer_inv ?c" "socket_inv ?c" "start_inv [] ?c" and conns: "conns_inv [] s" and usage: "usage_inv [] s"
    using assms(1) by (simp_all add: client_ok_def client_inv_def cn_inv_def)
  have one: "tl (cn_ready ?c) = []" "cn_timers ?c = []" and disc: "cn_state ?c = cn_kDisconnected"
    using c(2) assms(2) by (cases "cn_ready ?c"; auto simp: timer_inv_def)+
  have no_reset: "ResetChannel \<notin> set (cn_tasks ?c)" using assms by (simp add: client_ok_def event_phase_def)
  then have none: "cn_channel ?c = None" using c(1) disc by (auto simp: channel_inv_def split: option.splits)
  have no_start: "StartInLoop \<notin> set (cn_tasks ?c)" using c(4) assms(2) by (auto simp: start_inv_def)
  have "cn_inv [] (?c\<lparr>cn_ready := []\<rparr>)"
    unfolding cn_inv_def
  proof (intro conjI)
    show "channel_inv [] (?c\<lparr>cn_ready := []\<rparr>)" using c(1) none disc by (simp add: channel_inv_def)
    show "timer_inv (?c\<lparr>cn_ready := []\<rparr>)" using c(2) one by (simp add: timer_inv_def)
    show "socket_inv (?c\<lparr>cn_ready := []\<rparr>)" using c(3) disc by (simp add: socket_inv_def open_socket_def)
    show "start_inv [] (?c\<lparr>cn_ready := []\<rparr>)" using c(4) no_start by (simp add: start_inv_def)
  qed
  then obtain c' where c': "startInLoop e (?c\<lparr>cn_ready := []\<rparr>) = Inr c'" "cn_inv [] c'" "cn_live [] c'" "cn_tasks c' = cn_tasks ?c"
      "cn_given c' = cn_given ?c" "cn_ready c' = []"
    using startInLoop_inv [of "[]" "?c\<lparr>cn_ready := []\<rparr>" e] disc none one no_start by auto
  have "tcl_connection s = None" using conns disc by (cases "tcl_connection s") (auto simp: conns_inv_def)
  then have "conns_inv [] (s\<lparr>tcl_connector := c'\<rparr>)" using conns c'(4,5) by (simp add: conns_inv_def)
  moreover have "usage_inv [] (s\<lparr>tcl_connector := c'\<rparr>)" using usage assms(2) c'(4) by (auto simp: usage_inv_def)
  ultimately have "client_ok (s\<lparr>tcl_connector := c'\<rparr>)" using c' by (simp add: client_ok_def client_inv_def event_phase_def)
  moreover have "client_timer e s = Inr (s\<lparr>tcl_connector := c'\<rparr>)" unfolding client_timer_def Let_def one(1) c'(1) by simp
  ultimately show ?thesis by blast
qed

lemma closed_ok:
  assumes "client_ok s" "tcl_connection s = Some conn" "ResetChannel \<notin> set (cn_tasks (tcl_connector s))"
  shows "\<exists>s'. client_removeConnection e conn s = Inr s' \<and> client_ok s'"
proof -
  let ?c = "queue_task (ConnectionDestroyed conn) (tcl_connector s)"
  have c: "channel_inv [] (tcl_connector s)" "timer_inv (tcl_connector s)" "socket_inv (tcl_connector s)" "start_inv [] (tcl_connector s)"
    and conns: "conns_inv [] s" and usage: "usage_inv [] s"
    using assms(1) by (simp_all add: client_ok_def client_inv_def cn_inv_def)
  have st: "cn_state (tcl_connector s) = cn_kConnected" using conns assms(2) by (simp add: conns_inv_def)
  then have none: "cn_channel (tcl_connector s) = None" using c(1) assms(3) by (auto simp: channel_inv_def split: option.splits)
  have timers: "cn_ready (tcl_connector s) @ cn_timers (tcl_connector s) = []" using c(2) st by (auto simp: timer_inv_def)
  have no_start: "StartInLoop \<notin> set (cn_tasks (tcl_connector s))" using c(4) st by (auto simp: start_inv_def)
  have conns': "conns_inv [] (s\<lparr>tcl_connection := None, tcl_connector := c'\<rparr>)"
    if "cn_tasks c' = cn_tasks ?c" "cn_given c' = cn_given (tcl_connector s)" for c'
    using conns assms(2) that by (auto simp: conns_inv_def queue_task_def)
  have usage': "usage_inv [] (s\<lparr>tcl_connection := None, tcl_connector := c'\<rparr>)" if "cn_tasks c' = cn_tasks ?c" for c'
    using usage st that by (auto simp: usage_inv_def queue_task_def)
  show ?thesis
  proof (cases "tcl_retry s \<and> tcl_connect s")
    case True
    let ?d = "?c\<lparr>cn_state := cn_kDisconnected, cn_retryDelayMs := kInitRetryDelayMs, cn_connect := True\<rparr>"
    have no_stop: "StopInLoop \<notin> set (cn_tasks (tcl_connector s))" using usage True by (auto simp: usage_inv_def)
    have "cn_inv [] ?d" unfolding cn_inv_def
    proof (intro conjI)
      show "timer_inv ?d" using timers by (simp add: timer_inv_def queue_task_def kInitRetryDelayMs_def kMaxRetryDelayMs_def)
      show "channel_inv [] ?d" using none assms(3) by (simp add: channel_inv_def queue_task_def)
    qed (use c none st no_start no_stop in \<open>simp_all add: socket_inv_def open_socket_def start_inv_def queue_task_def\<close>)
    then obtain c' where c': "startInLoop e ?d = Inr c'" "cn_inv [] c'" "cn_live [] c'" "cn_tasks c' = cn_tasks ?c"
        "cn_given c' = cn_given (tcl_connector s)" "cn_ready c' = []"
      using startInLoop_inv [of "[]" ?d e] none timers no_start by (auto simp: queue_task_def)
    with True assms(2) conns' [OF c'(4,5)] usage' [OF c'(4)] show ?thesis
      by (simp add: client_removeConnection_def cn_restart_def client_ok_def client_inv_def event_phase_def Let_def)
  next
    case False
    have "cn_inv [] ?c"
      using c none st no_start assms(3) by (auto simp: cn_inv_def channel_inv_def timer_inv_def socket_inv_def open_socket_def start_inv_def queue_task_def)
    moreover have "cn_live [] ?c" using st by (simp add: cn_live_def queue_task_def)
    moreover have "cn_ready ?c = []" using timers by (simp add: queue_task_def)
    ultimately show ?thesis
      using False assms(2) conns' [of ?c] usage' [of ?c]
      by (auto simp: client_removeConnection_def client_ok_def client_inv_def event_phase_def Let_def queue_task_def)
  qed
qed

lemma channel_event_ok:
  assumes "client_ok s" "cn_channel (tcl_connector s) = Some (fd0, ch0)" "ch_addedToLoop ch0"
  shows "\<exists>s'. client_handleEvent peer is_error can_write err self s = Inr s' \<and> client_ok s'"
proof -
  let ?c = "tcl_connector s"
  have c: "cn_inv [] ?c" and conns: "conns_inv [] s" and usage: "usage_inv [] s"
    using assms(1) by (simp_all add: client_ok_def client_inv_def)
  have st: "cn_state ?c = cn_kConnecting" using c assms(2,3) by (auto simp: cn_inv_def channel_inv_def split: if_splits)
  have none: "tcl_connection s = None" using conns st by (cases "tcl_connection s") (auto simp: conns_inv_def)
  have conn: "tcl_connects s \<noteq> 0" using usage st by (auto simp: usage_inv_def)
  obtain fd c1 where remove: "removeAndResetChannel ?c = Inr (fd, c1)" and
      retry: "cn_inv [] (cn_retry fd c1)" "cn_live [] (cn_retry fd c1)" "cn_state (cn_retry fd c1) = cn_kDisconnected"
      "cn_tasks (cn_retry fd c1) = cn_tasks ?c @ [ResetChannel]" "cn_given (cn_retry fd c1) = cn_given ?c" "cn_ready (cn_retry fd c1) = []"
    using attempt_fails [OF c st] by metis
  note up = attempt_succeeds [OF c st remove]
  have fails: "client_ok (s\<lparr>tcl_connector := cn_retry fd c1\<rparr>)"
  proof -
    have "conns_inv [] (s\<lparr>tcl_connector := cn_retry fd c1\<rparr>)" using conns none retry(4,5) by (simp add: conns_inv_def)
    moreover have "usage_inv [] (s\<lparr>tcl_connector := cn_retry fd c1\<rparr>)" using usage conn retry(4) by (simp add: usage_inv_def)
    ultimately show ?thesis using retry by (simp add: client_ok_def client_inv_def event_phase_def)
  qed
  consider "is_error" | "\<not> is_error" "\<not> can_write" | "\<not> is_error" "can_write" "err \<noteq> 0 \<or> self"
    | "\<not> is_error" "can_write" "err = 0" "\<not> self" "\<not> cn_connect ?c" | "\<not> is_error" "can_write" "err = 0" "\<not> self" "cn_connect ?c" by blast
  then show ?thesis
  proof cases
    case 1
    then have "client_handleEvent peer is_error can_write err self s = Inr (s\<lparr>tcl_connector := cn_retry fd c1\<rparr>)"
      using st remove retry(3) by (simp add: client_handleEvent_def cn_handleEvent_def cn_handleError_def cn_handleWrite_def)
    with fails show ?thesis by blast
  next
    case 2
    then have "client_handleEvent peer is_error can_write err self s = Inr s"
      by (simp add: client_handleEvent_def cn_handleEvent_def)
    with assms(1) show ?thesis by blast
  next
    case 3
    then have "client_handleEvent peer is_error can_write err self s = Inr (s\<lparr>tcl_connector := cn_retry fd c1\<rparr>)"
      using st remove by (auto simp: client_handleEvent_def cn_handleEvent_def cn_handleWrite_def)
    with fails show ?thesis by blast
  next
    case 4
    let ?d = "close_socket fd (c1\<lparr>cn_state := cn_kConnected\<rparr>)"
    have "client_handleEvent peer is_error can_write err self s = Inr (s\<lparr>tcl_connector := ?d\<rparr>)"
      using 4 st remove up(5) by (simp add: client_handleEvent_def cn_handleEvent_def cn_handleWrite_def)
    moreover have "conns_inv [] (s\<lparr>tcl_connector := ?d\<rparr>)" using conns none up(3,4) by (simp add: conns_inv_def close_socket_def)
    moreover have "usage_inv [] (s\<lparr>tcl_connector := ?d\<rparr>)" using usage conn up(3) by (simp add: usage_inv_def close_socket_def)
    moreover have "cn_live [] ?d" by (simp add: cn_live_def close_socket_def)
    moreover have "cn_ready ?d = []" using up(6) by (simp add: close_socket_def)
    ultimately have "client_handleEvent peer is_error can_write err self s = Inr (s\<lparr>tcl_connector := ?d\<rparr>)"
      "client_ok (s\<lparr>tcl_connector := ?d\<rparr>)" using up(2) by (simp_all add: client_ok_def client_inv_def event_phase_def)
    then show ?thesis by blast
  next
    case 5
    let ?d = "c1\<lparr>cn_state := cn_kConnected, cn_given := cn_given c1 @ [fd]\<rparr>"
    let ?s = "client_newConnection peer fd (s\<lparr>tcl_connector := ?d\<rparr>)"
    have "client_handleEvent peer is_error can_write err self s = Inr ?s"
      using 5 st remove up(5) by (simp add: client_handleEvent_def cn_handleEvent_def cn_handleWrite_def)
    moreover have "conns_inv [] ?s"
    proof -
      have fresh: "fd \<notin> set (cn_given ?c)" using up(1) 5(5) up(4) by (simp add: cn_inv_def socket_inv_def)
      have "\<exists>p. snd ((tcl_up s @ [(fd, client_connName (tcl_name s) peer (tcl_nextConnId s))]) ! i) = client_connName (tcl_name s) p (int i + 1)"
        if "i < Suc (length (tcl_up s))" for i
        using conns that by (cases "i < length (tcl_up s)") (auto simp: conns_inv_def nth_append less_Suc_eq)
      then show ?thesis using conns none fresh up(3,4) by (auto simp: conns_inv_def client_newConnection_def)
    qed
    moreover have "usage_inv [] ?s" using usage conn up(3) by (simp add: usage_inv_def client_newConnection_def)
    moreover have "cn_live [] ?d" by (simp add: cn_live_def)
    ultimately have "client_handleEvent peer is_error can_write err self s = Inr ?s" "client_ok ?s"
      using up(1,6) 5(5) by (simp_all add: client_ok_def client_inv_def event_phase_def client_newConnection_def)
    then show ?thesis by blast
  qed
qed

lemma socket_inv_frame:
  assumes "socket_inv c" "cn_state c' = cn_state c" "cn_channel c' = cn_channel c" "cn_closed c' = cn_closed c"
    "cn_given c' = cn_given c" "cn_sockets c' = cn_sockets c"
  shows "socket_inv c'"
  using assms(1) unfolding socket_inv_def open_socket_def assms(2-6) .

lemma connect_ok:
  assumes "client_ok s" "tcl_connects s = 0"
  shows "\<exists>s'. client_connect e s = Inr s' \<and> client_ok s'" "client_ok (client_connect_other s)"
proof -
  let ?c = "(tcl_connector s)\<lparr>cn_connect := True\<rparr>"
  have c: "channel_inv [] (tcl_connector s)" "timer_inv (tcl_connector s)" "socket_inv (tcl_connector s)"
    and conns: "conns_inv [] s" and usage: "usage_inv [] s"
    using assms(1) by (simp_all add: client_ok_def client_inv_def cn_inv_def)
  have u: "cn_state ?c = cn_kDisconnected" "cn_channel ?c = None" "cn_ready ?c @ cn_timers ?c = []" "cn_tasks ?c = []"
    using usage assms(2) by (simp_all add: usage_inv_def)
  have none: "tcl_connection s = None" using conns u(1) by (cases "tcl_connection s") (auto simp: conns_inv_def)
  have "cn_inv [] ?c"
    unfolding cn_inv_def
  proof (intro conjI)
    show "channel_inv [] ?c" "start_inv [] ?c" using u by (simp_all add: channel_inv_def start_inv_def)
    show "timer_inv ?c" using c(2) by (simp add: timer_inv_def)
    show "socket_inv ?c" by (rule socket_inv_frame [OF c(3)]) simp_all
  qed
  then obtain c' where c': "startInLoop e ?c = Inr c'" "cn_inv [] c'" "cn_live [] c'" "cn_tasks c' = []"
      "cn_given c' = cn_given (tcl_connector s)" "cn_ready c' = []"
    using startInLoop_inv [of "[]" ?c e] u by auto
  let ?s = "s\<lparr>tcl_connect := True, tcl_connector := c', tcl_connects := tcl_connects s + 1\<rparr>"
  have "conns_inv [] ?s" using conns none c'(4,5) u(4) by (simp add: conns_inv_def)
  moreover have "usage_inv [] ?s" using assms(2) c'(4) by (simp add: usage_inv_def)
  ultimately have "client_ok ?s" using c' by (simp add: client_ok_def client_inv_def event_phase_def)
  moreover have "client_connect e s = Inr ?s" unfolding client_connect_def cn_start_def c'(1) by simp
  ultimately show "\<exists>s'. client_connect e s = Inr s' \<and> client_ok s'" by blast
  let ?d = "?c\<lparr>cn_tasks := [StartInLoop]\<rparr>"
  have other: "client_connect_other s = s\<lparr>tcl_connect := True, tcl_connector := ?d, tcl_connects := tcl_connects s + 1\<rparr>"
    using u(4) by (simp add: client_connect_other_def cn_start_other_def queue_task_def)
  have "cn_inv [] ?d"
    unfolding cn_inv_def
  proof (intro conjI)
    show "channel_inv [] ?d" "start_inv [] ?d" using u by (simp_all add: channel_inv_def start_inv_def)
    show "timer_inv ?d" using c(2) by (simp add: timer_inv_def)
    show "socket_inv ?d" by (rule socket_inv_frame [OF c(3)]) simp_all
  qed
  moreover have "cn_live [] ?d" by (simp add: cn_live_def)
  moreover have "conns_inv [] (client_connect_other s)" using conns none u(4) unfolding other by (simp add: conns_inv_def)
  moreover have "usage_inv [] (client_connect_other s)" using assms(2) unfolding other by (simp add: usage_inv_def)
  ultimately show "client_ok (client_connect_other s)"
    using u(3) unfolding other by (simp add: client_ok_def client_inv_def event_phase_def)
qed

lemma stop_ok: "client_ok s \<Longrightarrow> tcl_connects s = 1 \<Longrightarrow> client_ok (client_stop s)"
proof -
  assume s: "client_ok s" and once: "tcl_connects s = 1"
  let ?c = "cn_stop (tcl_connector s)"
  have c: "channel_inv [] (tcl_connector s)" "timer_inv (tcl_connector s)" "socket_inv (tcl_connector s)" "start_inv [] (tcl_connector s)"
    and conns: "conns_inv [] s" and usage: "usage_inv [] s"
    using s by (simp_all add: client_ok_def client_inv_def cn_inv_def)
  have fields: "cn_tasks ?c = cn_tasks (tcl_connector s) @ [StopInLoop]" "cn_connect ?c = False" "cn_state ?c = cn_state (tcl_connector s)"
    "cn_channel ?c = cn_channel (tcl_connector s)" "cn_given ?c = cn_given (tcl_connector s)" "cn_ready ?c = cn_ready (tcl_connector s)"
    "cn_timers ?c = cn_timers (tcl_connector s)" "cn_retryDelayMs ?c = cn_retryDelayMs (tcl_connector s)"
    "cn_closed ?c = cn_closed (tcl_connector s)" "cn_sockets ?c = cn_sockets (tcl_connector s)"
    by (simp_all add: cn_stop_def queue_task_def)
  have "cn_inv [] ?c"
    unfolding cn_inv_def
  proof (intro conjI)
    show "channel_inv [] ?c"
      using c(1) unfolding channel_inv_def fields by (auto split: option.splits if_splits prod.splits)
    show "start_inv [] ?c" using c(4) unfolding start_inv_def fields by simp
    show "timer_inv ?c" using c(2) unfolding timer_inv_def fields .
  qed (rule socket_inv_frame [OF c(3)]; simp add: fields)
  moreover have "cn_live [] ?c" by (simp add: cn_live_def fields)
  moreover have "conns_inv [] (client_stop s)" using conns by (simp add: conns_inv_def client_stop_def fields)
  moreover have "usage_inv [] (client_stop s)" using once by (simp add: usage_inv_def client_stop_def)
  moreover have "event_phase (client_stop s)" using s by (simp add: event_phase_def client_ok_def client_stop_def fields)
  ultimately show ?thesis by (simp add: client_ok_def client_inv_def client_stop_def)
qed

lemma flag_ok:
  assumes "client_ok s" "tcl_connector s' = tcl_connector s" "tcl_up s' = tcl_up s" "tcl_nextConnId s' = tcl_nextConnId s"
    "tcl_name s' = tcl_name s" "tcl_connection s' = tcl_connection s" "tcl_down s' = tcl_down s" "tcl_connects s' = tcl_connects s"
    "tcl_connect s' \<longrightarrow> tcl_connect s"
  shows "client_ok s'"
  using assms(1,9) unfolding client_ok_def client_inv_def conns_inv_def usage_inv_def event_phase_def assms(2-8) by blast

interpretation client: safe_system client_step client_event_ok client_ok
proof
  fix s e assume s: "client_ok s" "client_event_ok e s"
  show "\<exists>s'. client_step e s = Inr s' \<and> client_ok s'"
  proof (cases e)
    case (Channel_Event peer r w err self)
    with s(2) obtain fd ch where "cn_channel (tcl_connector s) = Some (fd, ch)" "ch_addedToLoop ch" by (auto split: option.splits)
    with channel_event_ok [OF s(1) this, of peer r w err self] Channel_Event show ?thesis by simp
  next
    case (Connection_Closed e')
    with s(2) obtain conn where "tcl_connection s = Some conn" "ResetChannel \<notin> set (cn_tasks (tcl_connector s))" by auto
    with closed_ok [OF s(1) this, of e'] Connection_Closed show ?thesis by simp
  next
    case Disconnect_Call
    have "client_ok (client_disconnect s)"
      by (rule flag_ok [OF s(1)]) (simp_all add: client_disconnect_def Let_def split: option.split)
    with Disconnect_Call show ?thesis by simp
  next
    case Enable_Retry
    have "client_ok (s\<lparr>tcl_retry := True\<rparr>)" by (rule flag_ok [OF s(1)]) simp_all
    with Enable_Retry show ?thesis by simp
  qed (use s connect_ok stop_ok timer_ok end_iteration_ok in auto)
qed

fun client_run :: "client_event list \<Rightarrow> TcpClient \<Rightarrow> TcpClient res" where
  "client_run [] s = Inr s"
| "client_run (e # es) s = rbind (client_step e s) (client_run es)"

fun client_events_ok :: "client_event list \<Rightarrow> TcpClient \<Rightarrow> bool" where
  "client_events_ok [] s \<longleftrightarrow> True"
| "client_events_ok (e # es) s \<longleftrightarrow>
     client_event_ok e s \<and> (case client_step e s of Inl _ \<Rightarrow> True | Inr s' \<Rightarrow> client_events_ok es s')"

lemma client_run_system: "client_run es s = client.run es s"
  by (induction es arbitrary: s) (simp_all cong: rbind_cong)

lemma client_events_system: "client_events_ok es s = client.allowed_run es s"
  by (induction es arbitrary: s) (auto split: sum.splits)

lemma client_new_ok: "client_ok (TcpClient_new name)"
  by (simp add: client_ok_def client_inv_def cn_inv_defs cn_live_def conns_inv_def usage_inv_def event_phase_def TcpClient_new_def
      Connector_new_def kInitRetryDelayMs_def kMaxRetryDelayMs_def)

text \<open>
  C20. A client whose \<^verbatim>\<open>connect\<close> is called once never fails an assertion, however attempts to connect fail or succeed, timers
  expire, connections close and \<^verbatim>\<open>stop\<close> or \<^verbatim>\<open>disconnect\<close> are called. Every socket it created is closed,
  connecting or became a connection, exactly one of these; every connection is the current one or is
  destroyed once; the delays between attempts stay between half a second and thirty seconds; and while it
  shall connect, it is connecting, connected, or waits for a timer, unless a fatal error made it give up
  (\<open>gives_up\<close>). A second call of \<^verbatim>\<open>connect\<close> is another matter (\<open>connect_again_fails\<close>).
\<close>

theorem client_keeps_sockets:
  assumes "client_events_ok es (TcpClient_new name)"
  shows "\<exists>s. client_run es (TcpClient_new name) = Inr s
    \<and> (let c = tcl_connector s in
        distinct (cn_closed c @ cn_given c @ open_socket c) \<and> set (cn_closed c @ cn_given c @ open_socket c) = {..<cn_sockets c}
        \<and> map fst (tcl_up s) = cn_given c
        \<and> distinct (tcl_down s @ destroying (cn_tasks c)) \<and> set (tcl_down s @ destroying (cn_tasks c)) \<subseteq> set (cn_given c)
        \<and> (\<forall>fd. fd \<in> set (cn_given c) \<and> tcl_connection s \<noteq> Some fd \<longrightarrow> fd \<in> set (tcl_down s @ destroying (cn_tasks c)))
        \<and> (\<forall>d\<in>set (cn_ready c @ cn_timers c). 500 \<le> d \<and> d \<le> 30000)
        \<and> (cn_connect c \<and> cn_errors c = [] \<longrightarrow>
             open_socket c \<noteq> [] \<or> cn_state c = cn_kConnected \<or> cn_ready c @ cn_timers c \<noteq> [] \<or> StartInLoop \<in> set (cn_tasks c)))"
proof -
  obtain s where s: "client_run es (TcpClient_new name) = Inr s" "client_ok s"
    using client.run_inv [OF client_new_ok] assms unfolding client_run_system client_events_system by blast
  let ?c = "tcl_connector s"
  have inv: "channel_inv [] ?c" "timer_inv ?c" "socket_inv ?c" "cn_live [] ?c" "conns_inv [] s"
    using s(2) by (simp_all add: client_ok_def client_inv_def cn_inv_def)
  have conns: "map fst (tcl_up s) = cn_given ?c" "distinct (tcl_down s @ destroying (cn_tasks ?c))"
    "set (tcl_down s @ destroying (cn_tasks ?c)) \<subseteq> set (cn_given ?c)"
    using inv(5) by (auto simp: conns_inv_def)
  have current: "fd \<in> set (tcl_down s @ destroying (cn_tasks ?c))" if "fd \<in> set (cn_given ?c)" "tcl_connection s \<noteq> Some fd" for fd
  proof -
    have "set (tcl_down s @ destroying (cn_tasks ?c) @ (case tcl_connection s of Some fd \<Rightarrow> [fd] | None \<Rightarrow> [])) = set (cn_given ?c)"
      using inv(5) by (simp add: conns_inv_def)
    with that(1) have "fd \<in> set (tcl_down s @ destroying (cn_tasks ?c) @ (case tcl_connection s of Some fd \<Rightarrow> [fd] | None \<Rightarrow> []))" by blast
    with that(2) show ?thesis by (cases "tcl_connection s") simp_all
  qed
  have delays: "\<forall>d\<in>set (cn_ready ?c @ cn_timers ?c). 500 \<le> d \<and> d \<le> 30000"
    using inv(2) by (auto simp: timer_inv_def kInitRetryDelayMs_def kMaxRetryDelayMs_def)
  have waits: "open_socket ?c \<noteq> [] \<or> cn_state ?c = cn_kConnected \<or> cn_ready ?c @ cn_timers ?c \<noteq> [] \<or> StartInLoop \<in> set (cn_tasks ?c)"
    if "cn_connect ?c" "cn_errors ?c = []"
    using inv(1,4) that by (cases "cn_state ?c") (auto simp: cn_live_def channel_inv_def open_socket_def split: option.splits)
  show ?thesis
    using s(1) inv(3) conns current delays waits unfolding socket_inv_def Let_def by blast
qed

theorem client_keeps_sockets_witness:
  "\<exists>s. client_run [Connect_Call ECONNREFUSED, End_Iteration E_OK, Timer_Due EINPROGRESS, Channel_Event ''127.0.0.1:80'' False True 0 False]
      (TcpClient_new ''c'') = Inr s \<and> map fst (tcl_up s) = cn_given (tcl_connector s)"
proof -
  have "client_events_ok [Connect_Call ECONNREFUSED, End_Iteration E_OK, Timer_Due EINPROGRESS, Channel_Event ''127.0.0.1:80'' False True 0 False]
      (TcpClient_new ''c'')" by code_simp
  from client_keeps_sockets [OF this] show ?thesis by (auto simp: Let_def)
qed

section \<open>Other uses\<close>

text \<open>
  A second \<^verbatim>\<open>connect\<close> fails the assertion of \<^verbatim>\<open>startInLoop\<close>: while the first is under way, when the client is connected, after
  the connection closed, and at the timer of a retry when \<^verbatim>\<open>stop\<close> and \<^verbatim>\<open>connect\<close> came before it.
\<close>

lemma connect_again_fails:
  "client_run [Connect_Call EINPROGRESS, Connect_Call EINPROGRESS] (TcpClient_new n) = Inl Assert_Failed"
  "client_run [Connect_Call EINPROGRESS, Channel_Event ''a:1'' False True 0 False, End_Iteration E_OK, Connection_Closed E_OK,
     End_Iteration E_OK, Connect_Call EINPROGRESS] (TcpClient_new n) = Inl Assert_Failed"
  "client_run [Connect_Call ECONNREFUSED, Stop_Call, End_Iteration E_OK, Connect_Call EINPROGRESS, Timer_Due E_OK] (TcpClient_new n)
     = Inl Assert_Failed"
  by (simp_all add: client_connect_def cn_start_def startInLoop_def do_connect_def cn_connecting_def TcpClient_new_def Connector_new_def
      client_handleEvent_def cn_handleEvent_def cn_handleWrite_def removeAndResetChannel_def removed_channel queue_task_def
      client_newConnection_def loop_functors_def resetChannel_def client_removeConnection_def cn_retry_def close_socket_def
      client_stop_def cn_stop_def stopInLoop_def client_timer_def Let_def)

text \<open>The names of connections are cut to 31 characters, before the number when the address is long.\<close>

lemma long_address_names: "length peer \<ge> 30 \<Longrightarrow> client_connName n peer i = client_connName n peer j"
  by (simp add: client_connName_def)

text \<open>An error that is not expected ends the attempts without a word to the user.\<close>

lemma gives_up:
  "client_run [Connect_Call EACCES, End_Iteration E_OK] (TcpClient_new n) = Inr s \<Longrightarrow>
   cn_connect (tcl_connector s) \<and> cn_ready (tcl_connector s) @ cn_timers (tcl_connector s) = [] \<and> cn_channel (tcl_connector s) = None
   \<and> cn_tasks (tcl_connector s) = []"
  by (auto simp: client_connect_def cn_start_def startInLoop_def do_connect_def TcpClient_new_def Connector_new_def close_socket_def
      loop_functors_def Let_def)

end
