(* ===== verification/Net_Codec.thy ===== *)
theory Net_Codec
  imports Net_Buffer
begin

text \<open>
  The framing of protocol buffer messages (net/protobuf/ProtobufCodecLite.h, net/protobuf/ProtobufCodecLite.cc):
  a length, a tag, the message and a checksum. The library of protocol buffers and \<^verbatim>\<open>adler32\<close> are an
  argument (\<open>proto_lib\<close>); the callbacks are functions on a state of the user.
\<close>

section \<open>The codec\<close>

record 'm proto_lib =
  pl_serialize :: "'m \<Rightarrow> byte list"
  pl_parse :: "byte list \<Rightarrow> 'm option"
  pl_adler32 :: "byte list \<Rightarrow> 32 word"

datatype ErrorCode = kNoError | kInvalidLength | kCheckSumError | kInvalidNameLen | kUnknownMessageType | kParseError

definition kHeaderLen :: nat where "kHeaderLen = 4"
definition kChecksumLen :: nat where "kChecksumLen = 4"
definition kMaxMessageLen :: nat where "kMaxMessageLen = 64 * 1024 * 1024"

definition kMinMessageLen :: "byte list \<Rightarrow> nat" where
  \<comment> \<open>of the tag\<close>
  "kMinMessageLen tag = length tag + kChecksumLen"

fun errorCodeToString :: "ErrorCode \<Rightarrow> string" where
  "errorCodeToString kNoError = ''NoError''"
| "errorCodeToString kInvalidLength = ''InvalidLength''"
| "errorCodeToString kCheckSumError = ''CheckSumError''"
| "errorCodeToString kInvalidNameLen = ''InvalidNameLen''"
| "errorCodeToString kUnknownMessageType = ''UnknownMessageType''"
| "errorCodeToString kParseError = ''ParseError''"

definition asInt32 :: "byte list \<Rightarrow> 32 word" where
  "asInt32 buf = hostToNetwork 4 (le_word (take 4 buf))"

definition checksum :: "'m proto_lib \<Rightarrow> byte list \<Rightarrow> 32 word" where
  "checksum P buf = pl_adler32 P buf"

definition validateChecksum :: "'m proto_lib \<Rightarrow> byte list \<Rightarrow> bool" where
  \<comment> \<open>of the bytes from \<^verbatim>\<open>buf\<close> to \<^verbatim>\<open>buf + len\<close>\<close>
  "validateChecksum P bs =
     (let expectedCheckSum = asInt32 (drop (length bs - kChecksumLen) bs)
      in checksum P (take (length bs - kChecksumLen) bs) = expectedCheckSum)"

definition codec_parse :: "'m proto_lib \<Rightarrow> byte list \<Rightarrow> byte list \<Rightarrow> ErrorCode \<times> 'm option" where
  "codec_parse P tag bs =
     (if validateChecksum P bs then
        if take (length tag) bs = tag then
          let dataLen = length bs - kChecksumLen - length tag
          in case pl_parse P (take dataLen (drop (length tag) bs)) of
               Some m \<Rightarrow> (kNoError, Some m)
             | None \<Rightarrow> (kParseError, None)
        else (kUnknownMessageType, None)
      else (kCheckSumError, None))"

definition serializeToBuffer :: "'m proto_lib \<Rightarrow> 'm \<Rightarrow> Buffer \<Rightarrow> (nat \<times> Buffer) res" where
  "serializeToBuffer P message buf =
     (let bytes = pl_serialize P message; byte_size = length bytes
      in rbind (ensureWritableBytes (byte_size + kChecksumLen) buf) (\<lambda>b.
         rbind (hasWritten byte_size (b\<lparr>bufferVec := list_write (writerIndex b) bytes (bufferVec b)\<rparr>)) (\<lambda>b'.
         Inr (byte_size, b'))))"

definition fillEmptyBuffer :: "'m proto_lib \<Rightarrow> byte list \<Rightarrow> 'm \<Rightarrow> Buffer \<Rightarrow> Buffer res" where
  "fillEmptyBuffer P tag message buf =
     (if readableBytes buf \<noteq> 0 then Inl Assert_Failed
      else rbind (buffer_append tag buf) (\<lambda>b1.
           rbind (serializeToBuffer P message b1) (\<lambda>(byte_size, b2).
           rbind (appendInt32 (checksum P (peek (readableBytes b2) b2)) b2) (\<lambda>b3.
           if readableBytes b3 \<noteq> length tag + byte_size + kChecksumLen then Inl Assert_Failed
           else buffer_prepend (le_bytes 4 (hostToNetwork 4 (of_nat (readableBytes b3) :: 32 word))) b3))))"

definition codec_send :: "'m proto_lib \<Rightarrow> byte list \<Rightarrow> 'm \<Rightarrow> byte list res" where
  \<comment> \<open>the bytes that are handed to the connection\<close>
  "codec_send P tag message =
     rbind (fillEmptyBuffer P tag message (Buffer_new kInitialSize)) (\<lambda>buf. Inr (toStringPiece buf))"

record ('m, 's) codec_callbacks =
  cb_message :: "'m \<Rightarrow> 's \<Rightarrow> 's res"
  cb_raw :: "(byte list \<Rightarrow> 's \<Rightarrow> (bool \<times> 's) res) option"
  cb_error :: "ErrorCode \<Rightarrow> Buffer \<times> 's \<Rightarrow> (Buffer \<times> 's) res"

lemma retrieve_shorter: "retrieve n b = Inr b' \<Longrightarrow> 0 < n \<Longrightarrow> readableBytes b' < readableBytes b"
  by (auto simp: retrieve_def retrieveAll_def readableBytes_def split: if_splits)

function codec_onMessage ::
    "'m proto_lib \<Rightarrow> byte list \<Rightarrow> ('m, 's) codec_callbacks \<Rightarrow> Buffer \<times> 's \<Rightarrow> (Buffer \<times> 's) res" where
  "codec_onMessage P tag cb (buf, s) =
     (if readableBytes buf \<ge> kMinMessageLen tag + kHeaderLen then
        rbind (peekInt32 buf) (\<lambda>be. let len = sint be in
          if len > int kMaxMessageLen \<or> len < int (kMinMessageLen tag) then cb_error cb kInvalidLength (buf, s)
          else if readableBytes buf \<ge> kHeaderLen + nat len then
            let n = kHeaderLen + nat len in
            rbind (case cb_raw cb of None \<Rightarrow> Inr (True, s) | Some raw \<Rightarrow> raw (peek n buf) s) (\<lambda>(go, s1).
              if \<not> go then rbind (retrieve n buf) (\<lambda>buf'. codec_onMessage P tag cb (buf', s1))
              else
                (case codec_parse P tag (drop kHeaderLen (peek n buf)) of
                   (kNoError, Some message) \<Rightarrow>
                     rbind (cb_message cb message s1) (\<lambda>s2.
                     rbind (retrieve n buf) (\<lambda>buf'. codec_onMessage P tag cb (buf', s2)))
                 | (errorCode, _) \<Rightarrow> cb_error cb errorCode (buf, s1)))
          else Inr (buf, s))
      else Inr (buf, s))"
  by pat_completeness auto
termination
  by (relation "measure (\<lambda>(_, _, _, buf, _). readableBytes buf)") (auto intro!: retrieve_shorter simp: kHeaderLen_def)

declare codec_onMessage.simps [simp del]

definition defaultErrorCallback :: "ErrorCode \<Rightarrow> bool \<Rightarrow> bool" where
  \<comment> \<open>whether the connection is shut down, of whether it is connected\<close>
  "defaultErrorCallback errorCode connected = connected"

section \<open>Frames\<close>

definition frame_body :: "'m proto_lib \<Rightarrow> byte list \<Rightarrow> 'm \<Rightarrow> byte list" where
  "frame_body P tag m =
     (let head = tag @ pl_serialize P m in head @ le_bytes 4 (hostToNetwork 4 (pl_adler32 P head)))"

definition frame :: "'m proto_lib \<Rightarrow> byte list \<Rightarrow> 'm \<Rightarrow> byte list" where
  "frame P tag m = le_bytes 4 (hostToNetwork 4 (of_nat (length (frame_body P tag m)) :: 32 word)) @ frame_body P tag m"

definition sendable :: "'m proto_lib \<Rightarrow> byte list \<Rightarrow> 'm \<Rightarrow> bool" where
  \<comment> \<open>the library reads back what it wrote, and the receiver takes messages of that length\<close>
  "sendable P tag m \<longleftrightarrow> pl_parse P (pl_serialize P m) = Some m \<and> length (frame_body P tag m) \<le> kMaxMessageLen"

lemma length_frame_body: "length (frame_body P tag m) = length tag + length (pl_serialize P m) + kChecksumLen"
  by (simp add: frame_body_def Let_def kChecksumLen_def)

lemma length_frame: "length (frame P tag m) = kHeaderLen + length (frame_body P tag m)"
  by (simp add: frame_def kHeaderLen_def)

text \<open>The room in front of the bytes, which \<^verbatim>\<open>prepend\<close> needs, is kept by writing.\<close>

lemma ensure_keeps_prepend:
  "ensureWritableBytes n b = Inr b' \<Longrightarrow> kCheapPrepend \<le> readerIndex b \<Longrightarrow> kCheapPrepend \<le> readerIndex b'"
  by (auto simp: ensureWritableBytes_def makeSpace_def rbind_eq_Inr_iff Let_def split: if_splits
      dest!: arg_cong [where f = readerIndex])

lemma append_keeps_prepend: "buffer_append d b = Inr b' \<Longrightarrow> kCheapPrepend \<le> readerIndex b \<Longrightarrow> kCheapPrepend \<le> readerIndex b'"
  using ensure_keeps_prepend by (fastforce simp: buffer_append_def hasWritten_def rbind_eq_Inr_iff split: if_splits)

lemma serialize_ok:
  assumes "buffer_ok b" "kCheapPrepend \<le> readerIndex b"
  shows "\<exists>b'. serializeToBuffer P m b = Inr (length (pl_serialize P m), b') \<and> buffer_ok b' \<and> content b' = content b @ pl_serialize P m
    \<and> kCheapPrepend \<le> readerIndex b'"
proof -
  let ?d = "pl_serialize P m"
  obtain b1 where b1: "ensureWritableBytes (length ?d + kChecksumLen) b = Inr b1" "buffer_ok b1" "content b1 = content b"
      "length ?d + kChecksumLen \<le> writableBytes b1"
    using ensureWritableBytes_ok [OF assms(1)] by blast
  have r: "kCheapPrepend \<le> readerIndex b1" by (rule ensure_keeps_prepend [OF b1(1) assms(2)])
  have fit: "length ?d \<le> writableBytes b1" using b1(4) by simp
  then have "writerIndex b1 + length ?d \<le> length (bufferVec b1)" using b1(2) by (auto simp: buffer_ok_def writableBytes_def)
  then have "hasWritten (length ?d) (b1\<lparr>bufferVec := list_write (writerIndex b1) ?d (bufferVec b1)\<rparr>)
      = Inr (b1\<lparr>bufferVec := list_write (writerIndex b1) ?d (bufferVec b1), writerIndex := writerIndex b1 + length ?d\<rparr>)"
    by (simp add: hasWritten_def writableBytes_def)
  with write_ok [OF b1(2) fit] b1(1,3) r show ?thesis by (simp add: serializeToBuffer_def Let_def)
qed

lemma send_frame: "codec_send P tag m = Inr (frame P tag m)"
proof -
  let ?b0 = "Buffer_new kInitialSize" and ?d = "pl_serialize P m"
  note ok0 = Buffer_new_ok [of kInitialSize]
  have r0: "kCheapPrepend \<le> readerIndex ?b0" by (simp add: Buffer_new_def)
  obtain b1 where b1: "buffer_append tag ?b0 = Inr b1" "buffer_ok b1" "content b1 = tag"
    using buffer_append_ok [OF ok0(1), of tag] ok0(2) by auto
  have r1: "kCheapPrepend \<le> readerIndex b1" by (rule append_keeps_prepend [OF b1(1) r0])
  obtain b2 where b2: "serializeToBuffer P m b1 = Inr (length ?d, b2)" "buffer_ok b2" "content b2 = tag @ ?d" "kCheapPrepend \<le> readerIndex b2"
    using serialize_ok [OF b1(2) r1, of P m] b1(3) by auto
  let ?sum = "pl_adler32 P (tag @ ?d)"
  obtain b3 where b3: "buffer_append (le_bytes 4 (hostToNetwork 4 ?sum)) b2 = Inr b3" "buffer_ok b3"
      "content b3 = (tag @ ?d) @ le_bytes 4 (hostToNetwork 4 ?sum)"
    using buffer_append_ok [OF b2(2), of "le_bytes 4 (hostToNetwork 4 ?sum)"] b2(3) by auto
  have r3: "kCheapPrepend \<le> readerIndex b3" by (rule append_keeps_prepend [OF b3(1) b2(4)])
  have body: "content b3 = frame_body P tag m" by (simp add: b3(3) frame_body_def Let_def)
  have len: "readableBytes b3 = length (frame_body P tag m)" using length_content [OF b3(2)] body by simp
  obtain b4 where b4: "buffer_prepend (le_bytes 4 (hostToNetwork 4 (of_nat (readableBytes b3) :: 32 word))) b3 = Inr b4"
      "buffer_ok b4" "content b4 = frame P tag m"
    using buffer_prepend_ok [OF b3(2), of "le_bytes 4 (hostToNetwork 4 (of_nat (readableBytes b3) :: 32 word))"] r3 len body
    by (auto simp: kCheapPrepend_def frame_def)
  have "readableBytes ?b0 = 0" using length_content [OF ok0(1)] ok0(2) by simp
  then have "fillEmptyBuffer P tag m ?b0 = Inr b4"
    using b1 b2 b3(1) b4(1) len
    by (simp add: fillEmptyBuffer_def peek_all appendInt32_def checksum_def length_frame_body)
  then show ?thesis using b4(3) by (simp add: codec_send_def toStringPiece_def peek_all)
qed

lemma parse_frame:
  assumes "sendable P tag m"
  shows "codec_parse P tag (frame_body P tag m) = (kNoError, Some m)"
proof -
  let ?h = "tag @ pl_serialize P m" and ?s = "hostToNetwork 4 (pl_adler32 P (tag @ pl_serialize P m))"
  have "asInt32 (le_bytes 4 ?s) = pl_adler32 P ?h"
    by (simp add: asInt32_def le_word_le_bytes hostToNetwork_involution)
  then have "validateChecksum P (?h @ le_bytes 4 ?s)" by (simp add: validateChecksum_def checksum_def kChecksumLen_def)
  with assms show ?thesis by (simp add: codec_parse_def frame_body_def Let_def kChecksumLen_def sendable_def)
qed

lemma frame_length_read:
  assumes "buffer_ok b" "content b = frame P tag m @ r" "length (frame_body P tag m) \<le> kMaxMessageLen"
  shows "\<exists>w. peekInt32 b = Inr w \<and> sint w = int (length (frame_body P tag m))"
proof -
  let ?w = "of_nat (length (frame_body P tag m)) :: 32 word"
  have "peekInt32 b = Inr ?w"
    using peek_int_appended [OF assms(1), of 4 ?w] assms(2) by (simp add: peekInt32_def frame_def)
  moreover have "sint ?w = int (length (frame_body P tag m))"
    using assms(3) by (simp add: kMaxMessageLen_def signed_of_nat signed_take_bit_int_eq_self)
  ultimately show ?thesis by blast
qed

section \<open>Streams of frames\<close>

definition frames :: "'m proto_lib \<Rightarrow> byte list \<Rightarrow> 'm list \<Rightarrow> byte list" where
  "frames P tag ms = concat (map (frame P tag) ms)"

fun deliver :: "('m \<Rightarrow> 's \<Rightarrow> 's res) \<Rightarrow> 'm list \<Rightarrow> 's \<Rightarrow> 's res" where
  \<comment> \<open>the message callback, message by message\<close>
  "deliver f [] s = Inr s"
| "deliver f (m # ms) s = rbind (f m s) (deliver f ms)"

fun feed :: "'m proto_lib \<Rightarrow> byte list \<Rightarrow> ('m, 's) codec_callbacks \<Rightarrow> byte list list \<Rightarrow> Buffer \<times> 's \<Rightarrow> (Buffer \<times> 's) res" where
  \<comment> \<open>bytes that arrive piece by piece\<close>
  "feed P tag cb [] x = Inr x"
| "feed P tag cb (d # ds) (buf, s) =
     rbind (buffer_append d buf) (\<lambda>buf'. rbind (codec_onMessage P tag cb (buf', s)) (feed P tag cb ds))"

lemma frames_simps [simp]:
  "frames P tag [] = []" "frames P tag (m # ms) = frame P tag m @ frames P tag ms" "frames P tag (ms @ ns) = frames P tag ms @ frames P tag ns"
  by (simp_all add: frames_def)

lemma deliver_append: "deliver f (ms @ ns) s = rbind (deliver f ms s) (deliver f ns)"
  by (induction ms arbitrary: s) (simp_all add: rbind_assoc cong: rbind_cong)

definition partial_frame :: "'m proto_lib \<Rightarrow> byte list \<Rightarrow> byte list \<Rightarrow> bool" where
  \<comment> \<open>nothing, or the beginning of a frame that may be sent\<close>
  "partial_frame P tag r \<longleftrightarrow> r = [] \<or> (\<exists>m t. sendable P tag m \<and> frame P tag m = r @ t \<and> t \<noteq> [])"

lemma onMessage_waits:
  assumes "buffer_ok b" "partial_frame P tag (content b)"
  shows "codec_onMessage P tag cb (b, s) = Inr (b, s)"
proof (cases "readableBytes b \<ge> kMinMessageLen tag + kHeaderLen")
  case False
  then show ?thesis by (subst codec_onMessage.simps) simp
next
  case True
  have len: "length (content b) = readableBytes b" by (rule length_content [OF assms(1)])
  with True have "content b \<noteq> []" by (auto simp: kHeaderLen_def)
  with assms(2) obtain m t where m: "sendable P tag m" "frame P tag m = content b @ t" "t \<noteq> []" by (auto simp: partial_frame_def)
  define L where "L = length (frame_body P tag m)"
  let ?w = "of_nat L :: 32 word"
  have L: "kMinMessageLen tag \<le> L" "L \<le> kMaxMessageLen"
    using m(1) by (simp_all add: L_def kMinMessageLen_def length_frame_body sendable_def)
  have four: "4 \<le> length (content b)" using True len by (simp add: kHeaderLen_def)
  have "content b = le_bytes 4 (hostToNetwork 4 ?w) @ drop 4 (content b)"
  proof -
    have "take 4 (content b @ t) = le_bytes 4 (hostToNetwork 4 ?w)" by (simp flip: m(2) add: frame_def L_def)
    then show ?thesis using four by (metis append_take_drop_id take_append le_iff_diff_le_0 diff_is_0_eq append_Nil2 take0)
  qed
  then have "peekInt32 b = Inr ?w" using peek_int_appended [OF assms(1), of 4 ?w] by (simp add: peekInt32_def)
  moreover have "sint ?w = int L"
    using L(2) by (simp add: kMaxMessageLen_def signed_of_nat signed_take_bit_int_eq_self)
  moreover have "readableBytes b < kHeaderLen + L"
    using arg_cong [OF m(2), of length] m(3) len by (simp add: length_frame L_def)
  ultimately show ?thesis
    using True L by (subst codec_onMessage.simps) (simp add: Let_def)
qed

lemma onMessage_frame:
  assumes "buffer_ok b" "content b = frame P tag m @ r" "sendable P tag m" "cb_raw cb = None"
  shows "\<exists>b'. buffer_ok b' \<and> content b' = r
    \<and> (\<forall>s. codec_onMessage P tag cb (b, s) = rbind (cb_message cb m s) (\<lambda>s'. codec_onMessage P tag cb (b', s')))"
proof -
  let ?n = "kHeaderLen + length (frame_body P tag m)"
  have len: "length (content b) = readableBytes b" by (rule length_content [OF assms(1)])
  then have readable: "?n \<le> readableBytes b" using assms(2) by (simp add: length_frame)
  obtain w where w: "peekInt32 b = Inr w" "sint w = int (length (frame_body P tag m))"
    using frame_length_read [OF assms(1,2)] assms(3) by (auto simp: sendable_def)
  obtain b' where b': "retrieve ?n b = Inr b'" "buffer_ok b'" "content b' = r"
    using retrieve_ok [OF assms(1), of ?n] readable len assms(2) by (auto simp: length_frame)
  have "drop kHeaderLen (peek ?n b) = frame_body P tag m"
    using readable assms(2) by (simp add: peek_content length_frame frame_def kHeaderLen_def)
  moreover have "kMinMessageLen tag + kHeaderLen \<le> readableBytes b" "kMinMessageLen tag \<le> length (frame_body P tag m)"
    "length (frame_body P tag m) \<le> kMaxMessageLen"
    using readable assms(3) by (simp_all add: kMinMessageLen_def length_frame_body sendable_def)
  ultimately have "codec_onMessage P tag cb (b, s) = rbind (cb_message cb m s) (\<lambda>s'. codec_onMessage P tag cb (b', s'))" for s
    using readable w parse_frame [OF assms(3)] assms(4) b'(1)
    by (subst codec_onMessage.simps) (simp add: Let_def)
  with b' show ?thesis by blast
qed

lemma onMessage_frames:
  assumes "buffer_ok b" "content b = frames P tag ms @ r" "list_all (sendable P tag) ms" "partial_frame P tag r" "cb_raw cb = None"
  shows "\<exists>b'. buffer_ok b' \<and> content b' = r
    \<and> codec_onMessage P tag cb (b, s) = rbind (deliver (cb_message cb) ms s) (\<lambda>s'. Inr (b', s'))"
  using assms
proof (induction ms arbitrary: b s)
  case Nil
  then show ?case using onMessage_waits [of b P tag cb] by auto
next
  case (Cons m ms)
  then obtain b1 where b1: "buffer_ok b1" "content b1 = frames P tag ms @ r"
    "\<And>s. codec_onMessage P tag cb (b, s) = rbind (cb_message cb m s) (\<lambda>s'. codec_onMessage P tag cb (b1, s'))"
    using onMessage_frame [of b P tag m "frames P tag ms @ r" cb] by auto
  show ?case
  proof (cases "cb_message cb m s")
    case (Inl e)
    have "\<exists>b'. buffer_ok b' \<and> content b' = r"
      using Cons.IH [OF b1(1,2)] Cons.prems by auto
    with Inl b1(3) show ?thesis by auto
  next
    case (Inr s1)
    with Cons.IH [OF b1(1,2), of s1] Cons.prems b1(3) [of s] show ?thesis by auto
  qed
qed

definition begun :: "'m proto_lib \<Rightarrow> byte list \<Rightarrow> byte list \<Rightarrow> 'm list \<Rightarrow> bool" where
  \<comment> \<open>the bytes that wait are the beginning of the next frame\<close>
  "begun P tag r ms \<longleftrightarrow> r = [] \<or> (ms \<noteq> [] \<and> length r < length (frame P tag (hd ms)))"

lemma cut_frames:
  "frames P tag ms = x @ y \<Longrightarrow> \<exists>ms1 ms2 r. ms = ms1 @ ms2 \<and> x = frames P tag ms1 @ r \<and> begun P tag r ms2 \<and> frames P tag ms2 = r @ y"
proof (induction ms arbitrary: x)
  case (Cons m ms)
  show ?case
  proof (cases "length x < length (frame P tag m)")
    case True
    with Cons.prems show ?thesis by (intro exI [of _ "[]"] exI [of _ "m # ms"] exI [of _ x]) (simp add: begun_def)
  next
    case False
    then obtain x' where x: "x = frame P tag m @ x'" "frames P tag ms = x' @ y"
      using Cons.prems by (auto simp: append_eq_append_conv2)
    then obtain ms1 ms2 r where "ms = ms1 @ ms2" "x' = frames P tag ms1 @ r" "begun P tag r ms2" "frames P tag ms2 = r @ y"
      using Cons.IH by blast
    with x show ?thesis by (intro exI [of _ "m # ms1"] exI [of _ ms2] exI [of _ r]) simp
  qed
qed (auto simp: begun_def)

lemma begun_partial:
  assumes "begun P tag r ms" "frames P tag ms = r @ y" "list_all (sendable P tag) ms"
  shows "partial_frame P tag r"
proof (cases "r = []")
  case False
  with assms(1) obtain m ms' where m: "ms = m # ms'" "length r < length (frame P tag m)" by (cases ms) (auto simp: begun_def)
  then obtain t where t: "frame P tag m = r @ t" using assms(2) by (auto simp: append_eq_append_conv2)
  with m(2) have "t \<noteq> []" by auto
  with t assms(3) m(1) show ?thesis by (auto simp: partial_frame_def)
qed (simp add: partial_frame_def)

lemma feed_frames:
  assumes "buffer_ok b" "begun P tag (content b) ms" "frames P tag ms = content b @ concat ds" "list_all (sendable P tag) ms" "cb_raw cb = None"
  shows "\<exists>b'. content b' = [] \<and> feed P tag cb ds (b, s) = rbind (deliver (cb_message cb) ms s) (\<lambda>s'. Inr (b', s'))"
  using assms
proof (induction ds arbitrary: b s ms)
  case Nil
  have "frame P tag m \<noteq> []" for m by (simp add: frame_def) (metis length_le_bytes list.size(3) zero_neq_numeral)
  with Nil.prems(2,3) have "ms = []" by (cases ms) (auto simp: begun_def dest!: arg_cong [where f = length])
  with Nil.prems(3) show ?case by auto
next
  case (Cons d ds)
  obtain b1 where b1: "buffer_append d b = Inr b1" "buffer_ok b1" "content b1 = content b @ d"
    using buffer_append_ok [OF Cons.prems(1)] by blast
  from Cons.prems(3) have "frames P tag ms = content b1 @ concat ds" using b1(3) by simp
  then obtain ms1 ms2 r where cut: "ms = ms1 @ ms2" "content b1 = frames P tag ms1 @ r" "begun P tag r ms2"
      "frames P tag ms2 = r @ concat ds"
    using cut_frames by metis
  have all: "list_all (sendable P tag) ms1" "list_all (sendable P tag) ms2" using Cons.prems(4) cut(1) by simp_all
  obtain b2 where b2: "buffer_ok b2" "content b2 = r"
    "codec_onMessage P tag cb (b1, s) = rbind (deliver (cb_message cb) ms1 s) (\<lambda>s'. Inr (b2, s'))"
    using onMessage_frames [OF b1(2) cut(2) all(1) begun_partial [OF cut(3,4) all(2)] Cons.prems(5), of s] by (elim exE conjE)
  show ?case
  proof (cases "deliver (cb_message cb) ms1 s")
    case (Inl e)
    with b1(1) b2(3) cut(1) show ?thesis by (auto simp: deliver_append intro: exI [of _ "Buffer_new 0"] Buffer_new_ok)
  next
    case (Inr s1)
    obtain b3 where "content b3 = []" "feed P tag cb ds (b2, s1) = rbind (deliver (cb_message cb) ms2 s1) (\<lambda>s'. Inr (b3, s'))"
      using Cons.IH [OF b2(1), of ms2 s1] cut(3,4) b2(2) all(2) Cons.prems(5) by auto
    with Inr b1(1) b2(3) cut(1) show ?thesis by (auto simp: deliver_append)
  qed
qed

text \<open>
  C23. Messages that were sent arrive: however their frames are cut into pieces on the way, the message callback
  gets exactly these messages in their order, and no byte is left over.
\<close>

theorem codec_delivers:
  assumes "list_all (sendable P tag) ms" "cb_raw cb = None" "\<forall>m\<in>set ms. codec_send P tag m = Inr (enc m)"
    and "concat ds = concat (map enc ms)"
  shows "\<exists>b. content b = [] \<and> feed P tag cb ds (Buffer_new kInitialSize, s) = rbind (deliver (cb_message cb) ms s) (\<lambda>s'. Inr (b, s'))"
proof -
  have "concat (map enc ms) = frames P tag ms"
    using assms(3) by (simp add: frames_def send_frame cong: map_cong)
  with feed_frames [of "Buffer_new kInitialSize" P tag ms ds cb s] assms Buffer_new_ok [of kInitialSize]
  show ?thesis by (simp add: begun_def)
qed

definition demo_proto :: "byte list proto_lib" where
  "demo_proto = \<lparr>pl_serialize = \<lambda>m. m, pl_parse = Some, pl_adler32 = \<lambda>bs. of_nat (length bs)\<rparr>"

definition demo_callbacks :: "(byte list, byte list list) codec_callbacks" where
  "demo_callbacks = \<lparr>cb_message = \<lambda>m s. Inr (s @ [m]), cb_raw = None, cb_error = \<lambda>e x. Inr x\<rparr>"

theorem codec_delivers_witness:
  "\<exists>b. content b = [] \<and> feed demo_proto [82, 80] demo_callbacks [[0, 0, 0], [8, 82, 80, 7, 9, 0, 0], [0, 4]] (Buffer_new kInitialSize, [])
     = Inr (b, [[7, 9]])"
proof -
  have "sendable demo_proto [82, 80] [7, 9]"
    by (simp add: sendable_def demo_proto_def length_frame_body kMaxMessageLen_def kChecksumLen_def)
  moreover have "codec_send demo_proto [82, 80] [7, 9] = Inr [0, 0, 0, 8, 82, 80, 7, 9, 0, 0, 0, 4]"
    unfolding send_frame by code_simp
  ultimately show ?thesis
    using codec_delivers [of demo_proto "[82, 80]" "[[7, 9]]" demo_callbacks "\<lambda>_. [0, 0, 0, 8, 82, 80, 7, 9, 0, 0, 0, 4]"
        "[[0, 0, 0], [8, 82, 80, 7, 9, 0, 0], [0, 4]]" "[]"]
    by (simp add: demo_callbacks_def)
qed

text \<open>
  A frame that is not what was sent goes to the error callback with its reason, the message callback is not
  called, and the bytes stay in the buffer: without a callback that takes them the same error is
  reported whenever more bytes arrive.
\<close>

theorem codec_rejects:
  fixes w :: "32 word"
  assumes "buffer_ok b" "content b = le_bytes 4 (hostToNetwork 4 w) @ body @ r" "cb_raw cb = None"
    and "kMinMessageLen tag + kHeaderLen \<le> length (content b)"
  shows "(sint w > int kMaxMessageLen \<or> sint w < int (kMinMessageLen tag) \<longrightarrow>
      codec_onMessage P tag cb (b, s) = cb_error cb kInvalidLength (b, s))
    \<and> (sint w = int (length body) \<and> kMinMessageLen tag \<le> length body \<and> length body \<le> kMaxMessageLen \<longrightarrow>
        (case codec_parse P tag body of
           (kNoError, Some m) \<Rightarrow> True
         | (error, _) \<Rightarrow> codec_onMessage P tag cb (b, s) = cb_error cb error (b, s)))"
proof (intro conjI impI)
  have len: "length (content b) = readableBytes b" by (rule length_content [OF assms(1)])
  have w: "peekInt32 b = Inr w" using peek_int_appended [OF assms(1), of 4 w "body @ r"] assms(2) by (simp add: peekInt32_def)
  show "codec_onMessage P tag cb (b, s) = cb_error cb kInvalidLength (b, s)"
    if "sint w > int kMaxMessageLen \<or> sint w < int (kMinMessageLen tag)"
    using that assms(4) len w by (subst codec_onMessage.simps) (simp add: Let_def)
  assume L: "sint w = int (length body) \<and> kMinMessageLen tag \<le> length body \<and> length body \<le> kMaxMessageLen"
  have "kHeaderLen + length body \<le> readableBytes b" using assms(2) len by (simp add: kHeaderLen_def)
  moreover from this have "drop kHeaderLen (peek (kHeaderLen + length body) b) = body"
    using assms(2) by (simp add: peek_content kHeaderLen_def)
  ultimately have "codec_onMessage P tag cb (b, s) =
      (case codec_parse P tag body of
         (kNoError, Some message) \<Rightarrow>
           rbind (cb_message cb message s) (\<lambda>s2. rbind (retrieve (kHeaderLen + length body) b) (\<lambda>buf'. codec_onMessage P tag cb (buf', s2)))
       | (errorCode, _) \<Rightarrow> cb_error cb errorCode (b, s))"
    using assms(3,4) len w L by (subst codec_onMessage.simps) (simp add: Let_def)
  then show "case codec_parse P tag body of
      (kNoError, Some m) \<Rightarrow> True
    | (error, _) \<Rightarrow> codec_onMessage P tag cb (b, s) = cb_error cb error (b, s)"
    by (auto split: prod.split ErrorCode.split option.split)
qed

theorem codec_rejects_witness:
  "\<exists>b. content b = [0, 0, 0, 1, 1, 1, 1, 1, 1, 1]
     \<and> codec_onMessage demo_proto [82, 80] demo_callbacks (b, []) = Inr (b, [])"
proof -
  obtain b where b: "buffer_ok b" "content b = [0, 0, 0, 1, 1, 1, 1, 1, 1, 1]"
    using buffer_append_ok [OF Buffer_new_ok(1), of "[0, 0, 0, 1, 1, 1, 1, 1, 1, 1]"] Buffer_new_ok(2) by fastforce
  have "le_bytes 4 (hostToNetwork 4 (1 :: 32 word)) = [0, 0, 0, 1]" by code_simp
  with b codec_rejects [of b 1 "[1, 1, 1, 1, 1, 1]" "[]" demo_callbacks "[82, 80]" demo_proto "[]"]
  have "codec_onMessage demo_proto [82, 80] demo_callbacks (b, []) = cb_error demo_callbacks kInvalidLength (b, [])"
    by (simp add: kMinMessageLen_def kChecksumLen_def kHeaderLen_def demo_callbacks_def)
  with b show ?thesis by (auto simp: demo_callbacks_def)
qed

end
