(* ===== verification/Net_Rpc.thy ===== *)
theory Net_Rpc
  imports Net_Codec "HOL-Library.Multiset"
begin

text \<open>
  Remote procedure calls (net/protorpc/RpcChannel.h, net/protorpc/RpcChannel.cc, net/protorpc/RpcServer.cc,
  net/protorpc/rpc.proto): the messages, the table of outstanding calls, the dispatch of requests to
  services, and a client and a server channel that exchange messages over a connection. A call is its
  number, with a response and a \<^verbatim>\<open>done\<close> that are not null; the numbers on the wire are of type \<open>int\<close>, since 2^63 calls are
  out of reach; the services are tables of methods, each with the test that its request can be parsed.
\<close>

section \<open>Messages and channels\<close>

datatype MessageType = REQUEST | RESPONSE | ERROR

datatype Rpc_ErrorCode = NO_ERROR | WRONG_PROTO | NO_SERVICE | NO_METHOD | INVALID_REQUEST | INVALID_RESPONSE | TIMEOUT

record RpcMessage =
  rm_type :: MessageType
  rm_id :: int
  rm_service :: string
  rm_method :: string
  rm_request :: "byte list"
  rm_response :: "byte list option"
  rm_error :: "Rpc_ErrorCode option"

type_synonym services = "(string \<times> (string \<times> (byte list \<Rightarrow> bool)) list) list"

record RpcChannel =
  rc_id :: int
  rc_outstandings :: "(int \<times> nat) list"
  rc_services :: "services option"
  rc_sent :: "RpcMessage list"
  rc_finished :: "(nat \<times> byte list option) list"
  rc_running :: "(int \<times> string \<times> string \<times> byte list) list"
  \<comment> \<open>from \<open>rc_sent\<close> on: messages given to the codec, calls whose \<^verbatim>\<open>done\<close> ran with the response that
    was parsed, and calls of services whose \<^verbatim>\<open>doneCallback\<close> did not run yet\<close>

definition RpcChannel_new :: RpcChannel where
  "RpcChannel_new =
     \<lparr>rc_id = 0, rc_outstandings = [], rc_services = None, rc_sent = [], rc_finished = [], rc_running = []\<rparr>"

definition rpc_send :: "RpcMessage \<Rightarrow> RpcChannel \<Rightarrow> RpcChannel" where
  "rpc_send m c = c\<lparr>rc_sent := rc_sent c @ [m]\<rparr>"

definition request_message :: "int \<Rightarrow> string \<Rightarrow> string \<Rightarrow> byte list \<Rightarrow> RpcMessage" where
  "request_message i service meth request =
     \<lparr>rm_type = REQUEST, rm_id = i, rm_service = service, rm_method = meth, rm_request = request, rm_response = None, rm_error = None\<rparr>"

definition CallMethod :: "nat \<Rightarrow> string \<Rightarrow> string \<Rightarrow> byte list \<Rightarrow> RpcChannel \<Rightarrow> RpcChannel" where
  "CallMethod call service meth request c =
     (let i = rc_id c + 1;
          c1 = c\<lparr>rc_id := i, rc_outstandings := smap_put i call (rc_outstandings c)\<rparr>
      in rpc_send (request_message i service meth request) c1)"

definition rpc_error :: "RpcMessage \<Rightarrow> RpcChannel \<Rightarrow> Rpc_ErrorCode" where
  \<comment> \<open>what becomes of a request: \<open>NO_ERROR\<close> when its service is called\<close>
  "rpc_error m c =
     (case rc_services c of
        None \<Rightarrow> NO_SERVICE
      | Some services \<Rightarrow>
        (case map_of services (rm_service m) of
           None \<Rightarrow> NO_SERVICE
         | Some methods \<Rightarrow>
           (case map_of methods (rm_method m) of
              None \<Rightarrow> NO_METHOD
            | Some parses \<Rightarrow> if parses (rm_request m) then NO_ERROR else INVALID_REQUEST)))"

definition response_message :: "int \<Rightarrow> byte list option \<Rightarrow> Rpc_ErrorCode option \<Rightarrow> RpcMessage" where
  "response_message i response error =
     \<lparr>rm_type = RESPONSE, rm_id = i, rm_service = [], rm_method = [], rm_request = [], rm_response = response, rm_error = error\<rparr>"

definition onRpcMessage :: "RpcMessage \<Rightarrow> RpcChannel \<Rightarrow> RpcChannel res" where
  "onRpcMessage m c =
     (case rm_type m of
        RESPONSE \<Rightarrow>
          if rm_response m = None \<and> rm_error m = None then Inl Assert_Failed
          else (case map_of (rc_outstandings c) (rm_id m) of
                  None \<Rightarrow> Inr c
                | Some out \<Rightarrow>
                    Inr (c\<lparr>rc_outstandings := smap_erase (rm_id m) (rc_outstandings c), rc_finished := rc_finished c @ [(out, rm_response m)]\<rparr>))
      | REQUEST \<Rightarrow>
          if rpc_error m c = NO_ERROR
          then Inr (c\<lparr>rc_running := rc_running c @ [(rm_id m, rm_service m, rm_method m, rm_request m)]\<rparr>)
          else Inr (rpc_send (response_message (rm_id m) None (Some (rpc_error m c))) c)
      | ERROR \<Rightarrow> Inr c)"

definition doneCallback :: "int \<Rightarrow> byte list \<Rightarrow> RpcChannel \<Rightarrow> RpcChannel" where
  "doneCallback i response c = rpc_send (response_message i (Some response) None) c"

definition registerService :: "string \<Rightarrow> (string \<times> (byte list \<Rightarrow> bool)) list \<Rightarrow> services \<Rightarrow> services" where
  "registerService full_name methods services = smap_put full_name methods services"

section \<open>A client and a server\<close>

record rpc_system =
  rs_client :: RpcChannel
  rs_server :: RpcChannel
  rs_calls :: "(string \<times> string \<times> byte list) list"

text \<open>
  The steps: the client calls a method, a message arrives, a service completes one of the calls it was given,
  with any of the answers it may give to this request.
\<close>

inductive rpc_step :: "(string \<Rightarrow> string \<Rightarrow> byte list \<Rightarrow> byte list \<Rightarrow> bool) \<Rightarrow> rpc_system \<Rightarrow> rpc_system \<Rightarrow> bool"
  for answers where
  call: "rpc_step answers s
     (s\<lparr>rs_client := CallMethod (length (rs_calls s)) service meth request (rs_client s), rs_calls := rs_calls s @ [(service, meth, request)]\<rparr>)"
| to_server: "rc_sent (rs_client s) = m # ms \<Longrightarrow> onRpcMessage m (rs_server s) = Inr v \<Longrightarrow>
     rpc_step answers s (s\<lparr>rs_client := (rs_client s)\<lparr>rc_sent := ms\<rparr>, rs_server := v\<rparr>)"
| complete: "rc_running (rs_server s) = us @ (i, service, meth, request) # ws \<Longrightarrow> answers service meth request response \<Longrightarrow>
     rpc_step answers s (s\<lparr>rs_server := doneCallback i response ((rs_server s)\<lparr>rc_running := us @ ws\<rparr>)\<rparr>)"
| to_client: "rc_sent (rs_server s) = m # ms \<Longrightarrow> onRpcMessage m (rs_client s) = Inr c \<Longrightarrow>
     rpc_step answers s (s\<lparr>rs_server := (rs_server s)\<lparr>rc_sent := ms\<rparr>, rs_client := c\<rparr>)"

definition rpc_start :: "services option \<Rightarrow> rpc_system" where
  "rpc_start services =
     \<lparr>rs_client = RpcChannel_new, rs_server = RpcChannel_new\<lparr>rc_services := services\<rparr>, rs_calls = []\<rparr>"

inductive_cases rpc_stepE: "rpc_step answers s t"

section \<open>The invariant\<close>

definition under_way :: "rpc_system \<Rightarrow> int list" where
  \<comment> \<open>the numbers of the requests and responses on the wire and of the calls that run\<close>
  "under_way s = map rm_id (rc_sent (rs_client s)) @ map fst (rc_running (rs_server s)) @ map rm_id (rc_sent (rs_server s))"

definition is_call :: "rpc_system \<Rightarrow> int \<Rightarrow> string \<Rightarrow> string \<Rightarrow> byte list \<Rightarrow> bool" where
  "is_call s i service meth request \<longleftrightarrow>
     1 \<le> i \<and> i \<le> int (length (rs_calls s)) \<and> rs_calls s ! nat (i - 1) = (service, meth, request)"

definition result_ok :: "(string \<Rightarrow> string \<Rightarrow> byte list \<Rightarrow> byte list \<Rightarrow> bool) \<Rightarrow> rpc_system \<Rightarrow> int \<Rightarrow> byte list option \<Rightarrow> bool" where
  \<comment> \<open>an answer of the service to this call, or none because the server refused it\<close>
  "result_ok answers s i r \<longleftrightarrow>
     (\<exists>service meth request. is_call s i service meth request
        \<and> (case r of Some response \<Rightarrow> answers service meth request response
           | None \<Rightarrow> rpc_error (request_message i service meth request) (rs_server s) \<noteq> NO_ERROR))"

definition finished_ids :: "rpc_system \<Rightarrow> int list" where
  "finished_ids s = map (\<lambda>(n, _). int n + 1) (rc_finished (rs_client s))"

definition rpc_ids :: "rpc_system \<Rightarrow> bool" where
  \<comment> \<open>each call is under way or finished, in exactly one place, and outstanding while it is under way\<close>
  "rpc_ids s \<longleftrightarrow>
     rc_id (rs_client s) = int (length (rs_calls s))
     \<and> smap_ok (rc_outstandings (rs_client s))
     \<and> map_of (rc_outstandings (rs_client s)) = (\<lambda>i. if i \<in> set (under_way s) then Some (nat (i - 1)) else None)
     \<and> mset (under_way s @ finished_ids s) = mset (map (\<lambda>n. int n + 1) [0..<length (rs_calls s)])"

definition rpc_data :: "(string \<Rightarrow> string \<Rightarrow> byte list \<Rightarrow> byte list \<Rightarrow> bool) \<Rightarrow> rpc_system \<Rightarrow> bool" where
  \<comment> \<open>what is on the wire, runs or is finished belongs to the call of its number\<close>
  "rpc_data answers s \<longleftrightarrow>
     (\<forall>m\<in>set (rc_sent (rs_client s)). \<exists>service meth request.
          m = request_message (rm_id m) service meth request \<and> is_call s (rm_id m) service meth request)
     \<and> (\<forall>(i, service, meth, request)\<in>set (rc_running (rs_server s)). is_call s i service meth request)
     \<and> (\<forall>m\<in>set (rc_sent (rs_server s)).
          rm_type m = RESPONSE \<and> (rm_response m \<noteq> None \<or> rm_error m \<noteq> None) \<and> result_ok answers s (rm_id m) (rm_response m))
     \<and> (\<forall>(n, r)\<in>set (rc_finished (rs_client s)). result_ok answers s (int n + 1) r)"

lemmas rpc_defs = under_way_def finished_ids_def CallMethod_def rpc_send_def doneCallback_def request_message_def response_message_def Let_def

lemma rpc_error_services: "rc_services v = rc_services w \<Longrightarrow> rpc_error m v = rpc_error m w"
  by (simp add: rpc_error_def)

lemma rpc_ids_distinct:
  assumes "rpc_ids s"
  shows "distinct (under_way s @ finished_ids s)" "set (under_way s @ finished_ids s) = {1 .. int (length (rs_calls s))}"
proof -
  let ?ids = "map (\<lambda>n. int n + 1) [0..<length (rs_calls s)]"
  have eq: "mset (under_way s @ finished_ids s) = mset ?ids"
    using assms by (simp add: rpc_ids_def)
  have "distinct ?ids" by (simp add: distinct_map inj_on_def)
  then show "distinct (under_way s @ finished_ids s)"
    using eq mset_eq_imp_distinct_iff by blast
  have "set ?ids = {1 .. int (length (rs_calls s))}"
  proof (intro set_eqI iffI)
    fix i assume "i \<in> {1 .. int (length (rs_calls s))}"
    then have "i = int (nat (i - 1)) + 1" "nat (i - 1) \<in> set [0..<length (rs_calls s)]" by auto
    then show "i \<in> set ?ids" unfolding set_map by (rule image_eqI)
  qed auto
  then show "set (under_way s @ finished_ids s) = {1 .. int (length (rs_calls s))}"
    using eq mset_eq_setD by blast
qed

lemma rpc_ids_moved:
  \<comment> \<open>a step that moves numbers between the wires and the running calls\<close>
  assumes "rpc_ids s" "mset (under_way t) = mset (under_way s)" "rs_calls t = rs_calls s"
    "rc_id (rs_client t) = rc_id (rs_client s)" "rc_outstandings (rs_client t) = rc_outstandings (rs_client s)"
    "rc_finished (rs_client t) = rc_finished (rs_client s)"
  shows "rpc_ids t"
  using assms mset_eq_setD[OF assms(2)] by (simp add: rpc_ids_def finished_ids_def)

lemma is_call_append: "is_call s i a b q \<Longrightarrow> rs_calls t = rs_calls s @ cs \<Longrightarrow> is_call t i a b q"
  by (auto simp: is_call_def nth_append)

lemma result_ok_mono:
  "result_ok answers s i r \<Longrightarrow> rs_calls t = rs_calls s @ cs \<Longrightarrow> rc_services (rs_server t) = rc_services (rs_server s) \<Longrightarrow>
     result_ok answers t i r"
  unfolding result_ok_def
  by (cases r) (fastforce intro: is_call_append simp: rpc_error_def)+

lemma rpc_data_mono:
  assumes "rpc_data answers s" "rs_calls t = rs_calls s @ cs" "rc_services (rs_server t) = rc_services (rs_server s)"
    "\<And>m. m \<in> set (rc_sent (rs_client t)) \<Longrightarrow> m \<in> set (rc_sent (rs_client s)) \<or>
        (\<exists>service meth request. m = request_message (rm_id m) service meth request \<and> is_call t (rm_id m) service meth request)"
    "\<And>i service meth request. (i, service, meth, request) \<in> set (rc_running (rs_server t)) \<Longrightarrow>
        (i, service, meth, request) \<in> set (rc_running (rs_server s)) \<or> is_call t i service meth request"
    "\<And>m. m \<in> set (rc_sent (rs_server t)) \<Longrightarrow> m \<in> set (rc_sent (rs_server s)) \<or>
        (rm_type m = RESPONSE \<and> (rm_response m \<noteq> None \<or> rm_error m \<noteq> None) \<and> result_ok answers t (rm_id m) (rm_response m))"
    "\<And>n r. (n, r) \<in> set (rc_finished (rs_client t)) \<Longrightarrow>
        (n, r) \<in> set (rc_finished (rs_client s)) \<or> result_ok answers t (int n + 1) r"
  shows "rpc_data answers t"
  unfolding rpc_data_def
proof (intro conjI ballI)
  fix m assume "m \<in> set (rc_sent (rs_client t))"
  then show "\<exists>service meth request. m = request_message (rm_id m) service meth request \<and> is_call t (rm_id m) service meth request"
    using assms(1,4) is_call_append[OF _ assms(2)] unfolding rpc_data_def by blast
next
  fix x assume x: "x \<in> set (rc_running (rs_server t))"
  obtain i service meth request where eq: "x = (i, service, meth, request)" by (rule prod_cases4)
  have "is_call t i service meth request"
    using assms(5)[OF x[unfolded eq]] assms(1) is_call_append[OF _ assms(2)] unfolding rpc_data_def by blast
  then show "case x of (i, service, meth, request) \<Rightarrow> is_call t i service meth request" by (simp add: eq)
next
  fix m assume m: "m \<in> set (rc_sent (rs_server t))"
  have new: "m \<in> set (rc_sent (rs_server s)) \<Longrightarrow>
      rm_type m = RESPONSE \<and> (rm_response m \<noteq> None \<or> rm_error m \<noteq> None) \<and> result_ok answers t (rm_id m) (rm_response m)"
    using assms(1) result_ok_mono[OF _ assms(2,3)] unfolding rpc_data_def by blast
  show "rm_type m = RESPONSE" "rm_response m \<noteq> None \<or> rm_error m \<noteq> None" "result_ok answers t (rm_id m) (rm_response m)"
    using assms(6)[OF m] new by blast+
next
  fix x assume x: "x \<in> set (rc_finished (rs_client t))"
  obtain n r where eq: "x = (n, r)" by (rule prod.exhaust)
  have "result_ok answers t (int n + 1) r"
    using assms(7)[OF x[unfolded eq]] assms(1) result_ok_mono[OF _ assms(2,3)] unfolding rpc_data_def by blast
  then show "case x of (n, r) \<Rightarrow> result_ok answers t (int n + 1) r" by (simp add: eq)
qed


lemma rpc_step_services: "rpc_step answers s t \<Longrightarrow> rc_services (rs_server t) = rc_services (rs_server s)"
  by (auto elim!: rpc_stepE simp: onRpcMessage_def rpc_defs split: MessageType.splits if_splits option.splits)

lemma call_keeps:
  assumes "rpc_ids s" "rpc_data answers s"
    "t = s\<lparr>rs_client := CallMethod (length (rs_calls s)) service meth request (rs_client s), rs_calls := rs_calls s @ [(service, meth, request)]\<rparr>"
  shows "rpc_ids t" "rpc_data answers t"
proof -
  show "rpc_ids t"
    using assms(1) unfolding rpc_ids_def assms(3) by (auto simp: rpc_defs smap_simps fun_eq_iff)
  show "rpc_data answers t"
    by (rule rpc_data_mono[OF assms(2), of _ "[(service, meth, request)]"])
      (use assms(1) in \<open>auto simp: assms(3) rpc_ids_def rpc_defs is_call_def\<close>)
qed

lemma request_arrives:
  assumes "rpc_ids s" "rpc_data answers s" "rc_sent (rs_client s) = m # ms"
  shows "\<exists>v. onRpcMessage m (rs_server s) = Inr v
    \<and> (\<forall>t. t = s\<lparr>rs_client := (rs_client s)\<lparr>rc_sent := ms\<rparr>, rs_server := v\<rparr> \<longrightarrow> rpc_ids t \<and> rpc_data answers t)"
proof -
  obtain service meth request where m: "m = request_message (rm_id m) service meth request"
    "is_call s (rm_id m) service meth request"
    using assms(2,3) by (auto simp: rpc_data_def)
  define i where "i = rm_id m"
  have m': "m = request_message i service meth request" "is_call s i service meth request"
    using m by (simp_all add: i_def)
  let ?e = "rpc_error m (rs_server s)"
  let ?v = "if ?e = NO_ERROR then (rs_server s)\<lparr>rc_running := rc_running (rs_server s) @ [(i, service, meth, request)]\<rparr>
            else rpc_send (response_message i None (Some ?e)) (rs_server s)"
  let ?t = "s\<lparr>rs_client := (rs_client s)\<lparr>rc_sent := ms\<rparr>, rs_server := ?v\<rparr>"
  have v: "onRpcMessage m (rs_server s) = Inr ?v"
    using m'(1) by (simp add: onRpcMessage_def request_message_def)
  have "rm_id m = i" by (simp add: i_def)
  then have "rpc_ids ?t"
    by (intro rpc_ids_moved[OF assms(1)]) (auto simp: rpc_defs assms(3))
  moreover have "rpc_data answers ?t"
  proof (rule rpc_data_mono[OF assms(2), of _ "[]"])
    have call: "is_call ?t i service meth request" using m'(2) by (simp add: is_call_def)
    have services: "rc_services (rs_server ?t) = rc_services (rs_server s)" by (simp add: rpc_send_def)
    show "rc_services (rs_server ?t) = rc_services (rs_server s)" by (fact services)
    show "(j, a, b, q) \<in> set (rc_running (rs_server s)) \<or> is_call ?t j a b q" if "(j, a, b, q) \<in> set (rc_running (rs_server ?t))" for j a b q
      using that call by (auto simp: rpc_send_def split: if_splits)
    have "result_ok answers ?t i None" if "?e \<noteq> NO_ERROR"
      using that call m'(1) rpc_error_services[OF services] unfolding result_ok_def by auto
    then show "w \<in> set (rc_sent (rs_server s)) \<or> (rm_type w = RESPONSE \<and> (rm_response w \<noteq> None \<or> rm_error w \<noteq> None)
        \<and> result_ok answers ?t (rm_id w) (rm_response w))" if "w \<in> set (rc_sent (rs_server ?t))" for w
      using that by (auto simp: rpc_send_def response_message_def split: if_splits)
  qed (auto simp: assms(3))
  ultimately show ?thesis using v by blast
qed

lemma completion_keeps:
  assumes "rpc_ids s" "rpc_data answers s" "rc_running (rs_server s) = us @ (i, service, meth, request) # ws"
    "answers service meth request response"
    "t = s\<lparr>rs_server := doneCallback i response ((rs_server s)\<lparr>rc_running := us @ ws\<rparr>)\<rparr>"
  shows "rpc_ids t" "rpc_data answers t"
proof -
  show "rpc_ids t"
    by (intro rpc_ids_moved[OF assms(1)]) (auto simp: rpc_defs assms(3,5))
  have "is_call s i service meth request"
    using assms(2,3) by (auto simp: rpc_data_def)
  then show "rpc_data answers t"
    by (intro rpc_data_mono[OF assms(2), of _ "[]"])
      (use assms(4) in \<open>auto simp: assms(3,5) rpc_defs result_ok_def is_call_def\<close>)
qed

lemma response_arrives:
  assumes "rpc_ids s" "rpc_data answers s" "rc_sent (rs_server s) = m # ms"
  shows "\<exists>c. onRpcMessage m (rs_client s) = Inr c
    \<and> (\<forall>t. t = s\<lparr>rs_server := (rs_server s)\<lparr>rc_sent := ms\<rparr>, rs_client := c\<rparr> \<longrightarrow> rpc_ids t \<and> rpc_data answers t)"
proof -
  have m: "rm_type m = RESPONSE" "rm_response m \<noteq> None \<or> rm_error m \<noteq> None" "result_ok answers s (rm_id m) (rm_response m)"
    using assms(2,3) by (auto simp: rpc_data_def)
  have mem: "rm_id m \<in> set (under_way s)" by (simp add: under_way_def assms(3))
  then have pos: "1 \<le> rm_id m" using rpc_ids_distinct(2)[OF assms(1)] by auto
  let ?n = "nat (rm_id m - 1)"
  let ?c = "(rs_client s)\<lparr>rc_outstandings := smap_erase (rm_id m) (rc_outstandings (rs_client s)),
      rc_finished := rc_finished (rs_client s) @ [(?n, rm_response m)]\<rparr>"
  let ?t = "s\<lparr>rs_server := (rs_server s)\<lparr>rc_sent := ms\<rparr>, rs_client := ?c\<rparr>"
  have "map_of (rc_outstandings (rs_client s)) (rm_id m) = Some ?n"
    using assms(1) mem by (simp add: rpc_ids_def)
  then have c: "onRpcMessage m (rs_client s) = Inr ?c"
    using m(1,2) by (auto simp: onRpcMessage_def)
  have away: "rm_id m \<notin> set (under_way ?t)" and rest: "set (under_way s) = insert (rm_id m) (set (under_way ?t))"
    using rpc_ids_distinct(1)[OF assms(1)] by (auto simp: under_way_def assms(3))
  have "mset (under_way ?t @ finished_ids ?t) = mset (under_way s @ finished_ids s)"
    using pos by (simp add: under_way_def finished_ids_def assms(3))
  then have "rpc_ids ?t"
    using assms(1) away rest unfolding rpc_ids_def by (auto simp: smap_simps fun_eq_iff)
  moreover have "result_ok answers ?t (int ?n + 1) (rm_response m)"
  proof -
    have "int ?n + 1 = rm_id m" using pos by simp
    then show ?thesis using result_ok_mono[OF m(3), of ?t "[]"] by simp
  qed
  then have "rpc_data answers ?t"
    by (intro rpc_data_mono[OF assms(2), of _ "[]"]) (auto simp: assms(3))
  ultimately show ?thesis using c by blast
qed


lemma rpc_start_keeps: "rpc_ids (rpc_start services)" "rpc_data answers (rpc_start services)"
  by (simp_all add: rpc_ids_def rpc_data_def rpc_start_def RpcChannel_new_def under_way_def finished_ids_def)

lemma rpc_step_keeps:
  assumes "rpc_step answers s t" "rpc_ids s" "rpc_data answers s"
  shows "rpc_ids t \<and> rpc_data answers t"
  using assms
proof (induction rule: rpc_step.induct)
  case (call s service meth request)
  then show ?case using call_keeps[OF _ _ refl] by (intro conjI)
next
  case (to_server s m ms v)
  then obtain w where "onRpcMessage m (rs_server s) = Inr w"
    "\<And>t. t = s\<lparr>rs_client := (rs_client s)\<lparr>rc_sent := ms\<rparr>, rs_server := w\<rparr> \<Longrightarrow> rpc_ids t \<and> rpc_data answers t"
    using request_arrives by blast
  moreover have "w = v" using calculation(1) to_server(2) by (simp only: sum.inject)
  ultimately show ?case by (simp only:)
next
  case (complete s us i service meth request ws response)
  let ?t = "s\<lparr>rs_server := doneCallback i response ((rs_server s)\<lparr>rc_running := us @ ws\<rparr>)\<rparr>"
  show ?case
    using completion_keeps[of s answers us i service meth request ws response ?t] complete by (simp only: simp_thms)
next
  case (to_client s m ms c)
  then obtain d where "onRpcMessage m (rs_client s) = Inr d"
    "\<And>t. t = s\<lparr>rs_server := (rs_server s)\<lparr>rc_sent := ms\<rparr>, rs_client := d\<rparr> \<Longrightarrow> rpc_ids t \<and> rpc_data answers t"
    using response_arrives by blast
  moreover have "d = c" using calculation(1) to_client(2) by (simp only: sum.inject)
  ultimately show ?case by (simp only:)
qed

lemma rpc_reached:
  assumes "(rpc_step answers)\<^sup>*\<^sup>* (rpc_start services) s"
  shows "rpc_ids s" "rpc_data answers s" "rc_services (rs_server s) = services"
proof -
  have "rpc_ids s \<and> rpc_data answers s \<and> rc_services (rs_server s) = services"
    using assms
    by (induction rule: rtranclp_induct) (simp add: rpc_start_keeps, simp add: rpc_start_def, use rpc_step_keeps rpc_step_services in metis)
  then show "rpc_ids s" "rpc_data answers s" "rc_services (rs_server s) = services" by simp_all
qed

section \<open>Every call is answered once, with its own answer\<close>

definition answered :: "(string \<Rightarrow> string \<Rightarrow> byte list \<Rightarrow> byte list \<Rightarrow> bool) \<Rightarrow> services option \<Rightarrow> string \<times> string \<times> byte list \<Rightarrow> byte list option \<Rightarrow> bool" where
  \<comment> \<open>by the service, or refused by the server of these services\<close>
  "answered answers services call r =
     (case call of (service, meth, request) \<Rightarrow>
        (case r of Some response \<Rightarrow> answers service meth request response
         | None \<Rightarrow> rpc_error (request_message 0 service meth request) (RpcChannel_new\<lparr>rc_services := services\<rparr>) \<noteq> NO_ERROR))"

lemma result_answered:
  assumes "result_ok answers s (int n + 1) r" "rc_services (rs_server s) = services"
  shows "n < length (rs_calls s)" "answered answers services (rs_calls s ! n) r"
  using assms by (auto simp: result_ok_def is_call_def answered_def rpc_error_def request_message_def split: option.splits)

definition pending :: "rpc_system \<Rightarrow> nat" where
  "pending s = 3 * length (rc_sent (rs_client s)) + 2 * length (rc_running (rs_server s)) + length (rc_sent (rs_server s))"

lemma rpc_progress:
  assumes "rpc_ids s" "rpc_data answers s" "\<And>service meth request. \<exists>response. answers service meth request response" "under_way s \<noteq> []"
  shows "\<exists>t. rpc_step answers s t \<and> rs_calls t = rs_calls s \<and> pending t < pending s"
proof -
  consider (request) m ms where "rc_sent (rs_client s) = m # ms" | (runs) w ws where "rc_running (rs_server s) = w # ws"
    | (response) m ms where "rc_sent (rs_server s) = m # ms"
    using assms(4) by (fastforce simp: under_way_def neq_Nil_conv)
  then show ?thesis
  proof cases
    case request
    then obtain v where v: "onRpcMessage m (rs_server s) = Inr v" using request_arrives[OF assms(1,2)] by blast
    obtain service meth request where m: "m = request_message (rm_id m) service meth request"
      using assms(2) request by (auto simp: rpc_data_def)
    have "rm_type m = REQUEST" by (subst m) (simp add: request_message_def)
    then have "2 * length (rc_running v) + length (rc_sent v) \<le> 2 * length (rc_running (rs_server s)) + length (rc_sent (rs_server s)) + 2"
      using v by (auto simp: onRpcMessage_def rpc_send_def split: if_splits)
    then have "pending (s\<lparr>rs_client := (rs_client s)\<lparr>rc_sent := ms\<rparr>, rs_server := v\<rparr>) < pending s"
      using request by (simp add: pending_def)
    then show ?thesis using to_server[OF request v] by fastforce
  next
    case runs
    obtain i service meth request where w: "w = (i, service, meth, request)" by (rule prod_cases4)
    obtain response where r: "answers service meth request response" using assms(3) by blast
    let ?t = "s\<lparr>rs_server := doneCallback i response ((rs_server s)\<lparr>rc_running := [] @ ws\<rparr>)\<rparr>"
    have "rpc_step answers s ?t"
      by (rule complete[where service = service and meth = meth and request = request]) (use runs w r in simp_all)
    moreover have "rs_calls ?t = rs_calls s" "pending ?t < pending s"
      using runs by (simp_all add: pending_def rpc_defs)
    ultimately show ?thesis by blast
  next
    case response
    then obtain c where c: "onRpcMessage m (rs_client s) = Inr c" using response_arrives[OF assms(1,2)] by blast
    have "rm_type m = RESPONSE" using assms(2) response by (simp add: rpc_data_def)
    then have "rc_sent c = rc_sent (rs_client s)"
      using c by (auto simp: onRpcMessage_def split: if_splits option.splits)
    then have "pending (s\<lparr>rs_server := (rs_server s)\<lparr>rc_sent := ms\<rparr>, rs_client := c\<rparr>) < pending s"
      using response by (simp add: pending_def)
    then show ?thesis using to_client[OF response c] by fastforce
  qed
qed

lemma outstanding_calls:
  assumes "rpc_ids s"
  shows "snd ` set (rc_outstandings (rs_client s)) = {..<length (rs_calls s)} - fst ` set (rc_finished (rs_client s))"
    "distinct (map fst (rc_finished (rs_client s)))"
    "under_way s = [] \<longrightarrow> fst ` set (rc_finished (rs_client s)) = {..<length (rs_calls s)}"
proof -
  let ?outs = "rc_outstandings (rs_client s)"
  define F where "F = map fst (rc_finished (rs_client s))"
  have F: "fst ` set (rc_finished (rs_client s)) = set F" by (simp add: F_def)
  have fin: "finished_ids s = map (\<lambda>n. int n + 1) F"
    by (simp add: finished_ids_def F_def comp_def case_prod_unfold)
  note ids = rpc_ids_distinct[OF assms]
  have "distinct (map (\<lambda>n. int n + 1) F)" using ids(1) unfolding fin by simp
  then show "distinct (map fst (rc_finished (rs_client s)))" by (simp only: distinct_map F_def)
  have range: "n < length (rs_calls s) \<longleftrightarrow> int n + 1 \<in> set (under_way s) \<or> n \<in> set F" for n
  proof -
    have "n < length (rs_calls s) \<longleftrightarrow> int n + 1 \<in> {1 .. int (length (rs_calls s))}" by auto
    also have "\<dots> \<longleftrightarrow> int n + 1 \<in> set (under_way s @ finished_ids s)" by (simp only: ids(2))
    finally show ?thesis by (auto simp: fin)
  qed
  have excl: "int n + 1 \<in> set (under_way s) \<Longrightarrow> n \<notin> set F" for n
    using ids(1) by (auto simp: fin)
  show "under_way s = [] \<longrightarrow> fst ` set (rc_finished (rs_client s)) = {..<length (rs_calls s)}"
    unfolding F
  proof (intro impI set_eqI)
    fix n assume "under_way s = []"
    then show "n \<in> set F \<longleftrightarrow> n \<in> {..<length (rs_calls s)}" using range[of n] by simp
  qed
  have "distinct (map fst ?outs)"
    using assms by (simp add: rpc_ids_def smap_ok_def strict_sorted_iff)
  then have mem: "(i, n) \<in> set ?outs \<longleftrightarrow> i \<in> set (under_way s) \<and> n = nat (i - 1)" for i n
    using assms map_of_eq_Some_iff[of ?outs i n] by (auto simp: rpc_ids_def split: if_splits)
  have pos: "int (nat (i - 1)) + 1 = i" if "i \<in> set (under_way s)" for i
  proof -
    have "i \<in> set (under_way s @ finished_ids s)" using that by simp
    then have "1 \<le> i" by (simp only: ids(2) atLeastAtMost_iff)
    then show ?thesis by simp
  qed
  show "snd ` set ?outs = {..<length (rs_calls s)} - fst ` set (rc_finished (rs_client s))"
    unfolding F
  proof (intro set_eqI iffI)
    fix n assume "n \<in> snd ` set ?outs"
    then obtain i where "i \<in> set (under_way s)" "n = nat (i - 1)" using mem by force
    then have "int n + 1 \<in> set (under_way s)" using pos by simp
    then show "n \<in> {..<length (rs_calls s)} - set F" using range[of n] excl[of n] by simp
  next
    fix n assume "n \<in> {..<length (rs_calls s)} - set F"
    then have "(int n + 1, n) \<in> set ?outs" using range[of n] mem[of "int n + 1" n] by auto
    then show "n \<in> snd ` set ?outs" by force
  qed
qed

text \<open>
  C21. In every state a client and a server of remote calls reach, whatever the order in which the services
  complete, no call's \<^verbatim>\<open>done\<close> runs twice; the response it sees is an answer of the service to that very call,
  and no response only when the server refused the request (no such service or method, or a request that does
  not parse); the calls in \<^verbatim>\<open>outstandings_\<close> are exactly those that are not finished; and no message that
  arrives breaks the assertion of \<^verbatim>\<open>onRpcMessage\<close>.
\<close>

theorem rpc_calls_answered:
  assumes "(rpc_step answers)\<^sup>*\<^sup>* (rpc_start services) s"
  shows "distinct (map fst (rc_finished (rs_client s)))
    \<and> (\<forall>(n, r)\<in>set (rc_finished (rs_client s)). n < length (rs_calls s) \<and> answered answers services (rs_calls s ! n) r)
    \<and> snd ` set (rc_outstandings (rs_client s)) = {..<length (rs_calls s)} - fst ` set (rc_finished (rs_client s))
    \<and> (\<forall>m\<in>set (take 1 (rc_sent (rs_client s))). \<exists>v. onRpcMessage m (rs_server s) = Inr v)
    \<and> (\<forall>m\<in>set (take 1 (rc_sent (rs_server s))). \<exists>c. onRpcMessage m (rs_client s) = Inr c)"
proof (intro conjI)
  note inv = rpc_reached[OF assms]
  show "distinct (map fst (rc_finished (rs_client s)))"
    "snd ` set (rc_outstandings (rs_client s)) = {..<length (rs_calls s)} - fst ` set (rc_finished (rs_client s))"
    using outstanding_calls[OF inv(1)] by blast+
  show "\<forall>(n, r)\<in>set (rc_finished (rs_client s)). n < length (rs_calls s) \<and> answered answers services (rs_calls s ! n) r"
    using inv(2) result_answered[OF _ inv(3)] unfolding rpc_data_def by blast
  show "\<forall>m\<in>set (take 1 (rc_sent (rs_client s))). \<exists>v. onRpcMessage m (rs_server s) = Inr v"
    using request_arrives[OF inv(1,2)] by (cases "rc_sent (rs_client s)") auto
  show "\<forall>m\<in>set (take 1 (rc_sent (rs_server s))). \<exists>c. onRpcMessage m (rs_client s) = Inr c"
    using response_arrives[OF inv(1,2)] by (cases "rc_sent (rs_server s)") auto
qed

text \<open>
  C22. From every state that is reached, when the services have an answer to every request they are given, the
  calls that were made can all be finished without another call: deliveries and completions lead to a state
  where nothing is under way, the table of outstanding calls is empty and every call is finished.
\<close>

theorem rpc_calls_finish:
  assumes "(rpc_step answers)\<^sup>*\<^sup>* (rpc_start services) s" "\<And>service meth request. \<exists>response. answers service meth request response"
  shows "\<exists>t. (rpc_step answers)\<^sup>*\<^sup>* s t \<and> rs_calls t = rs_calls s \<and> under_way t = []
    \<and> rc_outstandings (rs_client t) = [] \<and> fst ` set (rc_finished (rs_client t)) = {..<length (rs_calls s)}"
proof -
  have "\<exists>t. (rpc_step answers)\<^sup>*\<^sup>* s t \<and> rs_calls t = rs_calls s \<and> under_way t = [] \<and> rpc_ids t"
    if "rpc_ids s" "rpc_data answers s" for s
    using that
  proof (induction "pending s" arbitrary: s rule: less_induct)
    case (less s)
    show ?case
    proof (cases "under_way s = []")
      case True
      then show ?thesis using less(2) by blast
    next
      case False
      then obtain u where u: "rpc_step answers s u" "rs_calls u = rs_calls s" "pending u < pending s"
        using rpc_progress[OF less(2,3) assms(2)] by blast
      have "rpc_ids u" "rpc_data answers u" using rpc_step_keeps[OF u(1) less(2,3)] by simp_all
      then obtain t where "(rpc_step answers)\<^sup>*\<^sup>* u t" "rs_calls t = rs_calls u" "under_way t = []" "rpc_ids t"
        using less(1)[OF u(3)] by blast
      then show ?thesis using u(1,2) converse_rtranclp_into_rtranclp[of "rpc_step answers" s u t] by auto
    qed
  qed
  then obtain t where t: "(rpc_step answers)\<^sup>*\<^sup>* s t" "rs_calls t = rs_calls s" "under_way t = []" "rpc_ids t"
    using rpc_reached(1,2)[OF assms(1)] by blast
  have "snd ` set (rc_outstandings (rs_client t)) = {}" "fst ` set (rc_finished (rs_client t)) = {..<length (rs_calls t)}"
    using outstanding_calls[OF t(4)] t(3) by simp_all
  then show ?thesis using t by auto
qed

section \<open>An instance\<close>

text \<open>A service \<^verbatim>\<open>E\<close> with a method \<^verbatim>\<open>echo\<close>; the second call names a method that it does not have.\<close>

definition echo_services :: "services option" where
  "echo_services = Some (registerService ''E'' [(''echo'', \<lambda>q. q \<noteq> [])] [])"

definition echoes :: "string \<Rightarrow> string \<Rightarrow> byte list \<Rightarrow> byte list \<Rightarrow> bool" where
  "echoes service meth request response \<longleftrightarrow> response = request"

definition make_call :: "string \<Rightarrow> string \<Rightarrow> byte list \<Rightarrow> rpc_system \<Rightarrow> rpc_system" where
  "make_call service meth request s =
     s\<lparr>rs_client := CallMethod (length (rs_calls s)) service meth request (rs_client s), rs_calls := rs_calls s @ [(service, meth, request)]\<rparr>"

definition echo_s2 :: rpc_system where
  "echo_s2 = make_call ''E'' ''time'' [8] (make_call ''E'' ''echo'' [7] (rpc_start echo_services))"

definition deliver_to_server :: "rpc_system \<Rightarrow> rpc_system" where
  "deliver_to_server s =
     (case onRpcMessage (hd (rc_sent (rs_client s))) (rs_server s) of
        Inr v \<Rightarrow> s\<lparr>rs_client := (rs_client s)\<lparr>rc_sent := tl (rc_sent (rs_client s))\<rparr>, rs_server := v\<rparr>
      | Inl _ \<Rightarrow> s)"

definition deliver_to_client :: "rpc_system \<Rightarrow> rpc_system" where
  "deliver_to_client s =
     (case onRpcMessage (hd (rc_sent (rs_server s))) (rs_client s) of
        Inr c \<Rightarrow> s\<lparr>rs_server := (rs_server s)\<lparr>rc_sent := tl (rc_sent (rs_server s))\<rparr>, rs_client := c\<rparr>
      | Inl _ \<Rightarrow> s)"

definition echo_s5 :: rpc_system where
  "echo_s5 = deliver_to_client (deliver_to_server (deliver_to_server echo_s2))"

lemma deliveries_are_steps:
  "rc_sent (rs_client s) \<noteq> [] \<Longrightarrow> \<not> isl (onRpcMessage (hd (rc_sent (rs_client s))) (rs_server s)) \<Longrightarrow> rpc_step answers s (deliver_to_server s)"
  "rc_sent (rs_server s) \<noteq> [] \<Longrightarrow> \<not> isl (onRpcMessage (hd (rc_sent (rs_server s))) (rs_client s)) \<Longrightarrow> rpc_step answers s (deliver_to_client s)"
  by (auto simp: deliver_to_server_def deliver_to_client_def neq_Nil_conv split: sum.splits intro: rpc_step.intros)

lemma echo_s5_reached: "(rpc_step echoes)\<^sup>*\<^sup>* (rpc_start echo_services) echo_s5"
proof -
  let ?s = "rpc_start echo_services"
  have "rpc_step echoes ?s (make_call ''E'' ''echo'' [7] ?s)"
    unfolding make_call_def by (rule call)
  moreover have "rpc_step echoes (make_call ''E'' ''echo'' [7] ?s) echo_s2"
    unfolding echo_s2_def make_call_def[of _ "''time''"] by (rule call)
  moreover have "rpc_step echoes echo_s2 (deliver_to_server echo_s2)"
    by (rule deliveries_are_steps(1)) code_simp+
  moreover have "rpc_step echoes (deliver_to_server echo_s2) (deliver_to_server (deliver_to_server echo_s2))"
    by (rule deliveries_are_steps(1)) code_simp+
  moreover have "rpc_step echoes (deliver_to_server (deliver_to_server echo_s2)) echo_s5"
    unfolding echo_s5_def by (rule deliveries_are_steps(2)) code_simp+
  ultimately show ?thesis by (meson rtranclp.rtrancl_refl rtranclp.rtrancl_into_rtrancl)
qed

theorem rpc_calls_answered_witness:
  "rc_finished (rs_client echo_s5) = [(1, None)] \<and> answered echoes echo_services (rs_calls echo_s5 ! 1) None
    \<and> snd ` set (rc_outstandings (rs_client echo_s5)) = {0}"
proof -
  have eq: "rc_finished (rs_client echo_s5) = [(1, None)]" by code_simp
  have "map snd (rc_outstandings (rs_client echo_s5)) = [0]" by code_simp
  then have "snd ` set (rc_outstandings (rs_client echo_s5)) = {0}" by (metis list.simps(15) list.set(1) set_map)
  then show ?thesis using rpc_calls_answered[OF echo_s5_reached] by (simp add: eq)
qed

theorem rpc_calls_finish_witness:
  "\<exists>t. (rpc_step echoes)\<^sup>*\<^sup>* echo_s5 t \<and> rs_calls t = rs_calls echo_s5 \<and> under_way t = []
    \<and> rc_outstandings (rs_client t) = [] \<and> fst ` set (rc_finished (rs_client t)) = {..<2}"
proof -
  have "\<exists>response. echoes service meth request response" for service meth request
    by (simp add: echoes_def)
  note rpc_calls_finish[OF echo_s5_reached this]
  moreover have "length (rs_calls echo_s5) = 2" by code_simp
  ultimately show ?thesis by simp
qed

end
