(* ===== verification/Base_Threads.thy ===== *)
theory Base_Threads
  imports Server_Prelude
begin

text \<open>
  The blocking containers of the base library: BlockingQueue.h, BoundedBlockingQueue.h,
  CountDownLatch.cc and ThreadPool.cc. Every critical section, from taking the mutex to
  releasing it or waiting on a condition, is one definition; the step relations interleave
  those of any number of threads. A thread that waits is in the set of its condition until it
  is notified or wakes for no reason, and then runs its section again. Which of the waiting
  threads a notification wakes is arbitrary.
\<close>

section \<open>Blocking queues\<close>

record 'a blocking_queue =
  bq_capacity :: "nat option"
  bq_queue :: "'a list"
  bq_takers :: nat
  bq_takers_woken :: nat
  bq_putters :: "'a list"
  bq_putters_woken :: "'a list"
  bq_accepted :: "'a list"
  bq_taken :: "'a list"

definition BoundedBlockingQueue_new :: "nat \<Rightarrow> 'a blocking_queue" where
  "BoundedBlockingQueue_new maxSize = \<lparr>bq_capacity = Some maxSize, bq_queue = [], bq_takers = 0, bq_takers_woken = 0,
     bq_putters = [], bq_putters_woken = [], bq_accepted = [], bq_taken = []\<rparr>"

definition BlockingQueue_new :: "'a blocking_queue" where
  "BlockingQueue_new = (BoundedBlockingQueue_new 0)\<lparr>bq_capacity := None\<rparr>"

definition bq_full :: "'a blocking_queue \<Rightarrow> bool" where
  "bq_full q \<longleftrightarrow> (case bq_capacity q of None \<Rightarrow> False | Some n \<Rightarrow> length (bq_queue q) \<ge> n)"

definition notify_taker :: "'a blocking_queue \<Rightarrow> 'a blocking_queue" where
  "notify_taker q =
     (if bq_takers q = 0 then q else q\<lparr>bq_takers := bq_takers q - 1, bq_takers_woken := bq_takers_woken q + 1\<rparr>)"

definition notify_putter :: "nat \<Rightarrow> 'a blocking_queue \<Rightarrow> 'a blocking_queue" where
  \<comment> \<open>the number chooses among those that wait\<close>
  "notify_putter i q =
     (if bq_putters q = [] then q
      else let k = i mod length (bq_putters q)
           in q\<lparr>bq_putters := take k (bq_putters q) @ drop (Suc k) (bq_putters q),
                bq_putters_woken := bq_putters_woken q @ [bq_putters q ! k]\<rparr>)"

definition blocking_put :: "'a \<Rightarrow> 'a blocking_queue \<Rightarrow> 'a blocking_queue" where
  "blocking_put x q = notify_taker (q\<lparr>bq_queue := bq_queue q @ [x], bq_accepted := bq_accepted q @ [x]\<rparr>)"

definition bounded_put :: "'a \<Rightarrow> 'a blocking_queue \<Rightarrow> 'a blocking_queue" where
  "bounded_put x q = (if bq_full q then q\<lparr>bq_putters := bq_putters q @ [x]\<rparr> else blocking_put x q)"

definition take_front :: "'a blocking_queue \<Rightarrow> 'a blocking_queue" where
  "take_front q = q\<lparr>bq_queue := tl (bq_queue q), bq_taken := bq_taken q @ [hd (bq_queue q)]\<rparr>"

definition blocking_take :: "'a blocking_queue \<Rightarrow> 'a blocking_queue" where
  "blocking_take q = (if bq_queue q = [] then q\<lparr>bq_takers := bq_takers q + 1\<rparr> else take_front q)"

definition bounded_take :: "nat \<Rightarrow> 'a blocking_queue \<Rightarrow> 'a blocking_queue" where
  "bounded_take i q =
     (if bq_queue q = [] then q\<lparr>bq_takers := bq_takers q + 1\<rparr> else notify_putter i (take_front q))"

definition blocking_drain :: "'a blocking_queue \<Rightarrow> 'a blocking_queue" where
  "blocking_drain q = q\<lparr>bq_queue := [], bq_taken := bq_taken q @ bq_queue q\<rparr>"

inductive bq_step :: "'a blocking_queue \<Rightarrow> 'a blocking_queue \<Rightarrow> bool" where
  put: "bq_step q (bounded_put x q)"
| put_again: "bq_putters_woken q = xs @ x # ys \<Longrightarrow> bq_step q (bounded_put x (q\<lparr>bq_putters_woken := xs @ ys\<rparr>))"
| take: "bq_step q (bounded_take i q)"
| take_again: "0 < bq_takers_woken q \<Longrightarrow> bq_step q (bounded_take i (q\<lparr>bq_takers_woken := bq_takers_woken q - 1\<rparr>))"
| drain: "bq_capacity q = None \<Longrightarrow> bq_step q (blocking_drain q)"
| spurious_taker: "bq_step q (notify_taker q)"
| spurious_putter: "bq_step q (notify_putter i q)"

lemma blocking_queue_unbounded:
  "bq_capacity q = None \<Longrightarrow> bounded_put x q = blocking_put x q"
  "bq_putters q = [] \<Longrightarrow> bounded_take i q = blocking_take q"
  by (simp_all add: bounded_put_def bq_full_def bounded_take_def blocking_take_def notify_putter_def take_front_def)

definition bq_inv :: "'a blocking_queue \<Rightarrow> bool" where
  "bq_inv q \<longleftrightarrow>
     bq_accepted q = bq_taken q @ bq_queue q
     \<and> (bq_takers q > 0 \<longrightarrow> length (bq_queue q) \<le> bq_takers_woken q)
     \<and> (case bq_capacity q of
          None \<Rightarrow> bq_putters q = [] \<and> bq_putters_woken q = []
        | Some n \<Rightarrow> length (bq_queue q) \<le> n
            \<and> (bq_putters q \<noteq> [] \<longrightarrow> n - length (bq_queue q) \<le> length (bq_putters_woken q)))"

lemma notify_taker_inv: "bq_inv q \<Longrightarrow> bq_inv (notify_taker q)"
  by (auto simp: bq_inv_def notify_taker_def split: option.splits)

lemma notify_putter_inv: "bq_inv q \<Longrightarrow> bq_inv (notify_putter i q)"
  by (auto simp: bq_inv_def notify_putter_def Let_def split: option.splits)

lemmas bq_defs = bq_inv_def bounded_put_def blocking_put_def bounded_take_def take_front_def notify_taker_def bq_full_def

lemma bounded_put_inv: "bq_inv q \<Longrightarrow> bq_inv (bounded_put x q)"
  by (auto simp: bq_defs split: option.splits)

lemma put_again_inv:
  assumes "bq_inv q" and "bq_putters_woken q = xs @ x # ys"
  shows "bq_inv (bounded_put x (q\<lparr>bq_putters_woken := xs @ ys\<rparr>))"
  using assms by (auto simp: bq_defs split: option.splits)

lemma taken_queue: "xs \<noteq> [] \<Longrightarrow> (t @ [hd xs]) @ tl xs = t @ xs"
  by simp

lemma bounded_take_inv:
  assumes "bq_inv q"
  shows "bq_inv (bounded_take i q)"
proof (cases "bq_queue q = []")
  case True
  with assms show ?thesis by (auto simp: bounded_take_def bq_inv_def split: option.splits)
next
  case False
  let ?q = "take_front q"
  have "bq_inv (notify_putter i ?q)"
    using assms False by (cases "bq_queue q")
      (auto simp: bq_inv_def take_front_def notify_putter_def Let_def split: option.splits)
  with False show ?thesis by (simp add: bounded_take_def)
qed

lemma take_again_inv:
  assumes "bq_inv q" and "0 < bq_takers_woken q"
  shows "bq_inv (bounded_take i (q\<lparr>bq_takers_woken := bq_takers_woken q - 1\<rparr>))"
proof (cases "bq_queue q")
  case Nil
  with assms show ?thesis by (auto simp: bounded_take_def bq_inv_def split: option.splits)
next
  case (Cons x xs)
  with assms show ?thesis
    by (auto simp: bounded_take_def bq_inv_def take_front_def notify_putter_def Let_def split: option.splits)
qed

lemma bq_step_inv: "bq_step q q' \<Longrightarrow> bq_inv q \<Longrightarrow> bq_inv q'"
proof (induction rule: bq_step.induct)
  case (drain q)
  then show ?case by (simp add: bq_inv_def blocking_drain_def)
qed (blast intro: bounded_put_inv put_again_inv bounded_take_inv take_again_inv notify_taker_inv notify_putter_inv)+

lemma bq_run_inv: "bq_step\<^sup>*\<^sup>* q q' \<Longrightarrow> bq_inv q \<Longrightarrow> bq_inv q'"
  by (induction rule: rtranclp_induct) (auto intro: bq_step_inv)

lemma bq_inv_new: "bq_inv (BoundedBlockingQueue_new n)" "bq_inv BlockingQueue_new"
  by (simp_all add: bq_inv_def BoundedBlockingQueue_new_def BlockingQueue_new_def)

lemma bq_capacity_step: "bq_step q q' \<Longrightarrow> bq_capacity q' = bq_capacity q"
  by (induction rule: bq_step.induct)
    (auto simp: bq_defs notify_putter_def blocking_drain_def Let_def)

lemma bq_capacity_run: "bq_step\<^sup>*\<^sup>* q q' \<Longrightarrow> bq_capacity q' = bq_capacity q"
  by (induction rule: rtranclp_induct) (auto simp: bq_capacity_step)

text \<open>
  C33. A bounded blocking queue between any number of threads: it hands out the items in the order
  it accepted them and never holds more than its capacity; while an item is there no taker
  waits unless another was woken for it, and while there is room no putter waits unless
  another was woken for it. So no wake-up is lost and no thread waits for ever.
\<close>

theorem bounded_queue_correct:
  assumes "bq_step\<^sup>*\<^sup>* (BoundedBlockingQueue_new n) q"
  shows "bq_accepted q = bq_taken q @ bq_queue q \<and> length (bq_queue q) \<le> n
    \<and> (bq_queue q \<noteq> [] \<and> bq_takers q > 0 \<longrightarrow> bq_takers_woken q > 0)
    \<and> (length (bq_queue q) < n \<and> bq_putters q \<noteq> [] \<longrightarrow> bq_putters_woken q \<noteq> [])"
proof -
  have "bq_inv q" using bq_run_inv [OF assms bq_inv_new(1)] .
  moreover have "bq_capacity q = Some n" using bq_capacity_run [OF assms] by (simp add: BoundedBlockingQueue_new_def)
  ultimately show ?thesis by (cases "bq_queue q") (auto simp: bq_inv_def)
qed

definition demo_bq :: "nat blocking_queue" where
  "demo_bq = bounded_put 8 (bounded_put 7 (bounded_take 0 (BoundedBlockingQueue_new 1)))"

lemma demo_bq_run: "bq_step\<^sup>*\<^sup>* (BoundedBlockingQueue_new 1) demo_bq"
  unfolding demo_bq_def
  by (meson bq_step.put bq_step.take r_into_rtranclp rtranclp.rtrancl_into_rtrancl)

theorem bounded_queue_correct_witness:
  "length (bq_queue demo_bq) \<le> 1 \<and> bq_putters demo_bq = [8] \<and> bq_accepted demo_bq = bq_taken demo_bq @ bq_queue demo_bq"
  using bounded_queue_correct [OF demo_bq_run]
  by (simp add: demo_bq_def bq_defs BoundedBlockingQueue_new_def)

section \<open>Latches\<close>

record latch =
  cl_count :: int
  cl_waiting :: nat
  cl_passed :: nat

definition CountDownLatch_new :: "int \<Rightarrow> latch" where
  "CountDownLatch_new n = \<lparr>cl_count = n, cl_waiting = 0, cl_passed = 0\<rparr>"

definition latch_wait :: "latch \<Rightarrow> latch" where
  "latch_wait l = (if cl_count l > 0 then l\<lparr>cl_waiting := cl_waiting l + 1\<rparr> else l\<lparr>cl_passed := cl_passed l + 1\<rparr>)"

definition countDown :: "latch \<Rightarrow> latch" where
  \<comment> \<open>all that wait are woken, find the count at 0 and pass\<close>
  "countDown l =
     (let l' = l\<lparr>cl_count := cl_count l - 1\<rparr>
      in if cl_count l' = 0 then l'\<lparr>cl_waiting := 0, cl_passed := cl_passed l' + cl_waiting l'\<rparr> else l')"

fun latch_run :: "bool list \<Rightarrow> latch \<Rightarrow> latch" where
  \<comment> \<open>\<open>True\<close> counts down, \<open>False\<close> waits\<close>
  "latch_run [] l = l"
| "latch_run (True # es) l = latch_run es (countDown l)"
| "latch_run (False # es) l = latch_run es (latch_wait l)"

lemma latch_run_inv:
  "(cl_waiting l > 0 \<longrightarrow> cl_count l > 0) \<Longrightarrow>
   cl_count (latch_run es l) = cl_count l - int (length (filter id es))
   \<and> (cl_waiting (latch_run es l) > 0 \<longrightarrow> cl_count (latch_run es l) > 0)
   \<and> cl_waiting (latch_run es l) + cl_passed (latch_run es l)
     = cl_waiting l + cl_passed l + length (filter (\<lambda>e. \<not> e) es)"
proof (induction es l rule: latch_run.induct)
  case (2 es l)
  moreover have "cl_count (countDown l) = cl_count l - 1"
      "cl_waiting (countDown l) > 0 \<longrightarrow> cl_count (countDown l) > 0"
      "cl_waiting (countDown l) + cl_passed (countDown l) = cl_waiting l + cl_passed l"
    using 2(2) by (auto simp: countDown_def Let_def)
  ultimately show ?case by force
next
  case (3 es l)
  moreover have "cl_count (latch_wait l) = cl_count l" "cl_waiting (latch_wait l) > 0 \<longrightarrow> cl_count (latch_wait l) > 0"
      "cl_waiting (latch_wait l) + cl_passed (latch_wait l) = cl_waiting l + cl_passed l + 1"
    using 3(2) by (auto simp: latch_wait_def)
  ultimately show ?case by force
qed simp

text \<open>
  A latch lets every thread pass, whenever it came to wait, once it was counted down as often
  as it was set, and none before.
\<close>

theorem latch_opens:
  "(if int (length (filter id es)) \<ge> n then cl_waiting (latch_run es (CountDownLatch_new n)) = 0
      \<and> cl_passed (latch_run es (CountDownLatch_new n)) = length (filter (\<lambda>e. \<not> e) es)
    else cl_count (latch_run es (CountDownLatch_new n)) > 0)"
  using latch_run_inv [of "CountDownLatch_new n" es] by (auto simp: CountDownLatch_new_def)

section \<open>Thread pools\<close>

datatype 't worker = At_Check | At_Take | In_Wait | Woken | At_Task 't | Exited
  \<comment> \<open>where a thread of the pool is in \<^verbatim>\<open>runInThread\<close>\<close>

record 't ThreadPool =
  th_running :: bool
  th_maxQueueSize :: nat
  th_queue :: "'t list"
  th_threads :: "'t worker list"
  th_callers :: "'t list"
  th_callers_woken :: "'t list"
  th_accepted :: "'t list"
  th_taken :: "'t list"
  th_in_caller :: "'t list"

definition ThreadPool_new :: "nat \<Rightarrow> 't ThreadPool" where
  "ThreadPool_new maxSize = \<lparr>th_running = False, th_maxQueueSize = maxSize, th_queue = [], th_threads = [],
     th_callers = [], th_callers_woken = [], th_accepted = [], th_taken = [], th_in_caller = []\<rparr>"

definition pool_start_threads :: "nat \<Rightarrow> 't ThreadPool \<Rightarrow> 't ThreadPool res" where
  "pool_start_threads numThreads p =
     (if th_threads p \<noteq> [] then Inl Assert_Failed
      else Inr (p\<lparr>th_running := True, th_threads := replicate numThreads At_Check\<rparr>))"

definition th_isFull :: "'t ThreadPool \<Rightarrow> bool" where
  "th_isFull p \<longleftrightarrow> th_maxQueueSize p > 0 \<and> length (th_queue p) \<ge> th_maxQueueSize p"

definition wake :: "'t worker \<Rightarrow> 't worker" where
  "wake w = (case w of In_Wait \<Rightarrow> Woken | _ \<Rightarrow> w)"

definition notify_worker :: "nat \<Rightarrow> 't ThreadPool \<Rightarrow> 't ThreadPool" where
  \<comment> \<open>one that waits if any does; the argument chooses\<close>
  "notify_worker i p =
     (let waiting = filter (\<lambda>k. th_threads p ! k = In_Wait) [0 ..< length (th_threads p)]
      in if waiting = [] then p
         else p\<lparr>th_threads := (th_threads p)[waiting ! (i mod length waiting) := Woken]\<rparr>)"

definition notify_caller :: "nat \<Rightarrow> 't ThreadPool \<Rightarrow> 't ThreadPool" where
  "notify_caller i p =
     (if th_callers p = [] then p
      else let k = i mod length (th_callers p)
           in p\<lparr>th_callers := take k (th_callers p) @ drop (Suc k) (th_callers p),
                th_callers_woken := th_callers_woken p @ [th_callers p ! k]\<rparr>)"

definition th_stop :: "'t ThreadPool \<Rightarrow> 't ThreadPool" where
  \<comment> \<open>up to the joins\<close>
  "th_stop p = p\<lparr>th_running := False, th_threads := map wake (th_threads p),
     th_callers := [], th_callers_woken := th_callers_woken p @ th_callers p\<rparr>"

definition th_run :: "nat \<Rightarrow> 't \<Rightarrow> 't ThreadPool \<Rightarrow> 't ThreadPool res" where
  \<comment> \<open>a pool without threads runs the task in the thread that asks\<close>
  "th_run i task p =
     (if th_threads p = [] then Inr (p\<lparr>th_in_caller := th_in_caller p @ [task]\<rparr>)
      else if th_isFull p \<and> th_running p then Inr (p\<lparr>th_callers := th_callers p @ [task]\<rparr>)
      else if \<not> th_running p then Inr p
      else if th_isFull p then Inl Assert_Failed
      else Inr (notify_worker i (p\<lparr>th_queue := th_queue p @ [task], th_accepted := th_accepted p @ [task]\<rparr>)))"

definition th_take :: "nat \<Rightarrow> nat \<Rightarrow> 't ThreadPool \<Rightarrow> 't ThreadPool" where
  \<comment> \<open>by the thread \<open>k\<close>; without a task it goes back to the loop of \<^verbatim>\<open>runInThread\<close>\<close>
  "th_take i k p =
     (if th_queue p = [] \<and> th_running p then p\<lparr>th_threads := (th_threads p)[k := In_Wait]\<rparr>
      else if th_queue p \<noteq> [] then
        let p' = p\<lparr>th_queue := tl (th_queue p), th_taken := th_taken p @ [hd (th_queue p)],
                   th_threads := (th_threads p)[k := At_Task (hd (th_queue p))]\<rparr>
        in if th_maxQueueSize p > 0 then notify_caller i p' else p'
      else p\<lparr>th_threads := (th_threads p)[k := At_Check]\<rparr>)"

definition th_check :: "nat \<Rightarrow> 't ThreadPool \<Rightarrow> 't ThreadPool" where
  "th_check k p = p\<lparr>th_threads := (th_threads p)[k := if th_running p then At_Take else Exited]\<rparr>"

definition th_task_done :: "nat \<Rightarrow> 't ThreadPool \<Rightarrow> 't ThreadPool" where
  "th_task_done k p = p\<lparr>th_threads := (th_threads p)[k := At_Check]\<rparr>"

inductive th_step :: "'t ThreadPool \<Rightarrow> 't ThreadPool \<Rightarrow> bool" where
  run: "th_run i task p = Inr p' \<Longrightarrow> th_step p p'"
| run_again: "th_callers_woken p = xs @ task # ys \<Longrightarrow> th_run i task (p\<lparr>th_callers_woken := xs @ ys\<rparr>) = Inr p' \<Longrightarrow> th_step p p'"
| check: "k < length (th_threads p) \<Longrightarrow> th_threads p ! k = At_Check \<Longrightarrow> th_step p (th_check k p)"
| take: "k < length (th_threads p) \<Longrightarrow> th_threads p ! k \<in> {At_Take, Woken} \<Longrightarrow> th_step p (th_take i k p)"
| finished: "k < length (th_threads p) \<Longrightarrow> th_threads p ! k = At_Task task \<Longrightarrow> th_step p (th_task_done k p)"
| stop: "th_step p (th_stop p)"
| spurious_worker: "th_step p (notify_worker i p)"
| spurious_caller: "th_step p (notify_caller i p)"

definition waiting_workers :: "'t ThreadPool \<Rightarrow> nat" where
  "waiting_workers p = length (filter (\<lambda>w. w = In_Wait) (th_threads p))"

definition woken_workers :: "'t ThreadPool \<Rightarrow> nat" where
  "woken_workers p = length (filter (\<lambda>w. w = Woken) (th_threads p))"

definition th_inv :: "'t ThreadPool \<Rightarrow> bool" where
  "th_inv p \<longleftrightarrow>
     th_accepted p = th_taken p @ th_queue p
     \<and> (th_maxQueueSize p > 0 \<longrightarrow> length (th_queue p) \<le> th_maxQueueSize p)
     \<and> (waiting_workers p > 0 \<longrightarrow> th_running p \<and> length (th_queue p) \<le> woken_workers p)
     \<and> (th_callers p \<noteq> [] \<longrightarrow> th_threads p \<noteq> [] \<and> th_running p \<and> th_maxQueueSize p > 0
          \<and> th_maxQueueSize p - length (th_queue p) \<le> length (th_callers_woken p))"

lemma count_update:
  assumes "k < length xs"
  shows "length (filter P (xs[k := y])) + (if P (xs ! k) then 1 else 0) = length (filter P xs) + (if P y then 1 else 0)"
  using assms
proof (induction xs arbitrary: k)
  case (Cons x xs)
  then show ?case by (cases k) auto
qed simp

lemma notify_worker_counts:
  "waiting_workers p = 0 \<Longrightarrow> notify_worker i p = p"
  "waiting_workers p > 0 \<Longrightarrow> waiting_workers (notify_worker i p) = waiting_workers p - 1
     \<and> woken_workers (notify_worker i p) = woken_workers p + 1"
proof -
  let ?ws = "filter (\<lambda>k. th_threads p ! k = In_Wait) [0 ..< length (th_threads p)]"
  have "map ((!) (th_threads p)) ?ws = filter (\<lambda>w. w = In_Wait) (th_threads p)"
    by (subst (2) map_nth [symmetric]) (simp only: filter_map comp_def)
  then have len: "length ?ws = waiting_workers p" unfolding waiting_workers_def by (metis length_map)
  show "waiting_workers p = 0 \<Longrightarrow> notify_worker i p = p" using len by (simp add: notify_worker_def)
  assume "waiting_workers p > 0"
  then have ne: "?ws \<noteq> []" using len by auto
  let ?k = "?ws ! (i mod length ?ws)"
  have "?k \<in> set ?ws" using ne by (intro nth_mem) simp
  then have k: "?k < length (th_threads p)" "th_threads p ! ?k = In_Wait" by auto
  have "th_threads (notify_worker i p) = (th_threads p)[?k := Woken]" using ne by (simp add: notify_worker_def Let_def)
  then show "waiting_workers (notify_worker i p) = waiting_workers p - 1 \<and> woken_workers (notify_worker i p) = woken_workers p + 1"
    using count_update [OF k(1), of "\<lambda>w. w = In_Wait" Woken] count_update [OF k(1), of "\<lambda>w. w = Woken" Woken] k(2)
    by (simp add: waiting_workers_def woken_workers_def)
qed

lemma notify_worker_fields [simp]:
  "th_running (notify_worker i p) = th_running p" "th_maxQueueSize (notify_worker i p) = th_maxQueueSize p"
  "th_queue (notify_worker i p) = th_queue p" "th_callers (notify_worker i p) = th_callers p"
  "th_callers_woken (notify_worker i p) = th_callers_woken p" "th_accepted (notify_worker i p) = th_accepted p"
  "th_taken (notify_worker i p) = th_taken p"
  by (simp_all add: notify_worker_def Let_def)

lemma notify_worker_threads [simp]: "th_threads (notify_worker i p) = [] \<longleftrightarrow> th_threads p = []"
  by (simp add: notify_worker_def Let_def)

lemma notify_worker_inv: "th_inv p \<Longrightarrow> th_inv (notify_worker i p)"
  using notify_worker_counts [of p i] by (cases "waiting_workers p = 0") (auto simp: th_inv_def)

lemma notify_caller_fields [simp]:
  "th_running (notify_caller i p) = th_running p" "th_maxQueueSize (notify_caller i p) = th_maxQueueSize p"
  "th_queue (notify_caller i p) = th_queue p" "th_threads (notify_caller i p) = th_threads p"
  "th_accepted (notify_caller i p) = th_accepted p" "th_taken (notify_caller i p) = th_taken p"
  "th_callers p \<noteq> [] \<Longrightarrow> length (th_callers_woken (notify_caller i p)) = Suc (length (th_callers_woken p))"
  "th_callers p = [] \<Longrightarrow> notify_caller i p = p"
  by (simp_all add: notify_caller_def Let_def)

lemma notify_caller_inv: "th_inv p \<Longrightarrow> th_inv (notify_caller i p)"
  by (cases "th_callers p = []") (auto simp: th_inv_def waiting_workers_def woken_workers_def)

lemma th_run_inv:
  assumes "th_accepted p = th_taken p @ th_queue p" "th_maxQueueSize p > 0 \<longrightarrow> length (th_queue p) \<le> th_maxQueueSize p"
    and w: "waiting_workers p > 0 \<longrightarrow> th_running p \<and> length (th_queue p) \<le> woken_workers p"
    and c: "th_callers p \<noteq> [] \<longrightarrow> th_threads p \<noteq> [] \<and> th_running p \<and> th_maxQueueSize p > 0
          \<and> th_maxQueueSize p - length (th_queue p) \<le> Suc (length (th_callers_woken p))"
  shows "\<exists>p'. th_run i task p = Inr p' \<and> th_inv p'"
proof (cases "th_threads p = []"; cases "th_running p \<and> \<not> th_isFull p")
  assume True: "th_threads p \<noteq> []" "th_running p \<and> \<not> th_isFull p"
  let ?p = "p\<lparr>th_queue := th_queue p @ [task], th_accepted := th_accepted p @ [task]\<rparr>"
  have same: "waiting_workers ?p = waiting_workers p" "woken_workers ?p = woken_workers p"
    by (simp_all add: waiting_workers_def woken_workers_def)
  have "th_inv (notify_worker i ?p)"
    using True assms same notify_worker_counts [of ?p i]
    by (cases "waiting_workers p = 0") (auto simp: th_inv_def th_isFull_def)
  with True show ?thesis by (simp add: th_run_def)
qed (use assms in \<open>auto simp: th_run_def th_inv_def th_isFull_def waiting_workers_def woken_workers_def\<close>)

lemma th_take_inv:
  assumes "th_inv p" and k: "k < length (th_threads p)" "th_threads p ! k \<in> {At_Take, Woken}"
  shows "th_inv (th_take i k p)"
proof -
  have count: "waiting_workers (p\<lparr>th_threads := (th_threads p)[k := w]\<rparr>)
        = waiting_workers p + (if w = In_Wait then 1 else 0)"
      "woken_workers p \<le> woken_workers (p\<lparr>th_threads := (th_threads p)[k := w]\<rparr>) + 1" for w
    using count_update [OF k(1), of "\<lambda>w. w = In_Wait" w] count_update [OF k(1), of "\<lambda>w. w = Woken" w] k(2)
    by (auto simp: waiting_workers_def woken_workers_def)
  show ?thesis
  proof (cases "th_queue p")
    case Nil
    with assms(1) count show ?thesis
      by (cases "th_running p") (auto simp: th_take_def th_inv_def waiting_workers_def woken_workers_def)
  next
    case (Cons task rest)
    let ?p = "p\<lparr>th_queue := rest, th_taken := th_taken p @ [task], th_threads := (th_threads p)[k := At_Task task]\<rparr>"
    have "waiting_workers ?p = waiting_workers p" "woken_workers p \<le> woken_workers ?p + 1"
      using count [of "At_Task task"] by (simp_all add: waiting_workers_def woken_workers_def)
    then have "th_inv (if th_maxQueueSize p > 0 then notify_caller i ?p else ?p)"
      using assms(1) Cons
      by (cases "th_callers p = []") (auto simp: th_inv_def waiting_workers_def woken_workers_def)
    with Cons show ?thesis by (simp add: th_take_def Let_def)
  qed
qed

lemma th_move_inv:
  assumes "th_inv p" and k: "k < length (th_threads p)" "th_threads p ! k \<notin> {In_Wait, Woken}" and "w \<notin> {In_Wait, Woken}"
  shows "th_inv (p\<lparr>th_threads := (th_threads p)[k := w]\<rparr>)"
  using assms count_update [OF k(1), of "\<lambda>w. w = In_Wait" w] count_update [OF k(1), of "\<lambda>w. w = Woken" w]
  by (auto simp: th_inv_def waiting_workers_def woken_workers_def)

lemma th_stop_inv: "th_inv p \<Longrightarrow> th_inv (th_stop p)" for p :: "'t ThreadPool"
proof -
  have "wake w \<noteq> In_Wait" for w :: "'t worker" by (simp add: wake_def split: worker.split)
  then have "waiting_workers (th_stop p) = 0" by (auto simp: waiting_workers_def th_stop_def filter_empty_conv)
  then show "th_inv p \<Longrightarrow> th_inv (th_stop p)" by (auto simp: th_inv_def th_stop_def)
qed

lemma th_step_inv: "th_step p p' \<Longrightarrow> th_inv p \<Longrightarrow> th_inv p'"
proof (induction rule: th_step.induct)
  case (run i task p p')
  with th_run_inv [of p i task] show ?case by (auto simp: th_inv_def)
next
  case (run_again p xs task ys i p')
  then show ?case using th_run_inv [of "p\<lparr>th_callers_woken := xs @ ys\<rparr>" i task]
    by (auto simp: th_inv_def waiting_workers_def woken_workers_def)
next
  case (check k p)
  then show ?case by (auto simp: th_check_def intro!: th_move_inv)
next
  case (finished k p task)
  then show ?case by (auto simp: th_task_done_def intro!: th_move_inv)
qed (simp_all add: th_take_inv th_stop_inv notify_worker_inv notify_caller_inv)

lemma th_run_total: "th_inv p \<Longrightarrow> \<exists>p'. th_run i task p = Inr p'"
  using th_run_inv [of p i task] by (auto simp: th_inv_def)

lemma th_reach_inv: "th_step\<^sup>*\<^sup>* p p' \<Longrightarrow> th_inv p \<Longrightarrow> th_inv p'"
  by (induction rule: rtranclp_induct) (auto intro: th_step_inv)

lemma th_start_inv:
  assumes "pool_start_threads n (ThreadPool_new maxSize) = Inr p"
  shows "th_inv p"
  using assms by (auto simp: pool_start_threads_def ThreadPool_new_def th_inv_def waiting_workers_def)

lemma th_stopped_step: "th_step p p' \<Longrightarrow> \<not> th_running p \<Longrightarrow> \<not> th_running p'"
  by (induction rule: th_step.induct)
    (auto simp: th_run_def th_check_def th_take_def th_task_done_def th_stop_def Let_def split: if_splits)

lemma th_stopped: "th_step\<^sup>*\<^sup>* p p' \<Longrightarrow> \<not> th_running p \<Longrightarrow> \<not> th_running p'"
  by (induction rule: rtranclp_induct) (auto dest: th_stopped_step)

text \<open>
  C32. A thread pool under any number of callers: the tasks it accepts are taken once each, in
  order; the queue keeps its bound; while a task is queued no thread of the pool waits unless
  another was woken for it, and while there is room no caller waits unless another was woken;
  and once the pool was stopped neither a thread nor a caller waits, so the joins return.
\<close>

theorem thread_pool_correct:
  assumes "pool_start_threads n (ThreadPool_new maxSize) = Inr p0" and "th_step\<^sup>*\<^sup>* p0 p"
  shows "th_accepted p = th_taken p @ th_queue p
    \<and> (th_maxQueueSize p > 0 \<longrightarrow> length (th_queue p) \<le> th_maxQueueSize p)
    \<and> (th_queue p \<noteq> [] \<and> In_Wait \<in> set (th_threads p) \<longrightarrow> Woken \<in> set (th_threads p))
    \<and> (\<not> th_isFull p \<and> th_callers p \<noteq> [] \<longrightarrow> th_callers_woken p \<noteq> [])
    \<and> (\<not> th_running p \<longrightarrow> In_Wait \<notin> set (th_threads p) \<and> th_callers p = [])"
proof -
  have inv: "th_inv p" using th_reach_inv [OF assms(2) th_start_inv [OF assms(1)]] .
  have wait: "In_Wait \<in> set (th_threads p) \<longleftrightarrow> waiting_workers p > 0" by (auto simp: waiting_workers_def filter_empty_conv)
  have "Woken \<in> set (th_threads p) \<longleftrightarrow> woken_workers p > 0" by (auto simp: woken_workers_def filter_empty_conv)
  with inv wait show ?thesis by (cases "th_queue p") (auto simp: th_inv_def th_isFull_def)
qed

definition demo_pool :: "nat ThreadPool" where
  \<comment> \<open>one thread waits for a task, is woken for the task 7, takes it, and the pool is stopped meanwhile\<close>
  "demo_pool = th_stop (th_take 0 0 (notify_worker 0
     ((th_take 0 0 (th_check 0 ((ThreadPool_new 0)\<lparr>th_running := True, th_threads := [At_Check]\<rparr>)))\<lparr>th_queue := [7], th_accepted := [7]\<rparr>)))"

theorem thread_pool_correct_witness:
  "th_taken demo_pool = [7] \<and> th_accepted demo_pool = th_taken demo_pool @ th_queue demo_pool
   \<and> In_Wait \<notin> set (th_threads demo_pool) \<and> th_callers demo_pool = []"
proof -
  let ?p0 = "(ThreadPool_new 0)\<lparr>th_running := True, th_threads := [At_Check]\<rparr> :: nat ThreadPool"
  let ?p1 = "th_check 0 ?p0"
  let ?p2 = "th_take 0 0 ?p1"
  let ?p3 = "notify_worker 0 (?p2\<lparr>th_queue := [7], th_accepted := [7]\<rparr>)"
  have start: "pool_start_threads 1 (ThreadPool_new 0) = Inr ?p0" by (simp add: pool_start_threads_def ThreadPool_new_def)
  have s1: "th_step ?p0 ?p1" by (rule th_step.check) simp_all
  have s2: "th_step ?p1 ?p2" by (rule th_step.take) (simp_all add: th_check_def)
  have s3: "th_step ?p2 ?p3"
    by (rule th_step.run [of 0 7]) (simp add: th_run_def th_take_def th_check_def ThreadPool_new_def th_isFull_def)
  have s4: "th_step ?p3 (th_take 0 0 ?p3)"
    by (rule th_step.take) (simp_all add: th_take_def th_check_def ThreadPool_new_def notify_worker_def)
  have s5: "th_step (th_take 0 0 ?p3) demo_pool" unfolding demo_pool_def by (rule th_step.stop)
  have "th_step\<^sup>*\<^sup>* ?p0 demo_pool"
    using rtranclp_trans [OF r_into_rtranclp [of th_step, OF s1] r_into_rtranclp [of th_step, OF s2]]
      rtranclp_trans [OF r_into_rtranclp [of th_step, OF s3] r_into_rtranclp [of th_step, OF s4]] s5
    by (meson rtranclp.rtrancl_into_rtrancl rtranclp_trans)
  moreover have "\<not> th_running demo_pool" "th_taken demo_pool = [7]"
    by (simp_all add: demo_pool_def th_stop_def th_take_def th_check_def ThreadPool_new_def notify_worker_def)
  ultimately show ?thesis using thread_pool_correct [OF start] by blast
qed

end
