(* ===== verification/Base_Date.thy ===== *)
theory Base_Date
  imports "HOL-Library.Signed_Division" Server_Prelude
begin

text \<open>
  Calendar dates and time stamps of the base library: base/Date.h, base/Date.cc,
  base/Timestamp.cc. Division of integers truncates towards zero, as in C++.
\<close>

section \<open>Julian day numbers\<close>

definition getJulianDayNumber :: "int \<Rightarrow> int \<Rightarrow> int \<Rightarrow> int" where
  "getJulianDayNumber year month day =
     (let a = (14 - month) sdiv 12;
          y = year + 4800 - a;
          m = month + 12 * a - 3
      in day + (153 * m + 2) sdiv 5 + y * 365 + y sdiv 4 - y sdiv 100 + y sdiv 400 - 32045)"

record YearMonthDay =
  ymd_year :: int
  ymd_month :: int
  ymd_day :: int

definition getYearMonthDay :: "int \<Rightarrow> YearMonthDay" where
  "getYearMonthDay julianDayNumber =
     (let a = julianDayNumber + 32044;
          b = (4 * a + 3) sdiv 146097;
          c = a - (b * 146097) sdiv 4;
          d = (4 * c + 3) sdiv 1461;
          e = c - (1461 * d) sdiv 4;
          m = (5 * e + 2) sdiv 153
      in \<lparr>ymd_year = b * 100 + d - 4800 + m sdiv 10,
          ymd_month = m + 3 - 12 * (m sdiv 10),
          ymd_day = e - (153 * m + 2) sdiv 5 + 1\<rparr>)"

text \<open>
  The code computes in \<^verbatim>\<open>int\<close>. The largest intermediate value of the conversion is \<open>4 * a + 3\<close>, so up to
  the day number 536838866, far beyond the year one million, nothing overflows.
\<close>

lemma getYearMonthDay_fits:
  fixes j a b c d :: int
  assumes "0 \<le> j" "j \<le> 536838866" and "a = j + 32044" and "b = (4 * a + 3) div 146097"
    and "c = a - (b * 146097) div 4" and "d = (4 * c + 3) div 1461"
  shows "4 * a + 3 < 2 ^ 31" "0 \<le> b * 146097" "b * 146097 < 2 ^ 31" "0 \<le> c" "4 * c + 3 \<le> 4 * a + 3" "1461 * d \<le> 4 * c + 3"
proof -
  have b: "b * 146097 \<le> 4 * a + 3" "0 \<le> b" using assms(1,3,4) by simp_all
  show "4 * a + 3 < 2 ^ 31" using assms(2,3) by simp
  then show "0 \<le> b * 146097" "b * 146097 < 2 ^ 31" "0 \<le> c" using b assms(1,3,5) by simp_all
  show "4 * c + 3 \<le> 4 * a + 3" "1461 * d \<le> 4 * c + 3" using b(2) assms(5,6) by simp_all
qed

definition kJulianDayOf1970_01_01 :: int where
  "kJulianDayOf1970_01_01 = getJulianDayNumber 1970 1 1"

definition kDaysPerWeek :: int where "kDaysPerWeek = 7"

definition weekDay :: "int \<Rightarrow> int" where
  "weekDay julianDayNumber = (julianDayNumber + 1) smod kDaysPerWeek"

definition date_valid :: "int \<Rightarrow> bool" where "date_valid julianDayNumber \<longleftrightarrow> julianDayNumber > 0"

definition pad_left :: "nat \<Rightarrow> char \<Rightarrow> string \<Rightarrow> string" where
  "pad_left n c s = replicate (n - length s) c @ s"

definition toIsoString :: "int \<Rightarrow> string" where
  \<comment> \<open>\<^verbatim>\<open>%4d-%02d-%02d\<close> into 32 bytes\<close>
  "toIsoString julianDayNumber =
     (let ymd = getYearMonthDay julianDayNumber
      in take 31 (pad_left 4 CHR '' '' (to_string_int (ymd_year ymd)) @ ''-''
           @ pad_left 2 CHR ''0'' (to_string_int (ymd_month ymd)) @ ''-''
           @ pad_left 2 CHR ''0'' (to_string_int (ymd_day ymd))))"

section \<open>The Gregorian calendar\<close>

definition leap_year :: "int \<Rightarrow> bool" where
  "leap_year y \<longleftrightarrow> y mod 4 = 0 \<and> (y mod 100 \<noteq> 0 \<or> y mod 400 = 0)"

definition month_days :: "int \<Rightarrow> int \<Rightarrow> int" where
  "month_days y m = (if m = 2 then if leap_year y then 29 else 28 else if m \<in> {4, 6, 9, 11} then 30 else 31)"

definition calendar_date :: "int \<Rightarrow> int \<Rightarrow> int \<Rightarrow> bool" where
  \<comment> \<open>from March of the year -4800, where the counting of the algorithm starts\<close>
  "calendar_date y m d \<longleftrightarrow> 1 \<le> m \<and> m \<le> 12 \<and> 1 \<le> d \<and> d \<le> month_days y m \<and> (-4800 < y \<or> y = -4800 \<and> 3 \<le> m)"

fun next_date :: "int \<times> int \<times> int \<Rightarrow> int \<times> int \<times> int" where
  "next_date (y, m, d) =
     (if d < month_days y m then (y, m, d + 1) else if m < 12 then (y, m + 1, 1) else (y + 1, 1, 1))"

lemma sdiv_nonneg: "0 \<le> a \<Longrightarrow> 0 < b \<Longrightarrow> a sdiv b = a div b" for a b :: int
  by (cases "a = 0") (simp_all add: signed_divide_int_def)

text \<open>A date counted from the first of March: years, months and days of a year that ends in February.\<close>

definition march_year :: "int \<Rightarrow> int \<Rightarrow> int" where
  "march_year y m = y + 4800 - (if m \<le> 2 then 1 else 0)"

definition march_month :: "int \<Rightarrow> int" where
  "march_month m = (if m \<le> 2 then m + 9 else m - 3)"

definition days_before :: "int \<Rightarrow> int" where
  \<comment> \<open>the month\<close>
  "days_before m' = (153 * m' + 2) div 5"

definition days_of_years :: "int \<Rightarrow> int" where
  "days_of_years y' = 365 * y' + y' div 4 - y' div 100 + y' div 400"

lemma julian_march:
  assumes "calendar_date y m d"
  shows "getJulianDayNumber y m d = days_of_years (march_year y m) + days_before (march_month m) + d - 32045"
proof -
  have m: "1 \<le> m" "m \<le> 12" using assms by (simp_all add: calendar_date_def)
  have a: "(14 - m) sdiv 12 = (if m \<le> 2 then 1 else 0)" using m by (auto simp: sdiv_nonneg)
  have y: "0 \<le> march_year y m" "0 \<le> march_month m" using assms m by (auto simp: calendar_date_def march_year_def march_month_def)
  have "m + 12 * (if m \<le> 2 then 1 else 0) - 3 = march_month m" by (simp add: march_month_def)
  moreover have "y + 4800 - (if m \<le> 2 then 1 else 0) = march_year y m" by (simp add: march_year_def)
  ultimately show ?thesis
    using y unfolding getJulianDayNumber_def Let_def a
    by (simp add: sdiv_nonneg days_of_years_def days_before_def del: if_split)
qed

lemma century_part:
  fixes B c :: int
  assumes "0 \<le> c" and "c \<le> 36523 \<or> c = 36524 \<and> B mod 4 = 3"
  shows "(4 * (36524 * B + B div 4 + c) + 3) div 146097 = B"
proof -
  define k r where "k = B div 4" and "r = B mod 4"
  then have B: "B = 4 * k + r" "0 \<le> r" "r \<le> 3" by auto
  then have "0 \<le> 4 * c + 3 - r" "4 * c + 3 - r < 146097" using assms by (auto simp: r_def)
  moreover have "4 * (36524 * B + k + c) + 3 = 146097 * B + (4 * c + 3 - r)" by (simp add: B(1) algebra_simps)
  ultimately show ?thesis unfolding k_def by (simp add: add.commute)
qed

lemma year_part:
  fixes D e :: int
  assumes "0 \<le> e" and "e \<le> 364 \<or> e = 365 \<and> D mod 4 = 3"
  shows "(4 * (365 * D + D div 4 + e) + 3) div 1461 = D"
proof -
  define k r where "k = D div 4" and "r = D mod 4"
  then have D: "D = 4 * k + r" "0 \<le> r" "r \<le> 3" by auto
  then have "0 \<le> 4 * e + 3 - r" "4 * e + 3 - r < 1461" using assms by (auto simp: r_def)
  moreover have "4 * (365 * D + k + e) + 3 = 1461 * D + (4 * e + 3 - r)" by (simp add: D(1) algebra_simps)
  ultimately show ?thesis unfolding k_def by (simp add: add.commute)
qed

lemma month_part:
  assumes "1 \<le> m" "m \<le> 12" "1 \<le> d" "d \<le> month_days y m"
  shows "(5 * (days_before (march_month m) + d - 1) + 2) div 153 = march_month m"
    and "0 \<le> days_before (march_month m) + d - 1"
    and "days_before (march_month m) + d - 1 \<le> (if leap_year y \<and> m = 2 then 365 else 364)"
proof -
  have "m \<in> {1, 2, 3, 4, 5, 6, 7, 8, 9, 10, 11, 12}" using assms(1,2) by simp presburger
  then have "(5 * (days_before (march_month m) + d - 1) + 2) div 153 = march_month m
    \<and> 0 \<le> days_before (march_month m) + d - 1
    \<and> days_before (march_month m) + d - 1 \<le> (if leap_year y \<and> m = 2 then 365 else 364)"
    using assms(3,4)
    by (elim insertE emptyE; simp add: month_days_def march_month_def days_before_def split: if_splits; presburger)
  then show "(5 * (days_before (march_month m) + d - 1) + 2) div 153 = march_month m"
    and "0 \<le> days_before (march_month m) + d - 1"
    and "days_before (march_month m) + d - 1 \<le> (if leap_year y \<and> m = 2 then 365 else 364)"
    by blast+
qed

lemma leap_march:
  assumes "leap_year y" and "y' = y + 4799"
  shows "y' mod 4 = 3" and "y' mod 100 = 99 \<Longrightarrow> (y' div 100) mod 4 = 3"
proof -
  have "y mod 4 = 0" using assms(1) by (simp add: leap_year_def)
  then show "y' mod 4 = 3" using assms(2) by presburger
  assume h: "y' mod 100 = 99"
  define k where "k = y' div 100"
  have y: "y = 100 * (k - 47)" using assms(2) h k_def div_mult_mod_eq [of y' 100] by simp
  then have "y mod 400 = 0" using assms(1) by (simp add: leap_year_def)
  then have "(100 * (k - 47)) mod (100 * 4) = 0" using y by simp
  then have "(k - 47) mod 4 = 0" unfolding mod_mult_mult1 by simp
  then show "(y' div 100) mod 4 = 3" unfolding k_def [symmetric] by presburger
qed

lemma ymd_of_julian:
  assumes "calendar_date y m d"
  shows "getYearMonthDay (getJulianDayNumber y m d) = \<lparr>ymd_year = y, ymd_month = m, ymd_day = d\<rparr>"
proof -
  have m: "1 \<le> m" "m \<le> 12" "1 \<le> d" "d \<le> month_days y m" using assms by (simp_all add: calendar_date_def)
  define y' where "y' = march_year y m"
  define B where "B = y' div 100"
  define D where "D = y' mod 100"
  define e where "e = days_before (march_month m) + d - 1"
  define c where "c = 365 * D + D div 4 + e"
  note mp = month_part [OF m, folded e_def]
  have y': "0 \<le> y'" using assms by (auto simp: calendar_date_def march_year_def y'_def)
  have BD: "y' = 100 * B + D" "0 \<le> D" "D \<le> 99" "0 \<le> B" using y' by (auto simp: B_def D_def)
  have long: "e \<le> 364 \<or> e = 365 \<and> y' mod 4 = 3 \<and> (D = 99 \<longrightarrow> B mod 4 = 3)"
  proof (cases "leap_year y \<and> m = 2")
    case True
    then have "y' = y + 4799" by (simp add: y'_def march_year_def)
    with True leap_march [of y y'] mp(3) show ?thesis by (auto simp: B_def D_def)
  qed (use mp(3) in auto)
  have "y' = D + 4 * (25 * B)" using BD(1) by simp
  then have D4: "D mod 4 = y' mod 4" by (simp only: mod_mult_self2)
  have c: "0 \<le> c" "c \<le> 36523 \<or> c = 36524 \<and> B mod 4 = 3"
  proof -
    show "0 \<le> c" using BD mp(2) by (simp add: c_def)
    have D24: "D div 4 \<le> 24" using zdiv_mono1 [OF BD(3), of 4] by simp
    then have "365 * D + D div 4 \<le> 36159" using BD(3) by simp
    moreover have "365 * D + D div 4 \<le> 35794" if "D \<noteq> 99" using D24 BD(3) that by simp
    ultimately show "c \<le> 36523 \<or> c = 36524 \<and> B mod 4 = 3" using long by (cases "D = 99") (auto simp: c_def)
  qed
  have years: "days_of_years y' = 36524 * B + B div 4 + (365 * D + D div 4)"
  proof -
    have "y' = D + 4 * (25 * B)" using BD(1) by simp
    then have "y' div 4 = 25 * B + D div 4" by (simp only: div_mult_self2)
    moreover have "y' div 400 = B div 4" using zdiv_zmult2_eq [of 4 y' 100] by (simp add: B_def)
    ultimately show ?thesis using BD(1) unfolding days_of_years_def B_def [symmetric] by simp
  qed
  have a: "getJulianDayNumber y m d + 32044 = 36524 * B + B div 4 + c"
    using julian_march [OF assms] years by (simp add: c_def e_def y'_def)
  have b: "(4 * (36524 * B + B div 4 + c) + 3) sdiv 146097 = B"
    using century_part [OF c] BD(4) c(1) by (simp add: sdiv_nonneg)
  have cb: "36524 * B + B div 4 + c - (B * 146097) sdiv 4 = c"
  proof -
    have "B * 146097 = B + 4 * (36524 * B)" by simp
    then have "(B * 146097) div 4 = 36524 * B + B div 4" by (simp only: div_mult_self2)
    then show ?thesis using BD(4) by (simp add: sdiv_nonneg)
  qed
  have "e \<le> 364 \<or> e = 365 \<and> D mod 4 = 3" using long D4 by auto
  then have dd: "(4 * c + 3) sdiv 1461 = D" using year_part [OF mp(2)] c(1) by (simp add: sdiv_nonneg c_def)
  have ee: "c - (1461 * D) sdiv 4 = e"
  proof -
    have "1461 * D = D + 4 * (365 * D)" by simp
    then have "(1461 * D) div 4 = 365 * D + D div 4" by (simp only: div_mult_self2)
    then show ?thesis using BD(2) by (simp add: sdiv_nonneg c_def)
  qed
  have mm: "(5 * e + 2) sdiv 153 = march_month m" using mp(1,2) by (simp add: sdiv_nonneg)
  have md: "0 \<le> march_month m" "march_month m sdiv 10 = (if m \<le> 2 then 1 else 0)"
    using m(1,2) by (auto simp: march_month_def sdiv_nonneg)
  have last: "e - (153 * march_month m + 2) sdiv 5 + 1 = d" using md(1) by (simp add: sdiv_nonneg e_def days_before_def)
  have "B * 100 + D - 4800 + (if m \<le> 2 then 1 else 0) = y" using BD(1) by (simp add: y'_def march_year_def)
  moreover have "march_month m + 3 - 12 * (if m \<le> 2 then 1 else 0) = m" by (simp add: march_month_def)
  ultimately show ?thesis
    unfolding getYearMonthDay_def Let_def a b cb dd ee mm md(2) last by simp
qed

lemma div_step: "(x + 1) div k = x div k + (if (x + 1) mod k = 0 then 1 else 0)" if "0 < k" for x k :: int
proof (cases "x mod k = k - 1")
  case True
  then have "x + 1 = k * (x div k) + k" using mult_div_mod_eq [of k x] by linarith
  then have "x + 1 = k * (x div k + 1)" by (simp only: distrib_left mult_1_right)
  then show ?thesis using that by simp
next
  case False
  then have "x mod k + 1 < k" "0 \<le> x mod k + 1" using that pos_mod_bound [of k x] pos_mod_sign [of k x] by linarith+
  moreover have "x + 1 = k * (x div k) + (x mod k + 1)" by simp
  ultimately have "(x + 1) div k = x div k" "(x + 1) mod k = x mod k + 1"
    by (metis int_div_pos_eq, metis int_mod_pos_eq)
  then show ?thesis using pos_mod_sign [OF that, of x] by simp
qed

lemma leap_shift: "leap_year (y + 4800) = leap_year y"
proof -
  have "y + 4800 = y + 4 * 1200" "y + 4800 = y + 100 * 48" "y + 4800 = y + 400 * 12" by simp_all
  then have "(y + 4800) mod 4 = y mod 4" "(y + 4800) mod 100 = y mod 100" "(y + 4800) mod 400 = y mod 400"
    by (metis mod_mult_self2)+
  then show ?thesis by (simp add: leap_year_def)
qed

lemma days_of_years_step:
  "days_of_years (y' + 1) = days_of_years y' + 365 + (if leap_year (y' + 1 - 4800) then 1 else 0)"
proof -
  have m: "z mod 400 = 0 \<Longrightarrow> z mod 100 = 0" "z mod 100 = 0 \<Longrightarrow> z mod 4 = 0" for z :: int
    by (auto simp: mod_eq_0_iff_dvd intro: dvd_trans [of _ 400] dvd_trans [of _ 100])
  have leap: "leap_year (y' + 1 - 4800) \<longleftrightarrow> (y' + 1) mod 4 = 0 \<and> ((y' + 1) mod 100 \<noteq> 0 \<or> (y' + 1) mod 400 = 0)"
    using leap_shift [of "y' + 1 - 4800"] leap_year_def [of "y' + 1"] by (simp only: diff_add_cancel)
  show ?thesis
    unfolding days_of_years_def div_step [of 4 y', simplified] div_step [of 100 y', simplified]
      div_step [of 400 y', simplified] leap
    using m [of "y' + 1"] by (cases "(y' + 1) mod 4 = 0"; cases "(y' + 1) mod 100 = 0"; cases "(y' + 1) mod 400 = 0"; simp)
qed

lemma julian_next:
  assumes "calendar_date y m d" and "next_date (y, m, d) = (y1, m1, d1)"
  shows "calendar_date y1 m1 d1 \<and> getJulianDayNumber y1 m1 d1 = getJulianDayNumber y m d + 1"
proof -
  have m: "1 \<le> m" "m \<le> 12" "1 \<le> d" "d \<le> month_days y m" using assms(1) by (simp_all add: calendar_date_def)
  have cal: "calendar_date y1 m1 d1"
    using assms by (auto simp: calendar_date_def month_days_def split: if_splits)
  moreover have "days_of_years (march_year y1 m1) + days_before (march_month m1) + d1
      = days_of_years (march_year y m) + days_before (march_month m) + d + 1"
  proof (cases "d < month_days y m")
    case True
    with assms(2) show ?thesis by auto
  next
    case False
    then have d: "d = month_days y m" using m(4) by simp
    have "m \<in> {1, 2, 3, 4, 5, 6, 7, 8, 9, 10, 11, 12}" using m(1,2) by simp presburger
    then show ?thesis
      using assms(2) d days_of_years_step [of "y + 4799"]
      by (elim insertE emptyE; auto simp: march_year_def march_month_def days_before_def month_days_def
          algebra_simps split: if_splits)
  qed
  ultimately show ?thesis using julian_march [OF cal] julian_march [OF assms(1)] by simp
qed

lemma julian_lower: "calendar_date y m d \<Longrightarrow> - 32044 \<le> getJulianDayNumber y m d"
proof -
  assume c: "calendar_date y m d"
  then have "0 \<le> march_year y m" "0 \<le> march_month m" "1 \<le> d" by (auto simp: calendar_date_def march_year_def march_month_def)
  moreover have "0 \<le> days_of_years y'" if "0 \<le> y'" for y'
  proof -
    have "y' div 100 \<le> y'" using zdiv_mono2 [of y' 1 100] that by simp
    with that show ?thesis by (simp add: days_of_years_def)
  qed
  ultimately have "0 \<le> days_of_years (march_year y m)" "0 \<le> days_before (march_month m)" "1 \<le> d" by (simp_all add: days_before_def)
  with julian_march [OF c] show ?thesis by simp
qed

lemma dates_reach:
  "\<exists>y m d. calendar_date y m d \<and> getJulianDayNumber y m d = int n - 32044"
proof (induction n)
  case 0
  have "calendar_date (-4800) 3 1" by (simp add: calendar_date_def month_days_def)
  moreover from julian_march [OF this] have "getJulianDayNumber (-4800) 3 1 = - 32044"
    by (simp add: march_year_def march_month_def days_of_years_def days_before_def)
  ultimately show ?case by fastforce
next
  case (Suc n)
  then obtain y m d where c: "calendar_date y m d" "getJulianDayNumber y m d = int n - 32044" by blast
  obtain y1 m1 d1 where "next_date (y, m, d) = (y1, m1, d1)" by (cases "next_date (y, m, d)")
  from julian_next [OF c(1) this] c(2) show ?case by force
qed

text \<open>
  Dates and day numbers correspond one to one: every date of the Gregorian calendar from March
  of the year -4800 is recovered from its day number, every day number from there on is that of
  the date it is converted to, and the next day has the next number.
\<close>

theorem date_roundtrip:
  "(calendar_date y m d \<longrightarrow> getYearMonthDay (getJulianDayNumber y m d) = \<lparr>ymd_year = y, ymd_month = m, ymd_day = d\<rparr>
      \<and> (case next_date (y, m, d) of (y1, m1, d1) \<Rightarrow> getJulianDayNumber y1 m1 d1 = getJulianDayNumber y m d + 1))
   \<and> (-32044 \<le> j \<longrightarrow> (let ymd = getYearMonthDay j
        in calendar_date (ymd_year ymd) (ymd_month ymd) (ymd_day ymd)
           \<and> getJulianDayNumber (ymd_year ymd) (ymd_month ymd) (ymd_day ymd) = j))"
proof (intro conjI impI)
  assume "calendar_date y m d"
  then show "getYearMonthDay (getJulianDayNumber y m d) = \<lparr>ymd_year = y, ymd_month = m, ymd_day = d\<rparr>"
    by (rule ymd_of_julian)
  show "case next_date (y, m, d) of (y1, m1, d1) \<Rightarrow> getJulianDayNumber y1 m1 d1 = getJulianDayNumber y m d + 1"
    using julian_next [OF \<open>calendar_date y m d\<close>] by (auto split: prod.split simp del: next_date.simps)
next
  assume "-32044 \<le> j"
  then obtain y m d where c: "calendar_date y m d" "getJulianDayNumber y m d = j"
    using dates_reach [of "nat (j + 32044)"] by auto
  from ymd_of_julian [OF c(1)] c show "let ymd = getYearMonthDay j
        in calendar_date (ymd_year ymd) (ymd_month ymd) (ymd_day ymd)
           \<and> getJulianDayNumber (ymd_year ymd) (ymd_month ymd) (ymd_day ymd) = j" by simp
qed

theorem date_roundtrip_witness:
  "getYearMonthDay (getJulianDayNumber 2000 2 29) = \<lparr>ymd_year = 2000, ymd_month = 2, ymd_day = 29\<rparr>
   \<and> getJulianDayNumber 2000 3 1 = getJulianDayNumber 2000 2 29 + 1"
  using date_roundtrip [of 2000 2 29] by (simp add: calendar_date_def month_days_def leap_year_def)

section \<open>Time stamps as text\<close>

definition timestamp_toString :: "int \<Rightarrow> string" where
  \<comment> \<open>\<^verbatim>\<open>%ld.%06ld\<close> of the seconds and the microseconds, into 32 bytes\<close>
  "timestamp_toString us = take 31 (to_string_int (us sdiv 1000000) @ ''.'' @ pad_left 6 CHR ''0'' (to_string_int (us smod 1000000)))"

end
