(* ===== verification/Base_TimeZone.thy ===== *)
theory Base_TimeZone
  imports Base_Date
begin

text \<open>
  Time zones (base/TimeZone.h, base/TimeZone.cc): the reader of zone files in the format of
  RFC 8536, the search for the offset that is in force at a time, given in UTC or as local time,
  and the conversion between seconds and calendar times. A zone that could not be loaded has no data.
\<close>

section \<open>Data\<close>

record Transition =
  tr_utctime :: int
  tr_localtime :: int
  tr_localtimeIdx :: nat

record LocalTime =
  lt_utcOffset :: int
  lt_isDst :: bool
  lt_desigIdx :: nat

record tz_data =
  transitions :: "Transition list"
  localtimes :: "LocalTime list"
  abbreviation_str :: "byte list"
  tzstring :: "byte list"

record DateTime =
  dt_year :: int
  dt_month :: int
  dt_day :: int
  dt_hour :: int
  dt_minute :: int
  dt_second :: int

definition int64 :: "int \<Rightarrow> int res" where
  \<comment> \<open>the result of an addition in \<^verbatim>\<open>int64_t\<close>\<close>
  "int64 x = (if - (2 ^ 63) \<le> x \<and> x < 2 ^ 63 then Inr x else Inl Int_Overflow)"

definition tz_data_new :: tz_data where
  "tz_data_new = \<lparr>transitions = [], localtimes = [], abbreviation_str = [], tzstring = []\<rparr>"

definition addLocalTime :: "int \<Rightarrow> bool \<Rightarrow> nat \<Rightarrow> tz_data \<Rightarrow> tz_data" where
  "addLocalTime utcOffset isDst desigIdx d =
     d\<lparr>localtimes := localtimes d @ [\<lparr>lt_utcOffset = utcOffset, lt_isDst = isDst, lt_desigIdx = desigIdx\<rparr>]\<rparr>"

definition TimeZone_fixed :: "int \<Rightarrow> byte list \<Rightarrow> tz_data" where
  \<comment> \<open>\<^verbatim>\<open>TimeZone(eastOfUtc, name)\<close>\<close>
  "TimeZone_fixed eastOfUtc name = (addLocalTime eastOfUtc False 0 tz_data_new)\<lparr>abbreviation_str := name\<rparr>"

definition TimeZone_UTC :: tz_data where
  "TimeZone_UTC = TimeZone_fixed 0 (string_bytes ''UTC'')"

section \<open>Zone files\<close>

text \<open>
  A file is its content and a position. Reading ends with a value, with an exception derived from
  \<^verbatim>\<open>std::logic_error\<close>, which the code catches, or with a fault. Memory and stack are taken as unlimited;
  a negative size of the buffer of \<^verbatim>\<open>readBytes\<close> is undefined behaviour, a negative \<^verbatim>\<open>reserve\<close> throws.
\<close>

datatype tz_error = Thrown string | Fault fault

record tz_file =
  tf_content :: "byte list"
  tf_pos :: nat

type_synonym 'a reading = "tz_file \<Rightarrow> tz_error + 'a \<times> tz_file"

definition fbind :: "'a reading \<Rightarrow> ('a \<Rightarrow> 'b reading) \<Rightarrow> 'b reading" where
  "fbind m f = (\<lambda>file. rbind (m file) (\<lambda>(a, file'). f a file'))"

definition fret :: "'a \<Rightarrow> 'a reading" where
  "fret a = (\<lambda>file. Inr (a, file))"

definition fthrow :: "string \<Rightarrow> 'a reading" where
  "fthrow msg = (\<lambda>file. Inl (Thrown msg))"

definition fread :: "nat \<Rightarrow> tz_file \<Rightarrow> byte list \<times> tz_file" where
  "fread n f = (let bs = take n (drop (tf_pos f) (tf_content f)) in (bs, f\<lparr>tf_pos := tf_pos f + length bs\<rparr>))"

definition read_exactly :: "nat \<Rightarrow> string \<Rightarrow> byte list reading" where
  "read_exactly n msg = (\<lambda>f. let (bs, f') = fread n f in if length bs \<noteq> n then Inl (Thrown msg) else Inr (bs, f'))"

definition readBytes :: "int \<Rightarrow> byte list reading" where
  "readBytes n = (if n < 0 then (\<lambda>_. Inl (Fault Out_Of_Range)) else read_exactly (nat n) ''no enough data'')"

definition readToEnd :: "byte list reading" where
  "readToEnd = (\<lambda>f. Inr (fread (length (tf_content f)) f))"

definition file_readInt64 :: "int reading" where
  "file_readInt64 = fbind (read_exactly 8 ''bad int64_t data'') (\<lambda>bs. fret (sint (le_word (rev bs) :: 64 word)))"

definition file_readInt32 :: "int reading" where
  "file_readInt32 = fbind (read_exactly 4 ''bad int32_t data'') (\<lambda>bs. fret (sint (le_word (rev bs) :: 32 word)))"

definition readUInt8 :: "nat reading" where
  "readUInt8 = fbind (read_exactly 1 ''bad uint8_t data'') (\<lambda>bs. fret (unat (hd bs)))"

definition file_skip :: "int \<Rightarrow> unit reading" where
  \<comment> \<open>\<^verbatim>\<open>fseek\<close> fails on a position before the start and leaves the file as it is\<close>
  "file_skip n = (\<lambda>f. Inr ((), if int (tf_pos f) + n < 0 then f else f\<lparr>tf_pos := nat (int (tf_pos f) + n)\<rparr>))"

fun read_times :: "nat \<Rightarrow> 'a reading \<Rightarrow> 'a list reading" where
  \<comment> \<open>a loop of \<open>n\<close> reads\<close>
  "read_times 0 r = fret []"
| "read_times (Suc n) r = fbind r (\<lambda>x. fbind (read_times n r) (\<lambda>xs. fret (x # xs)))"

definition read_count :: "int \<Rightarrow> 'a reading \<Rightarrow> 'a list reading" where
  \<comment> \<open>\<^verbatim>\<open>reserve\<close> and the loop\<close>
  "read_count n r = (if n < 0 then fthrow ''vector::reserve'' else read_times (nat n) r)"

definition read_localtime :: "LocalTime reading" where
  "read_localtime =
     fbind file_readInt32 (\<lambda>gmtoff. fbind readUInt8 (\<lambda>isdst. fbind readUInt8 (\<lambda>abbrind.
     fret \<lparr>lt_utcOffset = gmtoff, lt_isDst = isdst \<noteq> 0, lt_desigIdx = abbrind\<rparr>)))"

definition addTransition :: "int \<Rightarrow> nat \<Rightarrow> LocalTime list \<Rightarrow> tz_error + Transition" where
  \<comment> \<open>the transition that is added; \<^verbatim>\<open>at\<close> throws\<close>
  "addTransition utcTime i lts =
     (if i < length lts then
        (case int64 (utcTime + lt_utcOffset (lts ! i)) of
           Inl e \<Rightarrow> Inl (Fault e)
         | Inr l \<Rightarrow> Inr \<lparr>tr_utctime = utcTime, tr_localtime = l, tr_localtimeIdx = i\<rparr>)
      else Inl (Thrown ''vector::_M_range_check''))"

fun add_transitions :: "(int \<times> nat) list \<Rightarrow> LocalTime list \<Rightarrow> tz_error + Transition list" where
  "add_transitions [] lts = Inr []"
| "add_transitions ((t, i) # ts) lts =
     rbind (addTransition t i lts) (\<lambda>tr. rbind (add_transitions ts lts) (\<lambda>trs. Inr (tr # trs)))"

definition readDataBlock :: "bool \<Rightarrow> tz_data option reading" where
  \<comment> \<open>the data that is read, \<open>None\<close> for \<^verbatim>\<open>return false\<close>\<close>
  "readDataBlock v1 =
     fbind file_readInt32 (\<lambda>isutccnt. fbind file_readInt32 (\<lambda>isstdcnt. fbind file_readInt32 (\<lambda>leapcnt.
     fbind file_readInt32 (\<lambda>timecnt. fbind file_readInt32 (\<lambda>typecnt. fbind file_readInt32 (\<lambda>charcnt.
     if leapcnt \<noteq> 0 then fret None
     else if isutccnt \<noteq> 0 \<and> isutccnt \<noteq> typecnt then fret None
     else if isstdcnt \<noteq> 0 \<and> isstdcnt \<noteq> typecnt then fret None
     else
       fbind (read_count timecnt (if v1 then file_readInt32 else file_readInt64)) (\<lambda>trans.
       fbind (read_count timecnt readUInt8) (\<lambda>idx.
       fbind (read_count typecnt read_localtime) (\<lambda>lts.
       fbind (\<lambda>f. rbind (add_transitions (zip trans idx) lts) (\<lambda>trs. Inr (trs, f))) (\<lambda>trs.
       fbind (readBytes charcnt) (\<lambda>abbreviation.
       fbind (file_skip (leapcnt * ((if v1 then 4 else 8) + 4))) (\<lambda>_.
       fbind (file_skip isstdcnt) (\<lambda>_.
       fbind (file_skip isutccnt) (\<lambda>_.
       fbind (if v1 then fret [] else readToEnd) (\<lambda>tz.
       fret (Some \<lparr>transitions = trs, localtimes = lts, abbreviation_str = abbreviation, tzstring = tz\<rparr>))))))))))))))))"

definition int32 :: "int \<Rightarrow> int reading" where
  \<comment> \<open>the result of a multiplication in \<^verbatim>\<open>int\<close>\<close>
  "int32 x = (\<lambda>f. if - (2 ^ 31) \<le> x \<and> x < 2 ^ 31 then Inr (x, f) else Inl (Fault Int_Overflow))"

definition read_head :: "unit reading" where
  "read_head = fbind (readBytes 4) (\<lambda>head. if head \<noteq> string_bytes ''TZif'' then fthrow ''bad head'' else fret ())"

definition read_zone :: "tz_data option reading" where
  \<comment> \<open>the sizes are added as 64-bit numbers\<close>
  "read_zone =
     fbind read_head (\<lambda>_. fbind (readBytes 1) (\<lambda>version. fbind (readBytes 15) (\<lambda>_.
     fbind file_readInt32 (\<lambda>isgmtcnt. fbind file_readInt32 (\<lambda>isstdcnt. fbind file_readInt32 (\<lambda>leapcnt.
     fbind file_readInt32 (\<lambda>timecnt. fbind file_readInt32 (\<lambda>typecnt. fbind file_readInt32 (\<lambda>charcnt.
     if version = string_bytes ''2'' then
       fbind (int32 (6 * typecnt)) (\<lambda>types. fbind (int32 (8 * leapcnt)) (\<lambda>leaps.
       fbind (file_skip (4 * timecnt + timecnt + types + charcnt + leaps + isstdcnt + isgmtcnt)) (\<lambda>_.
       fbind read_head (\<lambda>_. fbind (file_skip 16) (\<lambda>_. readDataBlock False)))))
     else fbind (file_skip (- 4 * 6)) (\<lambda>_. readDataBlock True))))))))))"

definition readTimeZoneFile :: "byte list option \<Rightarrow> tz_data option res" where
  \<comment> \<open>of the content of the file, \<open>None\<close> when it cannot be opened; exceptions are caught\<close>
  "readTimeZoneFile file =
     (case file of
        None \<Rightarrow> Inr None
      | Some bs \<Rightarrow>
        (case read_zone \<lparr>tf_content = bs, tf_pos = 0\<rparr> of
           Inr (d, _) \<Rightarrow> Inr d
         | Inl (Thrown _) \<Rightarrow> Inr None
         | Inl (Fault e) \<Rightarrow> Inl e))"

definition loadZoneFile :: "byte list option \<Rightarrow> tz_data option res" where
  "loadZoneFile file = readTimeZoneFile file"

section \<open>Calendar times\<close>

definition kSecondsPerDay :: int where "kSecondsPerDay = 24 * 60 * 60"

definition fillHMS :: "int \<Rightarrow> DateTime \<Rightarrow> DateTime" where
  "fillHMS seconds dt =
     (let minutes = seconds div 60
      in dt\<lparr>dt_second := seconds mod 60, dt_minute := minutes mod 60, dt_hour := minutes div 60\<rparr>)"

definition DateTime_new :: DateTime where
  "DateTime_new = \<lparr>dt_year = 0, dt_month = 0, dt_day = 0, dt_hour = 0, dt_minute = 0, dt_second = 0\<rparr>"

definition BreakTime :: "int \<Rightarrow> DateTime" where
  \<comment> \<open>the number of days is cut to 32 bits\<close>
  "BreakTime t =
     (let seconds = t smod kSecondsPerDay;
          days = sint (word_of_int (t sdiv kSecondsPerDay) :: 32 word);
          (seconds, days) = (if seconds < 0 then (seconds + kSecondsPerDay, days - 1) else (seconds, days));
          dt = fillHMS seconds DateTime_new;
          ymd = getYearMonthDay (days + kJulianDayOf1970_01_01)
      in dt\<lparr>dt_year := ymd_year ymd, dt_month := ymd_month ymd, dt_day := ymd_day ymd\<rparr>)"

definition toUtcTime :: "int \<Rightarrow> DateTime" where
  "toUtcTime secondsSinceEpoch = BreakTime secondsSinceEpoch"

definition fromUtcTime :: "DateTime \<Rightarrow> int" where
  "fromUtcTime dt =
     (let secondsInDay = dt_hour dt * 3600 + dt_minute dt * 60 + dt_second dt;
          days = getJulianDayNumber (dt_year dt) (dt_month dt) (dt_day dt) - kJulianDayOf1970_01_01
      in days * kSecondsPerDay + secondsInDay)"

definition DateTime_toIsoString :: "DateTime \<Rightarrow> string" where
  \<comment> \<open>\<^verbatim>\<open>%04d-%02d-%02d %02d:%02d:%02d\<close> into 64 bytes, of fields that are not negative\<close>
  "DateTime_toIsoString dt =
     (let two = \<lambda>i. pad_left 2 CHR ''0'' (to_string_int i)
      in take 63 (pad_left 4 CHR ''0'' (to_string_int (dt_year dt)) @ ''-'' @ two (dt_month dt) @ ''-'' @ two (dt_day dt)
           @ '' '' @ two (dt_hour dt) @ '':'' @ two (dt_minute dt) @ '':'' @ two (dt_second dt)))"

section \<open>The offset in force\<close>

function upper_bound_loop :: "('a \<Rightarrow> bool) \<Rightarrow> 'a list \<Rightarrow> nat \<Rightarrow> nat \<Rightarrow> nat" where
  \<comment> \<open>\<^verbatim>\<open>std::upper_bound\<close>: a binary search for the first element above the value\<close>
  "upper_bound_loop gt xs first len =
     (if len = 0 then first
      else let half = len div 2; mid = first + half
           in if gt (xs ! mid) then upper_bound_loop gt xs first half
              else upper_bound_loop gt xs (mid + 1) (len - half - 1))"
  by pat_completeness auto
termination
  by (relation "measure (\<lambda>(_, _, _, len). len)") auto

declare upper_bound_loop.simps [simp del]

definition upper_bound :: "('a \<Rightarrow> bool) \<Rightarrow> 'a list \<Rightarrow> nat" where
  "upper_bound gt xs = upper_bound_loop gt xs 0 (length xs)"

definition first_localtime :: "tz_data \<Rightarrow> LocalTime res" where
  \<comment> \<open>\<^verbatim>\<open>localtimes.front()\<close>\<close>
  "first_localtime d = (case localtimes d of [] \<Rightarrow> Inl Out_Of_Range | lt # _ \<Rightarrow> Inr lt)"

definition localtime_at :: "tz_data \<Rightarrow> Transition \<Rightarrow> LocalTime res" where
  \<comment> \<open>\<^verbatim>\<open>localtimes[tr.localtimeIdx]\<close>\<close>
  "localtime_at d tr =
     (if tr_localtimeIdx tr < length (localtimes d) then Inr (localtimes d ! tr_localtimeIdx tr) else Inl Out_Of_Range)"

definition findLocalTime_utc :: "tz_data \<Rightarrow> int \<Rightarrow> LocalTime res" where
  "findLocalTime_utc d utcTime =
     (let ts = transitions d
      in if ts = [] \<or> utcTime < tr_utctime (hd ts) then first_localtime d
         else let i = upper_bound (\<lambda>tr. utcTime < tr_utctime tr) ts
              in if i = 0 then Inl Assert_Failed
                 else if i \<noteq> length ts then localtime_at d (ts ! (i - 1)) else localtime_at d (last ts))"

definition prior_second :: "tz_data \<Rightarrow> Transition \<Rightarrow> Transition \<Rightarrow> int res" where
  \<comment> \<open>the local time of the last second before the transition \<open>tr\<close>\<close>
  "prior_second d prior_trans tr =
     rbind (localtime_at d prior_trans) (\<lambda>lt. rbind (int64 (tr_utctime tr - 1)) (\<lambda>s. int64 (s + lt_utcOffset lt)))"

definition findLocalTime_local :: "tz_data \<Rightarrow> DateTime \<Rightarrow> bool \<Rightarrow> LocalTime res" where
  "findLocalTime_local d lt postTransition =
     (let localtime = fromUtcTime lt; ts = transitions d
      in if ts = [] \<or> localtime < tr_localtime (hd ts) then first_localtime d
         else let i = upper_bound (\<lambda>tr. localtime < tr_localtime tr) ts
              in if i = 0 then Inl Assert_Failed
                 else if i = length ts then localtime_at d (last ts)
                 else rbind (prior_second d (ts ! (i - 1)) (ts ! i)) (\<lambda>prior.
                   if prior < localtime then localtime_at d (if postTransition then ts ! i else ts ! (i - 1))
                   else rbind
                     (if i - 1 \<noteq> 0
                      then rbind (prior_second d (ts ! (i - 2)) (ts ! (i - 1))) (\<lambda>p. Inr (p, ts ! (i - 2)))
                      else Inr (prior, ts ! (i - 1))) (\<lambda>(prior, prior_trans).
                     if localtime \<le> prior then localtime_at d (if postTransition then ts ! (i - 1) else prior_trans)
                     else localtime_at d (ts ! (i - 1)))))"

definition toLocalTime :: "tz_data option \<Rightarrow> int \<Rightarrow> (DateTime \<times> int) res" where
  \<comment> \<open>with the offset\<close>
  "toLocalTime z seconds =
     (case z of
        None \<Rightarrow> Inl Assert_Failed
      | Some d \<Rightarrow>
          rbind (findLocalTime_utc d seconds) (\<lambda>lt. rbind (int64 (seconds + lt_utcOffset lt)) (\<lambda>s.
          Inr (BreakTime s, lt_utcOffset lt))))"

definition fromLocalTime :: "tz_data option \<Rightarrow> DateTime \<Rightarrow> bool \<Rightarrow> int res" where
  "fromLocalTime z localtime postTransition =
     (case z of
        None \<Rightarrow> Inl Assert_Failed
      | Some d \<Rightarrow>
          rbind (findLocalTime_local d localtime postTransition) (\<lambda>lt. int64 (fromUtcTime localtime - lt_utcOffset lt)))"

section \<open>Laws of the calendar times\<close>

definition time_ok :: "DateTime \<Rightarrow> bool" where
  \<comment> \<open>a calendar time whose day number the conversions do not overflow\<close>
  "time_ok dt \<longleftrightarrow> calendar_date (dt_year dt) (dt_month dt) (dt_day dt) \<and> 0 \<le> dt_hour dt \<and> dt_hour dt < 24
     \<and> 0 \<le> dt_minute dt \<and> dt_minute dt < 60 \<and> 0 \<le> dt_second dt \<and> dt_second dt < 60
     \<and> getJulianDayNumber (dt_year dt) (dt_month dt) (dt_day dt) \<le> 536838866"

abbreviation seconds_ok :: "int \<Rightarrow> bool" where
  "seconds_ok t \<equiv> - 32044 \<le> t div kSecondsPerDay + kJulianDayOf1970_01_01 \<and> t div kSecondsPerDay + kJulianDayOf1970_01_01 \<le> 536838866"

lemma kJulianDay_value: "kJulianDayOf1970_01_01 = 2440588"
  by (simp add: kJulianDayOf1970_01_01_def getJulianDayNumber_def sdiv_nonneg)

lemma break_split:
  fixes t k :: int
  assumes "0 < k"
  shows "(if t smod k < 0 then (t smod k + k, t sdiv k - 1) else (t smod k, t sdiv k)) = (t mod k, t div k)"
    and "t div k \<le> t sdiv k" "t sdiv k \<le> t div k + 1"
proof -
  have smod: "t smod k = t - t sdiv k * k" by (rule minus_sdiv_mult_eq_smod [symmetric])
  have "(if t smod k < 0 then (t smod k + k, t sdiv k - 1) else (t smod k, t sdiv k)) = (t mod k, t div k)
    \<and> t div k \<le> t sdiv k \<and> t sdiv k \<le> t div k + 1"
  proof (cases "0 \<le> t")
    case True
    with assms smod show ?thesis by (simp add: sdiv_nonneg minus_div_mult_eq_mod not_less)
  next
    case False
    define q r where "q = (- t) div k" and "r = (- t) mod k"
    have r: "0 \<le> r" "r < k" and t: "t = - (k * q + r)" using assms by (simp_all add: q_def r_def)
    have sdiv: "t sdiv k = - q" using False assms by (simp add: signed_divide_int_def q_def)
    show ?thesis
    proof (cases "r = 0")
      case True
      with t have "t div k = - q" "t mod k = 0" using assms by (simp_all flip: mult_minus_right)
      with True sdiv smod t show ?thesis by simp
    next
      case False
      have "t = k * (- q - 1) + (k - r)" using t by (simp add: algebra_simps)
      then have "t div k = - q - 1" "t mod k = k - r"
        using r False int_div_pos_eq [of t k "- q - 1" "k - r"] int_mod_pos_eq [of t k "- q - 1" "k - r"] by simp_all
      moreover have "t smod k = - r" unfolding smod sdiv using t by (simp add: algebra_simps)
      ultimately show ?thesis unfolding sdiv using False r by simp
    qed
  qed
  then show "(if t smod k < 0 then (t smod k + k, t sdiv k - 1) else (t smod k, t sdiv k)) = (t mod k, t div k)"
    "t div k \<le> t sdiv k" "t sdiv k \<le> t div k + 1" by blast+
qed

lemma sint_of_int32: "- (2 ^ 31) \<le> i \<Longrightarrow> i < 2 ^ 31 \<Longrightarrow> sint (word_of_int i :: 32 word) = i"
  by (simp add: signed_of_int signed_take_bit_int_eq_self)

lemma BreakTime_eq:
  assumes "seconds_ok t"
  shows "BreakTime t =
    (let ymd = getYearMonthDay (t div kSecondsPerDay + kJulianDayOf1970_01_01)
     in \<lparr>dt_year = ymd_year ymd, dt_month = ymd_month ymd, dt_day = ymd_day ymd, dt_hour = (t mod kSecondsPerDay) div 3600,
         dt_minute = (t mod kSecondsPerDay) div 60 mod 60, dt_second = (t mod kSecondsPerDay) mod 60\<rparr>)"
proof -
  have "- (2 ^ 31) \<le> t sdiv kSecondsPerDay" "t sdiv kSecondsPerDay < 2 ^ 31"
    using assms break_split(2,3) [of kSecondsPerDay t] by (simp_all add: kJulianDay_value kSecondsPerDay_def)
  then have cast: "sint (word_of_int (t sdiv kSecondsPerDay) :: 32 word) = t sdiv kSecondsPerDay"
    by (simp add: sint_of_int32)
  have pair: "(if t smod kSecondsPerDay < 0 then (t smod kSecondsPerDay + kSecondsPerDay, t sdiv kSecondsPerDay - 1)
      else (t smod kSecondsPerDay, t sdiv kSecondsPerDay)) = (t mod kSecondsPerDay, t div kSecondsPerDay)"
    by (rule break_split(1)) (simp add: kSecondsPerDay_def)
  have "s div 60 div 60 = s div 3600" for s :: int using zdiv_zmult2_eq [of 60 s 60] by simp
  then show ?thesis unfolding BreakTime_def Let_def cast pair prod.case by (simp add: fillHMS_def DateTime_new_def Let_def)
qed

lemma day_seconds:
  fixes s :: int
  assumes "0 \<le> s" "s < kSecondsPerDay"
  shows "s div 3600 * 3600 + s div 60 mod 60 * 60 + s mod 60 = s" "0 \<le> s div 3600" "s div 3600 < 24"
proof -
  have "s div 3600 = s div 60 div 60" using zdiv_zmult2_eq [of 60 s 60] by simp
  then show "s div 3600 * 3600 + s div 60 mod 60 * 60 + s mod 60 = s"
    using mult_div_mod_eq [of 60 s] mult_div_mod_eq [of 60 "s div 60"] by linarith
  show "0 \<le> s div 3600" "s div 3600 < 24" using assms by (simp_all add: kSecondsPerDay_def)
qed

lemma hms_of_seconds:
  fixes h m s :: int
  assumes "0 \<le> h" "h < 24" "0 \<le> m" "m < 60" "0 \<le> s" "s < 60"
  shows "(h * 3600 + m * 60 + s) div 3600 = h" "(h * 3600 + m * 60 + s) div 60 mod 60 = m" "(h * 3600 + m * 60 + s) mod 60 = s"
    "0 \<le> h * 3600 + m * 60 + s" "h * 3600 + m * 60 + s < kSecondsPerDay"
proof -
  show "(h * 3600 + m * 60 + s) div 3600 = h" using assms int_div_pos_eq [of _ 3600 h "m * 60 + s"] by simp
  have "(h * 3600 + m * 60 + s) div 60 = h * 60 + m" using assms int_div_pos_eq [of _ 60 "h * 60 + m" s] by simp
  then show "(h * 3600 + m * 60 + s) div 60 mod 60 = m" using assms by simp
  show "(h * 3600 + m * 60 + s) mod 60 = s" using assms int_mod_pos_eq [of "h * 3600 + m * 60 + s" 60 "h * 60 + m" s] by simp
  show "0 \<le> h * 3600 + m * 60 + s" "h * 3600 + m * 60 + s < kSecondsPerDay" using assms by (simp_all add: kSecondsPerDay_def)
qed

lemma calendar_times_roundtrip_aux:
  assumes ok: "time_ok dt"
  shows "BreakTime (fromUtcTime dt) = dt"
proof -
  let ?j = "getJulianDayNumber (dt_year dt) (dt_month dt) (dt_day dt)"
  let ?s = "dt_hour dt * 3600 + dt_minute dt * 60 + dt_second dt"
  have c: "calendar_date (dt_year dt) (dt_month dt) (dt_day dt)" using ok by (simp add: time_ok_def)
  note hms = hms_of_seconds [of "dt_hour dt" "dt_minute dt" "dt_second dt"]
  have t: "fromUtcTime dt = (?j - kJulianDayOf1970_01_01) * kSecondsPerDay + ?s" by (simp add: fromUtcTime_def)
  have dm: "fromUtcTime dt div kSecondsPerDay = ?j - kJulianDayOf1970_01_01" "fromUtcTime dt mod kSecondsPerDay = ?s"
    unfolding t using ok hms(4,5) by (simp_all add: time_ok_def)
  have "seconds_ok (fromUtcTime dt)" using ok julian_lower [OF c] by (simp add: dm time_ok_def)
  from BreakTime_eq [OF this] ymd_of_julian [OF c] hms(1-3) ok
  show ?thesis by (simp add: dm time_ok_def)
qed

lemma utc_of_seconds:
  assumes t: "seconds_ok t"
  shows "time_ok (toUtcTime t)" "fromUtcTime (toUtcTime t) = t"
proof -
  let ?j = "t div kSecondsPerDay + kJulianDayOf1970_01_01" and ?s = "t mod kSecondsPerDay"
  have s: "0 \<le> ?s" "?s < kSecondsPerDay" by (simp_all add: kSecondsPerDay_def)
  obtain y m d where c: "calendar_date y m d" "getJulianDayNumber y m d = ?j"
    using dates_reach [of "nat (?j + 32044)"] t by auto
  have b: "BreakTime t = \<lparr>dt_year = y, dt_month = m, dt_day = d, dt_hour = ?s div 3600, dt_minute = ?s div 60 mod 60, dt_second = ?s mod 60\<rparr>"
    using BreakTime_eq [OF t] ymd_of_julian [OF c(1)] c(2) by simp
  with c t day_seconds(2,3) [OF s] show "time_ok (toUtcTime t)" by (simp add: toUtcTime_def time_ok_def)
  show "fromUtcTime (toUtcTime t) = t"
    using b c(2) day_seconds(1) [OF s] by (simp add: fromUtcTime_def toUtcTime_def)
qed

text \<open>
  C39. Seconds since 1970 and calendar times correspond one to one: breaking a number of seconds into a
  calendar time and counting back gives the number, and every valid calendar time is recovered.
\<close>

theorem calendar_times_roundtrip:
  "(seconds_ok t \<longrightarrow> time_ok (toUtcTime t) \<and> fromUtcTime (toUtcTime t) = t)
   \<and> (time_ok dt \<longrightarrow> toUtcTime (fromUtcTime dt) = dt)"
using utc_of_seconds [of t] calendar_times_roundtrip_aux [of dt] by (simp add: toUtcTime_def)

theorem calendar_times_roundtrip_witness:
  "fromUtcTime (toUtcTime 1162101600) = 1162101600"
  using calendar_times_roundtrip [of 1162101600] by (simp add: kJulianDay_value kSecondsPerDay_def)

section \<open>Laws of the search\<close>

lemma upper_bound_loop_partition:
  assumes "\<And>i. i < length xs \<Longrightarrow> gt (xs ! i) \<longleftrightarrow> p \<le> i"
  shows "first \<le> p \<Longrightarrow> p \<le> first + len \<Longrightarrow> first + len \<le> length xs \<Longrightarrow> upper_bound_loop gt xs first len = p"
proof (induction len arbitrary: first rule: less_induct)
  case (less len)
  show ?case
  proof (cases "len = 0")
    case False
    let ?half = "len div 2"
    have half: "?half < len" "len - ?half - 1 < len" using False by auto
    have mid: "gt (xs ! (first + ?half)) \<longleftrightarrow> p \<le> first + ?half" using assms half less.prems(3) by simp
    show ?thesis
      using mid less.IH [OF half(1), of first] less.IH [OF half(2), of "first + ?half + 1"] less.prems False half
      by (subst upper_bound_loop.simps) (auto simp: Let_def not_le)
  qed (use less.prems in \<open>simp add: upper_bound_loop.simps\<close>)
qed

lemma upper_bound_partition:
  "p \<le> length xs \<Longrightarrow> (\<And>i. i < length xs \<Longrightarrow> gt (xs ! i) \<longleftrightarrow> p \<le> i) \<Longrightarrow> upper_bound gt xs = p"
  unfolding upper_bound_def by (rule upper_bound_loop_partition) auto

lemma upper_bound_loop_range:
  "(first = 0 \<Longrightarrow> 0 < len \<and> \<not> gt (xs ! 0)) \<Longrightarrow> 0 < upper_bound_loop gt xs first len \<and> upper_bound_loop gt xs first len \<le> first + len"
proof (induction len arbitrary: first rule: less_induct)
  case (less len)
  show ?case
  proof (cases "len = 0")
    case False
    let ?half = "len div 2"
    have half: "?half < len" "len - ?half - 1 < len" using False by auto
    have "upper_bound_loop gt xs first len =
        (if gt (xs ! (first + ?half)) then upper_bound_loop gt xs first ?half
         else upper_bound_loop gt xs (first + ?half + 1) (len - ?half - 1))"
      using False by (subst upper_bound_loop.simps) (simp add: Let_def)
    then show ?thesis
      using less.IH [OF half(1), of first] less.IH [OF half(2), of "first + ?half + 1"] less.prems half
      by (cases "first = 0"; cases "?half = 0";
          auto split: if_splits intro: order_trans [OF _ add_left_mono [OF div_le_dividend]] order_trans [OF _ div_le_dividend])
  qed (use less.prems in \<open>auto simp: upper_bound_loop.simps\<close>)
qed

text \<open>The search never fails its assertion, sorted or not, as the first element is not above.\<close>

lemma upper_bound_range: "xs \<noteq> [] \<Longrightarrow> \<not> gt (hd xs) \<Longrightarrow> 0 < upper_bound gt xs \<and> upper_bound gt xs \<le> length xs"
  unfolding upper_bound_def using upper_bound_loop_range [of 0 "length xs" gt xs] by (simp add: hd_conv_nth)

definition utc_at :: "tz_data \<Rightarrow> nat \<Rightarrow> int" where "utc_at d k = tr_utctime (transitions d ! k)"
definition local_at :: "tz_data \<Rightarrow> nat \<Rightarrow> int" where "local_at d k = tr_localtime (transitions d ! k)"

definition type_at :: "tz_data \<Rightarrow> nat \<Rightarrow> LocalTime" where
  "type_at d k = localtimes d ! tr_localtimeIdx (transitions d ! k)"

definition offset_at :: "tz_data \<Rightarrow> nat \<Rightarrow> int" where "offset_at d k = lt_utcOffset (type_at d k)"

definition local_end :: "tz_data \<Rightarrow> nat \<Rightarrow> int" where
  \<comment> \<open>the local time at which the segment \<open>k\<close> ends\<close>
  "local_end d k = utc_at d (k + 1) + offset_at d k"

definition zone_wf :: "tz_data \<Rightarrow> bool" where
  \<comment> \<open>what the reader makes sure of, and that there is a type\<close>
  "zone_wf d \<longleftrightarrow> localtimes d \<noteq> [] \<and> (\<forall>lt\<in>set (localtimes d). \<bar>lt_utcOffset lt\<bar> \<le> 2 ^ 31)
     \<and> (\<forall>tr\<in>set (transitions d). tr_localtimeIdx tr < length (localtimes d)
          \<and> tr_localtime tr = tr_utctime tr + lt_utcOffset (localtimes d ! tr_localtimeIdx tr))"

definition zone_ok :: "tz_data \<Rightarrow> bool" where
  \<comment> \<open>sorted, within range, and with transitions so far apart that at most two segments share a local time\<close>
  "zone_ok d \<longleftrightarrow> zone_wf d
     \<and> (\<forall>tr\<in>set (transitions d). \<bar>tr_utctime tr\<bar> \<le> 2 ^ 62)
     \<and> sorted_wrt (<) (map tr_utctime (transitions d)) \<and> sorted_wrt (<) (map tr_localtime (transitions d))
     \<and> (\<forall>k < length (transitions d) - 2. local_end d k \<le> local_at d (k + 2) \<and> local_end d k \<le> local_end d (k + 1))
     \<and> (1 < length (transitions d) \<longrightarrow> utc_at d 0 + lt_utcOffset (hd (localtimes d)) \<le> local_at d 1)"

lemma zone_wfD:
  assumes "zone_wf d"
  shows "first_localtime d = Inr (hd (localtimes d))" "\<bar>lt_utcOffset (hd (localtimes d))\<bar> \<le> 2 ^ 31"
    and "k < length (transitions d) \<Longrightarrow> localtime_at d (transitions d ! k) = Inr (type_at d k)"
    and "k < length (transitions d) \<Longrightarrow> local_at d k = utc_at d k + offset_at d k"
    and "k < length (transitions d) \<Longrightarrow> \<bar>offset_at d k\<bar> \<le> 2 ^ 31"
  using assms
  by (auto simp: zone_wf_def first_localtime_def localtime_at_def type_at_def offset_at_def local_at_def utc_at_def
      split: list.split)

lemma zone_okD:
  assumes "zone_ok d"
  shows "zone_wf d" and "k < length (transitions d) \<Longrightarrow> \<bar>utc_at d k\<bar> \<le> 2 ^ 62"
    and "i < k \<Longrightarrow> k < length (transitions d) \<Longrightarrow> utc_at d i < utc_at d k"
    and "i < k \<Longrightarrow> k < length (transitions d) \<Longrightarrow> local_at d i < local_at d k"
    and "k + 2 < length (transitions d) \<Longrightarrow> local_end d k \<le> local_at d (k + 2)"
    and "k + 2 < length (transitions d) \<Longrightarrow> local_end d k \<le> local_end d (k + 1)"
    and "1 < length (transitions d) \<Longrightarrow> utc_at d 0 + lt_utcOffset (hd (localtimes d)) \<le> local_at d 1"
  using assms by (auto simp: zone_ok_def utc_at_def local_at_def sorted_wrt_map sorted_wrt_iff_nth_less)

lemma find_utc_before: "zone_wf d \<Longrightarrow> transitions d = [] \<or> t < utc_at d 0 \<Longrightarrow> findLocalTime_utc d t = Inr (hd (localtimes d))"
  using zone_wfD(1) [of d] by (cases "transitions d") (auto simp: findLocalTime_utc_def utc_at_def)

lemma find_utc_segment:
  assumes "zone_ok d" "k < length (transitions d)" "utc_at d k \<le> t" "k + 1 < length (transitions d) \<longrightarrow> t < utc_at d (k + 1)"
  shows "findLocalTime_utc d t = Inr (type_at d k)"
proof -
  note wf = zone_okD(1) [OF assms(1)]
  have less: "i \<le> k \<Longrightarrow> utc_at d i \<le> t" for i
    using zone_okD(3) [OF assms(1), of i k] assms(2,3) by (cases "i = k") auto
  have greater: "t < utc_at d i" if "k < i" "i < length (transitions d)" for i
    using zone_okD(3) [OF assms(1), of "k + 1" i] assms(4) that by (cases "i = k + 1") auto
  have "upper_bound (\<lambda>tr. t < tr_utctime tr) (transitions d) = k + 1"
  proof (rule upper_bound_partition)
    show "t < tr_utctime (transitions d ! i) \<longleftrightarrow> k + 1 \<le> i" if "i < length (transitions d)" for i
      using less [of i] greater [of i] that by (cases "k < i") (auto simp: utc_at_def)
  qed (use assms(2) in simp)
  moreover have ne: "transitions d \<noteq> []" using assms(2) by auto
  moreover have "\<not> t < tr_utctime (hd (transitions d))"
    using less [of 0] ne by (simp add: hd_conv_nth utc_at_def)
  moreover have "Suc k = length (transitions d) \<Longrightarrow> last (transitions d) = transitions d ! k"
    using ne by (metis diff_Suc_1 last_conv_nth)
  ultimately show ?thesis
    using assms(2) zone_wfD(3) [OF wf, of k] by (auto simp: findLocalTime_utc_def Let_def)
qed

lemma segment_exists:
  fixes u :: "nat \<Rightarrow> int"
  assumes "n > 0" "u 0 \<le> t"
  shows "\<exists>k < n. u k \<le> t \<and> (k + 1 < n \<longrightarrow> t < u (k + 1))"
  using assms(1)
proof (induction n rule: nat_induct_non_zero)
  case 1
  then show ?case using assms(2) by auto
next
  case (Suc n)
  then obtain k where k: "k < n" "u k \<le> t" "k + 1 < n \<longrightarrow> t < u (k + 1)" by blast
  show ?case
  proof (cases "k + 1 = n \<and> u n \<le> t")
    case False
    with k show ?thesis by (intro exI [of _ k]) (cases "k + 1 = n"; auto)
  qed auto
qed

definition local_seconds :: "tz_data \<Rightarrow> int \<Rightarrow> int res" where
  \<comment> \<open>the local time that \<^verbatim>\<open>toLocalTime\<close> breaks into its fields\<close>
  "local_seconds d t = rbind (findLocalTime_utc d t) (\<lambda>lt. int64 (t + lt_utcOffset lt))"

lemma local_seconds_cases:
  assumes "zone_ok d" "local_seconds d t = Inr x"
  shows "(transitions d = [] \<or> t < utc_at d 0) \<and> x = t + lt_utcOffset (hd (localtimes d))
    \<or> (\<exists>k < length (transitions d). utc_at d k \<le> t \<and> (k + 1 < length (transitions d) \<longrightarrow> t < utc_at d (k + 1)) \<and> x = t + offset_at d k)"
proof (cases "transitions d = [] \<or> t < utc_at d 0")
  case True
  with assms find_utc_before [OF zone_okD(1) [OF assms(1)]] show ?thesis
    by (auto simp: local_seconds_def int64_def split: if_splits)
next
  case False
  then obtain k where k: "k < length (transitions d)" "utc_at d k \<le> t" "k + 1 < length (transitions d) \<longrightarrow> t < utc_at d (k + 1)"
    using segment_exists [of "length (transitions d)" "utc_at d" t] by auto
  with find_utc_segment [OF assms(1) k] assms(2) show ?thesis
    by (auto simp: local_seconds_def int64_def offset_at_def split: if_splits)
qed

lemma local_seconds_segment:
  assumes "zone_ok d" "k < length (transitions d)" "utc_at d k + offset_at d k \<le> x" "k + 1 < length (transitions d) \<longrightarrow> x < local_end d k"
    and "\<bar>x\<bar> < 2 ^ 63"
  shows "local_seconds d (x - offset_at d k) = Inr x"
proof -
  have "findLocalTime_utc d (x - offset_at d k) = Inr (type_at d k)"
    using assms(3,4) by (intro find_utc_segment [OF assms(1,2)]) (auto simp: local_end_def)
  then show ?thesis using assms(5) by (simp add: local_seconds_def int64_def offset_at_def abs_less_iff)
qed

lemma prior_second_ok:
  assumes "zone_ok d" "k + 1 < length (transitions d)"
  shows "prior_second d (transitions d ! k) (transitions d ! (k + 1)) = Inr (local_end d k - 1)"
proof -
  note wf = zone_okD(1) [OF assms(1)]
  have "\<bar>utc_at d (k + 1)\<bar> \<le> 2 ^ 62" "\<bar>offset_at d k\<bar> \<le> 2 ^ 31"
    using zone_okD(2) [OF assms(1), of "k + 1"] zone_wfD(5) [OF wf, of k] assms(2) by auto
  then show ?thesis
    using zone_wfD(3) [OF wf, of k] assms(2)
    by (simp add: prior_second_def int64_def local_end_def utc_at_def offset_at_def abs_le_iff)
qed

text \<open>The segments that a local time between the second and the last transition can be in.\<close>

lemma local_segments:
  assumes "zone_ok d" "1 < K" "K < length (transitions d)" "local_at d (K - 1) \<le> x" "x < local_at d K"
    and "local_seconds d t = Inr x"
  shows "t = x - offset_at d (K - 1) \<and> x < local_end d (K - 1) \<or> t = x - offset_at d (K - 2) \<and> x < local_end d (K - 2)"
proof -
  note wf = zone_okD(1) [OF assms(1)]
  have mono: "local_at d i \<le> local_at d j" if "i \<le> j" "j < length (transitions d)" for i j
    using zone_okD(4) [OF assms(1), of i j] that by (cases "i = j") auto
  show ?thesis
    using local_seconds_cases [OF assms(1,6)]
  proof (elim disjE exE conjE)
    assume "t < utc_at d 0" "x = t + lt_utcOffset (hd (localtimes d))"
    then have "x < local_at d 1" using zone_okD(7) [OF assms(1)] assms(2,3) by simp
    moreover have "1 \<le> K - 1" "K - 1 < length (transitions d)" using assms(2,3) by simp_all
    ultimately show ?thesis using mono [of 1 "K - 1"] assms(4) by linarith
  next
    fix k
    assume k: "k < length (transitions d)" "utc_at d k \<le> t" "k + 1 < length (transitions d) \<longrightarrow> t < utc_at d (k + 1)"
      and x: "x = t + offset_at d k"
    have "local_at d k \<le> x" using zone_wfD(4) [OF wf k(1)] k(2) x by simp
    then have "k < K" using mono [of K k] k(1) assms(5) by (cases "K \<le> k") auto
    then have e: "x < local_end d k" using k(3) x assms(3) by (simp add: local_end_def)
    have "K - 2 \<le> k"
    proof (rule ccontr)
      assume "\<not> K - 2 \<le> k"
      then have "k + 2 \<le> K - 1" "k + 2 < length (transitions d)" using assms(3) by auto
      moreover have "K - 1 < length (transitions d)" using assms(3) by simp
      ultimately have "x < local_at d (K - 1)" using zone_okD(5) [OF assms(1), of k] mono [of "k + 2" "K - 1"] e by linarith
      then show False using assms(4) by simp
    qed
    with \<open>k < K\<close> have "k = K - 1 \<or> k = K - 2" by auto
    with e x show ?thesis by auto
  qed (use assms(3) in auto)
qed

lemma find_local:
  assumes "zone_ok d" "1 < K" "K < length (transitions d)" "local_at d (K - 1) \<le> fromUtcTime dt" "fromUtcTime dt < local_at d K"
  shows "findLocalTime_local d dt post = Inr (type_at d
    (if local_end d (K - 1) \<le> fromUtcTime dt then (if post then K else K - 1)
     else if fromUtcTime dt < local_end d (K - 2) then (if post then K - 1 else K - 2) else K - 1))"
proof -
  let ?x = "fromUtcTime dt" and ?ts = "transitions d"
  note wf = zone_okD(1) [OF assms(1)]
  have mono: "local_at d i \<le> local_at d j" if "i \<le> j" "j < length ?ts" for i j
    using zone_okD(4) [OF assms(1), of i j] that by (cases "i = j") auto
  have bound: "upper_bound (\<lambda>tr. ?x < tr_localtime tr) ?ts = K"
  proof (rule upper_bound_partition)
    show "?x < tr_localtime (?ts ! i) \<longleftrightarrow> K \<le> i" if "i < length ?ts" for i
    proof (cases "K \<le> i")
      case True
      with mono [of K i] assms(5) that show ?thesis by (simp add: local_at_def)
    next
      case False
      then have "local_at d i \<le> local_at d (K - 1)" using assms(3) by (intro mono) auto
      with False assms(4) show ?thesis by (simp add: local_at_def)
    qed
  qed (use assms(3) in simp)
  have ne: "?ts \<noteq> []" and "local_at d 0 \<le> local_at d (K - 1)" using assms(3) by (auto intro: mono)
  then have start: "?ts \<noteq> []" "\<not> ?x < tr_localtime (hd ?ts)"
    using assms(4) by (simp_all add: hd_conv_nth local_at_def)
  have prior: "prior_second d (?ts ! (K - 1)) (?ts ! K) = Inr (local_end d (K - 1) - 1)"
    "prior_second d (?ts ! (K - 2)) (?ts ! (K - 1)) = Inr (local_end d (K - 2) - 1)"
    using prior_second_ok [OF assms(1), of "K - 1"] prior_second_ok [OF assms(1), of "K - 2"] assms(2,3)
    by (simp_all add: Suc_diff_Suc numeral_2_eq_2)
  have at: "localtime_at d (?ts ! i) = Inr (type_at d i)" if "i \<le> K" for i
    using zone_wfD(3) [OF wf, of i] that assms(3) by simp
  have K: "K \<noteq> 0" "K \<noteq> length ?ts" "K - 1 \<noteq> 0" using assms(2,3) by simp_all
  show ?thesis
    unfolding findLocalTime_local_def Let_def bound using start K prior at by simp
qed

lemma local_segment:
  assumes "zone_ok d" "1 < length (transitions d)" "local_at d 1 \<le> x" "x < local_at d (length (transitions d) - 1)"
  shows "\<exists>k. 0 < k \<and> k + 1 < length (transitions d) \<and> local_at d k \<le> x \<and> x < local_at d (k + 1) \<and> \<bar>x\<bar> \<le> 2 ^ 62 + 2 ^ 31"
proof -
  let ?n = "length (transitions d)"
  note wf = zone_okD(1) [OF assms(1)]
  have "local_at d 0 \<le> x" using zone_okD(4) [OF assms(1), of 0 1] assms(2,3) by simp
  then obtain k where k: "k < ?n" "local_at d k \<le> x" "k + 1 < ?n \<longrightarrow> x < local_at d (k + 1)"
    using segment_exists [of ?n "local_at d" x, OF order.strict_trans [OF zero_less_one assms(2)]] by blast
  have "k \<noteq> ?n - 1" using k(2) assms(4) by auto
  moreover have "k \<noteq> 0" using k(3) assms(2,3) by (intro notI) simp
  ultimately have K: "0 < k" "k + 1 < ?n" using k(1) by auto
  have off: "\<bar>offset_at d i\<bar> \<le> 2 ^ 31" "\<bar>utc_at d i\<bar> \<le> 2 ^ 62" if "i \<le> k + 1" for i
    using zone_wfD(5) [OF wf, of i] zone_okD(2) [OF assms(1), of i] K that by auto
  note at = zone_wfD(4) [OF wf]
  have "\<bar>x\<bar> \<le> 2 ^ 62 + 2 ^ 31"
    using k at [of k] at [of "k + 1"] K off [of k] off [of "k + 1"] by (simp add: abs_le_iff)
  with K k show ?thesis by auto
qed

lemma local_answers:
  assumes "zone_ok d" "0 < k" "k + 1 < length (transitions d)"
    and "local_at d k \<le> fromUtcTime dt" "fromUtcTime dt < local_at d (k + 1)" "\<bar>fromUtcTime dt\<bar> \<le> 2 ^ 62 + 2 ^ 31"
  defines "x \<equiv> fromUtcTime dt"
  shows "local_end d k \<le> x \<Longrightarrow> fromLocalTime (Some d) dt False = Inr (x - offset_at d k)
      \<and> fromLocalTime (Some d) dt True = Inr (x - offset_at d (k + 1)) \<and> {t. local_seconds d t = Inr x} = {}"
    "x < local_end d (k - 1) \<Longrightarrow> fromLocalTime (Some d) dt False = Inr (x - offset_at d (k - 1))
      \<and> fromLocalTime (Some d) dt True = Inr (x - offset_at d k)
      \<and> {t. local_seconds d t = Inr x} = {x - offset_at d (k - 1), x - offset_at d k}"
    "local_end d (k - 1) \<le> x \<Longrightarrow> x < local_end d k \<Longrightarrow> fromLocalTime (Some d) dt post = Inr (x - offset_at d k)
      \<and> {t. local_seconds d t = Inr x} = {x - offset_at d k}"
proof -
  note wf = zone_okD(1) [OF assms(1)]
  have K: "1 < k + 1" "k + 1 < length (transitions d)" using assms(2,3) by simp_all
  have x: "local_at d (k + 1 - 1) \<le> x" "x < local_at d (k + 1)" using assms(4,5) by (simp_all add: x_def)
  note small = assms(6) [folded x_def] and at = zone_wfD(4) [OF wf]
  have off: "\<bar>offset_at d i\<bar> \<le> 2 ^ 31" if "i \<le> k + 1" for i
    using zone_wfD(5) [OF wf, of i] K that by auto
  have conv: "findLocalTime_local d dt post = Inr (type_at d i) \<Longrightarrow> i \<le> k + 1 \<Longrightarrow> fromLocalTime (Some d) dt post = Inr (x - offset_at d i)" for post i
    using off [of i] small by (simp add: fromLocalTime_def int64_def offset_at_def abs_le_iff x_def)
  note find = find_local [OF assms(1) K x [unfolded x_def], folded x_def]
  have seg: "local_seconds d (x - offset_at d k) = Inr x" if "x < local_end d k"
    using that x at [of k] K small by (intro local_seconds_segment [OF assms(1)]) auto
  have seg0: "local_seconds d (x - offset_at d (k - 1)) = Inr x" if "x < local_end d (k - 1)"
    using that x at [of "k - 1"] K small zone_okD(4) [OF assms(1), of "k - 1" k]
    by (intro local_seconds_segment [OF assms(1)]) auto
  note only = local_segments [OF assms(1) K x]
  have km: "k + 1 - 2 = k - 1" "k - 1 + 1 = k" using K by auto
  have ends: "local_end d (k - 1) \<le> local_end d k" using zone_okD(6) [OF assms(1), of "k - 1"] K by simp
  show "fromLocalTime (Some d) dt False = Inr (x - offset_at d k) \<and> fromLocalTime (Some d) dt True = Inr (x - offset_at d (k + 1))
      \<and> {t. local_seconds d t = Inr x} = {}" if 1: "local_end d k \<le> x"
  proof (intro conjI)
    show "{t. local_seconds d t = Inr x} = {}" using only ends 1 km by fastforce
  qed (use find 1 in \<open>auto intro: conv\<close>)
  show "fromLocalTime (Some d) dt False = Inr (x - offset_at d (k - 1)) \<and> fromLocalTime (Some d) dt True = Inr (x - offset_at d k)
      \<and> {t. local_seconds d t = Inr x} = {x - offset_at d (k - 1), x - offset_at d k}" if 2: "x < local_end d (k - 1)"
  proof -
    have 3: "x < local_end d k" using 2 ends by simp
    have "fromLocalTime (Some d) dt False = Inr (x - offset_at d (k - 1))" "fromLocalTime (Some d) dt True = Inr (x - offset_at d k)"
      using find 2 3 km by (auto intro: conv)
    moreover have "{t. local_seconds d t = Inr x} = {x - offset_at d (k - 1), x - offset_at d k}"
      using only km seg [OF 3] seg0 [OF 2] by auto
    ultimately show ?thesis by blast
  qed
  show "fromLocalTime (Some d) dt post = Inr (x - offset_at d k) \<and> {t. local_seconds d t = Inr x} = {x - offset_at d k}"
    if 3: "local_end d (k - 1) \<le> x" "x < local_end d k"
  proof (intro conjI)
    show "fromLocalTime (Some d) dt post = Inr (x - offset_at d k)" using find [of post] 3 km by (auto intro: conv)
    have "t = x - offset_at d k" if "local_seconds d t = Inr x" for t using only [OF that] km 3(1) by simp
    then show "{t. local_seconds d t = Inr x} = {x - offset_at d k}" using seg [OF 3(2)] by blast
  qed
qed

text \<open>
  C38. A local time between the second transition and the time that the last one sets the clock to is resolved as daylight saving time wants it:
  when it occurs, the two answers are exactly the times at which it does, the earlier one by default and
  the later one after \<^verbatim>\<open>postTransition\<close>; when the clock jumps over it, they count it with the
  offset before and after the jump, and lie on either side of it. (A time that the last transition itself repeats is
  always resolved to the later one: \<open>last_repeat_ignored\<close>.)
\<close>

theorem local_times_resolved:
  assumes "zone_ok d" "1 < length (transitions d)"
    and "local_at d 1 \<le> fromUtcTime dt" "fromUtcTime dt < local_at d (length (transitions d) - 1)"
  shows "\<exists>r0 r1. fromLocalTime (Some d) dt False = Inr r0 \<and> fromLocalTime (Some d) dt True = Inr r1
    \<and> ({t. local_seconds d t = Inr (fromUtcTime dt)} = {r0, r1} \<and> r0 \<le> r1
       \<or> {t. local_seconds d t = Inr (fromUtcTime dt)} = {}
         \<and> (\<exists>k < length (transitions d). 0 < k \<and> r0 = fromUtcTime dt - offset_at d (k - 1) \<and> r1 = fromUtcTime dt - offset_at d k
              \<and> r1 < utc_at d k \<and> utc_at d k \<le> r0))"
proof -
  let ?x = "fromUtcTime dt"
  obtain k where k: "0 < k" "k + 1 < length (transitions d)" "local_at d k \<le> ?x" "?x < local_at d (k + 1)" "\<bar>?x\<bar> \<le> 2 ^ 62 + 2 ^ 31"
    using local_segment [OF assms] by blast
  note answers = local_answers [OF assms(1) k] and at = zone_wfD(4) [OF zone_okD(1) [OF assms(1)]]
  have ends: "local_end d (k - 1) = utc_at d k + offset_at d (k - 1)" "local_end d k = utc_at d (k + 1) + offset_at d k"
    using k(1) by (simp_all add: local_end_def)
  consider "local_end d k \<le> ?x" | "?x < local_end d (k - 1)" | "local_end d (k - 1) \<le> ?x" "?x < local_end d k" by linarith
  then show ?thesis
  proof cases
    case 1
    have "?x - offset_at d (k + 1) < utc_at d (k + 1)" "utc_at d (k + 1) \<le> ?x - offset_at d k"
      using k(2,4) at [of "k + 1"] 1 ends by simp_all
    then show ?thesis using answers(1) [OF 1] k(2) by (intro exI conjI disjI2 exI [of _ "k + 1"]) simp_all
  next
    case 2
    have "?x - offset_at d (k - 1) \<le> ?x - offset_at d k" using 2 k(2,3) at [of k] ends by simp
    then show ?thesis using answers(2) [OF 2] by blast
  next
    case 3
    show ?thesis using answers(3) [OF 3] by auto
  qed
qed

definition new_york :: tz_data where
  \<comment> \<open>2006 and 2007 in New York\<close>
  "new_york =
     (let types = [\<lparr>lt_utcOffset = - 18000, lt_isDst = False, lt_desigIdx = 0\<rparr>, \<lparr>lt_utcOffset = - 14400, lt_isDst = True, lt_desigIdx = 4\<rparr>]
      in \<lparr>transitions = map (\<lambda>(t, i). \<lparr>tr_utctime = t, tr_localtime = t + lt_utcOffset (types ! i), tr_localtimeIdx = i\<rparr>)
            [(1143961200, 1), (1162101600, 0), (1173596400, 1), (1194156000, 0)],
          localtimes = types, abbreviation_str = [], tzstring = []\<rparr>)"

lemma new_york_data:
  "localtimes new_york = [\<lparr>lt_utcOffset = - 18000, lt_isDst = False, lt_desigIdx = 0\<rparr>, \<lparr>lt_utcOffset = - 14400, lt_isDst = True, lt_desigIdx = 4\<rparr>]"
  "transitions new_york =
     [\<lparr>tr_utctime = 1143961200, tr_localtime = 1143946800, tr_localtimeIdx = 1\<rparr>, \<lparr>tr_utctime = 1162101600, tr_localtime = 1162083600, tr_localtimeIdx = 0\<rparr>,
      \<lparr>tr_utctime = 1173596400, tr_localtime = 1173582000, tr_localtimeIdx = 1\<rparr>, \<lparr>tr_utctime = 1194156000, tr_localtime = 1194138000, tr_localtimeIdx = 0\<rparr>]"
  by (simp_all add: new_york_def Let_def)

lemma new_york_ok: "zone_ok new_york" "length (transitions new_york) = 4" "local_at new_york 1 = 1162083600"
  "local_at new_york 3 = 1194138000"
proof -
  have ends: "local_end new_york k \<le> local_at new_york (k + 2) \<and> local_end new_york k \<le> local_end new_york (k + 1)" if "k < 2" for k
    using that by (auto simp: less_2_cases_iff local_end_def local_at_def utc_at_def offset_at_def type_at_def new_york_data)
  have "zone_wf new_york" by (simp add: zone_wf_def new_york_data)
  with ends show "zone_ok new_york" by (simp add: zone_ok_def new_york_data utc_at_def local_at_def)
qed (simp_all add: new_york_data local_at_def)

theorem local_times_resolved_witness:
  "\<exists>r0 r1. fromLocalTime (Some new_york) \<lparr>dt_year = 2006, dt_month = 10, dt_day = 29, dt_hour = 1, dt_minute = 30, dt_second = 0\<rparr> False = Inr r0
     \<and> fromLocalTime (Some new_york) \<lparr>dt_year = 2006, dt_month = 10, dt_day = 29, dt_hour = 1, dt_minute = 30, dt_second = 0\<rparr> True = Inr r1"
proof -
  let ?dt = "\<lparr>dt_year = 2006, dt_month = 10, dt_day = 29, dt_hour = 1, dt_minute = 30, dt_second = 0\<rparr>"
  have "fromUtcTime ?dt = 1162085400"
    by (simp add: fromUtcTime_def getJulianDayNumber_def kJulianDay_value kSecondsPerDay_def sdiv_nonneg Let_def)
  with local_times_resolved [of new_york ?dt] new_york_ok show ?thesis by auto
qed

text \<open>After the last transition nothing is compared with the time before it: the hour it repeats is always the later one.\<close>

lemma last_repeat_ignored:
  defines "dt \<equiv> \<lparr>dt_year = 2007, dt_month = 11, dt_day = 4, dt_hour = 1, dt_minute = 30, dt_second = 0\<rparr>"
  shows "fromLocalTime (Some new_york) dt False = Inr 1194157800"
    and "toLocalTime (Some new_york) 1194157800 = Inr (dt, - 18000)" "toLocalTime (Some new_york) 1194154200 = Inr (dt, - 14400)"
proof -
  have x: "fromUtcTime dt = 1194139800"
    by (simp add: dt_def fromUtcTime_def getJulianDayNumber_def kJulianDay_value kSecondsPerDay_def sdiv_nonneg Let_def)
  have "time_ok dt"
    by (simp add: dt_def time_ok_def calendar_date_def month_days_def getJulianDayNumber_def sdiv_nonneg Let_def)
  then have b: "BreakTime 1194139800 = dt" using calendar_times_roundtrip_aux [of dt] x by simp
  have "upper_bound (\<lambda>tr. 1194139800 < tr_localtime tr) (transitions new_york) = 4"
    "upper_bound (\<lambda>tr. 1194157800 < tr_utctime tr) (transitions new_york) = 4"
    "upper_bound (\<lambda>tr. 1194154200 < tr_utctime tr) (transitions new_york) = 3"
    by (rule upper_bound_partition; auto simp: new_york_data less_Suc_eq numeral_eq_Suc)+
  then show "fromLocalTime (Some new_york) dt False = Inr 1194157800"
    "toLocalTime (Some new_york) 1194157800 = Inr (dt, - 18000)" "toLocalTime (Some new_york) 1194154200 = Inr (dt, - 14400)"
    by (simp_all add: fromLocalTime_def findLocalTime_local_def toLocalTime_def findLocalTime_utc_def x b localtime_at_def int64_def
        new_york_data)
qed

section \<open>Laws of the reader\<close>

abbreviation rest :: "tz_file \<Rightarrow> byte list" where "rest f \<equiv> drop (tf_pos f) (tf_content f)"
abbreviation advance :: "nat \<Rightarrow> tz_file \<Rightarrow> tz_file" where "advance n f \<equiv> f\<lparr>tf_pos := tf_pos f + n\<rparr>"

definition reads :: "'a reading \<Rightarrow> byte list \<Rightarrow> 'a \<Rightarrow> bool" where
  \<comment> \<open>the bytes are consumed, whatever follows\<close>
  "reads m bs v \<longleftrightarrow> (\<forall>f r. rest f = bs @ r \<longrightarrow> m f = Inr (v, advance (length bs) f))"

lemma reads_fret: "reads (fret v) [] v"
  by (simp add: reads_def fret_def)

lemma reads_fbind:
  assumes "reads m bs v" "reads (k v) cs w"
  shows "reads (fbind m k) (bs @ cs) w"
  unfolding reads_def
proof (intro allI impI)
  fix f r assume f: "rest f = (bs @ cs) @ r"
  have "rest (advance (length bs) f) = drop (length bs) (rest f)" by (simp add: add.commute)
  also have "\<dots> = cs @ r" unfolding f by simp
  finally have "k v (advance (length bs) f) = Inr (w, advance (length cs) (advance (length bs) f))"
    using assms(2) unfolding reads_def by blast
  moreover have "m f = Inr (v, advance (length bs) f)" using assms(1) f by (simp add: reads_def)
  ultimately show "fbind m k f = Inr (w, advance (length (bs @ cs)) f)" by (simp add: fbind_def add.assoc)
qed

lemma reads_exactly: "length bs = n \<Longrightarrow> reads (read_exactly n msg) bs bs"
  unfolding reads_def
proof (intro allI impI)
  fix f r assume "length bs = n" "rest f = bs @ r"
  then have "fread n f = (bs, advance n f)" by (simp add: fread_def Let_def)
  with \<open>length bs = n\<close> show "read_exactly n msg f = Inr (bs, advance (length bs) f)" by (simp add: read_exactly_def)
qed

lemma reads_readBytes: "int (length bs) = n \<Longrightarrow> reads (readBytes n) bs bs"
  using reads_exactly [of bs "nat n"] by (auto simp: readBytes_def)

lemma reads_skip: "int (length bs) = n \<Longrightarrow> reads (file_skip n) bs ()"
  by (auto simp: reads_def file_skip_def nat_add_distrib)

definition be32 :: "int \<Rightarrow> byte list" where "be32 i = rev (le_bytes 4 (word_of_int i :: 32 word))"
definition be64 :: "int \<Rightarrow> byte list" where "be64 i = rev (le_bytes 8 (word_of_int i :: 64 word))"

lemma length_be [simp]: "length (be32 i) = 4" "length (be64 i) = 8"
  by (simp_all add: be32_def be64_def)

lemma reads_Int32: "- (2 ^ 31) \<le> i \<Longrightarrow> i < 2 ^ 31 \<Longrightarrow> reads file_readInt32 (be32 i) i"
  unfolding file_readInt32_def
  by (rule reads_fbind [of _ "be32 i" "be32 i" _ "[]" i, simplified])
    (auto intro!: reads_exactly simp: be32_def le_word_le_bytes sint_of_int32 reads_fret)

lemma reads_Int64: "- (2 ^ 63) \<le> i \<Longrightarrow> i < 2 ^ 63 \<Longrightarrow> reads file_readInt64 (be64 i) i"
  unfolding file_readInt64_def
  by (rule reads_fbind [of _ "be64 i" "be64 i" _ "[]" i, simplified])
    (auto intro!: reads_exactly simp: be64_def le_word_le_bytes signed_of_int signed_take_bit_int_eq_self reads_fret)

lemma reads_UInt8: "n < 256 \<Longrightarrow> reads readUInt8 [of_nat n] n"
  unfolding readUInt8_def
  by (rule reads_fbind [of _ "[of_nat n]" "[of_nat n]" _ "[]" n, simplified])
    (auto intro!: reads_exactly simp: reads_fret unat_of_nat_mod)

lemma reads_times: "(\<And>x. x \<in> set xs \<Longrightarrow> reads r (enc x) x) \<Longrightarrow> reads (read_times (length xs) r) (concat (map enc xs)) xs"
proof (induction xs)
  case (Cons x xs)
  then have "reads (fbind (read_times (length xs) r) (\<lambda>ys. fret (x # ys))) (concat (map enc xs) @ []) (x # xs)"
    by (intro reads_fbind [of _ _ xs]) (auto intro: reads_fret)
  with Cons.prems show ?case by (auto intro: reads_fbind)
qed (simp add: reads_fret)

lemma reads_count:
  "(\<And>x. x \<in> set xs \<Longrightarrow> reads r (enc x) x) \<Longrightarrow> int (length xs) = n \<Longrightarrow> reads (read_count n r) (concat (map enc xs)) xs"
  using reads_times [of xs r enc] by (auto simp: read_count_def)

definition type_bytes :: "LocalTime \<Rightarrow> byte list" where
  "type_bytes lt = be32 (lt_utcOffset lt) @ [if lt_isDst lt then 1 else 0] @ [of_nat (lt_desigIdx lt)]"

definition zone_block :: "byte list \<Rightarrow> byte list \<Rightarrow> byte list list \<Rightarrow> tz_data \<Rightarrow> byte list" where
  \<comment> \<open>the second data block of a zone file with its standard and UT indicators and leap seconds, and its footer\<close>
  "zone_block std ut leaps d =
     be32 (int (length ut)) @ be32 (int (length std)) @ be32 (int (length leaps)) @ be32 (int (length (transitions d))) @ be32 (int (length (localtimes d)))
     @ be32 (int (length (abbreviation_str d)))
     @ concat (map be64 (map tr_utctime (transitions d))) @ concat (map (\<lambda>i. [of_nat i]) (map tr_localtimeIdx (transitions d)))
     @ concat (map type_bytes (localtimes d)) @ [] @ abbreviation_str d @ concat leaps @ std @ ut @ tzstring d"

record v1_counts =
  c_isgmt :: int
  c_isstd :: int
  c_leap :: int
  c_time :: int
  c_type :: int
  c_char :: int

definition v1_size :: "v1_counts \<Rightarrow> int" where
  "v1_size c = 4 * c_time c + c_time c + 6 * c_type c + c_char c + 8 * c_leap c + c_isstd c + c_isgmt c"

definition zone_text :: "byte list \<Rightarrow> v1_counts \<Rightarrow> byte list \<Rightarrow> byte list \<Rightarrow> byte list \<Rightarrow> byte list" where
  \<comment> \<open>a file of version 2: a header, the block of version 1, another header, the block\<close>
  "zone_text reserved c v1 head2 block =
     string_bytes ''TZif'' @ string_bytes ''2'' @ reserved
     @ be32 (c_isgmt c) @ be32 (c_isstd c) @ be32 (c_leap c) @ be32 (c_time c) @ be32 (c_type c) @ be32 (c_char c)
     @ [] @ [] @ v1 @ string_bytes ''TZif'' @ head2 @ block"

definition counts_ok :: "v1_counts \<Rightarrow> bool" where
  "counts_ok c \<longleftrightarrow> (\<forall>n\<in>{c_isgmt c, c_isstd c, c_leap c, c_time c, c_type c, c_char c}. 0 \<le> n \<and> n < 2 ^ 27)"

definition zone_encodable :: "tz_data \<Rightarrow> bool" where
  "zone_encodable d \<longleftrightarrow>
     (\<forall>tr\<in>set (transitions d). - (2 ^ 63) \<le> tr_utctime tr \<and> tr_utctime tr < 2 ^ 63 \<and> - (2 ^ 63) \<le> tr_localtime tr \<and> tr_localtime tr < 2 ^ 63
        \<and> tr_localtimeIdx tr < length (localtimes d) \<and> tr_localtimeIdx tr < 256
        \<and> tr_localtime tr = tr_utctime tr + lt_utcOffset (localtimes d ! tr_localtimeIdx tr))
     \<and> (\<forall>lt\<in>set (localtimes d). - (2 ^ 31) \<le> lt_utcOffset lt \<and> lt_utcOffset lt < 2 ^ 31 \<and> lt_desigIdx lt < 256)
     \<and> length (transitions d) < 2 ^ 31 \<and> length (localtimes d) < 2 ^ 31 \<and> length (abbreviation_str d) < 2 ^ 31"

definition indicators_ok :: "byte list \<Rightarrow> tz_data \<Rightarrow> bool" where
  \<comment> \<open>none, or one for each type of local time\<close>
  "indicators_ok xs d \<longleftrightarrow> length xs = 0 \<or> length xs = length (localtimes d)"

lemma reads_localtime:
  assumes "- (2 ^ 31) \<le> lt_utcOffset lt" "lt_utcOffset lt < 2 ^ 31" "lt_desigIdx lt < 256"
  shows "reads read_localtime (type_bytes lt) lt"
proof -
  have flag: "reads readUInt8 [if lt_isDst lt then 1 else 0] (if lt_isDst lt then 1 else 0)"
    using reads_UInt8 [of "if lt_isDst lt then 1 else 0"] by (cases "lt_isDst lt") auto
  have "reads read_localtime (be32 (lt_utcOffset lt) @ [if lt_isDst lt then 1 else 0] @ [of_nat (lt_desigIdx lt)] @ [])
      \<lparr>lt_utcOffset = lt_utcOffset lt, lt_isDst = (if lt_isDst lt then 1 else 0 :: nat) \<noteq> 0, lt_desigIdx = lt_desigIdx lt\<rparr>"
    unfolding read_localtime_def
    by (intro reads_fbind [OF reads_Int32 [OF assms(1,2)]] reads_fbind [OF flag] reads_fbind [OF reads_UInt8 [OF assms(3)]] reads_fret)
  then show ?thesis by (cases lt; cases "lt_isDst lt") (simp_all add: type_bytes_def)
qed

lemma add_transitions_ok:
  "\<forall>tr\<in>set trs. - (2 ^ 63) \<le> tr_localtime tr \<and> tr_localtime tr < 2 ^ 63 \<and> tr_localtimeIdx tr < length lts
      \<and> tr_localtime tr = tr_utctime tr + lt_utcOffset (lts ! tr_localtimeIdx tr)
   \<Longrightarrow> add_transitions (zip (map tr_utctime trs) (map tr_localtimeIdx trs)) lts = Inr trs"
proof (induction trs)
  case (Cons tr trs)
  then have "addTransition (tr_utctime tr) (tr_localtimeIdx tr) lts = Inr tr"
    by (cases tr) (simp add: addTransition_def int64_def)
  moreover have "add_transitions (zip (map tr_utctime trs) (map tr_localtimeIdx trs)) lts = Inr trs"
    using Cons.prems by (intro Cons.IH ballI) (drule bspec [OF _ list.set_intros(2)], assumption+)
  ultimately show ?case by simp
qed simp

definition reads_all :: "'a reading \<Rightarrow> byte list \<Rightarrow> 'a \<Rightarrow> bool" where
  \<comment> \<open>of the bytes up to the end of the file\<close>
  "reads_all m bs v \<longleftrightarrow> (\<forall>f. rest f = bs \<longrightarrow> (\<exists>f'. m f = Inr (v, f')))"

lemma reads_all_fbind:
  assumes "reads m bs v" "reads_all (k v) cs w"
  shows "reads_all (fbind m k) (bs @ cs) w"
  unfolding reads_all_def
proof (intro allI impI)
  fix f assume f: "rest f = bs @ cs"
  have "rest (advance (length bs) f) = drop (length bs) (rest f)" by (simp add: add.commute)
  also have "\<dots> = cs" unfolding f by simp
  finally obtain f' where "k v (advance (length bs) f) = Inr (w, f')" using assms(2) unfolding reads_all_def by blast
  moreover have "m f = Inr (v, advance (length bs) f)" using assms(1) f by (simp add: reads_def)
  ultimately show "\<exists>f'. fbind m k f = Inr (w, f')" by (simp add: fbind_def)
qed

lemma reads_all_end: "reads_all (fbind readToEnd (\<lambda>tz. fret (g tz))) bs (g bs)"
  by (auto simp: reads_all_def readToEnd_def fread_def fbind_def fret_def Let_def)

lemma reads_all_fret: "reads_all (fret v) bs v"
  by (simp add: reads_all_def fret_def)

lemma reads_all_block:
  assumes "zone_encodable d" "length std < 2 ^ 31" "length ut < 2 ^ 31" "length leaps < 2 ^ 31"
  shows "reads_all (readDataBlock False) (zone_block std ut leaps d)
     (if leaps = [] \<and> indicators_ok std d \<and> indicators_ok ut d then Some d else None)"
proof -
  let ?ts = "transitions d" and ?lts = "localtimes d"
  have trs: "reads (\<lambda>f. rbind (add_transitions (zip (map tr_utctime ?ts) (map tr_localtimeIdx ?ts)) ?lts) (\<lambda>trs. Inr (trs, f))) [] ?ts"
  proof -
    have "add_transitions (zip (map tr_utctime ?ts) (map tr_localtimeIdx ?ts)) ?lts = Inr ?ts"
      using assms unfolding zone_encodable_def by (intro add_transitions_ok) blast
    then show ?thesis by (simp add: reads_def)
  qed
  have times: "reads (read_count (int (length ?ts)) file_readInt64) (concat (map be64 (map tr_utctime ?ts))) (map tr_utctime ?ts)"
    "reads (read_count (int (length ?ts)) readUInt8) (concat (map (\<lambda>i. [of_nat i]) (map tr_localtimeIdx ?ts))) (map tr_localtimeIdx ?ts)"
    "reads (read_count (int (length ?lts)) read_localtime) (concat (map type_bytes ?lts)) ?lts"
    by (rule reads_count; use assms in \<open>auto intro!: reads_Int64 reads_UInt8 reads_localtime simp: zone_encodable_def\<close>)+
  have tail: "reads_all (fbind readToEnd (\<lambda>tz. fret (Some \<lparr>transitions = ?ts, localtimes = ?lts, abbreviation_str = abbreviation_str d, tzstring = tz\<rparr>)))
      (tzstring d) (Some d)"
  proof -
    have "\<lparr>transitions = ?ts, localtimes = ?lts, abbreviation_str = abbreviation_str d, tzstring = tzstring d\<rparr> = d" by simp
    then show ?thesis using reads_all_end by metis
  qed
  have counts: "reads file_readInt32 (be32 (int (length ?ts))) (int (length ?ts))"
    "reads file_readInt32 (be32 (int (length ?lts))) (int (length ?lts))"
    "reads file_readInt32 (be32 (int (length (abbreviation_str d)))) (int (length (abbreviation_str d)))"
    using assms by (auto intro!: reads_Int32 simp: zone_encodable_def)
  have sizes: "reads file_readInt32 (be32 (int (length ut))) (int (length ut))"
    "reads file_readInt32 (be32 (int (length std))) (int (length std))"
    "reads file_readInt32 (be32 (int (length leaps))) (int (length leaps))"
    using assms(2-4) by (auto intro!: reads_Int32)
  have skips: "reads (file_skip (0 * n)) [] ()" "reads (file_skip (int (length bs))) bs ()" for n bs
    by (simp_all add: reads_skip)
  show ?thesis
  proof (cases "leaps = [] \<and> indicators_ok std d \<and> indicators_ok ut d")
    case True
    then have ok: "leaps = []" "\<not> (int (length ut) \<noteq> 0 \<and> int (length ut) \<noteq> int (length ?lts))"
      "\<not> (int (length std) \<noteq> 0 \<and> int (length std) \<noteq> int (length ?lts))"
      by (auto simp: indicators_ok_def)
    have zero: "int (length leaps) = 0" "concat leaps = []" by (simp_all add: ok(1))
    have "reads_all (readDataBlock False) (zone_block std ut leaps d) (Some d)"
      unfolding readDataBlock_def zone_block_def zero
      by (rule reads_all_fbind [OF sizes(1)] reads_all_fbind [OF sizes(2)] reads_all_fbind [OF sizes(3) [unfolded zero]]
          reads_all_fbind [OF counts(1)] reads_all_fbind [OF counts(2)] reads_all_fbind [OF counts(3)]
        | simp only: simp_thms if_False ok(2,3)
        | rule reads_all_fbind [OF times(1)] reads_all_fbind [OF times(2)] reads_all_fbind [OF times(3)] reads_all_fbind [OF trs]
          reads_all_fbind [OF reads_readBytes [OF refl]] reads_all_fbind [OF skips(1)] reads_all_fbind [OF skips(2)] tail)+
    with True show ?thesis by simp
  next
    case False
    then have bad: "int (length leaps) \<noteq> 0 \<or> int (length ut) \<noteq> 0 \<and> int (length ut) \<noteq> int (length ?lts)
        \<or> int (length std) \<noteq> 0 \<and> int (length std) \<noteq> int (length ?lts)"
      by (auto simp: indicators_ok_def)
    show ?thesis
      unfolding readDataBlock_def zone_block_def if_not_P [OF False]
      by (rule reads_all_fbind [OF sizes(1)], rule reads_all_fbind [OF sizes(2)], rule reads_all_fbind [OF sizes(3)],
          rule reads_all_fbind [OF counts(1)], rule reads_all_fbind [OF counts(2)], rule reads_all_fbind [OF counts(3)])
        (use bad in \<open>auto simp: reads_all_fret\<close>)
  qed
qed

lemma zone_text_loads:
  assumes "reads_all (readDataBlock False) block z" "counts_ok c" "int (length v1) = v1_size c" "length reserved = 15" "length head2 = 16"
  shows "loadZoneFile (Some (zone_text reserved c v1 head2 block)) = Inr z"
proof -
  have head: "reads read_head (string_bytes ''TZif'') ()"
    unfolding read_head_def
    by (rule reads_fbind [of _ "string_bytes ''TZif''" "string_bytes ''TZif''" _ "[]" "()", simplified])
      (auto intro!: reads_readBytes reads_fret simp: string_bytes_def)
  have version: "reads (readBytes 1) (string_bytes ''2'') (string_bytes ''2'')" "reads (readBytes 15) reserved reserved"
    using assms(4) by (auto intro!: reads_readBytes simp: string_bytes_def)
  have count: "n \<in> {c_isgmt c, c_isstd c, c_leap c, c_time c, c_type c, c_char c} \<Longrightarrow> reads file_readInt32 (be32 n) n" for n
    using assms(2) by (intro reads_Int32) (auto simp: counts_ok_def)
  have sizes: "reads (int32 (6 * c_type c)) [] (6 * c_type c)" "reads (int32 (8 * c_leap c)) [] (8 * c_leap c)"
    using assms(2) by (auto simp: reads_def int32_def counts_ok_def)
  have skips: "reads (file_skip (4 * c_time c + c_time c + 6 * c_type c + c_char c + 8 * c_leap c + c_isstd c + c_isgmt c)) v1 ()"
    "reads (file_skip 16) head2 ()"
    using assms(3,5) by (auto intro!: reads_skip simp: v1_size_def)
  have "reads_all read_zone (zone_text reserved c v1 head2 block) z"
    unfolding read_zone_def zone_text_def
    by (intro reads_all_fbind [OF head] reads_all_fbind [OF version(1)] reads_all_fbind [OF version(2)] reads_all_fbind [OF count],
        simp_all only: simp_thms insert_iff if_True)
      (intro reads_all_fbind [OF head] reads_all_fbind [OF sizes(1)] reads_all_fbind [OF sizes(2)] reads_all_fbind [OF skips(1)]
        reads_all_fbind [OF skips(2)] assms(1))
  then obtain f' where "read_zone \<lparr>tf_content = zone_text reserved c v1 head2 block, tf_pos = 0\<rparr> = Inr (z, f')"
    unfolding reads_all_def by fastforce
  then show ?thesis by (simp add: loadZoneFile_def readTimeZoneFile_def)
qed

text \<open>
  C40. A zone file of version 2 is read back: whatever the block of version 1 holds, as long as its counts are below
  2 to the 27 and its size is the one they state, the zone that the second block describes is loaded, with standard
  and UT indicators or without. A file whose second block has leap seconds, or indicators for some of the types
  only, is refused: nothing is loaded.
\<close>

theorem zone_file_roundtrip:
  assumes "zone_encodable d" "length std < 2 ^ 31" "length ut < 2 ^ 31" "length leaps < 2 ^ 31"
    "counts_ok c" "int (length v1) = v1_size c" "length reserved = 15" "length head2 = 16"
  shows "loadZoneFile (Some (zone_text reserved c v1 head2 (zone_block std ut leaps d)))
     = Inr (if leaps = [] \<and> indicators_ok std d \<and> indicators_ok ut d then Some d else None)"
  using reads_all_block [OF assms(1-4)] assms(5-) by (rule zone_text_loads)

definition v1_empty :: v1_counts where
  "v1_empty = \<lparr>c_isgmt = 0, c_isstd = 0, c_leap = 0, c_time = 0, c_type = 1, c_char = 4\<rparr>"

lemma new_york_encodable: "zone_encodable new_york"
  by (simp add: zone_encodable_def new_york_data) (simp add: new_york_def Let_def)

theorem zone_file_roundtrip_witness:
  "loadZoneFile (Some (zone_text (replicate 15 0) v1_empty (replicate 10 0) (replicate 16 0) (zone_block [1, 1] [0, 0] [] new_york)))
     = Inr (Some new_york)
   \<and> loadZoneFile (Some (zone_text (replicate 15 0) v1_empty (replicate 10 0) (replicate 16 0) (zone_block [] [] [replicate 12 0] new_york)))
     = Inr None"
proof -
  have "zone_encodable new_york" by (rule new_york_encodable)
  moreover have "counts_ok v1_empty" "v1_size v1_empty = 10" by (simp_all add: counts_ok_def v1_size_def v1_empty_def)
  moreover have "indicators_ok [1, 1] new_york" "indicators_ok [0, 0] new_york" "indicators_ok [] new_york" by (simp_all add: indicators_ok_def new_york_data)
  ultimately show ?thesis
    using zone_file_roundtrip [of new_york "[1, 1]" "[0, 0]" "[]" v1_empty "replicate 10 0" "replicate 15 0" "replicate 16 0"]
      zone_file_roundtrip [of new_york "[]" "[]" "[replicate 12 0]" v1_empty "replicate 10 0" "replicate 15 0" "replicate 16 0"]
    by simp
qed

lemma fbind_Inr: "fbind m k f = Inr r \<longleftrightarrow> (\<exists>a f'. m f = Inr (a, f') \<and> k a f' = Inr r)"
  by (auto simp: fbind_def rbind_eq_Inr_iff)

lemma file_readInt32_range: "file_readInt32 f = Inr (i, f') \<Longrightarrow> \<bar>i\<bar> \<le> 2 ^ 31"
  using sint_range_size [of "le_word _ :: 32 word"]
  by (auto simp: file_readInt32_def fbind_Inr fret_def word_size abs_le_iff) (smt (verit) sint_ge sint_less)+

lemma read_times_all: "read_times n r f = Inr (xs, f') \<Longrightarrow> (\<And>f x f'. r f = Inr (x, f') \<Longrightarrow> P x) \<Longrightarrow> \<forall>x\<in>set xs. P x"
  by (induction n arbitrary: f xs f') (fastforce simp: fbind_Inr fret_def)+

lemma read_localtime_range: "read_localtime f = Inr (lt, f') \<Longrightarrow> \<bar>lt_utcOffset lt\<bar> \<le> 2 ^ 31"
  using file_readInt32_range by (fastforce simp: read_localtime_def fbind_Inr fret_def)

lemma add_transitions_wf:
  "add_transitions ts lts = Inr trs \<Longrightarrow>
   \<forall>tr\<in>set trs. tr_localtimeIdx tr < length lts \<and> tr_localtime tr = tr_utctime tr + lt_utcOffset (lts ! tr_localtimeIdx tr)"
  by (induction ts lts arbitrary: trs rule: add_transitions.induct)
    (auto simp: rbind_eq_Inr_iff addTransition_def int64_def split: if_splits)

lemma readDataBlock_wf: "readDataBlock v1 f = Inr (Some d, f') \<Longrightarrow> localtimes d = [] \<and> transitions d = [] \<or> zone_wf d"
proof -
  assume "readDataBlock v1 f = Inr (Some d, f')"
  then obtain n f1 f2 ts where "read_count n read_localtime f1 = Inr (localtimes d, f2)"
    and ts: "add_transitions ts (localtimes d) = Inr (transitions d)"
    unfolding readDataBlock_def fbind_Inr by (elim exE conjE) (auto simp: fbind_Inr fret_def rbind_eq_Inr_iff split: if_splits)
  then have "\<forall>lt\<in>set (localtimes d). \<bar>lt_utcOffset lt\<bar> \<le> 2 ^ 31"
    using read_times_all [of _ read_localtime _ _ _ "\<lambda>lt. \<bar>lt_utcOffset lt\<bar> \<le> 2 ^ 31", OF _ read_localtime_range]
    by (auto simp: read_count_def fthrow_def split: if_splits)
  moreover note add_transitions_wf [OF ts]
  ultimately show ?thesis by (cases "localtimes d = []"; cases "transitions d") (auto simp: zone_wf_def)
qed

lemma find_utc_wf:
  assumes "zone_wf d"
  shows "\<exists>lt\<in>set (localtimes d). findLocalTime_utc d t = Inr lt"
proof -
  let ?ts = "transitions d"
  have front: "hd (localtimes d) \<in> set (localtimes d)" using assms by (simp add: zone_wf_def)
  have at: "type_at d k \<in> set (localtimes d)" if "k < length ?ts" for k
    using assms that by (auto simp: zone_wf_def type_at_def)
  show ?thesis
  proof (cases "?ts = [] \<or> t < utc_at d 0")
    case True
    with find_utc_before [OF assms] front show ?thesis by auto
  next
    case False
    then have ne: "?ts \<noteq> []" and start: "\<not> t < tr_utctime (hd ?ts)" by (auto simp: hd_conv_nth utc_at_def)
    note r = upper_bound_range [of ?ts "\<lambda>tr. t < tr_utctime tr", OF ne start]
    have len: "length ?ts - 1 < length ?ts" using ne by simp
    have "last ?ts = ?ts ! (length ?ts - 1)" using ne by (simp add: last_conv_nth)
    then show ?thesis
      using ne start r len at [OF len] at [of "upper_bound (\<lambda>tr. t < tr_utctime tr) ?ts - 1"] zone_wfD(3) [OF assms len]
        zone_wfD(3) [OF assms, of "upper_bound (\<lambda>tr. t < tr_utctime tr) ?ts - 1"]
      by (cases "upper_bound (\<lambda>tr. t < tr_utctime tr) ?ts = length ?ts") (auto simp: findLocalTime_utc_def Let_def)
  qed
qed

text \<open>
  Whatever a zone file holds, a zone that is loaded from it answers every question about a time in UTC with one
  of its types, sorted or not, unless the file has no types; then every question reads an empty vector.
\<close>

theorem loaded_zones_answer:
  assumes "loadZoneFile file = Inr (Some d)"
  shows "(if localtimes d = [] then findLocalTime_utc d t = Inl Out_Of_Range
     else \<exists>lt\<in>set (localtimes d). findLocalTime_utc d t = Inr lt)"
proof -
  obtain f f' v1 where "readDataBlock v1 f = Inr (Some d, f')"
    using assms unfolding loadZoneFile_def readTimeZoneFile_def
    by (auto simp: read_zone_def fbind_Inr split: option.splits sum.splits tz_error.splits if_splits)
  from readDataBlock_wf [OF this] show ?thesis
  proof
    assume "localtimes d = [] \<and> transitions d = []"
    then show ?thesis by (simp add: findLocalTime_utc_def first_localtime_def)
  next
    assume "zone_wf d"
    with find_utc_wf [OF this, of t] show ?thesis by (simp add: zone_wf_def)
  qed
qed

theorem loaded_zones_answer_witness: "\<exists>lt\<in>set (localtimes new_york). findLocalTime_utc new_york 0 = Inr lt"
proof -
  have "zone_encodable new_york" by (rule new_york_encodable)
  moreover have "counts_ok v1_empty" "v1_size v1_empty = 10" by (simp_all add: counts_ok_def v1_size_def v1_empty_def)
  ultimately have "loadZoneFile (Some (zone_text (replicate 15 0) v1_empty (replicate 10 0) (replicate 16 0) (zone_block [] [] [] new_york))) = Inr (Some new_york)"
    using zone_text_loads [OF reads_all_block [of new_york "[]" "[]" "[]"], of v1_empty "replicate 10 0" "replicate 15 0" "replicate 16 0"]
    by (simp add: indicators_ok_def)
  from loaded_zones_answer [OF this, of 0] show ?thesis by (simp add: new_york_data)
qed

text \<open>
  A negative number of characters becomes the size of an array on the stack.
\<close>

lemma negative_charcnt:
  "loadZoneFile (Some (string_bytes ''TZif'' @ [0] @ replicate 15 0 @ be32 0 @ be32 0 @ be32 0 @ be32 0 @ be32 0 @ be32 (- 1))) = Inl Out_Of_Range"
  by code_simp

end
