(* ===== verification/Base_Log.thy ===== *)
theory Base_Log
  imports Complex_Main "HOL-Library.Signed_Division" "HOL-Library.Sublist" Server_Prelude
begin

text \<open>
  The log stream of the base library: base/LogStream.h and base/LogStream.cc. A fixed buffer is
  its size and the characters before the cursor; the conversion of numbers writes at the cursor.
  Printing of doubles, which is the C library's, is an argument.
\<close>

section \<open>Integers as text\<close>

definition digits_table :: string where "digits_table = ''9876543210123456789''"

definition zero_at :: "int \<Rightarrow> char" where
  \<comment> \<open>\<^verbatim>\<open>zero\<close> points at the middle of the table\<close>
  "zero_at lsd = digits_table ! nat (9 + lsd)"

definition digitsHex :: string where "digitsHex = ''0123456789ABCDEF''"

lemma sdiv_ten: "\<bar>i sdiv 10\<bar> = \<bar>i\<bar> div 10" for i :: int
  by (cases "i = 0") (simp_all add: signed_divide_int_def abs_mult pos_imp_zdiv_nonneg_iff)

lemma sdiv_smaller: "i sdiv 10 \<noteq> 0 \<Longrightarrow> \<bar>i sdiv 10\<bar> < \<bar>i\<bar>" for i :: int
  unfolding sdiv_ten by (cases "i = 0") (auto simp: int_div_less_self)

lemma smod_ten: "i smod 10 = (if i < 0 then - (\<bar>i\<bar> mod 10) else \<bar>i\<bar> mod 10)" for i :: int
  by (simp add: signed_modulo_int_def sgn_if)

function convert_digits :: "int \<Rightarrow> string" where
  \<comment> \<open>the loop, least significant digit first\<close>
  "convert_digits i = zero_at (i smod 10) # (if i sdiv 10 = 0 then [] else convert_digits (i sdiv 10))"
  by auto
termination by (relation "measure (\<lambda>i. nat \<bar>i\<bar>)") (auto simp: sdiv_smaller)

declare convert_digits.simps [simp del]

definition convert :: "int \<Rightarrow> string" where
  "convert v = rev (convert_digits v @ (if v < 0 then ''-'' else []))"

fun hex_digits :: "nat \<Rightarrow> string" where
  "hex_digits i = digitsHex ! (i mod 16) # (if i div 16 = 0 then [] else hex_digits (i div 16))"

declare hex_digits.simps [simp del]

definition convertHex :: "nat \<Rightarrow> string" where
  "convertHex v = rev (hex_digits v)"

section \<open>Buffers and streams\<close>

definition kSmallBuffer :: nat where "kSmallBuffer = 4000"
definition kLargeBuffer :: nat where "kLargeBuffer = 4000 * 1000"
definition kMaxNumericSize :: nat where "kMaxNumericSize = 48"

record FixedBuffer =
  fb_size :: nat
  fb_data :: string

definition FixedBuffer_new :: "nat \<Rightarrow> FixedBuffer" where
  "FixedBuffer_new n = \<lparr>fb_size = n, fb_data = []\<rparr>"

definition fb_avail :: "FixedBuffer \<Rightarrow> nat" where
  "fb_avail b = fb_size b - length (fb_data b)"

definition fb_append :: "string \<Rightarrow> FixedBuffer \<Rightarrow> FixedBuffer" where
  "fb_append s b = (if fb_avail b > length s then b\<lparr>fb_data := fb_data b @ s\<rparr> else b)"

definition fb_write :: "string \<Rightarrow> FixedBuffer \<Rightarrow> FixedBuffer res" where
  \<comment> \<open>writing at \<^verbatim>\<open>current()\<close>, with the final null character, and \<^verbatim>\<open>add\<close>\<close>
  "fb_write s b = (if length s + 1 > fb_avail b then Inl Out_Of_Range else Inr (b\<lparr>fb_data := fb_data b @ s\<rparr>))"

definition fb_reset :: "FixedBuffer \<Rightarrow> FixedBuffer" where
  "fb_reset b = b\<lparr>fb_data := []\<rparr>"

datatype log_item =
  Log_Bool bool | Log_Int int | Log_Pointer nat | Log_Double rat | Log_Char char | Log_CString "string option" | Log_String string

definition formatInteger :: "int \<Rightarrow> FixedBuffer \<Rightarrow> FixedBuffer res" where
  "formatInteger v b = (if fb_avail b \<ge> kMaxNumericSize then fb_write (convert v) b else Inr b)"

definition log_pointer :: "nat \<Rightarrow> FixedBuffer \<Rightarrow> FixedBuffer res" where
  "log_pointer v b = (if fb_avail b \<ge> kMaxNumericSize then fb_write (''0x'' @ convertHex v) b else Inr b)"

definition log_double :: "(rat \<Rightarrow> string) \<Rightarrow> rat \<Rightarrow> FixedBuffer \<Rightarrow> FixedBuffer res" where
  \<comment> \<open>\<^verbatim>\<open>snprintf\<close> returns the full length; a text it had to cut would move the cursor past
    what was written\<close>
  "log_double print v b =
     (if fb_avail b \<ge> kMaxNumericSize then
        if length (print v) \<ge> kMaxNumericSize then Inl Out_Of_Range else fb_write (print v) b
      else Inr b)"

fun log_put :: "(rat \<Rightarrow> string) \<Rightarrow> log_item \<Rightarrow> FixedBuffer \<Rightarrow> FixedBuffer res" where
  \<comment> \<open>the operators \<^verbatim>\<open><<\<close>\<close>
  "log_put print (Log_Bool v) b = Inr (fb_append (if v then ''1'' else ''0'') b)"
| "log_put print (Log_Int v) b = formatInteger v b"
| "log_put print (Log_Pointer v) b = log_pointer v b"
| "log_put print (Log_Double v) b = log_double print v b"
| "log_put print (Log_Char v) b = Inr (fb_append [v] b)"
| "log_put print (Log_CString v) b = Inr (fb_append (case v of Some s \<Rightarrow> s | None \<Rightarrow> ''(null)'') b)"
| "log_put print (Log_String v) b = Inr (fb_append v b)"

fun log_items :: "(rat \<Rightarrow> string) \<Rightarrow> log_item list \<Rightarrow> FixedBuffer \<Rightarrow> FixedBuffer res" where
  "log_items print [] b = Inr b"
| "log_items print (x # xs) b = rbind (log_put print x b) (log_items print xs)"

section \<open>What is printed\<close>

lemma zero_at_table:
  "map (\<lambda>d. zero_at (int d)) [0 ..< 10] = map digit_char [0 ..< 10]"
  "map (\<lambda>d. zero_at (- int d)) [0 ..< 10] = map digit_char [0 ..< 10]"
  by code_simp+

lemma zero_at_digit:
  assumes "d < 10"
  shows "zero_at (int d) = digit_char d" and "zero_at (- int d) = digit_char d"
  using arg_cong [OF zero_at_table(1), of "\<lambda>xs. xs ! d"] arg_cong [OF zero_at_table(2), of "\<lambda>xs. xs ! d"] assms
  by simp_all

lemma convert_digits_base: "convert_digits i = rev (to_base 10 (nat \<bar>i\<bar>))"
proof (induction i rule: convert_digits.induct)
  case (1 i)
  let ?n = "nat \<bar>i\<bar>"
  have lsd: "zero_at (i smod 10) = digit_char (?n mod 10)"
    using zero_at_digit [of "?n mod 10"] by (auto simp: smod_ten nat_mod_distrib zmod_int)
  have "i sdiv 10 = 0 \<longleftrightarrow> \<bar>i\<bar> div 10 = 0" using sdiv_ten [of i] by (metis abs_eq_0_iff)
  also have "\<dots> \<longleftrightarrow> ?n < 10" by (cases "\<bar>i\<bar> < 10") (auto simp: div_pos_pos_trivial pos_imp_zdiv_pos_iff nat_less_iff)
  finally have q: "i sdiv 10 = 0 \<longleftrightarrow> ?n < 10" .
  have n: "nat \<bar>i sdiv 10\<bar> = ?n div 10" by (simp add: sdiv_ten nat_div_distrib)
  show ?case
  proof (cases "?n < 10")
    case True
    with lsd q show ?thesis by (subst convert_digits.simps, subst to_base.simps) simp
  next
    case False
    with 1 q n lsd show ?thesis by (subst convert_digits.simps, subst to_base.simps) simp
  qed
qed

lemma convert_decimal: "convert v = to_string_int v"
  by (simp add: convert_def convert_digits_base to_string_int_def to_string_nat_def)

definition upper_hex :: "char \<Rightarrow> char" where
  "upper_hex c = digitsHex ! digit_val c"

lemma hex_digits_base: "hex_digits i = rev (map upper_hex (to_base 16 i))"
proof (induction i rule: hex_digits.induct)
  case (1 i)
  then show ?case
    by (subst hex_digits.simps, subst to_base.simps) (auto simp: upper_hex_def div_eq_0_iff)
qed

lemma convertHex_base: "convertHex v = map upper_hex (to_base 16 v)"
  by (simp add: convertHex_def hex_digits_base)

text \<open>
  Numbers are printed as numerals: \<^verbatim>\<open>convert\<close> gives the decimal numeral of every integer, the least
  one of its type included, with a single leading minus and no needless zero; \<^verbatim>\<open>convertHex\<close> gives
  the hexadecimal numeral in capitals; and reading a numeral back gives the number.
\<close>

theorem numbers_as_text:
  "convert v = (if v < 0 then ''-'' else []) @ to_base 10 (nat \<bar>v\<bar>) \<and> from_base 10 (to_base 10 (nat \<bar>v\<bar>)) = nat \<bar>v\<bar>
   \<and> convertHex n = map upper_hex (to_base 16 n) \<and> from_base 16 (to_base 16 n) = n"
  by (simp add: convert_decimal to_string_int_def to_string_nat_def convertHex_base from_base_to_base)

fun item_text :: "(rat \<Rightarrow> string) \<Rightarrow> log_item \<Rightarrow> string" where
  "item_text print (Log_Bool v) = (if v then ''1'' else ''0'')"
| "item_text print (Log_Int v) = to_string_int v"
| "item_text print (Log_Pointer v) = ''0x'' @ map upper_hex (to_base 16 v)"
| "item_text print (Log_Double v) = print v"
| "item_text print (Log_Char v) = [v]"
| "item_text print (Log_CString v) = (case v of Some s \<Rightarrow> s | None \<Rightarrow> ''(null)'')"
| "item_text print (Log_String v) = v"

fun item_ok :: "log_item \<Rightarrow> bool" where
  \<comment> \<open>numbers of 64 bits, signed or not\<close>
  "item_ok (Log_Int v) \<longleftrightarrow> - (2 ^ 63) \<le> v \<and> v < 2 ^ 64"
| "item_ok (Log_Pointer v) \<longleftrightarrow> v < 2 ^ 64"
| "item_ok _ \<longleftrightarrow> True"

lemma int_text_length:
  assumes "- (2 ^ 63) \<le> v" and "v < 2 ^ 64"
  shows "length (to_string_int v) \<le> 21"
proof -
  have "nat \<bar>v\<bar> < 10 ^ 20" using assms by (auto simp: nat_less_iff)
  from to_base_length [OF this] show ?thesis using assms by (auto simp: to_string_int_def to_string_nat_def)
qed

lemma log_put_fits:
  assumes "length (fb_data b) < fb_size b" and "item_ok x" and "\<And>v. length (print v) < kMaxNumericSize"
  shows "log_put print x b = Inr b \<or> log_put print x b = Inr (b\<lparr>fb_data := fb_data b @ item_text print x\<rparr>)
      \<and> length (fb_data b @ item_text print x) < fb_size b"
    and "length (fb_data b) + length (item_text print x) + kMaxNumericSize \<le> fb_size b \<Longrightarrow>
      log_put print x b = Inr (b\<lparr>fb_data := fb_data b @ item_text print x\<rparr>)"
proof -
  have append: "(fb_append s b = b \<or> fb_append s b = b\<lparr>fb_data := fb_data b @ s\<rparr> \<and> length (fb_data b @ s) < fb_size b)
      \<and> (length (fb_data b) + length s + kMaxNumericSize \<le> fb_size b \<longrightarrow> fb_append s b = b\<lparr>fb_data := fb_data b @ s\<rparr>)" for s
    by (auto simp: fb_append_def fb_avail_def kMaxNumericSize_def)
  have number: "(w = Inr b \<or> w = Inr (b\<lparr>fb_data := fb_data b @ s\<rparr>) \<and> length (fb_data b @ s) < fb_size b)
      \<and> (length (fb_data b) + length s + kMaxNumericSize \<le> fb_size b \<longrightarrow> w = Inr (b\<lparr>fb_data := fb_data b @ s\<rparr>))"
    if "length s < kMaxNumericSize" "w = (if fb_avail b \<ge> kMaxNumericSize then fb_write s b else Inr b)" for s w
    using that by (auto simp: fb_write_def fb_avail_def)
  have pointer: "length (''0x'' @ map upper_hex (to_base 16 p)) < kMaxNumericSize" if "p < 2 ^ 64" for p
    using to_base_length [of p 16 16] that by (simp add: kMaxNumericSize_def)
  have "(log_put print x b = Inr b \<or> log_put print x b = Inr (b\<lparr>fb_data := fb_data b @ item_text print x\<rparr>)
      \<and> length (fb_data b @ item_text print x) < fb_size b)
    \<and> (length (fb_data b) + length (item_text print x) + kMaxNumericSize \<le> fb_size b \<longrightarrow>
      log_put print x b = Inr (b\<lparr>fb_data := fb_data b @ item_text print x\<rparr>))"
  proof (cases x)
    case (Log_Int v)
    then have "length (to_string_int v) < kMaxNumericSize" using int_text_length assms(2) by (fastforce simp: kMaxNumericSize_def)
    moreover have "log_put print x b = (if fb_avail b \<ge> kMaxNumericSize then fb_write (to_string_int v) b else Inr b)"
      "item_text print x = to_string_int v" using Log_Int by (simp_all add: formatInteger_def convert_decimal)
    ultimately show ?thesis using number by presburger
  next
    case (Log_Pointer p)
    with assms(2) pointer have "length (''0x'' @ map upper_hex (to_base 16 p)) < kMaxNumericSize" by simp
    moreover have "log_put print x b
        = (if fb_avail b \<ge> kMaxNumericSize then fb_write (''0x'' @ map upper_hex (to_base 16 p)) b else Inr b)"
      "item_text print x = ''0x'' @ map upper_hex (to_base 16 p)" using Log_Pointer by (simp_all add: log_pointer_def convertHex_base)
    ultimately show ?thesis using number by presburger
  next
    case (Log_Double v)
    then have "log_put print x b = (if fb_avail b \<ge> kMaxNumericSize then fb_write (print v) b else Inr b)"
      "item_text print x = print v" using assms(3) [of v] by (simp_all add: log_double_def)
    then show ?thesis using number [OF assms(3) [of v]] by presburger
  next
    case (Log_Bool v)
    then show ?thesis using append [of "if v then ''1'' else ''0''"] by simp
  next
    case (Log_Char v)
    then show ?thesis using append [of "[v]"] by simp
  next
    case (Log_CString v)
    then show ?thesis using append [of "case v of Some s \<Rightarrow> s | None \<Rightarrow> ''(null)''"] by simp
  next
    case (Log_String v)
    then show ?thesis using append [of v] by simp
  qed
  then show "log_put print x b = Inr b \<or> log_put print x b = Inr (b\<lparr>fb_data := fb_data b @ item_text print x\<rparr>)
      \<and> length (fb_data b @ item_text print x) < fb_size b"
    and "length (fb_data b) + length (item_text print x) + kMaxNumericSize \<le> fb_size b \<Longrightarrow>
      log_put print x b = Inr (b\<lparr>fb_data := fb_data b @ item_text print x\<rparr>)" by blast+
qed

lemma log_items_fit:
  assumes "\<And>v. length (print v) < kMaxNumericSize"
  shows "length (fb_data b) < fb_size b \<Longrightarrow> list_all item_ok xs \<Longrightarrow>
    \<exists>b' ys. log_items print xs b = Inr b' \<and> subseq ys (map (item_text print) xs) \<and> fb_data b' = fb_data b @ concat ys
      \<and> length (fb_data b') < fb_size b \<and> fb_size b' = fb_size b
      \<and> (length (fb_data b) + length (concat (map (item_text print) xs)) + kMaxNumericSize \<le> fb_size b
          \<longrightarrow> ys = map (item_text print) xs)"
proof (induction xs arbitrary: b)
  case (Cons x xs)
  have x: "item_ok x" "list_all item_ok xs" using Cons.prems(2) by simp_all
  note put = log_put_fits [where print = print, OF Cons.prems(1) x(1) assms]
  show ?case
  proof (cases "log_put print x b = Inr (b\<lparr>fb_data := fb_data b @ item_text print x\<rparr>) \<and> length (fb_data b @ item_text print x) < fb_size b")
    case True
    let ?b = "b\<lparr>fb_data := fb_data b @ item_text print x\<rparr>"
    have "length (fb_data ?b) < fb_size ?b" "fb_size ?b = fb_size b" using True by simp_all
    with Cons.IH [of ?b] x(2) obtain b' ys where b': "log_items print xs ?b = Inr b'" "subseq ys (map (item_text print) xs)"
      "fb_data b' = fb_data ?b @ concat ys" "length (fb_data b') < fb_size b" "fb_size b' = fb_size b"
      "length (fb_data ?b) + length (concat (map (item_text print) xs)) + kMaxNumericSize \<le> fb_size b \<longrightarrow> ys = map (item_text print) xs"
      by metis
    with True show ?thesis
      by (intro exI [of _ b'] exI [of _ "item_text print x # ys"]) (simp add: add.assoc)
  next
    case False
    with put(1) have skip: "log_put print x b = Inr b" by blast
    from Cons.IH [OF Cons.prems(1) x(2)] obtain b' ys where b': "log_items print xs b = Inr b'" "subseq ys (map (item_text print) xs)"
      "fb_data b' = fb_data b @ concat ys" "length (fb_data b') < fb_size b" "fb_size b' = fb_size b" by blast
    have "\<not> length (fb_data b) + length (item_text print x) + kMaxNumericSize \<le> fb_size b"
      using put(2) False by (auto simp: kMaxNumericSize_def)
    with skip b' show ?thesis by (intro exI [of _ b'] exI [of _ ys]) (auto intro: list_emb_Cons)
  qed
qed (auto intro: exI [of _ b])

text \<open>
  C34. A log stream never writes outside its buffer, its final null characters included, whatever is
  logged: what it holds is the texts of the items in order, each whole or left out; and none is
  left out while 48 characters stay free.
\<close>

theorem log_stream_bounded:
  assumes "list_all item_ok xs" and "\<And>v. length (print v) < kMaxNumericSize"
  shows "\<exists>b ys. log_items print xs (FixedBuffer_new kSmallBuffer) = Inr b \<and> subseq ys (map (item_text print) xs)
    \<and> fb_data b = concat ys \<and> length (fb_data b) < kSmallBuffer
    \<and> (length (concat (map (item_text print) xs)) + kMaxNumericSize \<le> kSmallBuffer \<longrightarrow> ys = map (item_text print) xs)"
proof -
  have "length (fb_data (FixedBuffer_new kSmallBuffer)) < fb_size (FixedBuffer_new kSmallBuffer)"
    by (simp add: FixedBuffer_new_def kSmallBuffer_def)
  from log_items_fit [of print, OF assms(2) this assms(1)] show ?thesis by (auto simp: FixedBuffer_new_def)
qed

theorem log_stream_bounded_witness:
  "\<exists>b. log_items (\<lambda>_. ''0.5'') [Log_String ''id='', Log_Int (-7), Log_Pointer 255] (FixedBuffer_new kSmallBuffer) = Inr b
    \<and> length (fb_data b) < kSmallBuffer"
  using log_stream_bounded [of "[Log_String ''id='', Log_Int (-7), Log_Pointer 255]" "\<lambda>_. ''0.5''"]
  by (auto simp: kMaxNumericSize_def)

end
