(* ===== verification/Spec2Isabelle.thy ===== *)
theory Spec2Isabelle
  imports Server_Prelude Binary_Codec MD5_Hash Edit_Distance
    Json_Value Json_Strings Json_Reader Json_Nesting Json_Writer
    Json_Types Json_Tree Json_Order
    Query_Result MySql_Manager User_Manager Client_Session Msg_Cache Session_Registry File_Session
    Net_Buffer Net_Connection Net_Server Net_Timer Net_Loop Net_Poller
    Net_Http Net_Client Net_Codec Net_Rpc
    Base_Threads Base_Date Base_TimeZone Base_Log
begin

text \<open>
  A verification of the media-sharing servers of this repository: a chat and catalogue
  server (ServerMain.cpp) that speaks JSON over TCP and keeps users, videos, audios, texts,
  browse records and collections in MySQL with caches in memory, and a file server
  (FileServer/main.cpp) that takes file uploads and answers HTTP requests. Both run on a
  copy of the muduo network library (net/, base/).

  \<^bold>\<open>How the parts interact.\<close> The network library fills a \<^verbatim>\<open>Buffer\<close> per connection and calls
  the session's \<^verbatim>\<open>OnRead\<close>; connections register and unregister their sessions in
  \<^verbatim>\<open>IMServer\<close> or \<^verbatim>\<open>FileServer\<close>. A \<^verbatim>\<open>ClientSession\<close> parses the text as JSON and dispatches on its
  message type to a handler, which calls the singleton \<^verbatim>\<open>UserManager\<close> and sends JSON replies.
  \<^verbatim>\<open>UserManager\<close> writes through \<^verbatim>\<open>MySqlManager\<close> and \<^verbatim>\<open>MySQLTool\<close> to the database and reads result
  sets row by row with \<^verbatim>\<open>QueryResult\<close> and \<^verbatim>\<open>Field\<close>. Below the sessions, a poller tells an
  \<^verbatim>\<open>EventLoop\<close> which channels are active, the loop runs the handlers of their
  \<^verbatim>\<open>TcpConnection\<close>s, the callbacks of its timers and the functors queued to it, and
  \<^verbatim>\<open>TcpServer\<close> owns the connections. The library's other side is there too: \<^verbatim>\<open>TcpClient\<close> with
  its \<^verbatim>\<open>Connector\<close>, an HTTP server, and remote procedure calls over framed protocol buffers.

  \<^bold>\<open>Theories, code and what is shown.\<close>
  \<^item> \<open>Server_Prelude\<close>: faults as values (\<open>fault\<close>, \<open>'a res\<close>), operations on a state that may
    fault (\<open>('s, 'a) op\<close>), the C++ string functions, decimal and hexadecimal numerals,
    little-endian bytes of words, \<^verbatim>\<open>std::map\<close> as an ordered association list, and two
    contracts: \<open>table\<close> of a map, and \<open>safe_system\<close>, an invariant under which no step of a component faults.
  \<^item> \<open>Binary_Codec\<close>: BinaryReader.h, BinaryReader.cpp and the framing of \<^verbatim>\<open>TcpSession::Send\<close>
    (ClientSession.h, FileServer/TcpSession.cpp): integers and compressed-length strings
    written are read back; a frame carries its length.
  \<^item> \<open>MD5_Hash\<close>: FileServer/MD5.cpp: the block function is the one of RFC 1321, updates
    cut anywhere give the digest of the whole, and what a second digest returns.
  \<^item> \<open>Edit_Distance\<close>: \<^verbatim>\<open>levenshteinDistance\<close> and \<^verbatim>\<open>similarity\<close> of ClientSession.cpp with the
    32-bit cells and counters of the code: the table computes the least number of edits, which is a metric.
  \<^item> \<open>Json_Value\<close>: the operations of \<^verbatim>\<open>Json::Value\<close> the servers use (newJson/jsoncpp.cpp).
  \<^item> \<open>Json_Strings\<close>: the strings and numbers of JSON texts: UTF-8, escapes, the kinds of
    integers; what is written for a string is read back.
  \<^item> \<open>Json_Reader\<close>, \<open>Json_Nesting\<close>: \<^verbatim>\<open>Json::Reader\<close>: tokens, comments, values and the recovery
    from errors; it accepts the JSON grammar with the value the grammar gives, returns on every
    text with fewer than 1000 opening brackets and throws on those that start with more.
  \<^item> \<open>Json_Writer\<close>: \<^verbatim>\<open>Json::StyledWriter\<close>, whose texts the reader reads back.
  \<^item> \<open>Json_Types\<close>: the type predicates of \<^verbatim>\<open>Json::Value\<close> and its conversions to the types of C++ with
    the ranges they check: \<^verbatim>\<open>isConvertibleTo\<close> tells which conversions succeed.
  \<^item> \<open>Json_Tree\<close>, \<open>Json_Order\<close>: values as the code stores them, arrays as maps that can have holes: without
    holes they behave as lists, with holes as shown there; \<^verbatim>\<open>compare\<close> is a total order.
  \<^item> \<open>Query_Result\<close>: Field.cpp and QueryResult.cpp: the cursor visits every row once, and what loops with and
    without a guard do on a result set without rows.
  \<^item> \<open>MySql_Manager\<close>: mysqltool.cpp and MySqlManager.cpp over an arbitrary MySQL client
    library (\<open>mysql_api\<close>): the retry after a lost connection, the check and repair of the
    tables at start-up, and the inputs on which that check never returns.
  \<^item> \<open>User_Manager\<close>: UserManager.cpp: every write changes its cache exactly when the
    server accepted it (contract \<open>cached_table\<close>, interpreted five times), the loaders, the
    join behind history and collections.
  \<^item> \<open>Client_Session\<close>: ClientSession.cpp: identifiers, all handlers and the dispatch; the
    replies to login, registration, uploads and visits.
  \<^item> \<open>Msg_Cache\<close>: MsgCacheManager.cpp: both caches are mailboxes (contract \<open>mailbox\<close>).
  \<^item> \<open>Session_Registry\<close>: IMServer.cpp and FileServer/FileServer.cpp: the tables of sessions
    follow the connections (contract \<open>connection_registry\<close>).
  \<^item> \<open>File_Session\<close>: FileServer/FileManager.cpp and FileServer/FileSession.cpp: the upload
    state machine and its invariant, the HTTP answers and their transfer coding.
  \<^item> \<open>Net_Buffer\<close>: net/Buffer.h and net/Buffer.cc refine a queue of bytes
    (contract \<open>byte_queue\<close>).
  \<^item> \<open>Net_Connection\<close>: net/Channel.h, net/Channel.cc, net/TcpConnection.cc: the states of a
    connection, its buffers and events; bytes reach the socket in order and none is lost, and the
    callbacks are told up and down once (contract \<open>safe_system\<close>). \<open>event_ok\<close> names the events for
    which this holds; the lemmas behind it show what happens at the others.
  \<^item> \<open>Net_Server\<close>: net/TcpServer.cc: the table of connections, their names and their end.
  \<^item> \<open>Net_Timer\<close>: net/Timer.cc and net/TimerQueue.cc on a heap whose addresses are used
    again: due timers run in order, cancelled ones never again (by a callback: not after its batch), nothing
    dangles.
  \<^item> \<open>Net_Loop\<close>: net/EventLoop.cc among other threads and net/EventLoopThreadPool.cc: functors run
    once, in order, and no wake-up is lost but the one that the loop's own thread never sends before \<^verbatim>\<open>loop\<close>.
  \<^item> \<open>Net_Poller\<close>: net/poller/: both pollers refine the set of watched channels
    (contract \<open>poller\<close>), and what they make active.
  \<^item> \<open>Net_Http\<close>: net/http/: the parser on buffers refines one on text, a request in any
    pieces is answered once, and the input that ends the process.
  \<^item> \<open>Net_Client\<close>: net/Connector.cc and net/TcpClient.cc: the life of every socket a client creates, the
    retries, and what a second \<^verbatim>\<open>connect\<close> does (contract \<open>safe_system\<close>).
  \<^item> \<open>Net_Codec\<close>: net/protobuf/: frames with tag and checksum arrive as they were sent, however they are cut,
    and what becomes of damaged ones.
  \<^item> \<open>Net_Rpc\<close>: net/protorpc/: a client and a server of remote calls as a step relation: every call is answered
    once, by its own answer, and can be finished.
  \<^item> \<open>Base_Threads\<close>: base/BlockingQueue.h, base/BoundedBlockingQueue.h, base/CountDownLatch.cc,
    base/ThreadPool.cc: critical sections as steps of any number of threads.
  \<^item> \<open>Base_Date\<close>: base/Date.cc: day numbers and calendar dates correspond one to one.
  \<^item> \<open>Base_TimeZone\<close>: base/TimeZone.cc: the reader of zone files, the offset in force at a time, local times that
    occur twice or never, and calendar times.
  \<^item> \<open>Base_Log\<close>: base/LogStream.cc: numbers as text and the bounds of the buffer.
  \<^item> This theory: the start of the chat server, and the path from the buffer to a session.

  \<^bold>\<open>Choices.\<close> Integers have their width where it matters (\<open>32 word\<close> offsets, sizes and
  identifiers of users, \<open>8 word\<close> bytes); characters are bytes. A null dereference, an access
  outside a vector or of a deleted object, an uncaught \<^verbatim>\<open>Json::LogicError\<close> or
  \<^verbatim>\<open>Json::RuntimeError\<close>, a failed \<^verbatim>\<open>assert\<close>, a \<^verbatim>\<open>double\<close> converted
  out of the range of an integer, a signed integer that overflows where the code computes in it, and an endless loop are
  the faults of a computation, so a theorem whose right-hand side is \<open>Inr\<close> says that the
  code returns. There is no fuel: every loop is a total function with a measure (rows left
  in a result set, bytes left in a stream, elements of a list); the loops of the
  code that may not end give \<open>Diverges\<close>, or \<open>None\<close> for the loops of \<open>Edit_Distance\<close>. Asserts count as in a debug build. The sessions run in
  the thread of one loop, where every handler is one step; where other threads take part
  (\<open>Net_Loop\<close>, \<open>Base_Threads\<close>) or two ends of a connection do (\<open>Net_Rpc\<close>) each critical section is a step of a relation, and what is shown
  holds for every interleaving. Console output and logging are left out.

  \<^bold>\<open>Arguments.\<close> The MySQL client library, scanning and printing the digits of a double
  (\<open>json_lib\<close>), the library of protocol buffers with \<^verbatim>\<open>adler32\<close> (\<open>proto_lib\<close>), the clock and the
  random draws, the operating system (files that open or not, \<^verbatim>\<open>system\<close>, the probe of
  libavformat, what \<^verbatim>\<open>readv\<close>, \<^verbatim>\<open>write\<close>, \<^verbatim>\<open>poll\<close> and \<^verbatim>\<open>epoll_wait\<close> return, the addresses of new
  objects) and the callbacks of the user are arguments of the definitions; theorems state what they rely on as
  hypotheses, and concrete instances show that these can hold.

  \<^bold>\<open>Not modelled.\<close> Sockets and addresses, log files and asynchronous logging, threads and process information, which are
  calls into the operating system; the destructors of \<^verbatim>\<open>TcpClient\<close> and \<^verbatim>\<open>RpcChannel\<close> and the connections
  of \<^verbatim>\<open>RpcServer\<close>; comments, iterators and \<^verbatim>\<open>Path\<close> of \<^verbatim>\<open>Json::Value\<close>; the readers and writers of
  jsoncpp the servers do not use and its older copies;
  httplib.h (third party); the functions that
  drive libav frame by frame; daemon and signal handling of the two \<^verbatim>\<open>main\<close> functions; and
  the test client.
\<close>

section \<open>Starting the chat server\<close>

definition server_start :: "'w mysql_api \<Rightarrow> 'w \<Rightarrow> (int \<times> 'w UserManager) res" where
  \<comment> \<open>the exit code of \<^verbatim>\<open>main\<close>, or 0 when the event loop starts\<close>
  "server_start A w =
     rbind (mgr_Init A ''127.0.0.1'' ''debian-sys-maint'' ''0ZaRwExruKSQPWuV'' ''learnMS_DB'' 3306
         (MySqlManager_new w)) (\<lambda>(ok, m).
       if ok = False then Inr (- 2, UserManager_new m)
       else rbind (um_Init A (UserManager_new m)) (\<lambda>(ok, u).
         if ok = False then Inr (- 3, u) else Inr (0, u)))"

section \<open>From the socket to a session\<close>

definition chat_OnRead ::
    "'w mysql_api \<Rightarrow> json_lib \<Rightarrow> clock_env \<Rightarrow> Buffer \<times> 'w ClientSession
     \<Rightarrow> (bool \<times> Buffer \<times> 'w ClientSession) res" where
  \<comment> \<open>\<^verbatim>\<open>ClientSession::OnRead\<close> on the buffer: everything readable is one message\<close>
  "chat_OnRead A L E = (\<lambda>(buf, s).
     rbind (retrieveAsString (readableBytes buf) buf) (\<lambda>(msgbuff, buf').
     rbind (OnRead A L E (bytes_string msgbuff) s) (\<lambda>(keep, s'). Inr (keep, buf', s'))))"

lemma chat_OnRead_content:
  assumes "buffer_ok b"
  shows "\<exists>b'. buffer_ok b' \<and> content b' = []
    \<and> chat_OnRead A L E (b, s) = rbind (Process A L E (bytes_string (content b)) s) (\<lambda>(k, s'). Inr (k, b', s'))"
  using retrieveAsString_ok(1) [OF assms, of "readableBytes b"] length_content [OF assms]
  by (auto simp: chat_OnRead_def OnRead_def)

text \<open>
  C7. A message that is readable as a whole is handled as that message, however many
  segments it came in, and the buffer is empty afterwards. There is no framing: when the
  session is woken after the first segment already, the two segments are handled as two
  messages.
\<close>

theorem chat_message_boundaries:
  assumes "append_list ds (Buffer_new kInitialSize) = Inr b"
  shows "(\<exists>b'. content b' = [] \<and> chat_OnRead A L E (b, s) =
      rbind (Process A L E (bytes_string (concat ds)) s) (\<lambda>(k, s'). Inr (k, b', s')))
    \<and> (\<forall>k s1 behind. Process A L E (bytes_string (concat ds)) s = Inr (k, s1) \<longrightarrow>
        (\<exists>b1 b2 b3. chat_OnRead A L E (b, s) = Inr (k, b1, s1) \<and> buffer_append behind b1 = Inr b2
          \<and> chat_OnRead A L E (b2, s1) =
              rbind (Process A L E (bytes_string behind) s1) (\<lambda>(k', s2). Inr (k', b3, s2))))"
proof -
  have b: "buffer_ok b" "content b = concat ds"
    using nb.put_list_ok [OF nb.fresh_ok(1), of ds] assms nb.fresh_ok(2) by (auto simp: append_list_nb)
  obtain b1 where b1: "buffer_ok b1" "content b1 = []" "chat_OnRead A L E (b, s) =
      rbind (Process A L E (bytes_string (concat ds)) s) (\<lambda>(k, s'). Inr (k, b1, s'))"
    using chat_OnRead_content [OF b(1)] b(2) by metis
  moreover have "\<exists>b2 b3. buffer_append behind b1 = Inr b2 \<and> chat_OnRead A L E (b2, t) =
      rbind (Process A L E (bytes_string behind) t) (\<lambda>(k', s2). Inr (k', b3, s2))" for behind t
  proof -
    obtain b2 where b2: "buffer_append behind b1 = Inr b2" "buffer_ok b2" "content b2 = behind"
      using buffer_append_ok [OF b1(1), of behind] b1(2) by auto
    with chat_OnRead_content [OF b2(2), of A L E t] show ?thesis by auto
  qed
  ultimately show ?thesis by fastforce
qed

theorem chat_message_boundaries_witness:
  "\<exists>b b'. append_list [[123], [125]] (Buffer_new kInitialSize) = Inr b
    \<and> chat_OnRead demo_api demo_lib demo_clock (b, demo_session) = Inr (True, b', demo_session)"
proof -
  obtain b where b: "append_list [[123], [125]] (Buffer_new kInitialSize) = Inr b"
    using nb.put_list_ok [OF nb.fresh_ok(1), of "[[123], [125]]"] by (auto simp: append_list_nb)
  have "Process demo_api demo_lib demo_clock (bytes_string (concat [[123], [125]])) demo_session
      = Inr (True, demo_session)"
  proof (rule Process_ignored)
    have "bytes_string (concat [[123], [125]]) = ''{}''" by code_simp
    moreover have "jl_parse demo_lib ''{}'' = Inr (True, JObject [])" by code_simp
    ultimately show "jl_parse demo_lib (bytes_string (concat [[123], [125]])) = Inr (True, JObject [])" by (simp only:)
    show "rbind (json_at (JObject []) ''msgType'') asInt = Inr 0" by (simp add: json_at_eq)
  qed simp
  with b chat_message_boundaries [OF b, of demo_api demo_lib demo_clock demo_session]
  show ?thesis by auto
qed

section \<open>Messages as texts\<close>

text \<open>
  C16. A text that starts with more than 1000 opening brackets ends either server, in every
  state of a session: neither \<^verbatim>\<open>Process\<close> catches what the reader throws.
\<close>

theorem deep_message_ends_servers:
  assumes "m > stackLimit_g"
  shows "Process A L E (replicate m (CHR ''['') @ behind) s = Inl Runtime_Error
    \<and> file_OnRead Os L (replicate m (CHR ''['') @ behind) fs = Inl Runtime_Error"
  using Reader_parse_deep [OF assms]
  by (simp add: Process_def file_OnRead_def file_Process_def sbind_def)

theorem deep_message_ends_servers_witness:
  "Process demo_api demo_lib demo_clock (replicate 1001 (CHR ''['') @ []) demo_session = Inl Runtime_Error"
  using deep_message_ends_servers [of 1001 demo_api demo_lib demo_clock "[]" demo_session] by (simp add: stackLimit_g_def)

definition login_text :: "json_lib \<Rightarrow> string \<Rightarrow> string \<Rightarrow> string" where
  \<comment> \<open>the message a client sends to log in\<close>
  "login_text L name pw = jl_write L (JObject
     [(''msgType'', JInt MSG_type_login), (''password'', JString pw), (''username'', JString name)])"

lemma login_text_read:
  assumes "utf8_string name" and "utf8_string pw"
  shows "jl_parse L (login_text L name pw) = Inr (True, JObject
     [(''msgType'', JInt MSG_type_login), (''password'', JString pw), (''username'', JString name)])"
  using written_then_read [of "JObject
     [(''msgType'', JInt MSG_type_login), (''password'', JString pw), (''username'', JString name)]"] assms
  by (simp add: login_text_def smap_ok_def less_char_def ascii_utf8_string stackLimit_g_def
      minLargestInt_def maxLargestInt_def number_value_def maxInt_def MSG_type_login_def)

lemma login_json_read:
  assumes "utf8_string (username us)" and "utf8_string (custimface us)" and "st \<in> {- 1, 0, 1}"
  shows "\<exists>j. jl_parse L (reply L (login_json st us)) = Inr (True, j) \<and> rbind (json_at j ''responsesState'') asInt = Inr st
    \<and> get_member L j ''username'' = Inr (username us)"
proof -
  let ?j = "JObject [(''filePath'', JString (custimface us)), (''filetype'', JInt F_TYPE_IMG),
    (''msgType'', JInt MSG_type_login), (''responsesState'', JInt st), (''user_sex'', JBool (sex us)),
    (''username'', JString (username us))]"
  have j: "login_json st us = Inr ?j"
    by (simp add: login_json_def json_put_def resolveReference_def smap_insert_def less_char_def)
  have w: "written_ok ?j" "json_depth ?j < stackLimit_g" "normal ?j = ?j"
    using assms by (auto simp: smap_ok_def less_char_def ascii_utf8_string stackLimit_g_def F_TYPE_IMG_def
      minLargestInt_def maxLargestInt_def number_value_def maxInt_def MSG_type_login_def)
  have "rbind (json_at ?j ''responsesState'') asInt = Inr st"
    using assms(3) by (auto simp: json_at_eq minInt_def maxInt_def)
  moreover have "get_member L ?j ''username'' = Inr (username us)" by (simp add: get_member_def json_at_eq)
  ultimately show ?thesis using written_then_read [OF w(1,2)] unfolding w(3) j reply_def by simp
qed

text \<open>
  C1. Logging in, text to text. A client writes a login message for a known user; the server
  handles it, keeps the connection, and sends four texts. A client that reads the first
  finds the user's name and the state 1 if the password is the stored one, -1 otherwise.
  This is for names, passwords and picture paths in UTF-8.
\<close>

theorem login_text_to_text:
  assumes "utf8_string name" and "utf8_string pw" and "GetUserInfoByUsername name (cs_um s) = Some us"
    and "utf8_string (custimface us)"
    and "GetHistoryInfoFromDB A ([], [], []) name (cs_um s) = Inr ((h, hist), u1)"
    and "GetCollectInfoFromDB A ([], [], []) name u1 = Inr ((c, coll), u2)"
  shows "\<exists>s' r rs j. Process A L E (login_text L name pw) s = Inr (True, s')
    \<and> m_conn_out s' = m_conn_out s @ r # rs \<and> length rs = 3
    \<and> jl_parse L r = Inr (True, j) \<and> get_member L j ''username'' = Inr name
    \<and> rbind (json_at j ''responsesState'') asInt = Inr (if password us = pw then 1 else - 1)"
proof -
  let ?j = "JObject [(''msgType'', JInt MSG_type_login), (''password'', JString pw), (''username'', JString name)]"
  note tx = login_text_read [OF assms(1,2), of L]
  have us: "known_user name (cs_um s) = us" "username us = name"
    using assms(3) by (simp add: known_user_def, auto simp: GetUserInfoByUsername_def find_Some_iff)
  have st: "login_state name pw (Some us) = (if password us = pw then 1 else - 1)"
    using us(2) by (auto simp: login_state_def)
  have "get_member L ?j ''username'' = Inr name" "get_member L ?j ''password'' = Inr pw"
    by (simp_all add: get_member_def json_at_eq)
  note login = OnLoginResponse_eq [OF tx this, of s, unfolded us assms(3), OF assms(1,5,6)]
  have "rbind (json_at ?j ''msgType'') asInt = Inr MSG_type_login"
    by (simp add: json_at_eq minInt_def maxInt_def MSG_type_login_def)
  then have "Process A L E (login_text L name pw) s = sbind (OnLoginResponse A L (login_text L name pw)) (\<lambda>_. sret True) s"
    by (simp add: Process_def tx dispatch_def MSG_type_defs)
  with login login_json_read [of us "login_state name pw (Some us)" L] us assms(1,4) show ?thesis
    by (auto simp: sbind_def st)
qed

definition ann :: User where
  "ann = User_new\<lparr>username := ''ann'', password := ''pw''\<rparr>"

definition no_visits :: MYSQL_RES where
  "no_visits = \<lparr>res_fields = map (\<lambda>n. (n, FIELD_TYPE_STRING))
     [''b_assetsType'', ''b_browseTitle'', ''c_assetsType'', ''c_assetsTitle''], res_rows = []\<rparr>"

theorem login_text_to_text_witness:
  "\<exists>s' r rs j. Process (log_api (\<lambda>_ _. 0) no_visits) demo_lib demo_clock (login_text demo_lib ''ann'' ''pw'')
      (demo_session\<lparr>cs_um := demo_um\<lparr>m_cachedUsers := [ann]\<rparr>\<rparr>) = Inr (True, s')
    \<and> m_conn_out s' = r # rs \<and> jl_parse demo_lib r = Inr (True, j)
    \<and> rbind (json_at j ''responsesState'') asInt = Inr 1"
proof -
  let ?A = "log_api (\<lambda>_ _. 0) no_visits" and ?um = "demo_um\<lparr>m_cachedUsers := [ann]\<rparr>"
  have cols: "distinct (map fst (res_fields no_visits))"
    "{''b_assetsType'', ''b_browseTitle''} \<subseteq> fst ` set (res_fields no_visits)"
    "{''c_assetsType'', ''c_assetsTitle''} \<subseteq> fst ` set (res_fields no_visits)"
    by (simp_all add: no_visits_def)
  have ans: "answers ?A sql (demo_mgr\<lparr>mgr_world := w\<rparr>) no_visits (sql # w)" for sql w
    by (simp add: answers_def log_api_def no_visits_def well_formed_def demo_mgr_def demo_tool_def)
  let ?u1 = "?um\<lparr>um_db := demo_mgr\<lparr>mgr_world := [history_sql ann]\<rparr>\<rparr>"
  have user: "GetUserInfoByUsername ''ann'' ?um = Some ann" "GetUserInfoByUsername ''ann'' ?u1 = Some ann"
    by (simp_all add: GetUserInfoByUsername_def ann_def)
  have "answers ?A (history_sql ann) (um_db ?um) no_visits [history_sql ann]"
    using ans [of "history_sql ann" "[]"] by (simp add: demo_mgr_def)
  note h = assets_of_rows_eq [where sql = history_sql, OF user(1) this cols(1,2), folded GetHistoryInfoFromDB_def]
  have "answers ?A (collect_sql ann) (um_db ?u1) no_visits [collect_sql ann, history_sql ann]"
    using ans [of "collect_sql ann" "[history_sql ann]"] by simp
  note c = assets_of_rows_eq [where sql = collect_sql, OF user(2) this cols(1,3), folded GetCollectInfoFromDB_def]
  have "utf8_string (custimface ann)" "password ann = ''pw''"
    by (simp_all add: ann_def User_new_def ascii_utf8_string)
  with login_text_to_text [of "''ann''" "''pw''" "demo_session\<lparr>cs_um := ?um\<rparr>" ann ?A _ _ ?u1 _ _ _ demo_lib demo_clock]
    user h c
  show ?thesis by (simp add: ascii_utf8_string) blast
qed

end
